(* ===== verification/Utp_Prelude.thy ===== *)
theory Utp_Prelude
  imports Main "HOL-Library.Word"
begin

text \<open>
  Shared vocabulary of the development: octets and buffers, the exceptions the code
  throws (\<^verbatim>\<open>libutp/src/Except.h\<close>), results that may be exceptions, and the memory
  primitives \<^verbatim>\<open>memcpy\<close> and \<^verbatim>\<open>memset\<close> as list functions with the lemmas the
  components use about them. The collection \<open>buf_simps\<close> holds the facts on buffers.
\<close>

named_theorems buf_simps \<open>lengths and elements of buffers after memcpy and memset\<close>

type_synonym byte = "8 word"
type_synonym bytes = "byte list"
type_synonym key = bytes

subsection \<open>Exceptions and results\<close>

text \<open>
  The classes derived from \<^verbatim>\<open>utp::Exception\<close> carry a message that no handler inspects,
  so a class is a constructor. The file system also throws plain errno values. The last
  constructors stand for what the C++ standard leaves undefined: dereferencing a null
  handle, using an invalid list iterator, accessing memory beyond an object, using a
  variable that was never set, and using an object after it was destroyed.
\<close>

datatype errno = ENOENT | EEXIST | ENOTDIR | EISDIR | ENOTEMPTY | EINVAL | EIO | EACCES

datatype exn =
    InternalError
  | OperationError
  | NotFoundError
  | NotUniqueError
  | ValueError
  | ParseError
  | VerificationError
  | NoSpaceError
  | Errno errno
  | NullDeref
  | InvalidIterator
  | OutOfBounds
  | Uninit
  | UseAfterFree

type_synonym 'a res = "exn + 'a"

definition is_ok :: "'a res \<Rightarrow> bool" where
  "is_ok r = (case r of Inl _ \<Rightarrow> False | Inr _ \<Rightarrow> True)"

lemma is_ok_simps [simp]: "\<not> is_ok (Inl e)" "is_ok (Inr x)"
  by (simp_all add: is_ok_def)

subsection \<open>memcpy and memset\<close>

text \<open>
  \<open>memcpy_at buf off src\<close> is the buffer after \<^verbatim>\<open>memcpy(buf + off, src, n)\<close> with \<open>n\<close> the
  length of \<open>src\<close>; the callers keep \<open>off + n\<close> within the buffer. \<open>memset_from buf off\<close> is
  the buffer after \<^verbatim>\<open>memset(buf + off, 0, size - off)\<close>.
\<close>

definition memcpy_at :: "'a list \<Rightarrow> nat \<Rightarrow> 'a list \<Rightarrow> 'a list" where
  "memcpy_at buf off src = take off buf @ src @ drop (off + length src) buf"

definition memset_from :: "bytes \<Rightarrow> nat \<Rightarrow> bytes" where
  "memset_from buf off = take off buf @ replicate (length buf - off) 0"

definition subbuf :: "'a list \<Rightarrow> nat \<Rightarrow> nat \<Rightarrow> 'a list" where
  "subbuf buf off n = take n (drop off buf)"

lemma length_memcpy_at [buf_simps, simp]:
  "off + length src \<le> length buf \<Longrightarrow> length (memcpy_at buf off src) = length buf"
  by (simp add: memcpy_at_def)

lemma nth_memcpy_at [buf_simps]:
  assumes "off + length src \<le> length buf" "i < length buf"
  shows "memcpy_at buf off src ! i =
           (if off \<le> i \<and> i < off + length src then src ! (i - off) else buf ! i)"
  using assms by (auto simp: memcpy_at_def nth_append min_def)

lemma length_memset_from [buf_simps, simp]:
  "off \<le> length buf \<Longrightarrow> length (memset_from buf off) = length buf"
  by (simp add: memset_from_def)

lemma nth_memset_from [buf_simps]:
  assumes "off \<le> length buf" "i < length buf"
  shows "memset_from buf off ! i = (if i < off then buf ! i else 0)"
  using assms by (auto simp: memset_from_def nth_append min_def)

lemma length_subbuf [buf_simps, simp]:
  "off + n \<le> length buf \<Longrightarrow> length (subbuf buf off n) = n"
  by (simp add: subbuf_def)

lemma nth_subbuf [buf_simps]:
  "off + n \<le> length buf \<Longrightarrow> i < n \<Longrightarrow> subbuf buf off n ! i = buf ! (off + i)"
  by (simp add: subbuf_def)

lemma memcpy_at_Nil [simp]: "memcpy_at buf off [] = buf"
  by (simp add: memcpy_at_def)

lemma memcpy_at_whole [simp]: "length src = length buf \<Longrightarrow> memcpy_at buf 0 src = src"
  by (simp add: memcpy_at_def)

subsection \<open>Lists\<close>

lemma remove1_distinct_set: "distinct xs \<Longrightarrow> set (remove1 x xs) = set xs - {x}"
  by (rule set_remove1_eq)

lemma map_of_mem_dom: "map_of xs k = Some v \<Longrightarrow> k \<in> fst ` set xs"
  by (metis domI dom_map_of_conv_image_fst)

end
