(* ===== verification/Base_Codec.thy ===== *)
theory Base_Codec
  imports Utp_Prelude
begin

text \<open>
  The text encodings of binary data: Base32 (\<^verbatim>\<open>libutp/src/Base32.cpp\<close>), which names the
  file that holds a block, and Base64 (\<^verbatim>\<open>libutp/src/Base64.cpp\<close>), which writes head edges
  one per line. Octets are 8-bit words and the shifts and masks are the source's. The
  Base32 source has no decoder, so \<open>chunkDecode\<close> below is a reference inverse that shows
  that distinct keys have distinct names.
\<close>

unbundle bit_operations_syntax

subsection \<open>Base32\<close>

definition base32map :: string where
  "base32map = ''ABCDEFGHIJKLMNOPQRSTUVWXYZ234567''"

definition b32_MAP :: "byte \<Rightarrow> char" where
  "b32_MAP x = base32map ! unat x"

definition b32_UNMAP :: "char \<Rightarrow> byte" where
  "b32_UNMAP c =
     (if of_char c < (of_char (CHR ''A'') :: nat)
      then 26 + (of_char c - of_char (CHR ''2'')) else of_char c - of_char (CHR ''A''))"

text \<open>The eight groups of five bits of a chunk, as the source masks and shifts them.\<close>

definition b32_v0 :: "byte \<Rightarrow> byte" where
  "b32_v0 i0 = drop_bit 3 (i0 AND 0xf8)"
definition b32_v1 :: "byte \<Rightarrow> byte \<Rightarrow> byte" where
  "b32_v1 i0 i1 = push_bit 2 (i0 AND 0x07) OR drop_bit 6 (i1 AND 0xc0)"
definition b32_v2 :: "byte \<Rightarrow> byte" where
  "b32_v2 i1 = drop_bit 1 (i1 AND 0x3e)"
definition b32_v3 :: "byte \<Rightarrow> byte \<Rightarrow> byte" where
  "b32_v3 i1 i2 = push_bit 4 (i1 AND 0x01) OR drop_bit 4 (i2 AND 0xf0)"
definition b32_v4 :: "byte \<Rightarrow> byte \<Rightarrow> byte" where
  "b32_v4 i2 i3 = push_bit 1 (i2 AND 0x0f) OR drop_bit 7 (i3 AND 0x80)"
definition b32_v5 :: "byte \<Rightarrow> byte" where
  "b32_v5 i3 = drop_bit 2 (i3 AND 0x7c)"
definition b32_v6 :: "byte \<Rightarrow> byte \<Rightarrow> byte" where
  "b32_v6 i3 i4 = push_bit 3 (i3 AND 0x03) OR drop_bit 5 (i4 AND 0xe0)"
definition b32_v7 :: "byte \<Rightarrow> byte" where
  "b32_v7 i4 = i4 AND 0x1f"

lemmas b32_v_defs = b32_v0_def b32_v1_def b32_v2_def b32_v3_def b32_v4_def b32_v5_def
  b32_v6_def b32_v7_def

text \<open>One chunk: up to five octets, zero filled, become up to eight characters, then padding.\<close>

definition chunkEncode :: "bytes \<Rightarrow> string" where
  "chunkEncode inp =
     (let sz = min 5 (length inp);
          inbuf = take sz inp @ replicate (5 - sz) 0;
          i0 = inbuf ! 0; i1 = inbuf ! 1; i2 = inbuf ! 2; i3 = inbuf ! 3; i4 = inbuf ! 4;
          p1 = (if sz > 0
                then [b32_MAP (b32_v0 i0),
                      b32_MAP (b32_v1 i0 i1)] else []);
          p2 = (if sz > 1
                then [b32_MAP (b32_v2 i1),
                      b32_MAP (b32_v3 i1 i2)] else []);
          p3 = (if sz > 2
                then [b32_MAP (b32_v4 i2 i3)] else []);
          p4 = (if sz > 3
                then [b32_MAP (b32_v5 i3),
                      b32_MAP (b32_v6 i3 i4)] else []);
          p5 = (if sz > 4 then [b32_MAP (b32_v7 i4)] else []);
          out = p1 @ p2 @ p3 @ p4 @ p5
      in out @ replicate (8 - length out) (CHR ''=''))"

fun Base32_encode :: "bytes \<Rightarrow> string" where
  "Base32_encode [] = []"
| "Base32_encode (b # bs) = chunkEncode (b # bs) @ Base32_encode (drop 5 (b # bs))"

definition chunkDecode :: "string \<Rightarrow> bytes" where
  "chunkDecode s =
     (let v = map b32_UNMAP (takeWhile (\<lambda>c. c \<noteq> CHR ''='') s);
          w = v @ replicate (8 - length v) 0;
          n = (if length v = 2 then 1 else if length v = 4 then 2 else if length v = 5 then 3
               else if length v = 7 then 4 else (5 :: nat))
      in take n
           [push_bit 3 (w ! 0) OR drop_bit 2 (w ! 1),
            push_bit 6 ((w ! 1) AND 3) OR push_bit 1 (w ! 2) OR drop_bit 4 (w ! 3),
            push_bit 4 ((w ! 3) AND 15) OR drop_bit 1 (w ! 4),
            push_bit 7 ((w ! 4) AND 1) OR push_bit 2 (w ! 5) OR drop_bit 3 (w ! 6),
            push_bit 5 ((w ! 6) AND 7) OR (w ! 7)])"

fun Base32_decode :: "string \<Rightarrow> bytes" where
  "Base32_decode [] = []"
| "Base32_decode (c # cs) = chunkDecode (take 8 (c # cs)) @ Base32_decode (drop 8 (c # cs))"

subsection \<open>Base64\<close>

definition base64_chars :: string where
  "base64_chars = ''ABCDEFGHIJKLMNOPQRSTUVWXYZabcdefghijklmnopqrstuvwxyz0123456789+/''"

definition is_base64 :: "char \<Rightarrow> bool" where
  "is_base64 c =
     (let n = of_char c :: nat in
      (48 \<le> n \<and> n \<le> 57) \<or> (65 \<le> n \<and> n \<le> 90) \<or> (97 \<le> n \<and> n \<le> 122) \<or>
      c = CHR ''+'' \<or> c = CHR ''/'')"

text \<open>\<^verbatim>\<open>base64_chars.find(c)\<close> stored in an octet: \<^verbatim>\<open>npos\<close> becomes 255.\<close>

definition b64_find :: "char \<Rightarrow> byte" where
  "b64_find c =
     (if c \<in> set base64_chars
      then of_nat (length (takeWhile (\<lambda>d. d \<noteq> c) base64_chars)) else 255)"

definition b64_q0 :: "byte \<Rightarrow> byte" where
  "b64_q0 a = drop_bit 2 (a AND 0xfc)"
definition b64_q1 :: "byte \<Rightarrow> byte \<Rightarrow> byte" where
  "b64_q1 a b = push_bit 4 (a AND 0x03) + drop_bit 4 (b AND 0xf0)"
definition b64_q2 :: "byte \<Rightarrow> byte \<Rightarrow> byte" where
  "b64_q2 b c = push_bit 2 (b AND 0x0f) + drop_bit 6 (c AND 0xc0)"
definition b64_q3 :: "byte \<Rightarrow> byte" where
  "b64_q3 c = c AND 0x3f"

lemmas b64_q_defs = b64_q0_def b64_q1_def b64_q2_def b64_q3_def

definition b64_quad :: "byte \<Rightarrow> byte \<Rightarrow> byte \<Rightarrow> bytes" where
  "b64_quad a b c = [b64_q0 a, b64_q1 a b, b64_q2 b c, b64_q3 c]"

definition b64_char :: "byte \<Rightarrow> char" where
  "b64_char v = base64_chars ! unat v"

fun Base64_encode :: "bytes \<Rightarrow> string" where
  "Base64_encode (a # b # c # rest) = map b64_char (b64_quad a b c) @ Base64_encode rest"
| "Base64_encode [a, b] = map b64_char (take 3 (b64_quad a b 0)) @ ''=''"
| "Base64_encode [a] = map b64_char (take 2 (b64_quad a 0 0)) @ ''==''"
| "Base64_encode [] = []"

definition b64_triple :: "byte \<Rightarrow> byte \<Rightarrow> byte \<Rightarrow> byte \<Rightarrow> bytes" where
  "b64_triple a b c d =
     [push_bit 2 a + drop_bit 4 (b AND 0x30),
      push_bit 4 (b AND 0xf) + drop_bit 2 (c AND 0x3c),
      push_bit 6 (c AND 0x3) + d]"

text \<open>
  The loop collects four characters at a time; what is left over is completed with
  \<^verbatim>\<open>find('\0')\<close>, that is 255, and gives one octet less than it has characters.
\<close>

fun b64_groups :: "string \<Rightarrow> bytes" where
  "b64_groups (a # b # c # d # rest) =
     b64_triple (b64_find a) (b64_find b) (b64_find c) (b64_find d) @ b64_groups rest"
| "b64_groups [a, b, c] = take 2 (b64_triple (b64_find a) (b64_find b) (b64_find c) 255)"
| "b64_groups [a, b] = take 1 (b64_triple (b64_find a) (b64_find b) 255 255)"
| "b64_groups [a] = []"
| "b64_groups [] = []"

definition Base64_decode :: "string \<Rightarrow> bytes" where
  "Base64_decode i_enc = b64_groups (takeWhile (\<lambda>c. c \<noteq> CHR ''='' \<and> is_base64 c) i_enc)"

subsection \<open>Bits of octets\<close>

lemma less8: "(n :: nat) < 8 \<longleftrightarrow> n \<in> {0, 1, 2, 3, 4, 5, 6, 7}"
  by auto

lemma bit_times2: "bit ((x :: byte) * 2) n \<longleftrightarrow> n \<noteq> 0 \<and> n < 8 \<and> bit x (n - 1)"
  by (subst mult.commute) (auto simp: bit_double_iff)

lemmas octet_bits = less8 bit_simps bit_times2 numeral_2_eq_2 [symmetric]

lemma b32_octets:
  "push_bit 3 (b32_v0 i0) OR drop_bit 2 (b32_v1 i0 i1) = i0"
  "push_bit 6 (b32_v1 i0 i1 AND 3) OR push_bit 1 (b32_v2 i1) OR drop_bit 4 (b32_v3 i1 i2) = i1"
  "push_bit 4 (b32_v3 i1 i2 AND 15) OR drop_bit 1 (b32_v4 i2 i3) = i2"
  "push_bit 7 (b32_v4 i2 i3 AND 1) OR push_bit 2 (b32_v5 i3) OR drop_bit 3 (b32_v6 i3 i4) = i3"
  "push_bit 5 (b32_v6 i3 i4 AND 7) OR b32_v7 i4 = i4"
  unfolding b32_v_defs by (rule bit_word_eqI; auto simp: octet_bits)+

lemma b64_plus_or:
  fixes a b c :: byte
  shows "push_bit 4 (a AND 0x03) + drop_bit 4 (b AND 0xf0) =
           push_bit 4 (a AND 0x03) OR drop_bit 4 (b AND 0xf0)"
    and "push_bit 2 (b AND 0x0f) + drop_bit 6 (c AND 0xc0) =
           push_bit 2 (b AND 0x0f) OR drop_bit 6 (c AND 0xc0)"
  by (rule disjunctive_add; auto simp: octet_bits)+

lemma unat_lt_bits:
  fixes x :: byte
  assumes "\<And>n. n < 8 \<Longrightarrow> k \<le> n \<Longrightarrow> \<not> bit x n"
  shows "unat x < 2 ^ k"
proof -
  have "take_bit k x = x"
    using assms by (intro bit_word_eqI) (auto simp: bit_take_bit_iff not_less [symmetric])
  then have "unat x = take_bit k (unat x)"
    by (metis unsigned_take_bit_eq)
  then show ?thesis by (metis take_bit_nat_less_exp)
qed

lemma b32_lt:
  "unat (b32_v0 i0) < 2 ^ 5" "unat (b32_v1 i0 i1) < 2 ^ 5" "unat (b32_v2 i1) < 2 ^ 5"
  "unat (b32_v3 i1 i2) < 2 ^ 5" "unat (b32_v4 i2 i3) < 2 ^ 5" "unat (b32_v5 i3) < 2 ^ 5"
  "unat (b32_v6 i3 i4) < 2 ^ 5" "unat (b32_v7 i4) < 2 ^ 5"
  unfolding b32_v_defs by (rule unat_lt_bits; auto simp: octet_bits)+

lemma b64_lt:
  "unat (b64_q0 a) < 2 ^ 6" "unat (b64_q1 a b) < 2 ^ 6" "unat (b64_q2 b c) < 2 ^ 6"
  "unat (b64_q3 c) < 2 ^ 6"
  unfolding b64_q_defs b64_plus_or by (rule unat_lt_bits; auto simp: octet_bits)+

lemma byte_cases_lt:
  fixes v :: byte
  assumes "unat v < k" "\<forall>n \<in> set [0..<k]. P (of_nat n)"
  shows "P v"
proof -
  have "unat v \<in> set [0..<k]" using assms(1) by simp
  with assms(2) have "P (of_nat (unat v))" by blast
  then show ?thesis by simp
qed

lemma b32_MAP_inverse: "unat v < 2 ^ 5 \<Longrightarrow> b32_UNMAP (b32_MAP v) = v \<and> b32_MAP v \<noteq> CHR ''=''"
  by (rule byte_cases_lt [where k = 32]) (simp, code_simp)

lemma b64_char_inverse:
  "unat v < 2 ^ 6 \<Longrightarrow> b64_find (b64_char v) = v \<and> b64_char v \<noteq> CHR ''='' \<and> is_base64 (b64_char v)"
  by (rule byte_cases_lt [where k = 64]) (simp, code_simp)

subsection \<open>Round trips\<close>

lemmas b32_chars = b32_MAP_inverse [OF b32_lt(1)] b32_MAP_inverse [OF b32_lt(2)]
  b32_MAP_inverse [OF b32_lt(3)] b32_MAP_inverse [OF b32_lt(4)] b32_MAP_inverse [OF b32_lt(5)]
  b32_MAP_inverse [OF b32_lt(6)] b32_MAP_inverse [OF b32_lt(7)] b32_MAP_inverse [OF b32_lt(8)]

lemma chunk_lengths:
  assumes "bs \<noteq> []"
  obtains (one) a where "bs = [a]"
    | (two) a b where "bs = [a, b]"
    | (three) a b c where "bs = [a, b, c]"
    | (four) a b c d where "bs = [a, b, c, d]"
    | (five) a b c d e rest where "bs = a # b # c # d # e # rest"
  using assms by (metis list.exhaust)

lemma chunkDecode_Encode: "bs \<noteq> [] \<Longrightarrow> chunkDecode (chunkEncode bs) = take 5 bs"
  by (erule chunk_lengths)
    (simp_all add: chunkEncode_def chunkDecode_def Let_def b32_chars b32_octets [simplified])

lemma length_chunkEncode: "bs \<noteq> [] \<Longrightarrow> length (chunkEncode bs) = 8"
  by (erule chunk_lengths) (simp_all add: chunkEncode_def Let_def)

lemma Base32_decode_encode: "Base32_decode (Base32_encode bs) = bs"
proof (induction bs rule: Base32_encode.induct)
  case 1
  show ?case by simp
next
  case (2 b bs)
  let ?e = "chunkEncode (b # bs)"
  have len: "length ?e = 8" by (simp add: length_chunkEncode)
  then obtain c cs where e: "?e = c # cs" by (cases ?e) auto
  have "Base32_decode (?e @ r) = chunkDecode ?e @ Base32_decode r" for r
    using len e by (simp add: e)
  then show ?case
    using 2 chunkDecode_Encode [of "b # bs"] by (simp del: drop_Suc_Cons)
qed

lemmas b64_valid = b64_char_inverse [OF b64_lt(1)] b64_char_inverse [OF b64_lt(2)]
  b64_char_inverse [OF b64_lt(3)] b64_char_inverse [OF b64_lt(4)]

lemma b64_triple_quad:
  "push_bit 2 (b64_q0 a) + drop_bit 4 (b64_q1 a b AND 0x30) = a"
  "push_bit 4 (b64_q1 a b AND 0xf) + drop_bit 2 (b64_q2 b c AND 0x3c) = b"
  "push_bit 6 (b64_q2 b c AND 0x3) + b64_q3 c = c"
proof -
  have or0: "push_bit 2 (b64_q0 a) + drop_bit 4 (b64_q1 a b AND 0x30) =
      push_bit 2 (b64_q0 a) OR drop_bit 4 (b64_q1 a b AND 0x30)"
    unfolding b64_q_defs b64_plus_or by (rule disjunctive_add) (auto simp: octet_bits)
  show "push_bit 2 (b64_q0 a) + drop_bit 4 (b64_q1 a b AND 0x30) = a"
    unfolding or0 unfolding b64_q_defs b64_plus_or by (rule bit_word_eqI) (auto simp: octet_bits)
  have or1: "push_bit 4 (b64_q1 a b AND 0xf) + drop_bit 2 (b64_q2 b c AND 0x3c) =
      push_bit 4 (b64_q1 a b AND 0xf) OR drop_bit 2 (b64_q2 b c AND 0x3c)"
    unfolding b64_q_defs b64_plus_or by (rule disjunctive_add) (auto simp: octet_bits)
  show "push_bit 4 (b64_q1 a b AND 0xf) + drop_bit 2 (b64_q2 b c AND 0x3c) = b"
    unfolding or1 unfolding b64_q_defs b64_plus_or by (rule bit_word_eqI) (auto simp: octet_bits)
  have or2: "push_bit 6 (b64_q2 b c AND 0x3) + b64_q3 c = push_bit 6 (b64_q2 b c AND 0x3) OR b64_q3 c"
    unfolding b64_q_defs b64_plus_or by (rule disjunctive_add) (auto simp: octet_bits)
  show "push_bit 6 (b64_q2 b c AND 0x3) + b64_q3 c = c"
    unfolding or2 unfolding b64_q_defs b64_plus_or by (rule bit_word_eqI) (auto simp: octet_bits)
qed

lemma b64_decode_prefix:
  "\<forall>c \<in> set xs. c \<noteq> CHR ''='' \<and> is_base64 c \<Longrightarrow> length xs = 4 \<Longrightarrow>
   Base64_decode (xs @ ys) = b64_groups xs @ Base64_decode ys"
  unfolding Base64_decode_def
  by (cases xs rule: b64_groups.cases) (simp_all add: takeWhile_append2)

lemma Base64_roundtrip: "Base64_decode (Base64_encode bs) = bs"
proof (induction bs rule: Base64_encode.induct)
  case (1 a b c rest)
  let ?q = "map b64_char (b64_quad a b c)"
  have "\<forall>x \<in> set ?q. x \<noteq> CHR ''='' \<and> is_base64 x" "length ?q = 4"
    by (simp_all add: b64_quad_def b64_valid)
  moreover have "b64_groups ?q = [a, b, c]"
    by (simp add: b64_quad_def b64_triple_def b64_valid b64_triple_quad [simplified])
  ultimately show ?case
    using 1 by (simp add: b64_decode_prefix)
next
  case (2 a b)
  show ?case
    by (simp add: b64_quad_def Base64_decode_def b64_triple_def b64_valid b64_triple_quad [simplified])
next
  case (3 a)
  show ?case
    by (simp add: b64_quad_def Base64_decode_def b64_triple_def b64_valid b64_triple_quad [simplified])
next
  case 4
  show ?case by (simp add: Base64_decode_def)
qed

subsection \<open>Properties\<close>

text \<open>C31. The Base32 name of a key determines the key, so two blocks never share a file.\<close>

theorem base32_injective: "Base32_encode a = Base32_encode b \<longleftrightarrow> a = b"
  by (metis Base32_decode_encode)

text \<open>C32. Decoding the Base64 text of any octets gives the octets back, padding included.\<close>

theorem base64_decode_encode: "Base64_decode (Base64_encode bs) = bs"
  by (rule Base64_roundtrip)

end
