(* ===== verification/Head_Graph.thy ===== *)
theory Head_Graph
  imports Utp_Prelude "HOL-Library.List_Lexorder" "HOL-Library.Product_Lexorder"
    "HOL-Library.Multiset"
begin

text \<open>
  The in-memory graph of head nodes (\<^verbatim>\<open>libutp/src/LameHeadNodeGraph.cpp\<close>). A head node is a
  file system tag with an encrypted root reference; an edge leads from the previous root
  to the root that replaced it. A \<^verbatim>\<open>std::multimap\<close> is the list of its pairs in insertion
  order (the elements of one key keep that order), a \<^verbatim>\<open>std::set\<close> is a sorted list. The
  traversals replace a seed by its children until no seed has any; on a graph with a cycle
  that loop does not end, so it is a partial function. Parsing the marshalled edge is
  protobuf's, an argument of the definitions.
\<close>

type_synonym headnode = "bytes \<times> bytes"

record headedge =
  he_fstag :: bytes
  he_rootref :: bytes
  he_prevref :: bytes
  he_tstamp :: int

record signedheadedge =
  she_headedge :: bytes
  she_keyid :: bytes
  she_signature :: bytes

record lameedge =
  le_prev :: headnode
  le_root :: headnode
  le_she :: signedheadedge

record lhng =
  m_prevmap :: "(headnode \<times> lameedge) list"
  m_rootmap :: "(headnode \<times> lameedge) list"
  m_roots :: "headnode list"

definition lhng_empty :: lhng where
  "lhng_empty = \<lparr>m_prevmap = [], m_rootmap = [], m_roots = []\<rparr>"

type_synonym he_parser = "bytes \<Rightarrow> headedge option"

subsection \<open>Containers\<close>

definition mm_range :: "'k \<Rightarrow> ('k \<times> 'v) list \<Rightarrow> 'v list" where
  "mm_range k m = map snd (filter (\<lambda>x. fst x = k) m)"

definition mm_find :: "'k \<Rightarrow> ('k \<times> 'v) list \<Rightarrow> 'v option" where
  "mm_find k m = map_of m k"

definition mm_insert :: "'k \<Rightarrow> 'v \<Rightarrow> ('k \<times> 'v) list \<Rightarrow> ('k \<times> 'v) list" where
  "mm_insert k v m = m @ [(k, v)]"

definition set_insert :: "'a::linorder \<Rightarrow> 'a list \<Rightarrow> 'a list" where
  "set_insert x xs = List.insort_insert x xs"

definition set_erase :: "'a \<Rightarrow> 'a list \<Rightarrow> 'a list" where
  "set_erase x xs = filter (\<lambda>y. y \<noteq> x) xs"

subsection \<open>Edges\<close>

definition LameEdge :: "he_parser \<Rightarrow> signedheadedge \<Rightarrow> lameedge res" where
  "LameEdge parse i_she =
     (case parse (she_headedge i_she) of
        None \<Rightarrow> Inl InternalError
      | Some he \<Rightarrow>
          Inr \<lparr>le_prev = (he_fstag he, he_prevref he), le_root = (he_fstag he, he_rootref he),
               le_she = i_she\<rparr>)"

definition insert_head :: "he_parser \<Rightarrow> signedheadedge \<Rightarrow> lhng \<Rightarrow> lhng res" where
  "insert_head parse i_she g =
     (case LameEdge parse i_she of
        Inl e \<Rightarrow> Inl e
      | Inr eh \<Rightarrow>
          if le_prev eh = le_root eh then Inl InternalError
          else if mm_find (le_prev eh) (m_prevmap g) \<noteq> None \<and>
                  mm_find (le_root eh) (m_rootmap g) \<noteq> None then Inr g
          else
            (let g1 = g\<lparr>m_prevmap := mm_insert (le_prev eh) eh (m_prevmap g),
                       m_rootmap := mm_insert (le_root eh) eh (m_rootmap g),
                       m_roots := set_erase (le_root eh) (m_roots g)\<rparr>
             in Inr (if mm_find (le_prev eh) (m_rootmap g1) = None
                     then g1\<lparr>m_roots := set_insert (le_prev eh) (m_roots g1)\<rparr> else g1)))"

subsection \<open>Traversals\<close>

text \<open>
  The starting seeds: all roots of the file system when the reference is empty, the node
  itself when some edge leads to it, its children otherwise. \<open>lower_bound\<close> is the first
  element not below the key.
\<close>

definition root_seeds :: "headnode \<Rightarrow> headnode list \<Rightarrow> headnode list" where
  "root_seeds seed roots =
     fold set_insert (takeWhile (\<lambda>n. fst n = fst seed) (dropWhile (\<lambda>n. n < seed) roots)) []"

definition follow_seeds :: "lhng \<Rightarrow> headnode \<Rightarrow> headnode list \<times> lameedge list" where
  "follow_seeds g seed =
     (if snd seed = [] then (root_seeds seed (m_roots g), [])
      else if mm_find seed (m_rootmap g) \<noteq> None then (set_insert seed [], [])
      else (let kids = mm_range seed (m_prevmap g)
            in (fold set_insert (map le_root kids) [], kids)))"

definition furthest_seeds :: "lhng \<Rightarrow> headnode \<Rightarrow> headnode list" where
  "furthest_seeds g seed =
     (if snd seed = [] then root_seeds seed (m_roots g)
      else if mm_find seed (m_rootmap g) \<noteq> None then set_insert seed []
      else fold set_insert (map le_root (mm_range seed (m_prevmap g))) [])"

definition has_kids :: "lhng \<Rightarrow> headnode \<Rightarrow> bool" where
  "has_kids g nr = (mm_range nr (m_prevmap g) \<noteq> [])"

definition kids_of :: "lhng \<Rightarrow> headnode \<Rightarrow> headnode list" where
  "kids_of g nr = fold set_insert (map le_root (mm_range nr (m_prevmap g))) []"

definition replace_seed :: "lhng \<Rightarrow> headnode \<Rightarrow> headnode list \<Rightarrow> headnode list" where
  "replace_seed g nr seeds = fold set_insert (kids_of g nr) (set_erase nr seeds)"

partial_function (option) follow_loop ::
    "lhng \<Rightarrow> headnode list \<Rightarrow> lameedge list \<Rightarrow> (headnode list \<times> lameedge list) option" where
  "follow_loop g seeds found =
     (case find (has_kids g) seeds of
        None \<Rightarrow> Some (seeds, found)
      | Some nr \<Rightarrow>
          follow_loop g (replace_seed g nr seeds) (found @ mm_range nr (m_prevmap g)))"

partial_function (option) furthest_loop :: "lhng \<Rightarrow> headnode list \<Rightarrow> headnode list option" where
  "furthest_loop g seeds =
     (case find (has_kids g) seeds of
        None \<Rightarrow> Some seeds
      | Some nr \<Rightarrow> furthest_loop g (replace_seed g nr seeds))"

text \<open>
  The result is \<open>None\<close> when the loop does not end; otherwise it is what the callbacks are
  given: the error of \<^verbatim>\<open>het_error\<close>, or the edges of \<^verbatim>\<open>het_edge\<close> before \<^verbatim>\<open>het_complete\<close>.
\<close>

definition head_follow :: "lhng \<Rightarrow> headnode \<Rightarrow> signedheadedge list res option" where
  "head_follow g i_hn =
     (let (seeds, found) = follow_seeds g i_hn in
      case follow_loop g seeds found of
        None \<Rightarrow> None
      | Some (_, found') \<Rightarrow>
          Some (if seeds = [] then Inl NotFoundError else Inr (map le_she found')))"

fun rootmap_nodes :: "lhng \<Rightarrow> headnode list \<Rightarrow> lameedge list res" where
  "rootmap_nodes g [] = Inr []"
| "rootmap_nodes g (n # ns) =
     (case mm_find n (m_rootmap g) of
        None \<Rightarrow> Inl InternalError
      | Some e \<Rightarrow> (case rootmap_nodes g ns of Inl x \<Rightarrow> Inl x | Inr es \<Rightarrow> Inr (e # es)))"

definition head_furthest :: "lhng \<Rightarrow> headnode \<Rightarrow> headnode list res option" where
  "head_furthest g i_hn =
     (case furthest_loop g (furthest_seeds g i_hn) of
        None \<Rightarrow> None
      | Some seeds \<Rightarrow> Some (map_sum id (map le_root) (rootmap_nodes g seeds)))"

subsection \<open>The graph\<close>

definition hg_rel :: "lhng \<Rightarrow> (headnode \<times> headnode) set" where
  "hg_rel g = (\<lambda>e. (le_prev e, le_root e)) ` snd ` set (m_prevmap g)"

definition lhng_inv :: "lhng \<Rightarrow> bool" where
  "lhng_inv g \<longleftrightarrow>
     (\<forall>x \<in> set (m_prevmap g). fst x = le_prev (snd x)) \<and>
     (\<forall>x \<in> set (m_rootmap g). fst x = le_root (snd x)) \<and>
     snd ` set (m_prevmap g) = snd ` set (m_rootmap g) \<and>
     set (m_roots g) = fst ` set (m_prevmap g) - fst ` set (m_rootmap g) \<and>
     sorted (m_roots g) \<and> distinct (m_roots g)"

definition leaves :: "lhng \<Rightarrow> headnode set \<Rightarrow> headnode set" where
  "leaves g S = {n. (\<exists>s \<in> S. (s, n) \<in> (hg_rel g)\<^sup>*) \<and> n \<notin> Domain (hg_rel g)}"

definition start_nodes :: "lhng \<Rightarrow> headnode \<Rightarrow> headnode set" where
  "start_nodes g seed =
     (if snd seed = [] then {n \<in> Domain (hg_rel g) - Range (hg_rel g). fst n = fst seed}
      else if seed \<in> Range (hg_rel g) then {seed} else hg_rel g `` {seed})"

lemma set_set_insert [simp]: "set (set_insert x xs) = insert x (set xs)"
  by (simp add: set_insert_def set_insort_insert)

lemma set_fold_set_insert [simp]: "set (fold set_insert ys xs) = set ys \<union> set xs"
  by (induction ys arbitrary: xs) auto

lemma set_set_erase [simp]: "set (set_erase x xs) = set xs - {x}"
  by (auto simp: set_erase_def)

lemma mm_range_mem: "e \<in> set (mm_range k m) \<longleftrightarrow> (k, e) \<in> set m"
  by (force simp: mm_range_def)

lemma mm_find_None: "mm_find k m = None \<longleftrightarrow> k \<notin> fst ` set m"
  by (simp add: mm_find_def map_of_eq_None_iff)

lemma mm_find_Some: "mm_find k m = Some e \<Longrightarrow> (k, e) \<in> set m"
  by (simp add: mm_find_def map_of_SomeD)

lemma image_key: "\<forall>x \<in> X. fst x = f (snd x) \<Longrightarrow> f ` snd ` X = fst ` X"
  unfolding image_image by (rule image_cong) simp_all

lemma Domain_hg_rel: "lhng_inv g \<Longrightarrow> Domain (hg_rel g) = fst ` set (m_prevmap g)"
  using image_key [of "set (m_prevmap g)" le_prev]
  by (simp add: hg_rel_def lhng_inv_def Domain_fst image_image)

lemma Range_hg_rel: "lhng_inv g \<Longrightarrow> Range (hg_rel g) = fst ` set (m_rootmap g)"
  using image_key [of "set (m_rootmap g)" le_root]
  by (simp add: hg_rel_def lhng_inv_def Range_snd image_image)

lemma set_mm_range:
  assumes "lhng_inv g"
  shows "set (mm_range n (m_prevmap g)) = {e \<in> snd ` set (m_prevmap g). le_prev e = n}"
proof -
  have "(n, e) \<in> set (m_prevmap g) \<longleftrightarrow> e \<in> snd ` set (m_prevmap g) \<and> le_prev e = n" for e
  proof
    assume "(n, e) \<in> set (m_prevmap g)"
    then show "e \<in> snd ` set (m_prevmap g) \<and> le_prev e = n"
      using assms unfolding lhng_inv_def by (metis fst_conv image_eqI snd_conv)
  next
    assume "e \<in> snd ` set (m_prevmap g) \<and> le_prev e = n"
    then obtain x where x: "x \<in> set (m_prevmap g)" "e = snd x" "le_prev e = n" by blast
    moreover have "fst x = le_prev (snd x)"
      using assms x(1) unfolding lhng_inv_def by blast
    ultimately have "x = (n, e)" by (simp add: prod_eq_iff)
    with x(1) show "(n, e) \<in> set (m_prevmap g)" by simp
  qed
  then show ?thesis by (intro set_eqI) (simp only: mm_range_mem mem_Collect_eq)
qed

lemma mm_range_edges:
  "lhng_inv g \<Longrightarrow> le_root ` set (mm_range n (m_prevmap g)) = hg_rel g `` {n}"
  unfolding set_mm_range hg_rel_def by blast

lemma set_kids_of: "lhng_inv g \<Longrightarrow> set (kids_of g n) = hg_rel g `` {n}"
  by (simp add: kids_of_def mm_range_edges)

lemma has_kids_iff: "lhng_inv g \<Longrightarrow> has_kids g n \<longleftrightarrow> n \<in> Domain (hg_rel g)"
  using mm_range_edges [of g n] unfolding has_kids_def
  by (metis Image_singleton_iff DomainE DomainI ex_in_conv image_is_empty set_empty)

lemma set_replace_seed:
  "lhng_inv g \<Longrightarrow> set (replace_seed g n S) = hg_rel g `` {n} \<union> (set S - {n})"
  by (simp add: replace_seed_def set_kids_of)

lemma find_SomeD: "find P xs = Some x \<Longrightarrow> x \<in> set xs \<and> P x"
  by (metis find_Some_iff nth_mem)

lemma leaves_replace:
  assumes "n \<in> S" "n \<in> Domain (hg_rel g)"
  shows "leaves g (hg_rel g `` {n} \<union> (S - {n})) = leaves g S"
proof -
  let ?R = "hg_rel g"
  have "(\<exists>s \<in> ?R `` {n} \<union> (S - {n}). (s, x) \<in> ?R\<^sup>*) \<longleftrightarrow> (\<exists>s \<in> S. (s, x) \<in> ?R\<^sup>*)"
    if "x \<notin> Domain ?R" for x
  proof
    assume "\<exists>s \<in> ?R `` {n} \<union> (S - {n}). (s, x) \<in> ?R\<^sup>*"
    then show "\<exists>s \<in> S. (s, x) \<in> ?R\<^sup>*"
      using assms(1) by (auto intro: converse_rtrancl_into_rtrancl)
  next
    assume "\<exists>s \<in> S. (s, x) \<in> ?R\<^sup>*"
    then obtain s where s: "s \<in> S" "(s, x) \<in> ?R\<^sup>*" by blast
    show "\<exists>s \<in> ?R `` {n} \<union> (S - {n}). (s, x) \<in> ?R\<^sup>*"
    proof (cases "s = n")
      case True
      with that assms(2) have "s \<noteq> x" by auto
      with s(2) obtain y where "(s, y) \<in> ?R" "(y, x) \<in> ?R\<^sup>*"
        by (meson converse_rtranclE)
      with True show ?thesis by blast
    next
      case False
      with s show ?thesis by blast
    qed
  qed
  then show ?thesis by (auto simp: leaves_def)
qed

lemma leaves_no_kids: "\<forall>s \<in> S. s \<notin> Domain (hg_rel g) \<Longrightarrow> leaves g S = S"
  unfolding leaves_def by (blast elim: converse_rtranclE)

lemma furthest_loop_leaves:
  assumes inv: "lhng_inv g" and ret: "furthest_loop g S = Some T"
  shows "set T = leaves g (set S)"
proof -
  have "lhng_inv g \<longrightarrow> set T = leaves g (set S)"
  proof (rule furthest_loop.raw_induct [where P = "\<lambda>g S T. lhng_inv g \<longrightarrow> set T = leaves g (set S)", OF _ ret])
    fix f g S T
    assume IH: "\<And>g S T. f g S = Some T \<Longrightarrow> lhng_inv g \<longrightarrow> set T = leaves g (set S)"
      and eq: "(case find (has_kids g) S of None \<Rightarrow> Some S
                | Some nr \<Rightarrow> f g (replace_seed g nr S)) = Some T"
    show "lhng_inv g \<longrightarrow> set T = leaves g (set S)"
    proof
      assume inv: "lhng_inv g"
      show "set T = leaves g (set S)"
      proof (cases "find (has_kids g) S")
        case None
        then have "\<forall>s \<in> set S. s \<notin> Domain (hg_rel g)"
          using inv by (auto simp: find_None_iff has_kids_iff)
        with eq None show ?thesis by (simp add: leaves_no_kids)
      next
        case (Some n)
        then have n: "n \<in> set S" "n \<in> Domain (hg_rel g)"
          using inv find_SomeD [OF Some] by (simp_all add: has_kids_iff)
        from Some eq IH inv have "set T = leaves g (set (replace_seed g n S))" by auto
        with n inv show ?thesis by (simp add: set_replace_seed leaves_replace)
      qed
    qed
  qed
  with inv show ?thesis by simp
qed

lemma replace_seed_less:
  assumes "lhng_inv g" "n \<in> set S"
  shows "(mset_set (set (replace_seed g n S)), mset_set (set S)) \<in> mult ((hg_rel g)\<inverse>)"
proof -
  define K I where "K = hg_rel g `` {n}" and "I = set S - {n} - K"
  have fin: "finite K"
    using set_kids_of [OF assms(1), of n] by (metis K_def List.finite_set)
  then have "finite I" by (simp add: I_def)
  have new: "set (replace_seed g n S) = I \<union> K"
    using assms by (auto simp: set_replace_seed K_def I_def)
  have old: "set S = I \<union> insert n (set S \<inter> K)" and "I \<inter> insert n (set S \<inter> K) = {}"
    using assms(2) by (auto simp: I_def)
  then have "mset_set (set S) = mset_set I + mset_set (insert n (set S \<inter> K))"
    using \<open>finite I\<close> by (metis List.finite_set finite_Un mset_set_Union)
  moreover have "mset_set (I \<union> K) = mset_set I + mset_set K"
    using fin \<open>finite I\<close> by (intro mset_set_Union) (auto simp: I_def)
  moreover have "(mset_set I + mset_set K, mset_set I + mset_set (insert n (set S \<inter> K)))
      \<in> mult ((hg_rel g)\<inverse>)"
    using fin by (intro one_step_implies_mult) (auto simp: K_def mset_set_empty_iff)
  ultimately show ?thesis by (simp add: new)
qed

lemma wf_hg_rel: "acyclic (hg_rel g) \<Longrightarrow> wf ((hg_rel g)\<inverse>)"
  by (rule finite_acyclic_wf_converse) (simp_all add: hg_rel_def)

lemma furthest_loop_returns:
  assumes "lhng_inv g" "acyclic (hg_rel g)"
  shows "\<exists>T. furthest_loop g S = Some T"
  using wf_mult [OF wf_hg_rel [OF assms(2)]]
proof (induction "mset_set (set S)" arbitrary: S rule: wf_induct_rule)
  case less
  show ?case
  proof (cases "find (has_kids g) S")
    case None
    then show ?thesis by (simp add: furthest_loop.simps)
  next
    case (Some n)
    then have "n \<in> set S" by (simp add: find_SomeD)
    from less [OF replace_seed_less [OF assms(1) this]] Some show ?thesis
      by (subst furthest_loop.simps) simp
  qed
qed

lemma takeWhile_dropWhile_seed:
  assumes "sorted xs"
  shows "set (takeWhile (\<lambda>n. fst n = t) (dropWhile (\<lambda>n. n < (t, [])) xs)) =
         {n \<in> set (xs :: headnode list). fst n = t}"
  using assms
proof (induction xs)
  case Nil
  then show ?case by simp
next
  case (Cons x xs)
  show ?case
  proof (cases "x < (t, [])")
    case True
    then have "fst x \<noteq> t" by (cases x) (auto simp: less_prod_def)
    with True Cons show ?thesis by auto
  next
    case False
    then have ge: "(t, []) \<le> x" by simp
    have tw: "takeWhile (\<lambda>n. fst n = t) (dropWhile (\<lambda>n. n < (t, [])) xs) = takeWhile (\<lambda>n. fst n = t) xs"
      using Cons.prems ge
      by (cases xs) (auto simp: not_less [symmetric] dest: less_le_trans)
    have "fst n \<noteq> t" if "fst x \<noteq> t" "n \<in> set xs" for n
      using that Cons.prems ge by (cases x; cases n) (auto simp: less_eq_prod_def)
    then have "fst x \<noteq> t \<Longrightarrow> {n \<in> set xs. fst n = t} = {}" by blast
    moreover have "set (takeWhile (\<lambda>n. fst n = t) (dropWhile (\<lambda>n. n < (t, [])) (x # xs))) =
        (if fst x = t then insert x {n \<in> set xs. fst n = t} else {})"
      using False Cons tw by auto
    ultimately show ?thesis by (auto split: if_splits)
  qed
qed

lemma set_root_seeds:
  assumes "lhng_inv g" "snd seed = []"
  shows "set (root_seeds seed (m_roots g)) = start_nodes g seed"
proof -
  obtain t where seed: "seed = (t, [])" using assms(2) by (cases seed) simp
  have "sorted (m_roots g)" using assms(1) by (simp add: lhng_inv_def)
  from takeWhile_dropWhile_seed [OF this, of t] assms(1) show ?thesis
    by (simp add: root_seeds_def start_nodes_def seed Domain_hg_rel Range_hg_rel lhng_inv_def)
qed

lemma set_furthest_seeds:
  assumes "lhng_inv g"
  shows "set (furthest_seeds g seed) = start_nodes g seed"
  using assms set_root_seeds [OF assms, of seed]
  by (auto simp: furthest_seeds_def start_nodes_def mm_find_None Range_hg_rel mm_range_edges)

lemma start_nodes_rooted:
  assumes "lhng_inv g"
  shows "start_nodes g seed \<subseteq> Domain (hg_rel g) \<union> Range (hg_rel g)"
  by (auto simp: start_nodes_def)

lemma leaves_rooted:
  assumes "S \<subseteq> Domain (hg_rel g) \<union> Range (hg_rel g)"
  shows "leaves g S \<subseteq> Range (hg_rel g)"
  using assms unfolding leaves_def by (blast elim: rtranclE)

lemma rootmap_nodes_ok:
  "lhng_inv g \<Longrightarrow> set ns \<subseteq> Range (hg_rel g) \<Longrightarrow>
   \<exists>es. rootmap_nodes g ns = Inr es \<and> map le_root es = ns"
proof (induction ns)
  case Nil
  then show ?case by simp
next
  case (Cons n ns)
  then obtain e where e: "mm_find n (m_rootmap g) = Some e"
    using mm_find_None [of n "m_rootmap g"] by (auto simp: Range_hg_rel simp del: split_paired_All)
  then have "n = le_root e"
    using Cons.prems(1) mm_find_Some [OF e] unfolding lhng_inv_def by (metis fst_conv snd_conv)
  with e Cons show ?case by auto
qed

lemma sorted_set_erase: "sorted xs \<Longrightarrow> sorted (set_erase x xs)"
  by (simp add: set_erase_def sorted_wrt_filter)

lemma sorted_set_insert: "sorted xs \<Longrightarrow> sorted (set_insert x xs)"
  by (simp add: set_insert_def sorted_insort_insert)

lemma distinct_set_erase: "distinct xs \<Longrightarrow> distinct (set_erase x xs)"
  by (simp add: set_erase_def)

lemma distinct_set_insert: "distinct xs \<Longrightarrow> distinct (set_insert x xs)"
  by (simp add: set_insert_def distinct_insort_insert)

lemma distinct_fold_set_insert: "distinct xs \<Longrightarrow> distinct (fold set_insert ys xs)"
  by (induction ys arbitrary: xs) (simp_all add: distinct_set_insert)

lemma roots_step:
  "p \<noteq> r \<Longrightarrow> p \<notin> R \<Longrightarrow> insert p (P - R - {r}) = insert p P - insert r R"
  "p \<noteq> r \<Longrightarrow> p \<in> R \<Longrightarrow> P - R - {r} = insert p P - insert r R"
  by auto

lemma insert_head_inv:
  assumes inv: "lhng_inv g" and ret: "insert_head parse she g = Inr g'"
  shows "lhng_inv g'"
proof -
  from ret obtain e where e: "LameEdge parse she = Inr e" "le_prev e \<noteq> le_root e"
    and g': "g' = g \<or>
      (let g1 = g\<lparr>m_prevmap := mm_insert (le_prev e) e (m_prevmap g),
                  m_rootmap := mm_insert (le_root e) e (m_rootmap g),
                  m_roots := set_erase (le_root e) (m_roots g)\<rparr>
       in g' = (if mm_find (le_prev e) (m_rootmap g1) = None
                then g1\<lparr>m_roots := set_insert (le_prev e) (m_roots g1)\<rparr> else g1))"
    unfolding insert_head_def Let_def by (auto split: sum.splits if_splits)
  from g' show ?thesis
  proof
    assume "g' = g"
    with inv show ?thesis by simp
  next
    assume g': "let g1 = g\<lparr>m_prevmap := mm_insert (le_prev e) e (m_prevmap g),
                  m_rootmap := mm_insert (le_root e) e (m_rootmap g),
                  m_roots := set_erase (le_root e) (m_roots g)\<rparr>
       in g' = (if mm_find (le_prev e) (m_rootmap g1) = None
                then g1\<lparr>m_roots := set_insert (le_prev e) (m_roots g1)\<rparr> else g1)"
    have roots: "set (m_roots g) = fst ` set (m_prevmap g) - fst ` set (m_rootmap g)"
      using inv by (simp add: lhng_inv_def)
    have "set (m_roots g') = fst ` set (m_prevmap g') - fst ` set (m_rootmap g')"
      using g' e(2) roots roots_step [of "le_prev e" "le_root e"]
      by (simp add: Let_def mm_insert_def mm_find_None split: if_splits)
    then show ?thesis
      using g' inv unfolding lhng_inv_def
      by (auto simp: Let_def mm_insert_def sorted_set_erase sorted_set_insert distinct_set_erase distinct_set_insert
          simp del: split_paired_All split_paired_Ex)
  qed
qed

subsection \<open>Following edges\<close>

definition edges_from :: "lhng \<Rightarrow> headnode set \<Rightarrow> lameedge set" where
  "edges_from g S = {e \<in> snd ` set (m_prevmap g). \<exists>s \<in> S. (s, le_prev e) \<in> (hg_rel g)\<^sup>*}"

lemma edges_from_replace:
  assumes "lhng_inv g" "n \<in> S"
  shows "edges_from g S =
         set (mm_range n (m_prevmap g)) \<union> edges_from g (hg_rel g `` {n} \<union> (S - {n}))"
proof -
  let ?R = "hg_rel g"
  have "(\<exists>s \<in> S. (s, p) \<in> ?R\<^sup>*) \<longleftrightarrow> p = n \<or> (\<exists>s \<in> ?R `` {n} \<union> (S - {n}). (s, p) \<in> ?R\<^sup>*)" for p
    using assms(2) by (blast elim: converse_rtranclE intro: converse_rtrancl_into_rtrancl)
  then show ?thesis
    unfolding edges_from_def set_mm_range [OF assms(1)] by blast
qed

lemma edges_from_no_kids:
  assumes "\<forall>s \<in> S. s \<notin> Domain (hg_rel g)"
  shows "edges_from g S = {}"
proof -
  have "le_prev e \<in> Domain (hg_rel g)" if "e \<in> snd ` set (m_prevmap g)" for e
    using that by (auto simp: hg_rel_def)
  with assms show ?thesis
    unfolding edges_from_def by (blast elim: converse_rtranclE)
qed

lemma follow_loop_edges:
  assumes inv: "lhng_inv g" and ret: "follow_loop g S fnd = Some (T, fnd')"
  shows "set fnd' = set fnd \<union> edges_from g (set S)"
proof -
  have "lhng_inv g \<longrightarrow> set (snd (T, fnd')) = set fnd \<union> edges_from g (set S)"
  proof (rule follow_loop.raw_induct
      [where P = "\<lambda>g S f r. lhng_inv g \<longrightarrow> set (snd r) = set f \<union> edges_from g (set S)", OF _ ret])
    fix f g S fnd r
    assume IH: "\<And>g S fnd r. f g S fnd = Some r \<Longrightarrow>
        lhng_inv g \<longrightarrow> set (snd r) = set fnd \<union> edges_from g (set S)"
      and eq: "(case find (has_kids g) S of None \<Rightarrow> Some (S, fnd)
        | Some nr \<Rightarrow> f g (replace_seed g nr S) (fnd @ mm_range nr (m_prevmap g))) = Some r"
    show "lhng_inv g \<longrightarrow> set (snd r) = set fnd \<union> edges_from g (set S)"
    proof
      assume inv: "lhng_inv g"
      show "set (snd r) = set fnd \<union> edges_from g (set S)"
      proof (cases "find (has_kids g) S")
        case None
        then have "\<forall>s \<in> set S. s \<notin> Domain (hg_rel g)"
          using inv by (auto simp: find_None_iff has_kids_iff)
        with eq None show ?thesis by (auto simp: edges_from_no_kids)
      next
        case (Some n)
        then have n: "n \<in> set S" by (simp add: find_SomeD)
        from Some eq IH inv have "set (snd r) =
            set (fnd @ mm_range n (m_prevmap g)) \<union> edges_from g (set (replace_seed g n S))" by auto
        with edges_from_replace [OF inv n] inv show ?thesis
          by (simp add: set_replace_seed Un_assoc)
      qed
    qed
  qed
  with inv show ?thesis by simp
qed

lemma follow_loop_returns:
  assumes "lhng_inv g" "acyclic (hg_rel g)"
  shows "\<exists>r. follow_loop g S fnd = Some r"
  using wf_mult [OF wf_hg_rel [OF assms(2)]]
proof (induction "mset_set (set S)" arbitrary: S fnd rule: wf_induct_rule)
  case less
  show ?case
  proof (cases "find (has_kids g) S")
    case None
    then show ?thesis by (simp add: follow_loop.simps)
  next
    case (Some n)
    then have "n \<in> set S" by (simp add: find_SomeD)
    from less [OF replace_seed_less [OF assms(1) this]] Some show ?thesis
      by (subst follow_loop.simps) simp
  qed
qed

subsection \<open>Graphs that are built\<close>

text \<open>The graphs a store can hold: the empty one, extended by the edges \<^verbatim>\<open>insert_head\<close> accepts.\<close>

inductive lhng_reach :: "he_parser \<Rightarrow> lhng \<Rightarrow> bool" for parse where
  reach_empty: "lhng_reach parse lhng_empty"
| reach_insert: "lhng_reach parse g \<Longrightarrow> insert_head parse she g = Inr g' \<Longrightarrow> lhng_reach parse g'"

lemma lhng_reach_inv: "lhng_reach parse g \<Longrightarrow> lhng_inv g"
proof (induction rule: lhng_reach.induct)
  case reach_empty
  show ?case by (simp add: lhng_inv_def lhng_empty_def)
next
  case (reach_insert g she g')
  then show ?case using insert_head_inv by blast
qed

lemma furthest_loop_nonempty:
  assumes inv: "lhng_inv g" and ret: "furthest_loop g S = Some T" and "S \<noteq> []"
  shows "T \<noteq> []"
proof -
  have "lhng_inv g \<longrightarrow> S \<noteq> [] \<longrightarrow> T \<noteq> []"
  proof (rule furthest_loop.raw_induct [where P = "\<lambda>g S T. lhng_inv g \<longrightarrow> S \<noteq> [] \<longrightarrow> T \<noteq> []", OF _ ret])
    fix f g S T
    assume IH: "\<And>g S T. f g S = Some T \<Longrightarrow> lhng_inv g \<longrightarrow> S \<noteq> [] \<longrightarrow> T \<noteq> []"
      and eq: "(case find (has_kids g) S of None \<Rightarrow> Some S
                | Some nr \<Rightarrow> f g (replace_seed g nr S)) = Some T"
    show "lhng_inv g \<longrightarrow> S \<noteq> [] \<longrightarrow> T \<noteq> []"
    proof (intro impI)
      assume inv: "lhng_inv g" and ne: "S \<noteq> []"
      show "T \<noteq> []"
      proof (cases "find (has_kids g) S")
        case None
        with eq ne show ?thesis by simp
      next
        case (Some n)
        then have "n \<in> Domain (hg_rel g)" using inv find_SomeD [OF Some] by (simp add: has_kids_iff)
        then have "set (replace_seed g n S) \<noteq> {}" using inv by (auto simp: set_replace_seed)
        with Some eq IH inv show ?thesis by force
      qed
    qed
  qed
  with inv assms(3) show ?thesis by simp
qed

lemma distinct_furthest_seeds: "lhng_inv g \<Longrightarrow> distinct (furthest_seeds g hn)"
  by (auto simp: furthest_seeds_def root_seeds_def lhng_inv_def distinct_fold_set_insert
      distinct_set_insert intro!: distinct_takeWhile distinct_dropWhile)

lemma furthest_loop_distinct:
  assumes ret: "furthest_loop g S = Some T" and "distinct S"
  shows "distinct T"
proof -
  have "distinct S \<longrightarrow> distinct T"
  proof (rule furthest_loop.raw_induct [where P = "\<lambda>g S T. distinct S \<longrightarrow> distinct T", OF _ ret])
    fix f g S T
    assume IH: "\<And>g S T. f g S = Some T \<Longrightarrow> distinct S \<longrightarrow> distinct T"
      and eq: "(case find (has_kids g) S of None \<Rightarrow> Some S
                | Some nr \<Rightarrow> f g (replace_seed g nr S)) = Some T"
    show "distinct S \<longrightarrow> distinct T"
      using eq IH by (auto simp: replace_seed_def distinct_fold_set_insert distinct_set_erase split: option.splits)
  qed
  with assms(2) show ?thesis by simp
qed

lemma head_furthest_leaves:
  assumes inv: "lhng_inv g" and "acyclic (hg_rel g)"
  shows "\<exists>ns. head_furthest g hn = Some (Inr ns) \<and> distinct ns \<and> set ns = leaves g (start_nodes g hn)"
proof -
  obtain T where T: "furthest_loop g (furthest_seeds g hn) = Some T"
    using furthest_loop_returns [OF assms] by blast
  have set: "set T = leaves g (start_nodes g hn)"
    using furthest_loop_leaves [OF inv T] by (simp add: set_furthest_seeds [OF inv])
  then have "set T \<subseteq> Range (hg_rel g)"
    using leaves_rooted [OF start_nodes_rooted [OF inv]] by simp
  moreover have "distinct T" by (rule furthest_loop_distinct [OF T distinct_furthest_seeds [OF inv]])
  ultimately show ?thesis using rootmap_nodes_ok [OF inv, of T] T set by (auto simp: head_furthest_def)
qed

lemma insert_head_step:
  assumes inv: "lhng_inv g" and "parse (she_headedge she) = Some he" "he_prevref he \<noteq> he_rootref he"
  defines "p \<equiv> (he_fstag he, he_prevref he)" and "r \<equiv> (he_fstag he, he_rootref he)"
  shows "\<exists>g'. insert_head parse she g = Inr g' \<and> lhng_inv g' \<and>
    hg_rel g' = (if p \<in> Domain (hg_rel g) \<and> r \<in> Range (hg_rel g) then hg_rel g else insert (p, r) (hg_rel g))"
proof -
  let ?e = "\<lparr>le_prev = p, le_root = r, le_she = she\<rparr>"
  have e: "LameEdge parse she = Inr ?e" and pr: "p \<noteq> r"
    using assms(2,3) by (simp_all add: LameEdge_def p_def r_def)
  have d: "mm_find p (m_prevmap g) \<noteq> None \<and> mm_find r (m_rootmap g) \<noteq> None \<longleftrightarrow>
      p \<in> Domain (hg_rel g) \<and> r \<in> Range (hg_rel g)"
    by (simp only: mm_find_None Domain_hg_rel [OF inv] Range_hg_rel [OF inv] not_not)
  have "\<exists>g'. insert_head parse she g = Inr g' \<and>
    hg_rel g' = (if p \<in> Domain (hg_rel g) \<and> r \<in> Range (hg_rel g) then hg_rel g else insert (p, r) (hg_rel g))"
  proof (cases "p \<in> Domain (hg_rel g) \<and> r \<in> Range (hg_rel g)")
    case True
    with d have "insert_head parse she g = Inr g" using e pr by (simp add: insert_head_def)
    with True show ?thesis by simp
  next
    case False
    let ?g1 = "g\<lparr>m_prevmap := mm_insert p ?e (m_prevmap g), m_rootmap := mm_insert r ?e (m_rootmap g),
      m_roots := set_erase r (m_roots g)\<rparr>"
    let ?g' = "if mm_find p (m_rootmap ?g1) = None
      then ?g1\<lparr>m_roots := set_insert p (m_roots ?g1)\<rparr> else ?g1"
    from False d have "\<not> (mm_find p (m_prevmap g) \<noteq> None \<and> mm_find r (m_rootmap g) \<noteq> None)" by blast
    with pr have "insert_head parse she g = Inr ?g'"
      by (simp only: insert_head_def e sum.case lameedge.select_convs if_False Let_def)
    moreover have "hg_rel ?g' = insert (p, r) (hg_rel g)" by (simp add: hg_rel_def mm_insert_def)
    ultimately show ?thesis using False by (simp only: if_False) blast
  qed
  then show ?thesis using insert_head_inv [OF inv] by blast
qed

subsection \<open>Properties\<close>

text \<open>
  C12. On every graph built by insertions that has no cycle, the search for the furthest
  heads ends, and gives exactly the heads without successors that the start reaches.
\<close>

theorem head_furthest_correct:
  assumes "lhng_reach parse g" "acyclic (hg_rel g)"
  shows "\<exists>ns. head_furthest g hn = Some (Inr ns) \<and> distinct ns \<and> set ns = leaves g (start_nodes g hn)"
  by (rule head_furthest_leaves [OF lhng_reach_inv [OF assms(1)] assms(2)])

definition wit_parse :: he_parser where
  "wit_parse b =
     (case b of [p, r] \<Rightarrow> Some \<lparr>he_fstag = [9], he_rootref = [r], he_prevref = (if p = 0 then [] else [p]),
                                he_tstamp = 0\<rparr>
      | _ \<Rightarrow> None)"

definition wit_she :: "bytes \<Rightarrow> signedheadedge" where
  "wit_she b = \<lparr>she_headedge = b, she_keyid = [], she_signature = []\<rparr>"

definition wit_insert :: "bytes \<Rightarrow> lhng \<Rightarrow> lhng" where
  "wit_insert b g = (case insert_head wit_parse (wit_she b) g of Inr g' \<Rightarrow> g' | Inl _ \<Rightarrow> g)"

lemmas wit_defs = wit_insert_def insert_head_def LameEdge_def wit_parse_def wit_she_def lhng_empty_def
  mm_find_def mm_insert_def set_insert_def set_erase_def

lemma wit_insert_reach: "lhng_reach wit_parse g \<Longrightarrow> lhng_reach wit_parse (wit_insert b g)"
  by (auto simp: wit_insert_def split: sum.split intro: reach_insert)

lemma wit_chain: "lhng_reach wit_parse (wit_insert [1, 2] (wit_insert [0, 1] lhng_empty))"
    "hg_rel (wit_insert [1, 2] (wit_insert [0, 1] lhng_empty)) = {(([9], []), ([9], [1])), (([9], [1]), ([9], [2]))}"
  by (intro wit_insert_reach reach_empty) (auto simp: wit_defs hg_rel_def)

lemma wit_acyclic: "acyclic {(([9 :: byte], [] :: bytes), ([9 :: byte], [1 :: byte])), (([9], [1]), ([9], [2]))}"
  by (simp add: acyclic_insert rtrancl_insert wf_acyclic)

theorem head_furthest_correct_witness:
  "lhng_reach wit_parse (wit_insert [1, 2] (wit_insert [0, 1] lhng_empty)) \<and>
   acyclic (hg_rel (wit_insert [1, 2] (wit_insert [0, 1] lhng_empty))) \<and>
   (\<exists>ns. head_furthest (wit_insert [1, 2] (wit_insert [0, 1] lhng_empty)) ([9], []) = Some (Inr ns) \<and> distinct ns \<and>
      set ns = leaves (wit_insert [1, 2] (wit_insert [0, 1] lhng_empty))
        (start_nodes (wit_insert [1, 2] (wit_insert [0, 1] lhng_empty)) ([9], [])))"
  using head_furthest_correct [OF wit_chain(1), of "([9], [])"] wit_chain wit_acyclic by simp

text \<open>
  C35. When the start reaches only heads that have successors, which takes a cycle, the search
  for the furthest heads never ends.
\<close>

theorem head_furthest_diverges:
  assumes "lhng_reach parse g" "start_nodes g hn \<noteq> {}" "leaves g (start_nodes g hn) = {}"
  shows "head_furthest g hn = None"
proof (cases "furthest_loop g (furthest_seeds g hn)")
  case None
  then show ?thesis by (simp add: head_furthest_def)
next
  case (Some T)
  have inv: "lhng_inv g" by (rule lhng_reach_inv [OF assms(1)])
  have "set T = {}"
    using furthest_loop_leaves [OF inv Some] assms(3) by (simp add: set_furthest_seeds [OF inv])
  moreover have "furthest_seeds g hn \<noteq> []"
    using set_furthest_seeds [OF inv, of hn] assms(2) by auto
  ultimately show ?thesis using furthest_loop_nonempty [OF inv Some] by simp
qed

lemma wit_cycle: "lhng_reach wit_parse (wit_insert [2, 1] (wit_insert [1, 2] lhng_empty))"
    "hg_rel (wit_insert [2, 1] (wit_insert [1, 2] lhng_empty)) = {(([9], [1]), ([9], [2])), (([9], [2]), ([9], [1]))}"
  by (intro wit_insert_reach reach_empty) (auto simp: wit_defs hg_rel_def)

theorem head_furthest_diverges_witness:
  "head_furthest (wit_insert [2, 1] (wit_insert [1, 2] lhng_empty)) ([9], [1]) = None"
proof -
  let ?g = "wit_insert [2, 1] (wit_insert [1, 2] lhng_empty)"
  have s: "start_nodes ?g ([9], [1]) = {([9], [1])}" by (simp add: start_nodes_def wit_cycle(2))
  have "n = ([9], [1]) \<or> n = ([9], [2])" if "(([9], [1]), n) \<in> (hg_rel ?g)\<^sup>*" for n
    using that by (induction rule: rtrancl_induct) (auto simp: wit_cycle(2))
  moreover have "([9], [1]) \<in> Domain (hg_rel ?g)" "([9], [2]) \<in> Domain (hg_rel ?g)"
    by (auto simp: wit_cycle(2))
  ultimately have "leaves ?g (start_nodes ?g ([9], [1])) = {}"
    unfolding s leaves_def by blast
  with head_furthest_diverges [OF wit_cycle(1)] s show ?thesis by simp
qed

text \<open>
  C30. Following the edges from a node of a graph without a cycle ends; it reports not found
  when the start has no nodes, and otherwise exactly the edges the node reaches.
\<close>

theorem head_follow_correct:
  assumes "lhng_reach parse g" "acyclic (hg_rel g)"
  shows "if start_nodes g hn = {} then head_follow g hn = Some (Inl NotFoundError)
    else \<exists>shes. head_follow g hn = Some (Inr shes) \<and>
      set shes = le_she ` edges_from g (if snd hn = [] then start_nodes g hn else {hn})"
proof -
  have inv: "lhng_inv g" by (rule lhng_reach_inv [OF assms(1)])
  obtain seeds found where fs: "follow_seeds g hn = (seeds, found)" by fastforce
  have seeds: "set seeds = start_nodes g hn"
    using fs set_furthest_seeds [OF inv, of hn]
    by (auto simp: follow_seeds_def furthest_seeds_def Let_def split: if_splits)
  obtain T fnd where lp: "follow_loop g seeds found = Some (T, fnd)"
    using follow_loop_returns [OF inv assms(2), of seeds found] by auto
  have "head_follow g hn = Some (Inl NotFoundError)" if "start_nodes g hn = {}"
    using fs lp seeds that by (simp add: head_follow_def)
  moreover have "\<exists>shes. head_follow g hn = Some (Inr shes) \<and>
      set shes = le_she ` edges_from g (if snd hn = [] then start_nodes g hn else {hn})"
    if ne: "start_nodes g hn \<noteq> {}"
  proof -
    have "set found \<union> edges_from g (set seeds) = edges_from g (if snd hn = [] then start_nodes g hn else {hn})"
    proof (cases "snd hn = [] \<or> hn \<in> Range (hg_rel g)")
      case True
      then have "found = []" "snd hn \<noteq> [] \<longrightarrow> start_nodes g hn = {hn}"
        using fs by (auto simp: follow_seeds_def start_nodes_def Let_def mm_find_None Range_hg_rel [OF inv]
            split: if_splits)
      then show ?thesis using seeds by auto
    next
      case False
      then have "set found = set (mm_range hn (m_prevmap g))" "start_nodes g hn = hg_rel g `` {hn}"
        using fs by (auto simp: follow_seeds_def start_nodes_def Let_def mm_find_None Range_hg_rel [OF inv]
            split: if_splits)
      with False seeds edges_from_replace [OF inv, of hn "{hn}"] show ?thesis by simp
    qed
    with follow_loop_edges [OF inv lp] fs lp seeds ne show ?thesis by (auto simp: head_follow_def)
  qed
  ultimately show ?thesis by simp
qed

theorem head_follow_correct_witness:
  "\<exists>shes. head_follow (wit_insert [1, 2] (wit_insert [0, 1] lhng_empty)) ([9], [1]) = Some (Inr shes) \<and>
     set shes = le_she ` edges_from (wit_insert [1, 2] (wit_insert [0, 1] lhng_empty)) {([9], [1])}"
proof -
  let ?g = "wit_insert [1, 2] (wit_insert [0, 1] lhng_empty)"
  have "start_nodes ?g ([9], [1]) \<noteq> {}" by (auto simp: start_nodes_def wit_chain(2))
  with head_follow_correct [OF wit_chain(1), of "([9], [1])"] wit_acyclic wit_chain(2) show ?thesis by simp
qed

text \<open>
  What an accepted insertion does to the graph. The new edge is dropped whenever its
  tail already has some successor and its head already has some predecessor, also when the
  edge itself is not in the graph.
\<close>

theorem insert_head_effect:
  assumes "lhng_reach parse g" "parse (she_headedge she) = Some he" "he_prevref he \<noteq> he_rootref he"
  defines "p \<equiv> (he_fstag he, he_prevref he)" and "r \<equiv> (he_fstag he, he_rootref he)"
  shows "\<exists>g'. insert_head parse she g = Inr g' \<and> lhng_inv g' \<and>
    hg_rel g' = (if p \<in> Domain (hg_rel g) \<and> r \<in> Range (hg_rel g) then hg_rel g else insert (p, r) (hg_rel g))"
  unfolding p_def r_def
  by (rule insert_head_step [where parse = parse and she = she, OF lhng_reach_inv [OF assms(1)] assms(2,3)])

theorem insert_head_effect_witness:
  "\<exists>g'. insert_head wit_parse (wit_she [1, 4]) (wit_insert [3, 4] (wit_insert [1, 2] lhng_empty)) = Inr g' \<and>
     (([9], [1]), ([9], [4])) \<notin> hg_rel g'"
proof -
  let ?g = "wit_insert [3, 4] (wit_insert [1, 2] lhng_empty)"
  have r: "lhng_reach wit_parse ?g" by (intro wit_insert_reach reach_empty)
  have rel: "hg_rel ?g = {(([9], [1]), ([9], [2])), (([9], [3]), ([9], [4]))}"
    by (auto simp: wit_defs hg_rel_def)
  have he: "wit_parse (she_headedge (wit_she [1, 4])) =
      Some \<lparr>he_fstag = [9], he_rootref = [4], he_prevref = [1], he_tstamp = 0\<rparr>"
    by (simp add: wit_parse_def wit_she_def)
  obtain g' where "insert_head wit_parse (wit_she [1, 4]) ?g = Inr g'" "hg_rel g' = hg_rel ?g"
    using insert_head_effect [OF r he] by (auto simp: rel)
  then show ?thesis by (auto simp: rel)
qed

end
