(* ===== verification/FS_BlockStore.thy ===== *)
theory FS_BlockStore
  imports Base_Codec Head_Graph
begin

text \<open>
  The block store that keeps one file per block (\<^verbatim>\<open>modules/FSBlockStore/FSBlockStore.cpp\<close>).
  Its state is the accounting counters, the table of \<^verbatim>\<open>Entry\<close> objects, the list of
  entries from most to least recently used, the mark left by the last refresh cycle, the
  head graph, and the files of the \<^verbatim>\<open>BLOCKS\<close> directory and the \<^verbatim>\<open>HEADS\<close> file.

  \<^item> An \<^verbatim>\<open>Entry\<close> is shared by handle between the table, the list and the mark, so it is an
    identity (\<open>eid\<close>) in a store \<open>f_ent\<close> of entries. An entry is at most once in the list and
    its \<open>m_listpos\<close> names that cell, so erasing the position of an entry that is not in the
    list (a stale iterator) is undefined: \<^const>\<open>InvalidIterator\<close>.
  \<^item> The files are a map from entry names to contents and modification times, in seconds.
    What the operating system answers is the argument \<open>os\<close>: the clock, and whether each
    call fails. A key is not empty, as for every block the file system stores.
  \<^item> Each operation holds the mutex, so operations are atomic. An operation that completes
    with an exception returns the state it leaves behind and the exception.
\<close>

type_synonym eid = nat

record fentry =
  e_name :: string
  e_tstamp :: int
  e_size :: int

record fsbs =
  f_size :: int
  f_committed :: int
  f_uncommitted :: int
  f_ent :: "eid \<Rightarrow> fentry"
  f_neid :: eid
  f_entries :: "string \<Rightarrow> eid option"
  f_lru :: "eid list"
  f_mark :: "eid option"
  f_files :: "string \<Rightarrow> (bytes \<times> int) option"
  f_heads :: "string list"
  f_lhng :: lhng

record os =
  os_now :: int
  os_stat_ok :: bool
  os_open_ok :: bool
  os_write_n :: "nat option"
  os_restat_ok :: bool
  os_read_n :: "nat option"
  os_unlink_ok :: "string \<Rightarrow> bool"
  os_rename_ok :: bool
  os_utimes_ok :: bool

type_synonym 'a fs_result = "fsbs \<times> 'a res"

subsection \<open>Names\<close>

definition entryname :: "key \<Rightarrow> string" where
  "entryname i_key = Base32_encode i_key"

fun decimal :: "nat \<Rightarrow> string" where
  "decimal n = (if n < 10 then [char_of (48 + n)] else decimal (n div 10) @ [char_of (48 + n mod 10)])"

declare decimal.simps [simp del]

definition ridname :: "64 word \<Rightarrow> string" where
  "ridname i_rid = ''RID-'' @ decimal (unat i_rid)"

definition markname :: string where
  "markname = ''MARK''"

subsection \<open>Entries\<close>

definition touch_entry :: "string \<Rightarrow> int \<Rightarrow> int \<Rightarrow> fsbs \<Rightarrow> unit fs_result" where
  "touch_entry i_entry i_mtime i_size s =
     (case f_entries s i_entry of
        None \<Rightarrow>
          (let eh = f_neid s in
           (s\<lparr>f_ent := (f_ent s)(eh := \<lparr>e_name = i_entry, e_tstamp = i_mtime, e_size = i_size\<rparr>),
              f_neid := Suc eh,
              f_entries := (f_entries s)(i_entry \<mapsto> eh),
              f_lru := eh # f_lru s\<rparr>, Inr ()))
      | Some eh \<Rightarrow>
          if eh \<in> set (f_lru s) then
            (s\<lparr>f_lru := eh # remove1 eh (f_lru s),
               f_ent := (f_ent s)(eh := (f_ent s eh)\<lparr>e_tstamp := i_mtime\<rparr>)\<rparr>, Inr ())
          else (s, Inl InvalidIterator))"

definition purge_uncommitted :: "os \<Rightarrow> fsbs \<Rightarrow> unit fs_result" where
  "purge_uncommitted os s =
     (if f_lru s = [] then (s, Inl InternalError)
      else case f_mark s of
        None \<Rightarrow> (s, Inl InternalError)
      | Some mark \<Rightarrow>
          (let eh = last (f_lru s); ent = f_ent s eh in
           if e_tstamp ent > e_tstamp (f_ent s mark) then (s, Inl InternalError)
           else
             (let s1 = s\<lparr>f_lru := butlast (f_lru s)\<rparr> in
              if f_files s (e_name ent) = None \<or> \<not> os_unlink_ok os (e_name ent)
              then (s1, Inl InternalError)
              else (s1\<lparr>f_files := (f_files s1)(e_name ent := None),
                       f_uncommitted := f_uncommitted s1 - e_size ent\<rparr>, Inr ()))))"

lemma purge_uncommitted_shrinks:
  "purge_uncommitted os s = (s', Inr u) \<Longrightarrow> length (f_lru s') < length (f_lru s)"
  by (auto simp: purge_uncommitted_def Let_def split: if_splits option.splits)

text \<open>The loop of \<^verbatim>\<open>bs_block_put_async\<close> that makes room; \<open>need\<close> is the block size less what it replaces.\<close>

function purge_loop :: "os \<Rightarrow> int \<Rightarrow> fsbs \<Rightarrow> unit fs_result" where
  "purge_loop os need s =
     (if f_committed s + need + f_uncommitted s > f_size s then
        (case purge_uncommitted os s of
           (s1, Inl e) \<Rightarrow> (s1, Inl e)
         | (s1, Inr _) \<Rightarrow> purge_loop os need s1)
      else (s, Inr ()))"
  by pat_completeness auto
termination
  by (relation "measure (\<lambda>(os, need, s). length (f_lru s))")
    (auto intro: purge_uncommitted_shrinks [OF sym])

declare purge_loop.simps [simp del]

subsection \<open>Blocks\<close>

definition fs_block_get :: "os \<Rightarrow> key \<Rightarrow> nat \<Rightarrow> fsbs \<Rightarrow> bytes fs_result" where
  "fs_block_get os i_key i_buffsize s =
     (if i_key = [] then (s, Inl NotFoundError)
      else if \<not> os_stat_ok os then (s, Inl InternalError)
      else case f_files s (entryname i_key) of
        None \<Rightarrow> (s, Inl NotFoundError)
      | Some (dat, _) \<Rightarrow>
          if length dat > i_buffsize then (s, Inl ValueError)
          else (case os_read_n os of
                  None \<Rightarrow> (s, Inl InternalError)
                | Some n \<Rightarrow>
                    if min n (length dat) \<noteq> length dat then (s, Inl InternalError)
                    else (s, Inr dat)))"

text \<open>What \<^verbatim>\<open>stat\<close> says before the put: the previous size, and whether that block is newer than the mark.\<close>

definition put_prev :: "os \<Rightarrow> string \<Rightarrow> fsbs \<Rightarrow> int \<times> bool" where
  "put_prev os entry s =
     (case (if os_stat_ok os then f_files s entry else None) of
        None \<Rightarrow> (0, True)
      | Some (dat, mtime) \<Rightarrow>
          (int (length dat),
           case f_mark s of None \<Rightarrow> True | Some mark \<Rightarrow> \<not> e_tstamp (f_ent s mark) > mtime))"

definition put_account :: "int \<Rightarrow> bool \<Rightarrow> int \<Rightarrow> fsbs \<Rightarrow> fsbs" where
  "put_account prevsize wascommitted sz s =
     (let s1 = (if wascommitted then s\<lparr>f_committed := f_committed s - prevsize\<rparr>
                else s\<lparr>f_uncommitted := f_uncommitted s - prevsize\<rparr>)
      in s1\<lparr>f_committed := f_committed s1 + sz\<rparr>)"

definition fs_write_block :: "os \<Rightarrow> string \<Rightarrow> bytes \<Rightarrow> int \<Rightarrow> bool \<Rightarrow> fsbs \<Rightarrow> unit fs_result" where
  "fs_write_block os entry i_blkdata prevsize wascommitted s =
     (if \<not> os_open_ok os then (s, Inl InternalError)
      else case os_write_n os of
        None \<Rightarrow> (s\<lparr>f_files := (f_files s)(entry \<mapsto> ([], os_now os))\<rparr>, Inl InternalError)
      | Some n \<Rightarrow>
          (let dat = take n i_blkdata;
               s1 = s\<lparr>f_files := (f_files s)(entry \<mapsto> (dat, os_now os))\<rparr> in
           if \<not> os_restat_ok os then (s1, Inl InternalError)
           else
             (let mtime = os_now os; size = int (length dat)
              in touch_entry entry mtime size (put_account prevsize wascommitted size s1))))"

definition fs_block_put :: "os \<Rightarrow> key \<Rightarrow> bytes \<Rightarrow> fsbs \<Rightarrow> unit fs_result" where
  "fs_block_put os i_key i_blkdata s =
     (let entry = entryname i_key;
          (prevsize, wascommitted) = put_prev os entry s;
          prevcommited = (if wascommitted then prevsize else 0);
          blksize = int (length i_blkdata);
          avail = f_size s - f_committed s + prevcommited in
      if blksize > avail then (s, Inl NoSpaceError)
      else case purge_loop os (blksize - prevcommited) s of
        (s1, Inl e) \<Rightarrow> (s1, Inl e)
      | (s1, Inr _) \<Rightarrow> fs_write_block os entry i_blkdata prevsize wascommitted s1)"

definition fs_stat :: "fsbs \<Rightarrow> int \<times> int" where
  "fs_stat s = (f_size s, f_size s - f_committed s)"

subsection \<open>Refresh cycles\<close>

definition fs_refresh_start :: "os \<Rightarrow> 64 word \<Rightarrow> fsbs \<Rightarrow> unit fs_result" where
  "fs_refresh_start os i_rid s =
     (let rname = ridname i_rid in
      if os_stat_ok os \<and> f_files s rname \<noteq> None then (s, Inl NotUniqueError)
      else if \<not> os_open_ok os then (s, Inl InternalError)
      else
        (let f = (case f_files s rname of None \<Rightarrow> ([], os_now os) | Some x \<Rightarrow> x);
             s1 = s\<lparr>f_files := (f_files s)(rname \<mapsto> f)\<rparr> in
         if \<not> os_restat_ok os then (s1, Inl InternalError)
         else touch_entry rname (snd f) (int (length (fst f))) s1))"

text \<open>The result \<open>True\<close> is \<^verbatim>\<open>rb_complete\<close>, \<open>False\<close> is \<^verbatim>\<open>rb_missing\<close>.\<close>

definition fs_refresh_block :: "os \<Rightarrow> 64 word \<Rightarrow> key \<Rightarrow> fsbs \<Rightarrow> bool fs_result" where
  "fs_refresh_block os i_rid i_key s =
     (let rname = ridname i_rid; entry = entryname i_key in
      if \<not> os_stat_ok os \<or> f_files s rname = None then (s, Inl NotFoundError)
      else case f_files s entry of
        None \<Rightarrow> (s, Inr False)
      | Some (dat, _) \<Rightarrow>
          if \<not> os_utimes_ok os then (s, Inl InternalError)
          else
            (let s1 = s\<lparr>f_files := (f_files s)(entry \<mapsto> (dat, os_now os))\<rparr> in
             if \<not> os_restat_ok os then (s1, Inl InternalError)
             else (case touch_entry entry (os_now os) (int (length dat)) s1 of
                     (s2, Inl e) \<Rightarrow> (s2, Inl e)
                   | (s2, Inr _) \<Rightarrow> (s2, Inr True))))"

text \<open>The pass over the list that adds up the sizes before and after the mark.\<close>

fun add_up :: "(eid \<Rightarrow> fentry) \<Rightarrow> eid list \<Rightarrow> bool \<Rightarrow> int \<Rightarrow> int \<Rightarrow> int \<times> int" where
  "add_up ent [] saw_mark committed uncommitted = (committed, uncommitted)"
| "add_up ent (eh # es) saw_mark committed uncommitted =
     (if saw_mark then add_up ent es True committed (uncommitted + e_size (ent eh))
      else if e_name (ent eh) = markname then add_up ent es True committed uncommitted
      else add_up ent es False (committed + e_size (ent eh)) uncommitted)"

definition remove_mark_entry :: "fsbs \<Rightarrow> unit fs_result" where
  "remove_mark_entry s =
     (case f_entries s markname of
        None \<Rightarrow> (s, Inr ())
      | Some meh \<Rightarrow>
          (let s1 = s\<lparr>f_entries := (f_entries s)(markname := None)\<rparr> in
           if meh \<in> set (f_lru s) then (s1\<lparr>f_lru := remove1 meh (f_lru s1)\<rparr>, Inr ())
           else (s1, Inl InvalidIterator)))"

definition fs_refresh_finish :: "os \<Rightarrow> 64 word \<Rightarrow> fsbs \<Rightarrow> unit fs_result" where
  "fs_refresh_finish os i_rid s =
     (let rname = ridname i_rid in
      if \<not> os_stat_ok os \<or> f_files s rname = None then (s, Inl NotFoundError)
      else if \<not> os_rename_ok os then (s, Inl InternalError)
      else
        (let s1 = s\<lparr>f_files := (f_files s)(markname := f_files s rname, rname := None)\<rparr> in
         case remove_mark_entry s1 of
           (s2, Inl e) \<Rightarrow> (s2, Inl e)
         | (s2, Inr _) \<Rightarrow>
             (case f_entries s2 rname of
                None \<Rightarrow> (s2, Inl InternalError)
              | Some reh \<Rightarrow>
                  (let s3 = s2\<lparr>f_ent := (f_ent s2)(reh := (f_ent s2 reh)\<lparr>e_name := markname\<rparr>),
                              f_entries := (f_entries s2)(rname := None, markname \<mapsto> reh),
                              f_mark := Some reh\<rparr>;
                       (c, u) = add_up (f_ent s3) (f_lru s3) False 0 0
                   in (s3\<lparr>f_committed := c, f_uncommitted := u\<rparr>, Inr ())))))"

subsection \<open>Heads\<close>

definition write_head :: "(signedheadedge \<Rightarrow> bytes) \<Rightarrow> signedheadedge \<Rightarrow> fsbs \<Rightarrow> fsbs" where
  "write_head serialize i_she s = s\<lparr>f_heads := f_heads s @ [Base64_encode (serialize i_she)]\<rparr>"

definition fs_head_insert ::
    "(signedheadedge \<Rightarrow> bytes) \<Rightarrow> he_parser \<Rightarrow> signedheadedge \<Rightarrow> fsbs \<Rightarrow> unit fs_result" where
  "fs_head_insert serialize parse i_she s =
     (let s1 = write_head serialize i_she s in
      case insert_head parse i_she (f_lhng s1) of
        Inl e \<Rightarrow> (s1, Inl e)
      | Inr g \<Rightarrow> (s1\<lparr>f_lhng := g\<rparr>, Inr ()))"

definition fs_head_follow :: "headnode \<Rightarrow> fsbs \<Rightarrow> signedheadedge list res option" where
  "fs_head_follow i_hn s = head_follow (f_lhng s) i_hn"

definition fs_head_furthest :: "headnode \<Rightarrow> fsbs \<Rightarrow> headnode list res option" where
  "fs_head_furthest i_hn s = head_furthest (f_lhng s) i_hn"

subsection \<open>Creating and opening\<close>

text \<open>The constructor, and \<^verbatim>\<open>bs_create\<close>: \<open>exists\<close> says whether \<^verbatim>\<open>stat\<close> finds the path.\<close>

definition fs_ctor :: fsbs where
  "fs_ctor =
     \<lparr>f_size = 0, f_committed = 0, f_uncommitted = 0,
      f_ent = (\<lambda>_. \<lparr>e_name = [], e_tstamp = 0, e_size = 0\<rparr>), f_neid = 0,
      f_entries = Map.empty, f_lru = [], f_mark = None, f_files = Map.empty,
      f_heads = [], f_lhng = lhng_empty\<rparr>"

definition fs_create :: "bool \<Rightarrow> bool \<Rightarrow> bool \<Rightarrow> int \<Rightarrow> fsbs \<Rightarrow> unit fs_result" where
  "fs_create exists mkdir_ok heads_ok i_size s =
     (if exists then (s, Inl NotUniqueError)
      else
        (let s1 = s\<lparr>f_size := i_size, f_uncommitted := 0, f_committed := 0\<rparr> in
         if \<not> mkdir_ok then (s1, Inl InternalError)
         else if \<not> heads_ok then (s1, Inl InternalError)
         else (s1\<lparr>f_files := Map.empty, f_heads := []\<rparr>, Inr ())))"

text \<open>
  \<^verbatim>\<open>bs_open\<close>. What the operating system shows is a record: what \<^verbatim>\<open>stat\<close> says of the path,
  the number in the \<^verbatim>\<open>SIZE\<close> file, the entries of the directory in the order they are read,
  each with its contents and time unless its \<^verbatim>\<open>stat\<close> fails, and the lines of the \<^verbatim>\<open>HEADS\<close>
  file. The multiset keeps entries of equal time in insertion order, and the list is filled
  from the newest.
\<close>

datatype path_stat = PMissing | PNotDir | PDir

record fsdir =
  d_stat :: path_stat
  d_size :: int
  d_open_ok :: bool
  d_entries :: "(string \<times> (bytes \<times> int) option) list"
  d_heads :: "string list"
  d_heads_ok :: bool

definition dot_entry :: "string \<Rightarrow> bool" where
  "dot_entry entry \<longleftrightarrow> entry = ''.'' \<or> entry = ''..''"

fun open_entries ::
    "(string \<times> (bytes \<times> int) option) list \<Rightarrow> fsbs \<Rightarrow> eid list \<Rightarrow> (fsbs \<times> eid list) res" where
  "open_entries [] s ets = Inr (s, ets)"
| "open_entries ((entry, st) # dir) s ets =
     (if dot_entry entry then open_entries dir s ets
      else case st of
        None \<Rightarrow> Inl InternalError
      | Some (dat, mtime) \<Rightarrow>
          (let eh = f_neid s;
               s1 = s\<lparr>f_ent := (f_ent s)(eh := \<lparr>e_name = entry, e_tstamp = mtime,
                                                  e_size = int (length dat)\<rparr>),
                      f_neid := Suc eh, f_entries := (f_entries s)(entry \<mapsto> eh),
                      f_files := (f_files s)(entry \<mapsto> (dat, mtime))\<rparr>
           in open_entries dir s1 (ets @ [eh])))"

fun open_heads ::
    "he_parser \<Rightarrow> (bytes \<Rightarrow> signedheadedge option) \<Rightarrow> string list \<Rightarrow> lhng \<Rightarrow> lhng res" where
  "open_heads parse parse_she [] g = Inr g"
| "open_heads parse parse_she (linebuf # ls) g =
     (case parse_she (Base64_decode linebuf) of
        None \<Rightarrow> Inl InternalError
      | Some she \<Rightarrow>
          (case insert_head parse she g of
             Inl e \<Rightarrow> Inl e
           | Inr g' \<Rightarrow> open_heads parse parse_she ls g'))"

definition fs_open ::
    "he_parser \<Rightarrow> (bytes \<Rightarrow> signedheadedge option) \<Rightarrow> string list \<Rightarrow> fsdir \<Rightarrow> fsbs res" where
  "fs_open parse parse_she i_args d =
     (if i_args = [] then Inl ValueError
      else if d_stat d \<noteq> PDir then Inl NotFoundError
      else if \<not> d_open_ok d then Inl InternalError
      else case open_entries (d_entries d) (fs_ctor\<lparr>f_size := d_size d\<rparr>) [] of
        Inl e \<Rightarrow> Inl e
      | Inr (s1, ets) \<Rightarrow>
          (let lru = rev (sort_key (\<lambda>e. e_tstamp (f_ent s1 e)) ets);
               (c, u) = add_up (f_ent s1) lru False 0 0;
               s2 = s1\<lparr>f_lru := lru, f_committed := c, f_uncommitted := u,
                       f_mark := find (\<lambda>e. e_name (f_ent s1 e) = markname) lru,
                       f_heads := d_heads d\<rparr>
           in case open_heads parse parse_she (d_heads d) lhng_empty of
                Inl e \<Rightarrow> Inl e
              | Inr g \<Rightarrow> if d_heads_ok d then Inr (s2\<lparr>f_lhng := g\<rparr>) else Inl InternalError))"

text \<open>
  \<^verbatim>\<open>destroy\<close> removes a store from the disk. Its state is which of the files and directories
  are still there; \<open>rm n\<close> says whether removing \<open>n\<close> succeeds.
\<close>

record fstree =
  t_top :: path_stat
  t_size :: path_stat
  t_heads :: bool
  t_blocks :: "string list option"

fun destroy_blocks :: "(string \<Rightarrow> bool) \<Rightarrow> string list \<Rightarrow> string list \<times> unit res" where
  "destroy_blocks rm [] = ([], Inr ())"
| "destroy_blocks rm (entry # es) =
     (if dot_entry entry then destroy_blocks rm es
      else if rm entry then destroy_blocks rm es
      else (entry # filter (\<lambda>e. \<not> dot_entry e) es, Inl InternalError))"

definition fs_destroy :: "(string \<Rightarrow> bool) \<Rightarrow> fstree \<Rightarrow> fstree \<times> unit res" where
  "fs_destroy rm t =
     (if t_top t \<noteq> PDir then (t, Inl NotFoundError)
      else if t_size t \<noteq> PNotDir then (t, Inl NotFoundError)
      else if \<not> rm ''SIZE'' then (t, Inl InternalError)
      else
        (let t1 = t\<lparr>t_size := PMissing\<rparr> in
         if \<not> (t_heads t1 \<and> rm ''HEADS'') then (t1, Inl InternalError)
         else
           (let t2 = t1\<lparr>t_heads := False\<rparr> in
            case t_blocks t2 of
              None \<Rightarrow> (t2, Inl InternalError)
            | Some es \<Rightarrow>
                (case destroy_blocks rm es of
                   (es1, Inl e) \<Rightarrow> (t2\<lparr>t_blocks := Some es1\<rparr>, Inl e)
                 | (es1, Inr _) \<Rightarrow>
                     (let t3 = t2\<lparr>t_blocks := Some es1\<rparr> in
                      if \<not> rm ''BLOCKS'' then (t3, Inl InternalError)
                      else
                        (let t4 = t3\<lparr>t_blocks := None\<rparr> in
                         if \<not> rm [] then (t4, Inl InternalError)
                         else (t4\<lparr>t_top := PMissing\<rparr>, Inr ())))))))"

subsection \<open>Names of blocks and of cycles\<close>

lemma entryname_inj: "entryname k = entryname k' \<longleftrightarrow> k = k'"
  unfolding entryname_def by (metis Base32_decode_encode)

lemma length_Base32_encode: "length (Base32_encode bs) mod 8 = 0"
  by (induction bs rule: Base32_encode.induct) (simp_all add: length_chunkEncode)

lemma b32_MAP_no_dash: "unat v < 2 ^ 5 \<Longrightarrow> b32_MAP v \<noteq> CHR ''-''"
  by (rule byte_cases_lt [where k = 32]) (simp, code_simp)

lemma chunkEncode_no_dash: "bs \<noteq> [] \<Longrightarrow> CHR ''-'' \<notin> set (chunkEncode bs)"
proof -
  note m = b32_MAP_no_dash [OF b32_lt(1)] b32_MAP_no_dash [OF b32_lt(2)]
    b32_MAP_no_dash [OF b32_lt(3)] b32_MAP_no_dash [OF b32_lt(4)] b32_MAP_no_dash [OF b32_lt(5)]
    b32_MAP_no_dash [OF b32_lt(6)] b32_MAP_no_dash [OF b32_lt(7)] b32_MAP_no_dash [OF b32_lt(8)]
  show ?thesis by (simp add: chunkEncode_def Let_def m [symmetric])
qed

lemma Base32_encode_no_dash: "CHR ''-'' \<notin> set (Base32_encode bs)"
  by (induction bs rule: Base32_encode.induct) (simp_all add: chunkEncode_no_dash)

text \<open>The names the refresh cycles use.\<close>

definition meta_name :: "string \<Rightarrow> bool" where
  "meta_name n \<longleftrightarrow> n = markname \<or> take 4 n = ''RID-''"

lemma meta_name_simps [simp]:
  "meta_name markname" "meta_name (ridname r)" "ridname r \<noteq> markname" "markname \<noteq> ridname r"
  by (simp_all add: meta_name_def markname_def ridname_def)

lemma entryname_not_meta [simp]: "\<not> meta_name (entryname k)"
proof
  assume "meta_name (entryname k)"
  then consider "length (entryname k) = 4" | "CHR ''-'' \<in> set (take 4 (entryname k))"
    by (auto simp: meta_name_def markname_def)
  then show False
  proof cases
    case 1
    with length_Base32_encode [of k] show False by (simp add: entryname_def)
  next
    case 2
    with Base32_encode_no_dash [of k] show False by (auto simp: entryname_def dest: in_set_takeD)
  qed
qed

lemma entryname_meta_neq [simp]:
  "entryname k \<noteq> markname" "entryname k \<noteq> ridname r" "markname \<noteq> entryname k" "ridname r \<noteq> entryname k"
  by (metis entryname_not_meta meta_name_simps(1,2))+

subsection \<open>Invariant\<close>

definition lru_names :: "fsbs \<Rightarrow> string set" where
  "lru_names s = (\<lambda>e. e_name (f_ent s e)) ` set (f_lru s)"

definition lru_bytes :: "fsbs \<Rightarrow> int" where
  "lru_bytes s = (\<Sum>e \<leftarrow> f_lru s. e_size (f_ent s e))"

text \<open>The table and the list agree on names, and entries are allocated below \<open>f_neid\<close>.\<close>

definition fs_tab :: "fsbs \<Rightarrow> bool" where
  "fs_tab s \<longleftrightarrow>
     distinct (f_lru s) \<and>
     (\<forall>e \<in> set (f_lru s). f_entries s (e_name (f_ent s e)) = Some e) \<and>
     (\<forall>n e. f_entries s n = Some e \<longrightarrow> e < f_neid s \<and> e_name (f_ent s e) = n)"

text \<open>
  A file exists exactly for the entries of the list, with the size and the time its entry
  records. Blocks have the one size \<open>B\<close>, and the files of the refresh cycles are empty. The
  mark, when it is set, is an allocated entry.
\<close>

definition fs_file_ok :: "nat \<Rightarrow> fentry \<Rightarrow> (bytes \<times> int) option \<Rightarrow> bool" where
  "fs_file_ok B ent f \<longleftrightarrow>
     (\<exists>d. f = Some (d, e_tstamp ent) \<and> e_size ent = int (length d) \<and>
          length d = (if meta_name (e_name ent) then 0 else B))"

definition fs_inv :: "nat \<Rightarrow> fsbs \<Rightarrow> bool" where
  "fs_inv B s \<longleftrightarrow> fs_tab s \<and> dom (f_files s) = lru_names s \<and>
     (\<forall>e \<in> set (f_lru s). fs_file_ok B (f_ent s e) (f_files s (e_name (f_ent s e))))"

text \<open>The counters account for every byte on disk, and stay within the size of the store.\<close>

definition fs_acct :: "fsbs \<Rightarrow> bool" where
  "fs_acct s \<longleftrightarrow> f_committed s + f_uncommitted s = lru_bytes s \<and> lru_bytes s \<le> f_size s"

text \<open>An operating system that fails no call and cuts no transfer short.\<close>

definition os_fine :: "nat \<Rightarrow> os \<Rightarrow> bool" where
  "os_fine B os \<longleftrightarrow> os_stat_ok os \<and> os_open_ok os \<and> os_restat_ok os \<and> os_rename_ok os \<and>
     os_utimes_ok os \<and> (\<forall>n. os_unlink_ok os n) \<and>
     (\<exists>n \<ge> B. os_write_n os = Some n) \<and> (\<exists>n \<ge> B. os_read_n os = Some n)"

lemma fs_tab_lru: "fs_tab s \<Longrightarrow> e \<in> set (f_lru s) \<Longrightarrow> f_entries s (e_name (f_ent s e)) = Some e"
  by (simp add: fs_tab_def)

lemma fs_tab_names_inj:
  assumes "fs_tab s" "e \<in> set (f_lru s)" "e' \<in> set (f_lru s)" "e_name (f_ent s e) = e_name (f_ent s e')"
  shows "e = e'"
  using fs_tab_lru [OF assms(1,2)] fs_tab_lru [OF assms(1,3)] assms(4) by (metis option.inject)

lemma butlast_last_mem:
  assumes "xs \<noteq> []" "distinct xs"
  shows "set (butlast xs) = set xs - {last xs}"
proof -
  from assms(1) have eq: "butlast xs @ [last xs] = xs" by (rule append_butlast_last_id)
  then have "distinct (butlast xs @ [last xs])" using assms(2) by simp
  moreover have "set xs = insert (last xs) (set (butlast xs))" by (subst eq [symmetric]) simp
  ultimately show ?thesis by auto
qed

lemma sum_list_butlast:
  assumes "xs \<noteq> []"
  shows "(\<Sum>x \<leftarrow> butlast xs. f x) = (\<Sum>x \<leftarrow> xs. f x) - (f (last xs) :: int)"
proof -
  have "(\<Sum>x \<leftarrow> butlast xs @ [last xs]. f x) = (\<Sum>x \<leftarrow> xs. f x)"
    by (simp only: append_butlast_last_id [OF assms])
  then show ?thesis by simp
qed

lemma sum_list_remove1:
  "x \<in> set xs \<Longrightarrow> (\<Sum>y \<leftarrow> remove1 x xs. f y) = (\<Sum>y \<leftarrow> xs. f y) - (f x :: int)"
  by (induction xs) auto

subsection \<open>Purging\<close>

lemma purge_uncommitted_okE:
  assumes "purge_uncommitted os s = (s', Inr u)"
  obtains mark where "f_lru s \<noteq> []" "f_mark s = Some mark"
    "e_tstamp (f_ent s (last (f_lru s))) \<le> e_tstamp (f_ent s mark)"
    "s' = s\<lparr>f_lru := butlast (f_lru s), f_files := (f_files s)(e_name (f_ent s (last (f_lru s))) := None),
            f_uncommitted := f_uncommitted s - e_size (f_ent s (last (f_lru s)))\<rparr>"
  using assms by (auto simp: purge_uncommitted_def Let_def split: if_splits option.splits)

lemma purge_uncommitted_inv:
  assumes inv: "fs_inv B s" and run: "purge_uncommitted os s = (s', Inr u)"
  shows "fs_inv B s'"
proof -
  let ?l = "last (f_lru s)"
  from run obtain mark where ne: "f_lru s \<noteq> []"
    and s': "s' = s\<lparr>f_lru := butlast (f_lru s), f_files := (f_files s)(e_name (f_ent s ?l) := None),
                   f_uncommitted := f_uncommitted s - e_size (f_ent s ?l)\<rparr>"
    by (rule purge_uncommitted_okE)
  from inv have tab: "fs_tab s" and d: "distinct (f_lru s)"
    by (simp_all add: fs_inv_def fs_tab_def)
  have rest: "set (f_lru s') = set (f_lru s) - {?l}"
    using butlast_last_mem [OF ne d] by (simp add: s')
  have "?l \<in> set (f_lru s)" using ne by simp
  then have other: "e_name (f_ent s e) \<noteq> e_name (f_ent s ?l)" if "e \<in> set (f_lru s) - {?l}" for e
    using that fs_tab_names_inj [OF tab, of e ?l] by auto
  have "fs_tab s'"
    using tab rest d unfolding fs_tab_def by (simp add: s' distinct_butlast)
  moreover have "lru_names s' = lru_names s - {e_name (f_ent s ?l)}"
    using rest other unfolding lru_names_def by (auto simp: s')
  ultimately show "fs_inv B s'"
    using inv rest other unfolding fs_inv_def by (auto simp: s')
qed

lemma purge_uncommitted_bytes:
  assumes "purge_uncommitted os s = (s', Inr u)"
  shows "lru_bytes s' - f_uncommitted s' = lru_bytes s - f_uncommitted s"
  using assms by (rule purge_uncommitted_okE) (simp add: lru_bytes_def sum_list_butlast)

lemma purge_uncommitted_err:
  assumes "fs_inv B s" "os_fine B os" "purge_uncommitted os s = (s', Inl e)"
  shows "s' = s \<and> e = InternalError"
proof -
  have "f_files s (e_name (f_ent s (last (f_lru s)))) \<noteq> None" if "f_lru s \<noteq> []"
    using assms(1) that unfolding fs_inv_def fs_file_ok_def by force
  with assms(2,3) show ?thesis
    by (auto simp: purge_uncommitted_def Let_def os_fine_def split: if_splits option.splits)
qed

text \<open>What every step of the loop keeps is kept by the loop, whether it makes room or gives up.\<close>

lemma purge_loop_keeps:
  assumes "P s"
    and "\<And>s1 s2 r. P s1 \<Longrightarrow> purge_uncommitted os s1 = (s2, r) \<Longrightarrow> P s2"
    and "purge_loop os need s = (s', r)"
  shows "P s'"
  using assms(1,3)
proof (induction "length (f_lru s)" arbitrary: s rule: less_induct)
  case less
  show ?case
  proof (cases "f_committed s + need + f_uncommitted s > f_size s")
    case False
    with less.prems show ?thesis by (simp add: purge_loop.simps [of os need s])
  next
    case True
    obtain s1 r1 where p: "purge_uncommitted os s = (s1, r1)" by fastforce
    have P1: "P s1" by (rule assms(2) [OF less.prems(1) p])
    show ?thesis
    proof (cases r1)
      case (Inl e)
      with less.prems(2) True p P1 show ?thesis by (simp add: purge_loop.simps [of os need s])
    next
      case (Inr u)
      then have "length (f_lru s1) < length (f_lru s)" using p purge_uncommitted_shrinks by blast
      moreover have "purge_loop os need s1 = (s', r)"
        using less.prems(2) True p Inr by (simp add: purge_loop.simps [of os need s])
      ultimately show ?thesis using less.hyps P1 by blast
    qed
  qed
qed

lemma purge_loop_room:
  assumes "purge_loop os need s = (s', Inr u)"
  shows "f_committed s' + need + f_uncommitted s' \<le> f_size s'"
  using assms
  by (induction os need s rule: purge_loop.induct)
    (subst (asm) purge_loop.simps, auto split: if_splits prod.splits sum.splits)

text \<open>What purging leaves alone.\<close>

definition purge_frame :: "fsbs \<Rightarrow> fsbs \<Rightarrow> bool" where
  "purge_frame s s' \<longleftrightarrow>
     f_committed s' = f_committed s \<and> f_size s' = f_size s \<and> f_entries s' = f_entries s \<and>
     f_ent s' = f_ent s \<and> f_mark s' = f_mark s \<and> f_neid s' = f_neid s \<and>
     f_files s' \<subseteq>\<^sub>m f_files s \<and> f_heads s' = f_heads s \<and> f_lhng s' = f_lhng s"

lemma purge_uncommitted_frame:
  "purge_uncommitted os s = (s', r) \<Longrightarrow> purge_frame s s'"
  by (auto simp: purge_uncommitted_def purge_frame_def Let_def map_le_def
      split: if_splits option.splits)

lemma purge_frame_trans: "purge_frame s s1 \<Longrightarrow> purge_frame s1 s2 \<Longrightarrow> purge_frame s s2"
  unfolding purge_frame_def by (metis map_le_trans)

lemma purge_loop_frame: "purge_loop os need s = (s', r) \<Longrightarrow> purge_frame s s'"
  by (rule purge_loop_keeps [where P = "purge_frame s"])
    (auto simp: purge_frame_def [of s s] intro: purge_frame_trans purge_uncommitted_frame)

lemma fs_inv_last:
  "fs_inv B s \<Longrightarrow> f_lru s \<noteq> [] \<Longrightarrow>
   fs_file_ok B (f_ent s (last (f_lru s))) (f_files s (e_name (f_ent s (last (f_lru s)))))"
  by (simp add: fs_inv_def)

lemma purge_uncommitted_acct:
  assumes "fs_inv B s" "fs_acct s" "os_fine B os" "purge_uncommitted os s = (s', r)"
  shows "fs_inv B s' \<and> fs_acct s'"
proof (cases r)
  case (Inl e)
  with purge_uncommitted_err assms show ?thesis by blast
next
  case (Inr u)
  note run = assms(4) [unfolded Inr]
  have "e_size (f_ent s (last (f_lru s))) \<ge> 0"
  proof -
    from run have "f_lru s \<noteq> []" by (rule purge_uncommitted_okE)
    from fs_inv_last [OF assms(1) this] show ?thesis by (auto simp: fs_file_ok_def)
  qed
  moreover from run have "lru_bytes s' = lru_bytes s - e_size (f_ent s (last (f_lru s)))"
    by (rule purge_uncommitted_okE) (simp add: lru_bytes_def sum_list_butlast)
  ultimately have "fs_acct s'"
    using assms(2) purge_uncommitted_bytes [OF run] purge_uncommitted_frame [OF run]
    by (simp add: fs_acct_def purge_frame_def)
  with purge_uncommitted_inv [OF assms(1) run] show ?thesis by simp
qed

lemma purge_loop_acct:
  assumes "fs_inv B s" "fs_acct s" "os_fine B os" "purge_loop os need s = (s', r)"
  shows "fs_inv B s' \<and> fs_acct s'"
  by (rule purge_loop_keeps [where P = "\<lambda>s. fs_inv B s \<and> fs_acct s", OF _ _ assms(4)])
    (use assms purge_uncommitted_acct in blast)+

text \<open>A file newer than the mark, and every file when there is no mark, survives the purging.\<close>

definition newer_than_mark :: "fsbs \<Rightarrow> int \<Rightarrow> bool" where
  "newer_than_mark s t \<longleftrightarrow> (\<forall>m. f_mark s = Some m \<longrightarrow> e_tstamp (f_ent s m) < t)"

lemma purge_uncommitted_survives:
  assumes "fs_inv B s" "f_files s n = Some (d, t)" "newer_than_mark s t"
    "purge_uncommitted os s = (s', r)"
  shows "f_files s' n = Some (d, t)"
proof (cases r)
  case (Inl e)
  with assms show ?thesis
    by (auto simp: purge_uncommitted_def Let_def split: if_splits option.splits)
next
  case (Inr u)
  let ?l = "f_ent s (last (f_lru s))"
  from assms(4) Inr obtain mark where *: "f_lru s \<noteq> []" "f_mark s = Some mark"
    "e_tstamp ?l \<le> e_tstamp (f_ent s mark)" "f_files s' = (f_files s)(e_name ?l := None)"
    by (auto elim!: purge_uncommitted_okE)
  have "f_files s (e_name ?l) \<noteq> Some (d, t)"
    using fs_inv_last [OF assms(1) *(1)] assms(3) * by (auto simp: fs_file_ok_def newer_than_mark_def)
  with * assms(2) show ?thesis by auto
qed

lemma purge_loop_survives:
  assumes "fs_inv B s" "fs_acct s" "os_fine B os" "f_files s n = Some (d, t)" "newer_than_mark s t"
    "purge_loop os need s = (s', r)"
  shows "f_files s' n = Some (d, t)"
proof -
  let ?P = "\<lambda>s. fs_inv B s \<and> fs_acct s \<and> f_files s n = Some (d, t) \<and> newer_than_mark s t"
  have "?P s2" if "?P s1" "purge_uncommitted os s1 = (s2, r1)" for s1 s2 r1
    using that purge_uncommitted_acct [OF _ _ assms(3) that(2)]
      purge_uncommitted_survives [OF _ _ _ that(2)] purge_uncommitted_frame [OF that(2)]
    by (auto simp: newer_than_mark_def purge_frame_def)
  then have "?P s'"
    using assms by (intro purge_loop_keeps [where P = ?P, OF _ _ assms(6)]) blast+
  then show ?thesis by blast
qed

subsection \<open>Touching an entry\<close>

lemma fs_inv_file:
  assumes "fs_inv B s" "f_files s n = Some (d, t)"
  obtains e where "e \<in> set (f_lru s)" "e_name (f_ent s e) = n" "f_entries s n = Some e"
    "e_tstamp (f_ent s e) = t" "e_size (f_ent s e) = int (length d)"
    "length d = (if meta_name n then 0 else B)"
proof -
  from assms have "n \<in> lru_names s" unfolding fs_inv_def by blast
  then obtain e where e: "e \<in> set (f_lru s)" "e_name (f_ent s e) = n" by (auto simp: lru_names_def)
  with assms have "fs_file_ok B (f_ent s e) (f_files s n)" "f_entries s n = Some e"
    unfolding fs_inv_def fs_tab_def by blast+
  with e assms(2) that show ?thesis by (auto simp: fs_file_ok_def)
qed

text \<open>Writing a file and touching its entry, in a state that agrees with \<open>s\<close> on everything else.\<close>

definition same_table :: "fsbs \<Rightarrow> fsbs \<Rightarrow> bool" where
  "same_table s s1 \<longleftrightarrow> f_ent s1 = f_ent s \<and> f_neid s1 = f_neid s \<and> f_entries s1 = f_entries s \<and>
     f_lru s1 = f_lru s"

lemma touch_entry_counters:
  "touch_entry n t sz s = (s', r) \<Longrightarrow>
   f_committed s' = f_committed s \<and> f_uncommitted s' = f_uncommitted s \<and> f_size s' = f_size s \<and>
   f_mark s' = f_mark s \<and> f_files s' = f_files s"
  by (auto simp: touch_entry_def Let_def split: option.splits if_splits)

lemma touch_entry_new:
  assumes inv: "fs_inv B s" and st: "same_table s s1" and new: "f_entries s n = None"
    and f: "f_files s1 = (f_files s)(n \<mapsto> (d, t))" and len: "length d = (if meta_name n then 0 else B)"
    and run: "touch_entry n t (int (length d)) s1 = (s2, Inr u)"
  shows "fs_inv B s2" "lru_bytes s2 = lru_bytes s + int (length d)" "n \<notin> dom (f_files s)"
proof -
  have s2: "f_ent s2 = (f_ent s)(f_neid s := \<lparr>e_name = n, e_tstamp = t, e_size = int (length d)\<rparr>)"
    "f_lru s2 = f_neid s # f_lru s" "f_entries s2 = (f_entries s)(n \<mapsto> f_neid s)"
    "f_neid s2 = Suc (f_neid s)" "f_files s2 = (f_files s)(n \<mapsto> (d, t))"
    using run new st f by (auto simp: touch_entry_def same_table_def Let_def)
  have old: "e < f_neid s \<and> e_name (f_ent s e) \<noteq> n" if "e \<in> set (f_lru s)" for e
  proof -
    have "f_entries s (e_name (f_ent s e)) = Some e" using inv that by (simp add: fs_inv_def fs_tab_def)
    moreover from this have "e < f_neid s" using inv unfolding fs_inv_def fs_tab_def by blast
    ultimately show ?thesis using new by force
  qed
  then have fresh: "f_neid s \<notin> set (f_lru s)" by blast
  have other: "f_ent s2 e = f_ent s e" if "e < f_neid s" for e using that by (simp add: s2)
  have "e < f_neid s2 \<and> e_name (f_ent s2 e) = m" if "f_entries s2 m = Some e" for m e
  proof (cases "m = n")
    case True
    with that show ?thesis by (simp add: s2)
  next
    case False
    with that have "f_entries s m = Some e" by (simp add: s2)
    then have "e < f_neid s \<and> e_name (f_ent s e) = m" using inv by (simp add: fs_inv_def fs_tab_def)
    then show ?thesis by (simp add: s2)
  qed
  moreover have "f_entries s2 (e_name (f_ent s2 e)) = Some e" if "e \<in> set (f_lru s2)" for e
    using that old [of e] inv by (auto simp: s2 fs_inv_def fs_tab_def)
  moreover have "distinct (f_lru s2)" using inv fresh by (simp add: s2 fs_inv_def fs_tab_def)
  ultimately have "fs_tab s2" unfolding fs_tab_def by blast
  moreover have "lru_names s2 = insert n (lru_names s)"
    unfolding lru_names_def using old by (force simp: s2)
  ultimately show "fs_inv B s2"
    using inv len fresh old unfolding fs_inv_def by (auto simp: s2 fs_file_ok_def)
  have "(\<Sum>e \<leftarrow> f_lru s. e_size (f_ent s2 e)) = lru_bytes s"
    unfolding lru_bytes_def by (rule arg_cong [where f = sum_list], rule map_cong) (use old other in auto)
  then show "lru_bytes s2 = lru_bytes s + int (length d)"
    by (simp add: lru_bytes_def [of s2] s2)
  show "n \<notin> dom (f_files s)" using inv new by (metis domD fs_inv_file option.distinct(1) surj_pair)
qed

lemma touch_entry_old:
  assumes inv: "fs_inv B s" and st: "same_table s s1" and old: "f_entries s n = Some eh"
    and f: "f_files s1 = (f_files s)(n \<mapsto> (d, t))" and len: "length d = (if meta_name n then 0 else B)"
    and run: "touch_entry n t (int (length d)) s1 = (s2, Inr u)"
  shows "fs_inv B s2" "lru_bytes s2 = lru_bytes s" "n \<in> dom (f_files s)"
proof -
  have mem: "eh \<in> set (f_lru s)" and s2: "f_ent s2 = (f_ent s)(eh := (f_ent s eh)\<lparr>e_tstamp := t\<rparr>)"
    "f_lru s2 = eh # remove1 eh (f_lru s)" "f_entries s2 = f_entries s"
    "f_neid s2 = f_neid s" "f_files s2 = (f_files s)(n \<mapsto> (d, t))"
    using run old st f by (auto simp: touch_entry_def same_table_def Let_def split: if_splits)
  have dist: "distinct (f_lru s)" and nm: "e_name (f_ent s eh) = n"
    using inv old unfolding fs_inv_def fs_tab_def by blast+
  have set2: "set (f_lru s2) = set (f_lru s)"
    using mem dist by (auto simp: s2)
  have names: "e_name (f_ent s2 e) = e_name (f_ent s e)" "e_size (f_ent s2 e) = e_size (f_ent s e)" for e
    by (simp_all add: s2)
  show dom: "n \<in> dom (f_files s)"
    using inv mem nm unfolding fs_inv_def lru_names_def by blast
  have other: "e_name (f_ent s e) \<noteq> n" if "e \<in> set (f_lru s)" "e \<noteq> eh" for e
    using inv old that unfolding fs_inv_def fs_tab_def by (metis option.inject)
  have ok: "fs_file_ok B (f_ent s2 e) (f_files s2 (e_name (f_ent s2 e)))" if "e \<in> set (f_lru s)" for e
  proof (cases "e = eh")
    case True
    have "e_size (f_ent s eh) = int (length d)"
      using inv mem nm len unfolding fs_inv_def fs_file_ok_def by force
    then show ?thesis using True nm len by (simp add: s2 fs_file_ok_def)
  next
    case False
    with that other inv show ?thesis by (simp add: s2 fs_inv_def)
  qed
  have "fs_tab s2"
    using inv dist set2 unfolding fs_inv_def fs_tab_def names by (simp add: s2)
  moreover have "lru_names s2 = lru_names s" unfolding lru_names_def set2 names ..
  moreover have "dom (f_files s2) = dom (f_files s)" using dom by (auto simp: s2)
  ultimately show "fs_inv B s2" using inv ok set2 unfolding fs_inv_def by blast
  show "lru_bytes s2 = lru_bytes s"
    unfolding lru_bytes_def names using mem by (simp add: s2 sum_list_remove1)
qed

lemma touch_entry_file:
  assumes "fs_inv B s" "same_table s s1" "f_files s1 = (f_files s)(n \<mapsto> (d, t))"
    "length d = (if meta_name n then 0 else B)" "touch_entry n t (int (length d)) s1 = (s2, Inr u)"
  shows "fs_inv B s2 \<and> lru_bytes s2 = lru_bytes s + (if n \<in> dom (f_files s) then 0 else int (length d))"
  using assms touch_entry_new [OF assms(1,2) _ assms(3,4,5)] touch_entry_old [OF assms(1,2) _ assms(3,4,5)]
  by (cases "f_entries s n") auto

lemma touch_entry_err: "touch_entry n t sz s = (s', Inl e) \<Longrightarrow> e = InvalidIterator"
  by (auto simp: touch_entry_def Let_def split: option.splits if_splits)

subsection \<open>Every operation keeps the invariant\<close>

lemma put_account_simps [simp]:
  "f_ent (put_account p wc z s) = f_ent s" "f_neid (put_account p wc z s) = f_neid s"
  "f_entries (put_account p wc z s) = f_entries s" "f_lru (put_account p wc z s) = f_lru s"
  "f_mark (put_account p wc z s) = f_mark s" "f_files (put_account p wc z s) = f_files s"
  "f_size (put_account p wc z s) = f_size s"
  "f_committed (put_account p wc z s) + f_uncommitted (put_account p wc z s) =
     f_committed s + f_uncommitted s - p + z"
  by (simp_all add: put_account_def Let_def)

lemma fs_write_block_ok:
  assumes inv: "fs_inv B s" and fine: "os_fine B os" and len: "length d = B" "\<not> meta_name n"
    and run: "fs_write_block os n d prev wc s = (s', r)" and ok: "r \<noteq> Inl InvalidIterator"
  shows "r = Inr () \<and> fs_inv B s' \<and> f_size s' = f_size s \<and> f_mark s' = f_mark s \<and>
    f_files s' = (f_files s)(n \<mapsto> (d, os_now os)) \<and>
    lru_bytes s' = lru_bytes s + (if n \<in> dom (f_files s) then 0 else int B) \<and>
    f_committed s' + f_uncommitted s' = f_committed s + f_uncommitted s - prev + int B"
proof -
  from fine len obtain k where k: "os_write_n os = Some k" "take k d = d"
    by (auto simp: os_fine_def)
  obtain s1 where t: "touch_entry n (os_now os) (int (length d)) s1 = (s', r)"
    and s1: "same_table s s1" "f_files s1 = (f_files s)(n \<mapsto> (d, os_now os))" "f_size s1 = f_size s"
      "f_mark s1 = f_mark s"
      "f_committed s1 + f_uncommitted s1 = f_committed s + f_uncommitted s - prev + int B"
    using run fine k len
    by (simp add: fs_write_block_def os_fine_def Let_def same_table_def split: if_splits)
  from t ok have r: "r = Inr ()" by (cases r) (auto dest: touch_entry_err)
  have "length d = (if meta_name n then 0 else B)" using len by simp
  from touch_entry_file [OF inv s1(1,2) this t [unfolded r]] touch_entry_counters [OF t] s1 r len
  show ?thesis by simp
qed

lemma fs_inv_len:
  assumes "fs_inv B s" "f_files s (entryname k) = Some (d, t)"
  shows "length d = B"
  using assms by (rule fs_inv_file) simp

lemma fs_inv_entry:
  assumes "fs_inv B s" "n \<in> dom (f_files s)"
  shows "\<exists>e \<in> set (f_lru s). f_entries s n = Some e \<and> e_name (f_ent s e) = n"
proof -
  from assms(2) obtain d t where "f_files s n = Some (d, t)" by auto
  with assms(1) show ?thesis by (rule fs_inv_file) blast
qed

lemma put_prev_fine:
  assumes "fs_inv B s" "os_stat_ok os" "put_prev os (entryname k) s = (prev, wc)"
  shows "prev = (if entryname k \<in> dom (f_files s) then int B else 0)"
  using assms(2,3) fs_inv_len [OF assms(1), of k]
  by (auto simp: put_prev_def split: option.splits)

text \<open>A put that completes did not purge the block it replaces: the entry is still in the list.\<close>

lemma put_not_purged:
  assumes inv: "fs_inv B s" "fs_inv B s1" and fr: "purge_frame s s1"
    and run: "fs_write_block os n d prev wc s1 = (s', Inr u)"
  shows "n \<in> dom (f_files s1) \<longleftrightarrow> n \<in> dom (f_files s)"
proof
  assume "n \<in> dom (f_files s1)"
  with fr show "n \<in> dom (f_files s)"
    unfolding purge_frame_def by (metis (no_types) domIff map_le_def)
next
  assume "n \<in> dom (f_files s)"
  then obtain eh where eh: "f_entries s n = Some eh" "e_name (f_ent s eh) = n"
    using fs_inv_entry [OF inv(1)] by blast
  then have e1: "f_entries s1 n = Some eh" "e_name (f_ent s1 eh) = n"
    using fr by (simp_all add: purge_frame_def)
  then have "eh \<in> set (f_lru s1)"
    using run by (auto simp: fs_write_block_def touch_entry_def Let_def split: if_splits option.splits)
  then show "n \<in> dom (f_files s1)"
    using inv(2) e1 unfolding fs_inv_def lru_names_def by blast
qed

lemma fs_block_put_cases:
  assumes "fs_block_put os k d s = (s', r)"
  obtains (nospace) "s' = s" "r = Inl NoSpaceError"
  | (stuck) need e where "purge_loop os need s = (s', Inl e)" "r = Inl e"
  | (wrote) prev wc s1 u where "put_prev os (entryname k) s = (prev, wc)"
      "purge_loop os (int (length d) - (if wc then prev else 0)) s = (s1, Inr u)"
      "fs_write_block os (entryname k) d prev wc s1 = (s', r)"
proof -
  obtain prev wc where pp: "put_prev os (entryname k) s = (prev, wc)" by fastforce
  obtain s1 r1 where pl: "purge_loop os (int (length d) - (if wc then prev else 0)) s = (s1, r1)"
    by fastforce
  show ?thesis
  proof (cases "int (length d) > f_size s - f_committed s + (if wc then prev else 0)")
    case True
    with assms pp nospace show ?thesis by (simp add: fs_block_put_def Let_def)
  next
    case False
    with assms pp pl have "(case r1 of Inl e \<Rightarrow> (s1, Inl e)
        | Inr _ \<Rightarrow> fs_write_block os (entryname k) d prev wc s1) = (s', r)"
      by (simp add: fs_block_put_def Let_def)
    with pp pl stuck wrote show ?thesis by (cases r1) auto
  qed
qed

lemma purge_loop_err:
  assumes "fs_inv B s" "fs_acct s" "os_fine B os" "purge_loop os need s = (s', Inl e)"
  shows "e = InternalError"
  using assms
proof (induction os need s rule: purge_loop.induct)
  case (1 os need s)
  obtain s1 r1 where p: "purge_uncommitted os s = (s1, r1)" by fastforce
  with "1.prems" have over: "f_committed s + need + f_uncommitted s > f_size s"
    by (simp add: purge_loop.simps [of os need s] split: if_splits)
  show ?case
  proof (cases r1)
    case (Inl e1)
    with "1.prems"(4) p over have "e = e1" by (simp add: purge_loop.simps [of os need s])
    with purge_uncommitted_err [OF "1.prems"(1,3) p [unfolded Inl]] show ?thesis by simp
  next
    case (Inr u)
    have "purge_loop os need s1 = (s', Inl e)"
      using "1.prems"(4) p over Inr by (simp add: purge_loop.simps [of os need s])
    with "1.IH" [OF over p [symmetric] Inr] purge_uncommitted_acct [OF "1.prems"(1-3) p] "1.prems"(3)
    show ?thesis by blast
  qed
qed

lemma fs_block_put_inv:
  assumes inv: "fs_inv B s" "fs_acct s" "os_fine B os" and len: "length d = B"
    and run: "fs_block_put os k d s = (s', r)" and ok: "r \<noteq> Inl InvalidIterator"
  shows "fs_inv B s' \<and> fs_acct s'"
  using run
proof (cases rule: fs_block_put_cases)
  case nospace
  with inv show ?thesis by simp
next
  case (stuck need e)
  with purge_loop_acct [OF inv] show ?thesis by blast
next
  case (wrote prev wc s1 u)
  have s1: "fs_inv B s1" "fs_acct s1" using purge_loop_acct [OF inv wrote(2)] by blast+
  note w = fs_write_block_ok [OF s1(1) inv(3) len entryname_not_meta wrote(3) ok]
  have "prev = (if entryname k \<in> dom (f_files s1) then int B else 0)"
    using put_prev_fine [OF inv(1) _ wrote(1)] inv(3) w wrote(3)
      put_not_purged [OF inv(1) s1(1) purge_loop_frame [OF wrote(2)]]
    by (auto simp: os_fine_def)
  moreover have "f_committed s1 + (int B - (if wc then prev else 0)) + f_uncommitted s1 \<le> f_size s1"
    using purge_loop_room [OF wrote(2)] len by simp
  ultimately show ?thesis using w s1 len unfolding fs_acct_def by (auto split: if_splits)
qed

lemma fs_refresh_start_inv:
  assumes inv: "fs_inv B s" "fs_acct s" "os_fine B os"
    and run: "fs_refresh_start os rid s = (s', r)" and ok: "r \<noteq> Inl InvalidIterator"
  shows "fs_inv B s' \<and> fs_acct s'"
proof (cases "f_files s (ridname rid) = None")
  case False
  with run inv show ?thesis by (simp add: fs_refresh_start_def os_fine_def Let_def)
next
  case True
  define s1 where "s1 = s\<lparr>f_files := (f_files s)(ridname rid \<mapsto> ([], os_now os))\<rparr>"
  have t: "touch_entry (ridname rid) (os_now os) (int (length ([] :: bytes))) s1 = (s', r)"
    using run True inv by (simp add: fs_refresh_start_def os_fine_def Let_def s1_def)
  with ok obtain u where r: "r = Inr u" by (cases r) (auto dest: touch_entry_err)
  have "fs_inv B s' \<and> lru_bytes s' = lru_bytes s"
    using touch_entry_file [OF inv(1) _ _ _ t [unfolded r]] by (simp add: s1_def same_table_def)
  with touch_entry_counters [OF t] inv(2) show ?thesis by (simp add: fs_acct_def s1_def)
qed

lemma fs_refresh_block_inv:
  assumes inv: "fs_inv B s" "fs_acct s" "os_fine B os"
    and run: "fs_refresh_block os rid k s = (s', r)" and ok: "r \<noteq> Inl InvalidIterator"
  shows "fs_inv B s' \<and> fs_acct s'"
proof (cases "f_files s (ridname rid) = None \<or> f_files s (entryname k) = None")
  case True
  with run inv show ?thesis by (auto simp: fs_refresh_block_def os_fine_def Let_def split: if_splits)
next
  case False
  then obtain d t0 where f: "f_files s (entryname k) = Some (d, t0)" by auto
  define s1 where "s1 = s\<lparr>f_files := (f_files s)(entryname k \<mapsto> (d, os_now os))\<rparr>"
  obtain s2 r2 where t: "touch_entry (entryname k) (os_now os) (int (length d)) s1 = (s2, r2)"
    by fastforce
  with run False f inv(3) ok have r: "s' = s2" "r2 = Inr ()"
    by (auto simp: fs_refresh_block_def os_fine_def Let_def s1_def split: sum.splits
        dest: touch_entry_err)
  have len: "length d = (if meta_name (entryname k) then 0 else B)" using fs_inv_len [OF inv(1) f] by simp
  have "fs_inv B s' \<and> lru_bytes s' = lru_bytes s"
    using touch_entry_file [OF inv(1) _ _ len t [unfolded r]] f r by (auto simp: s1_def same_table_def)
  with touch_entry_counters [OF t] inv(2) r show ?thesis by (simp add: fs_acct_def s1_def)
qed

text \<open>The pass over the list: what is before the first mark is committed, what is after is not.\<close>

lemma add_up_saw: "add_up ent es True c u = (c, u + (\<Sum>e \<leftarrow> es. e_size (ent e)))"
  by (induction es arbitrary: u) simp_all

lemma add_up_split:
  "add_up ent es False c u =
     (c + (\<Sum>e \<leftarrow> takeWhile (\<lambda>e. e_name (ent e) \<noteq> markname) es. e_size (ent e)),
      u + (\<Sum>e \<leftarrow> tl (dropWhile (\<lambda>e. e_name (ent e) \<noteq> markname) es). e_size (ent e)))"
  by (induction es arbitrary: c) (simp_all add: add_up_saw)

lemma add_up_total:
  assumes "add_up ent es False 0 0 = (c, u)" "\<And>e. e \<in> set es \<Longrightarrow> e_name (ent e) = markname \<Longrightarrow> e_size (ent e) = 0"
  shows "c + u = (\<Sum>e \<leftarrow> es. e_size (ent e))"
proof -
  let ?p = "\<lambda>e. e_name (ent e) \<noteq> markname"
  have "(\<Sum>e \<leftarrow> dropWhile ?p es. e_size (ent e)) = (\<Sum>e \<leftarrow> tl (dropWhile ?p es). e_size (ent e))"
  proof (cases "dropWhile ?p es")
    case Nil
    show ?thesis unfolding Nil by simp
  next
    case (Cons a as)
    then have "a \<in> set es" by (metis list.set_intros(1) set_dropWhileD)
    moreover from Cons have "\<not> ?p a" using hd_dropWhile [of ?p es] by simp
    ultimately have "e_size (ent a) = 0" using assms(2) by blast
    with Cons show ?thesis by simp
  qed
  moreover have "(\<Sum>e \<leftarrow> es. e_size (ent e)) =
      (\<Sum>e \<leftarrow> takeWhile ?p es. e_size (ent e)) + (\<Sum>e \<leftarrow> dropWhile ?p es. e_size (ent e))"
    by (metis map_append sum_list_append takeWhile_dropWhile_id)
  ultimately show ?thesis using assms(1) by (simp add: add_up_split)
qed
lemma remove_mark_ok:
  assumes inv: "fs_inv B s" and run: "remove_mark_entry s1 = (s2, Inr u)" and st: "same_table s s1"
  shows "set (f_lru s2) = {e \<in> set (f_lru s). e_name (f_ent s e) \<noteq> markname}" "distinct (f_lru s2)"
    "f_entries s2 = (f_entries s)(markname := None)" "f_ent s2 = f_ent s" "f_neid s2 = f_neid s"
    "f_files s2 = f_files s1" "f_size s2 = f_size s1"
    "(\<Sum>e \<leftarrow> f_lru s2. e_size (f_ent s e)) = lru_bytes s"
proof -
  have tab: "fs_tab s" and d: "distinct (f_lru s)" using inv by (simp_all add: fs_inv_def fs_tab_def)
  have "set (f_lru s2) = {e \<in> set (f_lru s). e_name (f_ent s e) \<noteq> markname} \<and>
      (\<Sum>e \<leftarrow> f_lru s2. e_size (f_ent s e)) = lru_bytes s \<and> distinct (f_lru s2)"
  proof (cases "f_entries s markname")
    case None
    then have "e_name (f_ent s e) \<noteq> markname" if "e \<in> set (f_lru s)" for e
      using fs_tab_lru [OF tab that] by auto
    with None run st d show ?thesis
      by (auto simp: remove_mark_entry_def same_table_def lru_bytes_def)
  next
    case (Some meh)
    then have lru2: "f_lru s2 = remove1 meh (f_lru s)" and mem: "meh \<in> set (f_lru s)"
      using run st by (auto simp: remove_mark_entry_def same_table_def Let_def split: if_splits)
    from Some tab have nm: "e_name (f_ent s meh) = markname" by (simp add: fs_tab_def)
    have "fs_file_ok B (f_ent s meh) (f_files s (e_name (f_ent s meh)))"
      using inv mem by (simp add: fs_inv_def)
    then have "e_size (f_ent s meh) = 0" by (auto simp: fs_file_ok_def nm)
    moreover have "e = meh" if "e \<in> set (f_lru s)" "e_name (f_ent s e) = markname" for e
      using fs_tab_lru [OF tab that(1)] that(2) Some by (metis option.inject)
    moreover from this nm have "{e \<in> set (f_lru s). e_name (f_ent s e) \<noteq> markname} = set (f_lru s) - {meh}"
      by blast
    ultimately show ?thesis
      using mem d unfolding lru2 lru_bytes_def by (simp add: sum_list_remove1)
  qed
  then show "set (f_lru s2) = {e \<in> set (f_lru s). e_name (f_ent s e) \<noteq> markname}" "distinct (f_lru s2)"
    "(\<Sum>e \<leftarrow> f_lru s2. e_size (f_ent s e)) = lru_bytes s" by blast+
  show "f_entries s2 = (f_entries s)(markname := None)" "f_ent s2 = f_ent s" "f_neid s2 = f_neid s"
    "f_files s2 = f_files s1" "f_size s2 = f_size s1"
    using run st
    by (auto simp: remove_mark_entry_def same_table_def Let_def split: if_splits option.splits)
qed

text \<open>Renaming the entry of the cycle to the mark, after the old mark is gone.\<close>

lemma rename_to_mark:
  assumes inv: "fs_inv B s"
    and lru: "set (f_lru s3) = {e \<in> set (f_lru s). e_name (f_ent s e) \<noteq> markname}" "distinct (f_lru s3)"
    and rid: "f_files s (ridname rid) = Some (d, t)" "f_entries s (ridname rid) = Some reh"
    and s3: "f_ent s3 = (f_ent s)(reh := (f_ent s reh)\<lparr>e_name := markname\<rparr>)" "f_neid s3 = f_neid s"
      "f_entries s3 = (f_entries s)(ridname rid := None, markname \<mapsto> reh)"
      "f_files s3 = (f_files s)(markname := f_files s (ridname rid), ridname rid := None)"
  shows "fs_inv B s3"
proof -
  let ?r = "ridname rid"
  have tab: "fs_tab s" using inv by (simp add: fs_inv_def)
  have reh: "reh \<in> set (f_lru s)" "e_name (f_ent s reh) = ?r"
    using fs_inv_entry [OF inv, of ?r] rid by auto
  have ok: "fs_file_ok B (f_ent s reh) (f_files s ?r)" using inv reh unfolding fs_inv_def by metis
  have keep: "e \<noteq> reh \<Longrightarrow> e \<in> set (f_lru s3) \<Longrightarrow> e \<in> set (f_lru s) \<and> e_name (f_ent s e) \<noteq> markname \<and>
      e_name (f_ent s e) \<noteq> ?r" for e
    using lru fs_tab_names_inj [OF tab _ reh(1), of e] reh(2) by auto
  have "f_entries s3 (e_name (f_ent s3 e)) = Some e" if "e \<in> set (f_lru s3)" for e
    using keep [OF _ that] fs_tab_lru [OF tab, of e] by (cases "e = reh") (simp_all add: s3)
  moreover have "e < f_neid s3 \<and> e_name (f_ent s3 e) = n" if "f_entries s3 n = Some e" for n e
  proof (cases "n = markname")
    case True
    with that tab rid(2) show ?thesis by (simp add: s3 fs_tab_def)
  next
    case False
    with that have n: "f_entries s n = Some e" "n \<noteq> ?r" by (auto simp: s3 split: if_splits)
    then have "e < f_neid s" "e_name (f_ent s e) = n" using tab by (auto simp: fs_tab_def)
    with n reh(2) show ?thesis by (auto simp: s3)
  qed
  ultimately have "fs_tab s3" using lru(2) unfolding fs_tab_def by blast
  moreover have "fs_file_ok B (f_ent s3 e) (f_files s3 (e_name (f_ent s3 e)))"
    if "e \<in> set (f_lru s3)" for e
  proof (cases "e = reh")
    case True
    with ok reh(2) show ?thesis by (auto simp: s3 fs_file_ok_def)
  next
    case False
    with keep [OF False that] inv show ?thesis by (simp add: s3 fs_inv_def)
  qed
  moreover have "lru_names s3 = insert markname (lru_names s - {markname, ?r})"
  proof -
    have "lru_names s3 = insert markname ((\<lambda>e. e_name (f_ent s e)) ` (set (f_lru s3) - {reh}))"
      using lru(1) reh unfolding lru_names_def by (force simp: s3)
    moreover have "(\<lambda>e. e_name (f_ent s e)) ` (set (f_lru s3) - {reh}) = lru_names s - {markname, ?r}"
      using keep lru(1) reh unfolding lru_names_def by auto
    ultimately show ?thesis by simp
  qed
  moreover have "dom (f_files s3) = insert markname (dom (f_files s) - {markname, ?r})"
    using rid(1) by (auto simp: s3)
  ultimately show ?thesis using inv unfolding fs_inv_def by blast
qed

lemma fs_refresh_finish_inv:
  assumes inv: "fs_inv B s" "fs_acct s" "os_fine B os"
    and run: "fs_refresh_finish os rid s = (s', r)" and ok: "r \<noteq> Inl InvalidIterator"
  shows "fs_inv B s' \<and> fs_acct s'"
proof (cases "f_files s (ridname rid)")
  case None
  with run inv show ?thesis by (simp add: fs_refresh_finish_def os_fine_def Let_def)
next
  case (Some dt)
  let ?r = "ridname rid"
  obtain d t where dt: "f_files s ?r = Some (d, t)" using Some by (cases dt) simp
  define s1 where "s1 = s\<lparr>f_files := (f_files s)(markname := f_files s ?r, ?r := None)\<rparr>"
  obtain s2 r2 where rm: "remove_mark_entry s1 = (s2, r2)" by fastforce
  have st: "same_table s s1" by (simp add: same_table_def s1_def)
  have "r2 \<noteq> Inl e" for e
  proof
    assume e: "r2 = Inl e"
    then have "e = InvalidIterator"
      using rm by (auto simp: remove_mark_entry_def Let_def split: if_splits option.splits)
    with e rm run dt inv(3) ok show False
      by (simp add: fs_refresh_finish_def os_fine_def Let_def s1_def)
  qed
  then have rm: "remove_mark_entry s1 = (s2, Inr ())" using rm by (cases r2) auto
  note k = remove_mark_ok [OF inv(1) rm st]
  obtain reh where reh: "f_entries s ?r = Some reh" "reh \<in> set (f_lru s)"
    using fs_inv_entry [OF inv(1), of ?r] dt by blast
  define s3 where "s3 = s2\<lparr>f_ent := (f_ent s2)(reh := (f_ent s2 reh)\<lparr>e_name := markname\<rparr>),
      f_entries := (f_entries s2)(?r := None, markname \<mapsto> reh), f_mark := Some reh\<rparr>"
  obtain c u where cu: "add_up (f_ent s3) (f_lru s3) False 0 0 = (c, u)" by fastforce
  have s': "s' = s3\<lparr>f_committed := c, f_uncommitted := u\<rparr>"
    using run dt inv(3) rm reh(1) cu
    by (simp add: fs_refresh_finish_def os_fine_def Let_def s1_def k s3_def)
  have inv3: "fs_inv B s3"
    by (rule rename_to_mark [OF inv(1) _ _ dt reh(1)]) (simp_all add: s3_def k s1_def fun_upd_twist)
  have "c + u = (\<Sum>e \<leftarrow> f_lru s3. e_size (f_ent s3 e))"
  proof (rule add_up_total [OF cu])
    fix e assume e: "e \<in> set (f_lru s3)" "e_name (f_ent s3 e) = markname"
    then have "fs_file_ok B (f_ent s3 e) (f_files s3 (e_name (f_ent s3 e)))"
      using inv3 unfolding fs_inv_def by blast
    with e show "e_size (f_ent s3 e) = 0" by (auto simp: fs_file_ok_def)
  qed
  moreover have "e_size (f_ent s3 e) = e_size (f_ent s e)" for e by (simp add: s3_def k)
  ultimately have "c + u = lru_bytes s" using k(8) by (simp add: s3_def)
  moreover have "lru_bytes s' = c + u"
    using \<open>c + u = (\<Sum>e \<leftarrow> f_lru s3. e_size (f_ent s3 e))\<close> by (simp add: s' lru_bytes_def)
  moreover have "f_size s' = f_size s" by (simp add: s' s3_def k s1_def)
  moreover have "fs_inv B s'"
    using inv3 by (simp add: s' fs_inv_def fs_tab_def lru_names_def)
  ultimately show ?thesis using inv(2) by (simp add: fs_acct_def s')
qed

end
