(* ===== verification/Store_Interface.thy ===== *)
theory Store_Interface
  imports Utp_Prelude
begin

text \<open>
  What the file system relies on in a block store (\<^verbatim>\<open>libutp/src/BlockStore.h\<close>): a block that
  was put is what a get of its key returns, and a put never changes what another key holds,
  though it may make room by dropping it. The laws are for blocks of one size \<open>B\<close>; \<open>bs_ok\<close>
  is the invariant of the store and \<open>key_ok\<close> the keys it takes.
\<close>

locale block_store =
  fixes bs_get :: "'s \<Rightarrow> key \<Rightarrow> nat \<Rightarrow> bytes res"
    and bs_put :: "'s \<Rightarrow> key \<Rightarrow> bytes \<Rightarrow> 's \<times> unit res"
    and bs_ok :: "'s \<Rightarrow> bool"
    and key_ok :: "key \<Rightarrow> bool"
    and B :: nat
  assumes put_ok: "bs_ok s \<Longrightarrow> length d = B \<Longrightarrow> bs_put s k d = (s', Inr u) \<Longrightarrow> bs_ok s'"
    and put_get: "bs_ok s \<Longrightarrow> length d = B \<Longrightarrow> key_ok k \<Longrightarrow> B \<le> n \<Longrightarrow>
      bs_put s k d = (s', Inr u) \<Longrightarrow> bs_get s' k n = Inr d"
    and put_frame: "bs_ok s \<Longrightarrow> length d = B \<Longrightarrow> k' \<noteq> k \<Longrightarrow> bs_put s k d = (s', Inr u) \<Longrightarrow>
      bs_get s' k' n = Inr d' \<Longrightarrow> bs_get s k' n = Inr d'"
begin

text \<open>A sequence of puts, all of which complete.\<close>

inductive puts :: "'s \<Rightarrow> (key \<times> bytes) list \<Rightarrow> 's \<Rightarrow> bool" where
  puts_nil: "puts s [] s"
| puts_cons: "bs_put s k d = (s1, Inr u) \<Longrightarrow> length d = B \<Longrightarrow> puts s1 kds s2 \<Longrightarrow> puts s ((k, d) # kds) s2"

lemma puts_ok: "puts s kds s' \<Longrightarrow> bs_ok s \<Longrightarrow> bs_ok s'"
proof (induction rule: puts.induct)
  case (puts_cons s k d s1 u kds s2)
  then show ?case using put_ok by blast
qed

text \<open>A get returns the last block put under its key, or what the key held before, or fails.\<close>

lemma puts_get:
  assumes "puts s kds s'" "bs_ok s" "key_ok k" "B \<le> n" "bs_get s' k n = Inr d"
  shows "case map_of (rev kds) k of None \<Rightarrow> bs_get s k n = Inr d | Some d' \<Rightarrow> d = d'"
  using assms
proof (induction rule: puts.induct)
  case (puts_nil s)
  then show ?case by simp
next
  case (puts_cons s k1 d1 s1 u kds s2)
  have IH: "case map_of (rev kds) k of None \<Rightarrow> bs_get s1 k n = Inr d | Some d' \<Rightarrow> d = d'"
    using puts_cons put_ok by blast
  show ?case
  proof (cases "map_of (rev kds) k")
    case (Some d')
    with IH show ?thesis by (simp add: map_add_def)
  next
    case None
    with IH have g: "bs_get s1 k n = Inr d" by simp
    show ?thesis
    proof (cases "k = k1")
      case True
      with put_get [OF puts_cons.prems(1) puts_cons.hyps(2) puts_cons.prems(2,3), of s1 u] g puts_cons.hyps(1)
      show ?thesis using None by (simp add: map_add_def)
    next
      case False
      with put_frame [OF puts_cons.prems(1) puts_cons.hyps(2) False puts_cons.hyps(1) g] None
      show ?thesis by (simp add: map_add_def)
    qed
  qed
qed

text \<open>
  Keys computed from the blocks they name: whatever the puts and their order, a get that
  succeeds on a key the store did not hold returns a block with that key.
\<close>

lemma content_addressed:
  assumes "puts s kds s'" "bs_ok s" "key_ok k" "B \<le> n" "bs_get s' k n = Inr d"
    and "\<forall>(k', d') \<in> set kds. k' = f d'" "bs_get s k n = Inr d \<Longrightarrow> k = f d"
  shows "k = f d"
proof (cases "map_of (rev kds) k")
  case None
  with puts_get [OF assms(1-5)] assms(7) show ?thesis by simp
next
  case (Some d')
  with puts_get [OF assms(1-5)] have "d = d'" by simp
  moreover from Some have "(k, d') \<in> set kds" by (metis map_of_SomeD set_rev)
  ultimately show ?thesis using assms(6) by blast
qed

end

end
