(* ===== verification/FS_Store_Laws.thy ===== *)
theory FS_Store_Laws
  imports FS_BlockStore Store_Interface
begin

text \<open>
  What the file block store guarantees over whole runs: the quota, the safety of what a
  refresh cycle saw, and the contract of \<^verbatim>\<open>BlockStore.h\<close> that the file system relies on. A
  run is a list of operations, each with what the operating system answers it; it stops
  (\<^const>\<open>None\<close>) where the code would use a stale list position.
\<close>

datatype fsop = Put key bytes | RStart "64 word" | RBlock "64 word" key | RFinish "64 word"

definition drop_value :: "'a fs_result \<Rightarrow> unit fs_result" where
  "drop_value sr = (fst sr, case snd sr of Inl e \<Rightarrow> Inl e | Inr _ \<Rightarrow> Inr ())"

fun fs_exec :: "os \<Rightarrow> fsop \<Rightarrow> fsbs \<Rightarrow> unit fs_result" where
  "fs_exec os (Put k d) s = fs_block_put os k d s"
| "fs_exec os (RStart rid) s = fs_refresh_start os rid s"
| "fs_exec os (RBlock rid k) s = drop_value (fs_refresh_block os rid k s)"
| "fs_exec os (RFinish rid) s = fs_refresh_finish os rid s"

fun fs_run :: "(os \<times> fsop) list \<Rightarrow> fsbs \<Rightarrow> fsbs option" where
  "fs_run [] s = Some s"
| "fs_run ((os, op) # ops) s =
     (case fs_exec os op s of (s', r) \<Rightarrow> if r = Inl InvalidIterator then None else fs_run ops s')"

definition fs_new :: "int \<Rightarrow> fsbs" where
  "fs_new sz = fst (fs_create False True True sz fs_ctor)"

text \<open>Operations on blocks of size \<open>B\<close>, with an operating system that fails nothing.\<close>

fun op_fine :: "nat \<Rightarrow> os \<times> fsop \<Rightarrow> bool" where
  "op_fine B (os, Put k d) \<longleftrightarrow> os_fine B os \<and> length d = B"
| "op_fine B (os, op) \<longleftrightarrow> os_fine B os"

lemma fs_new_inv: "0 \<le> sz \<Longrightarrow> fs_inv B (fs_new sz) \<and> fs_acct (fs_new sz)"
  by (simp add: fs_new_def fs_create_def fs_ctor_def fs_inv_def fs_tab_def fs_acct_def lru_names_def
      lru_bytes_def Let_def)

lemma fs_exec_inv:
  assumes "fs_inv B s" "fs_acct s" "op_fine B (os, op)" "fs_exec os op s = (s', r)"
    "r \<noteq> Inl InvalidIterator"
  shows "fs_inv B s' \<and> fs_acct s'"
proof (cases op)
  case (Put k d)
  then have "os_fine B os" "length d = B" "fs_block_put os k d s = (s', r)" using assms by simp_all
  with assms show ?thesis using fs_block_put_inv by blast
next
  case (RStart rid)
  then have "os_fine B os" "fs_refresh_start os rid s = (s', r)" using assms by simp_all
  with assms show ?thesis using fs_refresh_start_inv by blast
next
  case (RBlock rid k)
  obtain r0 where run: "fs_refresh_block os rid k s = (s', r0)"
    using assms RBlock by (cases "fs_refresh_block os rid k s") (auto simp: drop_value_def)
  moreover have "r0 \<noteq> Inl InvalidIterator" using assms RBlock run by (auto simp: drop_value_def)
  moreover have "os_fine B os" using assms RBlock by simp
  ultimately show ?thesis using assms(1,2) fs_refresh_block_inv by blast
next
  case (RFinish rid)
  then have "os_fine B os" "fs_refresh_finish os rid s = (s', r)" using assms by simp_all
  with assms show ?thesis using fs_refresh_finish_inv by blast
qed

lemma fs_run_inv:
  assumes "fs_run ops s = Some s'" "list_all (op_fine B) ops" "fs_inv B s" "fs_acct s"
  shows "fs_inv B s' \<and> fs_acct s'"
  using assms
proof (induction ops s rule: fs_run.induct)
  case (2 os op ops s)
  then show ?case using fs_exec_inv [of B s os op] by (auto split: prod.splits if_splits)
qed simp

lemma fs_exec_size: "fs_exec os op s = (s', r) \<Longrightarrow> f_size s' = f_size s"
proof (cases op)
  case (Put k d)
  assume "fs_exec os op s = (s', r)"
  then have "fs_block_put os k d s = (s', r)" by (simp add: Put)
  then show ?thesis
  proof (cases rule: fs_block_put_cases)
    case (stuck need e)
    then show ?thesis using purge_loop_frame by (auto simp: purge_frame_def)
  next
    case (wrote prev wc s1 u)
    have "f_size s' = f_size s1"
      using wrote(3) by (auto simp: fs_write_block_def Let_def split: if_splits option.splits
          dest: touch_entry_counters)
    with purge_loop_frame [OF wrote(2)] show ?thesis by (simp add: purge_frame_def)
  qed simp
qed (auto simp: fs_refresh_start_def fs_refresh_block_def fs_refresh_finish_def drop_value_def
    remove_mark_entry_def Let_def split: if_splits option.splits prod.splits sum.splits
    dest!: touch_entry_counters)

lemma fs_run_size: "fs_run ops s = Some s' \<Longrightarrow> f_size s' = f_size s"
  by (induction ops s rule: fs_run.induct)
    (auto split: prod.splits if_splits dest: fs_exec_size)

text \<open>The octets of all files of the directory.\<close>

definition disk_bytes :: "fsbs \<Rightarrow> int" where
  "disk_bytes s = (\<Sum>n \<in> dom (f_files s). int (length (fst (the (f_files s n)))))"

lemma disk_bytes_lru:
  assumes inv: "fs_inv B s"
  shows "disk_bytes s = lru_bytes s"
proof -
  let ?n = "\<lambda>e. e_name (f_ent s e)"
  have tab: "fs_tab s" using inv by (simp add: fs_inv_def)
  have inj: "inj_on ?n (set (f_lru s))"
    by (rule inj_onI) (rule fs_tab_names_inj [OF tab])
  have "dom (f_files s) = ?n ` set (f_lru s)" using inv by (simp add: fs_inv_def lru_names_def)
  then have "disk_bytes s = (\<Sum>e \<in> set (f_lru s). int (length (fst (the (f_files s (?n e))))))"
    unfolding disk_bytes_def by (simp add: sum.reindex [OF inj])
  also have "\<dots> = (\<Sum>e \<in> set (f_lru s). e_size (f_ent s e))"
    by (rule sum.cong) (use inv in \<open>auto simp: fs_inv_def fs_file_ok_def\<close>)
  also have "\<dots> = lru_bytes s"
    using tab unfolding lru_bytes_def fs_tab_def by (simp add: sum_list_distinct_conv_sum_set)
  finally show ?thesis .
qed

subsection \<open>What a refresh cycle saw is kept\<close>

text \<open>The mark is an allocated entry of that name, with the time \<open>t0\<close>.\<close>

definition mark_at :: "int \<Rightarrow> fsbs \<Rightarrow> bool" where
  "mark_at t0 s \<longleftrightarrow> (\<exists>m. f_mark s = Some m \<and> m < f_neid s \<and> e_name (f_ent s m) = markname \<and>
     e_tstamp (f_ent s m) = t0)"

lemma touch_entry_mark:
  assumes "touch_entry n t sz s = (s', r)" "n \<noteq> markname" "mark_at t0 s"
    "\<forall>e. f_entries s n = Some e \<longrightarrow> e_name (f_ent s e) = n"
  shows "mark_at t0 s'"
proof -
  from assms(3) obtain m where m: "f_mark s = Some m" "m < f_neid s" "e_name (f_ent s m) = markname"
    "e_tstamp (f_ent s m) = t0" by (auto simp: mark_at_def)
  have "f_mark s' = Some m \<and> m < f_neid s' \<and> f_ent s' m = f_ent s m"
  proof (cases "f_entries s n")
    case None
    with assms(1) m show ?thesis by (auto simp: touch_entry_def Let_def)
  next
    case (Some e)
    with assms(2,4) m(3) have "e \<noteq> m" by metis
    with Some assms(1) m show ?thesis by (auto simp: touch_entry_def split: if_splits)
  qed
  with m show ?thesis by (auto simp: mark_at_def)
qed

lemma mark_at_cong:
  "f_mark s' = f_mark s \<Longrightarrow> f_neid s' = f_neid s \<Longrightarrow> f_ent s' = f_ent s \<Longrightarrow> mark_at t0 s' = mark_at t0 s"
  by (simp add: mark_at_def)

lemma fs_write_block_mark:
  assumes "fs_write_block os n d prev wc s = (s', r)" "n \<noteq> markname" "mark_at t0 s" "fs_tab s"
  shows "mark_at t0 s'"
proof (cases "os_open_ok os \<and> os_restat_ok os \<and> os_write_n os \<noteq> None")
  case False
  with assms(1) have "f_mark s' = f_mark s \<and> f_neid s' = f_neid s \<and> f_ent s' = f_ent s"
    by (cases "os_write_n os") (auto simp: fs_write_block_def Let_def split: if_splits)
  with assms(3) mark_at_cong [of s' s t0] show ?thesis by blast
next
  case True
  then obtain k where k: "os_write_n os = Some k" by blast
  define s1 where "s1 = put_account prev wc (int (length (take k d)))
      (s\<lparr>f_files := (f_files s)(n \<mapsto> (take k d, os_now os))\<rparr>)"
  have "touch_entry n (os_now os) (int (length (take k d))) s1 = (s', r)"
    using assms(1) True k by (simp add: fs_write_block_def Let_def s1_def)
  then show ?thesis
    by (rule touch_entry_mark) (use assms(2-4) in \<open>simp_all add: s1_def mark_at_def fs_tab_def\<close>)
qed

text \<open>Operations that neither end a cycle nor work on the block \<open>k\<close>.\<close>

fun leaves_alone :: "key \<Rightarrow> fsop \<Rightarrow> bool" where
  "leaves_alone k (Put k' d) \<longleftrightarrow> k' \<noteq> k"
| "leaves_alone k (RStart rid) \<longleftrightarrow> True"
| "leaves_alone k (RBlock rid k') \<longleftrightarrow> k' \<noteq> k"
| "leaves_alone k (RFinish rid) \<longleftrightarrow> False"

lemma fs_write_block_other:
  assumes "fs_write_block os n d prev wc s = (s', r)" "n' \<noteq> n"
  shows "f_files s' n' = f_files s n'"
proof (cases "os_write_n os")
  case None
  with assms show ?thesis by (auto simp: fs_write_block_def split: if_splits)
next
  case (Some k)
  with assms show ?thesis
    by (auto simp: fs_write_block_def Let_def split: if_splits dest!: touch_entry_counters)
qed

lemma put_keeps_newer:
  assumes inv: "fs_inv B s" "fs_acct s" "os_fine B os" and m: "mark_at t0 s"
    and f: "f_files s n = Some (d, t)" "t0 < t" "n \<noteq> entryname k"
    and run: "fs_block_put os k bd s = (s', r)"
  shows "f_files s' n = Some (d, t) \<and> mark_at t0 s'"
  using run
proof (cases rule: fs_block_put_cases)
  case nospace
  with f m show ?thesis by simp
next
  case (stuck need e)
  have "newer_than_mark s t" using m f(2) by (auto simp: mark_at_def newer_than_mark_def)
  with purge_loop_survives [OF inv f(1) _ stuck(1)] purge_loop_frame [OF stuck(1)] m mark_at_cong [of s' s]
  show ?thesis by (simp add: purge_frame_def)
next
  case (wrote prev wc s1 u)
  have "newer_than_mark s t" using m f(2) by (auto simp: mark_at_def newer_than_mark_def)
  then have "f_files s1 n = Some (d, t)" using purge_loop_survives [OF inv f(1) _ wrote(2)] by blast
  moreover have "mark_at t0 s1"
    using purge_loop_frame [OF wrote(2)] m mark_at_cong [of s1 s] by (simp add: purge_frame_def)
  moreover have "fs_tab s1" using purge_loop_acct [OF inv wrote(2)] by (simp add: fs_inv_def)
  ultimately show ?thesis
    using fs_write_block_mark [OF wrote(3)] fs_write_block_other [OF wrote(3) f(3)] by simp
qed

lemma touch_keeps:
  assumes "touch_entry n t1 sz s1 = (s', r)" "f_files s1 n' = x" "n \<noteq> markname" "mark_at t0 s1" "fs_tab s1"
  shows "f_files s' n' = x \<and> mark_at t0 s'"
proof -
  have "mark_at t0 s'"
    by (rule touch_entry_mark [OF assms(1,3,4)]) (use assms(5) in \<open>simp add: fs_tab_def\<close>)
  with touch_entry_counters [OF assms(1)] assms(2) show ?thesis by simp
qed

lemma start_keeps_newer:
  assumes inv: "fs_inv B s" and m: "mark_at t0 s"
    and f: "f_files s n = Some (d, t)" "n \<noteq> ridname rid"
    and run: "fs_refresh_start os rid s = (s', r)"
  shows "f_files s' n = Some (d, t) \<and> mark_at t0 s'"
proof -
  define dt where "dt = (case f_files s (ridname rid) of None \<Rightarrow> ([], os_now os) | Some x \<Rightarrow> x)"
  define s1 where "s1 = s\<lparr>f_files := (f_files s)(ridname rid \<mapsto> dt)\<rparr>"
  have s1: "f_files s1 n = Some (d, t)" "mark_at t0 s1" "fs_tab s1"
    using inv m f by (simp_all add: s1_def mark_at_def fs_inv_def fs_tab_def)
  consider "s' = s" | "s' = s1" | "touch_entry (ridname rid) (snd dt) (int (length (fst dt))) s1 = (s', r)"
    using run by (auto simp: fs_refresh_start_def Let_def s1_def dt_def split: if_splits)
  then show ?thesis
    using f m s1 touch_keeps [OF _ s1(1) _ s1(2,3)] by cases auto
qed

lemma block_keeps_newer:
  assumes inv: "fs_inv B s" and m: "mark_at t0 s"
    and f: "f_files s n = Some (d, t)" "n \<noteq> entryname k"
    and run: "fs_refresh_block os rid k s = (s', r)"
  shows "f_files s' n = Some (d, t) \<and> mark_at t0 s'"
proof (cases "f_files s (entryname k)")
  case None
  with run f m show ?thesis by (auto simp: fs_refresh_block_def Let_def split: if_splits)
next
  case (Some dt)
  obtain d1 t1 where dt: "dt = (d1, t1)" by fastforce
  define s1 where "s1 = s\<lparr>f_files := (f_files s)(entryname k \<mapsto> (d1, os_now os))\<rparr>"
  have s1: "f_files s1 n = Some (d, t)" "mark_at t0 s1" "fs_tab s1"
    using inv m f by (simp_all add: s1_def mark_at_def fs_inv_def fs_tab_def)
  consider "s' = s" | "s' = s1"
    | r1 where "touch_entry (entryname k) (os_now os) (int (length d1)) s1 = (s', r1)"
    using run Some dt
    by (auto simp: fs_refresh_block_def Let_def s1_def split: if_splits prod.splits sum.splits)
  then show ?thesis
    using f m s1 touch_keeps [OF _ s1(1) _ s1(2,3)] by cases auto
qed

lemma exec_keeps_newer:
  assumes inv: "fs_inv B s" "fs_acct s" "op_fine B (os, op)" and m: "mark_at t0 s"
    and f: "f_files s (entryname k) = Some (d, t)" "t0 < t" and op: "leaves_alone k op"
    and run: "fs_exec os op s = (s', r)"
  shows "f_files s' (entryname k) = Some (d, t) \<and> mark_at t0 s'"
proof (cases op)
  case (Put k' d')
  have "entryname k \<noteq> entryname k'" using op Put by (auto simp: entryname_inj)
  with put_keeps_newer [OF inv(1,2) _ m f] run inv(3) Put show ?thesis by auto
next
  case (RStart rid)
  with start_keeps_newer [OF inv(1) m f(1)] run show ?thesis by auto
next
  case (RBlock rid k')
  have "entryname k \<noteq> entryname k'" using op RBlock by (auto simp: entryname_inj)
  moreover obtain r0 where "fs_refresh_block os rid k' s = (s', r0)"
    using run RBlock by (cases "fs_refresh_block os rid k' s") (auto simp: drop_value_def)
  ultimately show ?thesis using block_keeps_newer [OF inv(1) m f(1)] by blast
next
  case (RFinish rid)
  with op show ?thesis by simp
qed

lemma run_keeps_newer:
  assumes "fs_run ops s = Some s'" "list_all (op_fine B) ops" "list_all (\<lambda>(_, op). leaves_alone k op) ops"
    "fs_inv B s" "fs_acct s" "mark_at t0 s" "f_files s (entryname k) = Some (d, t)" "t0 < t"
  shows "f_files s' (entryname k) = Some (d, t)"
  using assms
proof (induction ops s rule: fs_run.induct)
  case (2 os op ops s)
  obtain s1 r where x: "fs_exec os op s = (s1, r)" by fastforce
  with 2 have "r \<noteq> Inl InvalidIterator" "fs_run ops s1 = Some s'" by (auto split: if_splits)
  moreover have "fs_inv B s1 \<and> fs_acct s1"
    using fs_exec_inv [OF _ _ _ x] 2 calculation by simp
  moreover have "f_files s1 (entryname k) = Some (d, t) \<and> mark_at t0 s1"
    using exec_keeps_newer [OF _ _ _ _ _ _ _ x] 2 by simp
  ultimately show ?case using 2 x by simp
qed simp

lemma finish_sets_mark:
  assumes "fs_inv B s" "fs_refresh_finish os rid s = (s', Inr u)" "f_files s (ridname rid) = Some (d0, t0)"
  shows "mark_at t0 s'" "f_files s' (entryname k) = f_files s (entryname k)"
proof -
  let ?r = "ridname rid"
  obtain reh where reh: "f_entries s ?r = Some reh" "reh < f_neid s" "e_tstamp (f_ent s reh) = t0"
    using fs_inv_file [OF assms(1,3)] assms(1) by (metis fs_inv_def fs_tab_def)
  have "f_mark s' = Some reh \<and> f_neid s' = f_neid s \<and>
      f_ent s' = (f_ent s)(reh := (f_ent s reh)\<lparr>e_name := markname\<rparr>) \<and>
      f_files s' = (f_files s)(markname := f_files s ?r, ?r := None)"
    using assms(2) reh(1)
    by (auto simp: fs_refresh_finish_def remove_mark_entry_def Let_def
        split: if_splits option.splits prod.splits sum.splits)
  with reh show "mark_at t0 s'" "f_files s' (entryname k) = f_files s (entryname k)"
    by (simp_all add: mark_at_def)
qed

subsection \<open>The contract of a block store\<close>

lemma fs_block_get_fine:
  assumes "os_fine B os" "k \<noteq> []" "f_files s (entryname k) = Some (d, t)" "length d = B" "B \<le> n"
  shows "fs_block_get os k n s = (s, Inr d)"
  using assms by (auto simp: fs_block_get_def os_fine_def)

lemma fs_block_get_other:
  "f_files s' (entryname k) = f_files s (entryname k) \<or> f_files s' (entryname k) = None \<Longrightarrow>
   snd (fs_block_get os k n s') = Inr d \<Longrightarrow> snd (fs_block_get os k n s) = Inr d"
  by (cases "f_files s' (entryname k)"; cases "f_files s (entryname k)")
    (auto simp: fs_block_get_def split: if_splits option.splits)

lemma fs_write_block_wrote:
  assumes "fs_write_block os n d prev wc s = (s', Inr u)" "os_fine (length d) os"
  shows "f_files s' n = Some (d, os_now os)"
proof -
  from assms(2) obtain k where "os_write_n os = Some k" "length d \<le> k" by (auto simp: os_fine_def)
  with assms show ?thesis
    by (auto simp: fs_write_block_def os_fine_def Let_def split: if_splits dest!: touch_entry_counters)
qed

lemma fs_block_put_wrote:
  assumes "fs_block_put os k d s = (s', Inr u)" "os_fine (length d) os"
  shows "f_files s' (entryname k) = Some (d, os_now os)"
    and "k' \<noteq> k \<Longrightarrow> f_files s' (entryname k') = f_files s (entryname k') \<or> f_files s' (entryname k') = None"
proof -
  from assms(1) obtain prev wc s1 v where
    w: "purge_loop os (int (length d) - (if wc then prev else 0)) s = (s1, Inr v)"
      "fs_write_block os (entryname k) d prev wc s1 = (s', Inr u)"
    by (cases rule: fs_block_put_cases) auto
  show "f_files s' (entryname k) = Some (d, os_now os)" by (rule fs_write_block_wrote [OF w(2) assms(2)])
  assume "k' \<noteq> k"
  then have "f_files s' (entryname k') = f_files s1 (entryname k')"
    using fs_write_block_other [OF w(2)] by (simp add: entryname_inj)
  moreover have "f_files s1 \<subseteq>\<^sub>m f_files s" using purge_loop_frame [OF w(1)] by (simp add: purge_frame_def)
  ultimately show "f_files s' (entryname k') = f_files s (entryname k') \<or> f_files s' (entryname k') = None"
    unfolding map_le_def by (metis domIff)
qed

text \<open>
  The store at one moment: the operating system \<open>os_sound now\<close> fails nothing at time \<open>now\<close>
  for blocks of 8192 octets, the size the file system uses.
\<close>

definition os_sound :: "int \<Rightarrow> os" where
  "os_sound now = \<lparr>os_now = now, os_stat_ok = True, os_open_ok = True, os_write_n = Some 8192,
     os_restat_ok = True, os_read_n = Some 8192, os_unlink_ok = (\<lambda>_. True), os_rename_ok = True,
     os_utimes_ok = True\<rparr>"

lemma os_sound_fine: "B \<le> 8192 \<Longrightarrow> os_fine B (os_sound now)"
  by (auto simp: os_fine_def os_sound_def)

interpretation fsb: block_store "\<lambda>s k n. snd (fs_block_get (os_sound now) k n s)"
  "\<lambda>s k d. fs_block_put (os_sound now) k d s" "\<lambda>s. fs_inv 8192 s \<and> fs_acct s" "\<lambda>k. k \<noteq> []" 8192
  for now
proof unfold_locales
  fix s k d s' u
  assume a: "fs_inv 8192 s \<and> fs_acct s" "length d = 8192" "fs_block_put (os_sound now) k d s = (s', Inr u)"
  note fine = os_sound_fine [of 8192 now, simplified]
  show "fs_inv 8192 s' \<and> fs_acct s'"
    by (rule fs_block_put_inv [OF _ _ fine a(2,3)]) (use a(1) in simp_all)
  show "snd (fs_block_get (os_sound now) k n s') = Inr d" if "k \<noteq> []" "8192 \<le> n" for n
    using fs_block_get_fine [OF fine that(1) fs_block_put_wrote(1) [OF a(3)] a(2) that(2)] fine a(2) by simp
  show "snd (fs_block_get (os_sound now) k' n s) = Inr d'"
    if "k' \<noteq> k" "snd (fs_block_get (os_sound now) k' n s') = Inr d'" for k' n d'
    using fs_block_put_wrote(2) [OF a(3) _ that(1)] fine a(2) that(2) fs_block_get_other by metis
qed

subsection \<open>Puts, one after the other\<close>

fun fs_puts :: "int \<Rightarrow> (key \<times> bytes) list \<Rightarrow> fsbs \<Rightarrow> fsbs option" where
  "fs_puts now [] s = Some s"
| "fs_puts now ((k, d) # kds) s =
     (case fs_block_put (os_sound now) k d s of (s1, Inl e) \<Rightarrow> None | (s1, Inr _) \<Rightarrow> fs_puts now kds s1)"

lemma fs_puts_puts:
  "fs_puts now kds s = Some s' \<Longrightarrow> list_all (\<lambda>(k, d). length d = 8192) kds \<Longrightarrow> fsb.puts now s kds s'"
  by (induction now kds s rule: fs_puts.induct)
    (auto split: prod.splits sum.splits intro: fsb.puts_nil fsb.puts_cons)

subsection \<open>Heads on disk\<close>

lemma open_heads_append:
  "open_heads parse parse_she (ls @ ms) g =
     (case open_heads parse parse_she ls g of Inl e \<Rightarrow> Inl e | Inr g' \<Rightarrow> open_heads parse parse_she ms g')"
  by (induction parse parse_she ls g rule: open_heads.induct) (auto split: option.split sum.split)

subsection \<open>Properties\<close>

text \<open>
  A block that was put is what a get of its key returns, when the operating system fails
  no call and transfers whole blocks.
\<close>

theorem fs_put_get:
  assumes "fs_block_put os k d s = (s', Inr u)" "os_fine (length d) os" "os_fine (length d) os'"
    "k \<noteq> []" "length d \<le> n"
  shows "fs_block_get os' k n s' = (s', Inr d)"
  using fs_block_get_fine [OF assms(3,4) fs_block_put_wrote(1) [OF assms(1,2)] refl assms(5)] .

lemma wit_put: "\<exists>s'. fs_block_put (os_sound 1) [1] [7] (fs_new 2) = (s', Inr ())"
proof -
  have "snd (fs_block_put (os_sound 1) [1] [7] (fs_new 2)) = Inr ()" by code_simp
  then show ?thesis by (metis prod.collapse)
qed

theorem fs_put_get_witness:
  "\<exists>s'. fs_block_put (os_sound 1) [1] [7] (fs_new 2) = (s', Inr ()) \<and>
     fs_block_get (os_sound 2) [1] 8192 s' = (s', Inr [7])"
proof -
  obtain s' where p: "fs_block_put (os_sound 1) [1] [7] (fs_new 2) = (s', Inr ())" using wit_put by blast
  have "fs_block_get (os_sound 2) [1] 8192 s' = (s', Inr [7])"
    by (rule fs_put_get [OF p]) (simp_all add: os_sound_fine)
  with p show ?thesis by blast
qed

text \<open>
  C27. After any sequence of completed puts of whole blocks, a get that succeeds returns the
  last block put under its key, or, for a key that was not put, the block it returned before.
\<close>

theorem fs_puts_get:
  assumes "fs_inv 8192 s" "fs_acct s" "fs_puts now kds s = Some s'" "list_all (\<lambda>(k, d). length d = 8192) kds"
    "k \<noteq> []" "8192 \<le> n" "snd (fs_block_get (os_sound now) k n s') = Inr d"
  shows "case map_of (rev kds) k of None \<Rightarrow> snd (fs_block_get (os_sound now) k n s) = Inr d | Some d' \<Rightarrow> d = d'"
  by (rule fsb.puts_get [OF fs_puts_puts [OF assms(3,4)]]) (use assms in simp_all)

lemma wit_puts: "\<exists>s'. fs_puts 1 [([1], replicate 8192 7), ([1], replicate 8192 9)] (fs_new 10000) = Some s'"
  by (simp add: fs_block_put_def fs_new_def fs_create_def fs_ctor_def os_sound_def Let_def put_prev_def
      purge_loop.simps fs_write_block_def touch_entry_def put_account_def)

theorem fs_puts_get_witness:
  "\<exists>s'. fs_puts 1 [([1], replicate 8192 7), ([1], replicate 8192 9)] (fs_new 10000) = Some s' \<and>
     snd (fs_block_get (os_sound 1) [1] 8192 s') = Inr (replicate 8192 9)"
proof -
  obtain s' where p: "fs_puts 1 [([1], replicate 8192 7), ([1], replicate 8192 9)] (fs_new 10000) = Some s'"
    using wit_puts by blast
  from p have "\<exists>d. snd (fs_block_get (os_sound 1) [1] 8192 s') = Inr d"
    by (auto simp: fs_block_get_def fs_block_put_def fs_new_def fs_create_def fs_ctor_def os_sound_def Let_def put_prev_def
        purge_loop.simps fs_write_block_def touch_entry_def put_account_def)
  then obtain d where d: "snd (fs_block_get (os_sound 1) [1] 8192 s') = Inr d" by blast
  have "d = replicate 8192 9"
    using fs_puts_get [OF _ _ p _ _ _ d] fs_new_inv [of 10000 8192] by simp
  with p d show ?thesis by blast
qed


definition wit_seen :: "(os \<times> fsop) list" where
  "wit_seen = [(os_sound 1, Put [1] [7]), (os_sound 1, Put [2] [8]), (os_sound 2, RStart 1),
     (os_sound 3, RBlock 1 [2])]"

definition wit_seen_state :: fsbs where
  "wit_seen_state = the (fs_run wit_seen (fs_new 2))"

definition wit_marked_state :: fsbs where
  "wit_marked_state = fst (fs_refresh_finish (os_sound 4) 1 wit_seen_state)"

definition wit_later_state :: fsbs where
  "wit_later_state = the (fs_run [(os_sound 5, Put [3] [9])] wit_marked_state)"

lemma pair_fst: "snd p = y \<Longrightarrow> p = (fst p, y)"
  by auto

lemma wit_facts:
  "case fs_run wit_seen (fs_new 2) of None \<Rightarrow> False
   | Some s \<Rightarrow>
       f_files s (ridname 1) = Some ([], 2) \<and> f_files s (entryname [2]) = Some ([8], 3) \<and>
       (case fs_refresh_finish (os_sound 4) 1 s of (s1, r) \<Rightarrow>
          r = Inr () \<and> (case fs_run [(os_sound 5, Put [3] [9])] s1 of None \<Rightarrow> False | Some _ \<Rightarrow> True) \<and>
          e_name (f_ent s1 (last (f_lru s1))) = entryname [1] \<and>
          snd (purge_uncommitted (os_sound 5) s1) = Inr ())"
  by code_simp

lemma wit_states:
  "fs_run wit_seen (fs_new 2) = Some wit_seen_state"
  "fs_refresh_finish (os_sound 4) 1 wit_seen_state = (wit_marked_state, Inr ())"
  "fs_run [(os_sound 5, Put [3] [9])] wit_marked_state = Some wit_later_state"
  "f_files wit_seen_state (ridname 1) = Some ([], 2)" "f_files wit_seen_state (entryname [2]) = Some ([8], 3)"
  "e_name (f_ent wit_marked_state (last (f_lru wit_marked_state))) = entryname [1]"
  "snd (purge_uncommitted (os_sound 5) wit_marked_state) = Inr ()"
  using wit_facts unfolding wit_seen_state_def wit_marked_state_def wit_later_state_def
  by (auto split: option.splits prod.splits)

lemma wit_seen_fine: "list_all (op_fine 1) wit_seen"
  by (simp add: wit_seen_def os_sound_fine)






lemma purge_uncommitted_lru: "purge_uncommitted os s = (s', r) \<Longrightarrow> set (f_lru s') \<subseteq> set (f_lru s)"
  by (auto simp: purge_uncommitted_def Let_def split: if_splits option.splits dest: in_set_butlastD)



fun fs_head_inserts ::
    "(signedheadedge \<Rightarrow> bytes) \<Rightarrow> he_parser \<Rightarrow> signedheadedge list \<Rightarrow> fsbs \<Rightarrow> fsbs option" where
  "fs_head_inserts serialize parse [] s = Some s"
| "fs_head_inserts serialize parse (she # shes) s =
     (case fs_head_insert serialize parse she s of
        (s1, Inl e) \<Rightarrow> None
      | (s1, Inr _) \<Rightarrow> fs_head_inserts serialize parse shes s1)"

definition heads_agree :: "he_parser \<Rightarrow> (bytes \<Rightarrow> signedheadedge option) \<Rightarrow> fsbs \<Rightarrow> bool" where
  "heads_agree parse parse_she s \<longleftrightarrow> open_heads parse parse_she (f_heads s) lhng_empty = Inr (f_lhng s)"

lemma fs_head_insert_agree:
  assumes "heads_agree parse parse_she s" "parse_she (serialize she) = Some she"
    "fs_head_insert serialize parse she s = (s', Inr u)"
  shows "heads_agree parse parse_she s'"
  using assms
  by (auto simp: heads_agree_def fs_head_insert_def write_head_def Let_def open_heads_append
      Base64_roundtrip split: sum.splits)

lemma fs_head_inserts_agree:
  assumes "fs_head_inserts serialize parse shes s = Some s'" "heads_agree parse parse_she s"
    "\<forall>she \<in> set shes. parse_she (serialize she) = Some she"
  shows "heads_agree parse parse_she s'"
  using assms
proof (induction serialize parse shes s rule: fs_head_inserts.induct)
  case (2 serialize parse she shes s)
  then show ?case
    by (cases "fs_head_insert serialize parse she s")
      (auto split: sum.splits intro: fs_head_insert_agree)
qed simp

text \<open>A directory that the operating system lets the store read.\<close>

definition readable :: "fsdir \<Rightarrow> bool" where
  "readable d \<longleftrightarrow> d_stat d = PDir \<and> d_open_ok d \<and> d_heads_ok d \<and> list_all (\<lambda>(n, st). st \<noteq> None) (d_entries d)"

lemma open_entries_ok:
  "list_all (\<lambda>(n, st). st \<noteq> None) dir \<Longrightarrow> open_entries dir s ets \<noteq> Inl e"
  by (induction dir s ets rule: open_entries.induct) (auto simp: Let_def)

lemma fs_open_agree:
  assumes "heads_agree parse parse_she s" "readable d" "d_heads d = f_heads s"
  shows "\<exists>s'. fs_open parse parse_she (a # args) d = Inr s' \<and> f_lhng s' = f_lhng s"
  using assms by (auto simp: fs_open_def heads_agree_def readable_def Let_def open_entries_ok split: prod.splits sum.splits)

lemma fs_new_agree: "heads_agree parse parse_she (fs_new sz)"
  by (simp add: heads_agree_def fs_new_def fs_create_def fs_ctor_def Let_def)

text \<open>
  C29. A store that took a sequence of heads, all accepted, opens again, and the graph it
  reads back from its heads file is the graph it had in memory. The hypothesis is that a
  serialized head parses back to itself.
\<close>

theorem fs_heads_reopen:
  assumes "\<forall>she \<in> set shes. parse_she (serialize she) = Some she"
    "fs_head_inserts serialize parse shes (fs_new sz) = Some s" "readable d" "d_heads d = f_heads s"
  shows "\<exists>s'. fs_open parse parse_she (a # args) d = Inr s' \<and> f_lhng s' = f_lhng s"
  by (rule fs_open_agree [OF fs_head_inserts_agree [OF assms(2) fs_new_agree assms(1)] assms(3,4)])

definition wit_dir :: "string list \<Rightarrow> fsdir" where
  "wit_dir hs = \<lparr>d_stat = PDir, d_size = 0, d_open_ok = True, d_entries = [(''.'', Some ([], 0))], d_heads = hs,
     d_heads_ok = True\<rparr>"

lemma wit_dir_readable: "readable (wit_dir hs)" "d_heads (wit_dir hs) = hs"
  by (simp_all add: wit_dir_def readable_def)

definition wit_parse_she :: "bytes \<Rightarrow> signedheadedge option" where
  "wit_parse_she bs = Some (wit_she bs)"

lemma wit_serial: "wit_parse_she (she_headedge (wit_she bs)) = Some (wit_she bs)"
  by (simp add: wit_parse_she_def wit_she_def)

theorem fs_heads_reopen_witness:
  "\<exists>s s'. fs_head_inserts she_headedge wit_parse [wit_she [0, 1], wit_she [1, 2]] (fs_new 0) = Some s \<and>
     fs_open wit_parse wit_parse_she [''p''] (wit_dir (f_heads s)) = Inr s' \<and> f_lhng s' = f_lhng s"
proof -
  have "fs_head_inserts she_headedge wit_parse [wit_she [0, 1], wit_she [1, 2]] (fs_new 0) \<noteq> None"
    by code_simp
  then obtain s where s: "fs_head_inserts she_headedge wit_parse [wit_she [0, 1], wit_she [1, 2]] (fs_new 0) = Some s"
    by blast
  with fs_heads_reopen [OF _ s wit_dir_readable, of wit_parse_she "''p''" "[]"] show ?thesis by (simp add: wit_serial)
qed

text \<open>
  A head that the graph rejects is written to the heads file all the same, and from then
  on the store cannot be opened.
\<close>

theorem fs_rejected_head_bricks:
  assumes "\<forall>she' \<in> set (she # shes). parse_she (serialize she') = Some she'"
    "fs_head_inserts serialize parse shes (fs_new sz) = Some s"
    "fs_head_insert serialize parse she s = (s', Inl e)" "readable d" "d_heads d = f_heads s'"
  shows "fs_open parse parse_she (a # args) d = Inl e"
proof -
  have "heads_agree parse parse_she s"
    by (rule fs_head_inserts_agree [OF assms(2) fs_new_agree]) (use assms(1) in simp)
  with assms(1,3-5) show ?thesis
    by (auto simp: heads_agree_def fs_head_insert_def write_head_def Let_def open_heads_append Base64_roundtrip
        fs_open_def readable_def open_entries_ok split: sum.splits prod.splits)
qed

theorem fs_rejected_head_bricks_witness:
  "\<exists>s'. fs_head_insert she_headedge wit_parse (wit_she [1, 1]) (fs_new 0) = (s', Inl InternalError) \<and>
     fs_open wit_parse wit_parse_she [''p''] (wit_dir (f_heads s')) = Inl InternalError"
proof -
  have "snd (fs_head_insert she_headedge wit_parse (wit_she [1, 1]) (fs_new 0)) = Inl InternalError"
    by code_simp
  then obtain s' where s': "fs_head_insert she_headedge wit_parse (wit_she [1, 1]) (fs_new 0) = (s', Inl InternalError)"
    by (metis pair_fst)
  have "fs_open wit_parse wit_parse_she [''p''] (wit_dir (f_heads s')) = Inl InternalError"
    by (rule fs_rejected_head_bricks [where shes = "[]" and sz = 0 and s = "fs_new 0", OF _ _ s'])
      (simp_all add: wit_serial wit_dir_readable)
  with s' show ?thesis by blast
qed

end
