(* ===== verification/Block_Ref.thy ===== *)
theory Block_Ref
  imports Utp_Prelude
begin

text \<open>
  Digests, the block cipher and block references (\<^verbatim>\<open>libutp/src/Digest.cpp\<close>,
  \<^verbatim>\<open>libutp/src/BlockCipher.cpp\<close>, \<^verbatim>\<open>modules/UTFileSystem/BlockRef.cpp\<close>). The hash
  function SHA256 and the AES-CBC permutation are OpenSSL's, so they are arguments of the
  definitions. A block reference is 32 octets: half of the digest of the encrypted block
  followed by the initialisation vector the block was encrypted with.
\<close>

subsection \<open>Digest\<close>

definition Digest_nil :: bytes where
  "Digest_nil = replicate 32 0"

definition Digest_of :: "(bytes \<Rightarrow> bytes) \<Rightarrow> bytes \<Rightarrow> bytes" where
  "Digest_of sha256 i_data = sha256 i_data"

definition Digest_parse :: "bytes \<Rightarrow> bytes res" where
  "Digest_parse i_digstr =
     (if length i_digstr \<noteq> 32 then Inl InternalError else Inr i_digstr)"

definition Digest_not :: "bytes \<Rightarrow> bool" where
  "Digest_not m_dig = list_all (\<lambda>b. b = 0) m_dig"

subsection \<open>BlockRef\<close>

type_synonym blkref = bytes

definition BlockRef_nil :: blkref where
  "BlockRef_nil = replicate 32 0"

definition BlockRef_make :: "bytes \<Rightarrow> bytes \<Rightarrow> blkref" where
  "BlockRef_make i_dig i_ivp = take 16 i_dig @ take 16 i_ivp"

definition BlockRef_parse :: "bytes \<Rightarrow> blkref res" where
  "BlockRef_parse i_blkrefstr =
     (if length i_blkrefstr \<noteq> 32 then Inl InternalError else Inr i_blkrefstr)"

text \<open>\<^verbatim>\<open>operator!\<close>: the loop over the octets returns false at the first one set.\<close>

fun BlockRef_not :: "blkref \<Rightarrow> bool" where
  "BlockRef_not [] = True"
| "BlockRef_not (b # bs) = (if b \<noteq> 0 then False else BlockRef_not bs)"

definition BlockRef_clear :: "blkref \<Rightarrow> blkref" where
  "BlockRef_clear m_ref = replicate 32 0"

definition BlockRef_iv :: "blkref \<Rightarrow> bytes" where
  "BlockRef_iv m_ref = drop 16 m_ref"

definition BlockRef_validate :: "(bytes \<Rightarrow> bytes) \<Rightarrow> blkref \<Rightarrow> bytes \<Rightarrow> unit res" where
  "BlockRef_validate sha256 m_ref i_data =
     (if take 16 (Digest_of sha256 i_data) \<noteq> take 16 m_ref
      then Inl VerificationError else Inr ())"

abbreviation ref_set :: "blkref \<Rightarrow> bool" where
  "ref_set r \<equiv> \<not> BlockRef_not r"

subsection \<open>BlockCipher\<close>

text \<open>
  The key schedule is represented by the 16 octet key buffer it is computed from.
  \<open>aes_cbc enc key iv data\<close> stands for \<^verbatim>\<open>AES_cbc_encrypt\<close> in the direction \<open>enc\<close>.
\<close>

record cipher =
  c_key :: bytes
  c_isvalid :: bool

definition AES_BLOCK_SIZE :: nat where
  "AES_BLOCK_SIZE = 16"

definition BlockCipher_set_key :: "bytes \<Rightarrow> cipher" where
  "BlockCipher_set_key i_keyp =
     (let n = min (length i_keyp) AES_BLOCK_SIZE
      in \<lparr>c_key = memcpy_at (replicate AES_BLOCK_SIZE 0) 0 (take n i_keyp), c_isvalid = True\<rparr>)"

definition BlockCipher_unset_key :: cipher where
  "BlockCipher_unset_key = \<lparr>c_key = replicate AES_BLOCK_SIZE 0, c_isvalid = False\<rparr>"

type_synonym aes = "bool \<Rightarrow> bytes \<Rightarrow> bytes \<Rightarrow> bytes \<Rightarrow> bytes"

definition BlockCipher_encrypt :: "aes \<Rightarrow> cipher \<Rightarrow> bytes \<Rightarrow> bytes \<Rightarrow> bytes res" where
  "BlockCipher_encrypt aes_cbc c i_iv io_data =
     (if length io_data mod AES_BLOCK_SIZE \<noteq> 0 then Inl InternalError
      else Inr (aes_cbc True (c_key c) (take AES_BLOCK_SIZE i_iv) io_data))"

definition BlockCipher_decrypt :: "aes \<Rightarrow> cipher \<Rightarrow> bytes \<Rightarrow> bytes \<Rightarrow> bytes res" where
  "BlockCipher_decrypt aes_cbc c i_iv io_data =
     (if length io_data mod AES_BLOCK_SIZE \<noteq> 0 then Inl InternalError
      else Inr (aes_cbc False (c_key c) (take AES_BLOCK_SIZE i_iv) io_data))"

subsection \<open>Facts\<close>

lemma BlockRef_not_iff: "BlockRef_not r \<longleftrightarrow> (\<forall>b \<in> set r. b = 0)"
  by (induction r) auto

lemma length_BlockRef_nil [simp]: "length BlockRef_nil = 32"
  by (simp add: BlockRef_nil_def)

lemma length_BlockRef_clear [simp]: "length (BlockRef_clear r) = 32"
  by (simp add: BlockRef_clear_def)

lemma BlockRef_nil_not [simp]: "BlockRef_not BlockRef_nil"
  by (simp add: BlockRef_not_iff BlockRef_nil_def)

lemma BlockRef_clear_not [simp]: "BlockRef_not (BlockRef_clear r)"
  by (auto simp: BlockRef_not_iff BlockRef_clear_def)

lemma BlockRef_clear_nil: "BlockRef_clear r = BlockRef_nil"
  by (simp add: BlockRef_clear_def BlockRef_nil_def)

lemma BlockRef_not_nil: "length r = 32 \<Longrightarrow> BlockRef_not r \<longleftrightarrow> r = BlockRef_nil"
  unfolding BlockRef_not_iff BlockRef_nil_def
  by (metis in_set_replicate replicate_eqI)

lemma length_BlockRef_make [simp]:
  "length i_dig = 32 \<Longrightarrow> length i_ivp = 16 \<Longrightarrow> length (BlockRef_make i_dig i_ivp) = 32"
  by (simp add: BlockRef_make_def)

lemma BlockRef_iv_make [simp]:
  "length i_dig = 32 \<Longrightarrow> length i_ivp = 16 \<Longrightarrow> BlockRef_iv (BlockRef_make i_dig i_ivp) = i_ivp"
  by (simp add: BlockRef_iv_def BlockRef_make_def)

lemma BlockRef_validate_make [simp]:
  "length (sha256 d) = 32 \<Longrightarrow>
   BlockRef_validate sha256 (BlockRef_make (Digest_of sha256 d) iv) d = Inr ()"
  by (simp add: BlockRef_validate_def BlockRef_make_def Digest_of_def)

end
