(* ===== verification/Node_Cache.thy ===== *)
theory Node_Cache
  imports Block_Ref
begin

text \<open>
  The clean node cache (\<^verbatim>\<open>modules/UTFileSystem/BlockNodeCache.cpp\<close>): a hash map from block
  references to node handles and a list of the handles, most recently used first. Nodes
  are objects shared by handle, so a node is an identity; \<open>m_lpos\<close> is the member of the
  node that holds its position in the list. A position is the identity of a list cell, and
  erasing a position that is no cell of the list is undefined in C++, which the model
  makes the result \<^const>\<open>InvalidIterator\<close>. The mutex makes each operation atomic.
\<close>

type_synonym nid = nat
type_synonym cell = nat

record bncache =
  m_nodemap :: "blkref \<Rightarrow> nid option"
  m_nodemru :: "(cell \<times> nid) list"
  m_lpos :: "nid \<Rightarrow> cell option"
  m_ncell :: cell

definition BlockNodeCache_empty :: "(nid \<Rightarrow> cell option) \<Rightarrow> bncache" where
  "BlockNodeCache_empty lpos =
     \<lparr>m_nodemap = Map.empty, m_nodemru = [], m_lpos = lpos, m_ncell = 0\<rparr>"

subsection \<open>std::list operations\<close>

definition mru_erase :: "cell option \<Rightarrow> bncache \<Rightarrow> bncache res" where
  "mru_erase pos c =
     (case pos of
        None \<Rightarrow> Inl InvalidIterator
      | Some p \<Rightarrow>
          if p \<in> fst ` set (m_nodemru c)
          then Inr (c\<lparr>m_nodemru := filter (\<lambda>x. fst x \<noteq> p) (m_nodemru c)\<rparr>)
          else Inl InvalidIterator)"

text \<open>\<^verbatim>\<open>push_front\<close> followed by \<^verbatim>\<open>i_bnh->m_lpos = m_nodemru.begin()\<close>.\<close>

definition mru_push_front :: "nid \<Rightarrow> bncache \<Rightarrow> bncache" where
  "mru_push_front n c =
     c\<lparr>m_nodemru := (m_ncell c, n) # m_nodemru c,
       m_lpos := (m_lpos c)(n := Some (m_ncell c)),
       m_ncell := Suc (m_ncell c)\<rparr>"

subsection \<open>The operations\<close>

definition bnc_touch :: "nid \<Rightarrow> bncache \<Rightarrow> bncache res" where
  "bnc_touch i_bnh c =
     (case mru_erase (m_lpos c i_bnh) c of
        Inl e \<Rightarrow> Inl e
      | Inr c1 \<Rightarrow> Inr (mru_push_front i_bnh c1))"

definition bnc_insert :: "(nid \<Rightarrow> blkref) \<Rightarrow> nid \<Rightarrow> bncache \<Rightarrow> bncache res" where
  "bnc_insert bn_blkref i_bnh c =
     (let ref = bn_blkref i_bnh in
      case m_nodemap c ref of
        Some n \<Rightarrow> bnc_touch n c
      | None \<Rightarrow> Inr (mru_push_front i_bnh (c\<lparr>m_nodemap := (m_nodemap c)(ref \<mapsto> i_bnh)\<rparr>)))"

definition bnc_lookup :: "blkref \<Rightarrow> bncache \<Rightarrow> (bncache \<times> nid option) res" where
  "bnc_lookup i_ref c =
     (case m_nodemap c i_ref of
        None \<Rightarrow> Inr (c, None)
      | Some bnh \<Rightarrow>
          (case bnc_touch bnh c of
             Inl e \<Rightarrow> Inl e
           | Inr c1 \<Rightarrow> Inr (c1, Some bnh)))"

definition bnc_remove :: "blkref \<Rightarrow> bncache \<Rightarrow> bncache res" where
  "bnc_remove i_ref c =
     (case m_nodemap c i_ref of
        None \<Rightarrow> Inr c
      | Some bnh \<Rightarrow>
          (let c1 = c\<lparr>m_nodemap := (m_nodemap c)(i_ref := None)\<rparr> in
           case mru_erase (m_lpos c1 bnh) c1 of
             Inl e \<Rightarrow> Inl e
           | Inr c2 \<Rightarrow> Inr (c2\<lparr>m_lpos := (m_lpos c2)(bnh := None)\<rparr>)))"

definition bnc_size :: "bncache \<Rightarrow> nat" where
  "bnc_size c = card (dom (m_nodemap c))"

subsection \<open>Invariant\<close>

text \<open>
  Every mapped node has exactly one cell, its \<open>m_lpos\<close> names that cell, and no node is
  mapped under two references.
\<close>

definition bnc_inv :: "bncache \<Rightarrow> bool" where
  "bnc_inv c \<longleftrightarrow>
     distinct (map fst (m_nodemru c)) \<and>
     distinct (map snd (m_nodemru c)) \<and>
     (\<forall>x \<in> set (m_nodemru c). m_lpos c (snd x) = Some (fst x) \<and> fst x < m_ncell c) \<and>
     ran (m_nodemap c) = snd ` set (m_nodemru c) \<and>
     (\<forall>k k' n. m_nodemap c k = Some n \<longrightarrow> m_nodemap c k' = Some n \<longrightarrow> k = k')"

definition mru_nodes :: "bncache \<Rightarrow> nid list" where
  "mru_nodes c = map snd (m_nodemru c)"

lemma bnc_inv_empty [simp]: "bnc_inv (BlockNodeCache_empty lpos)"
  by (simp add: bnc_inv_def BlockNodeCache_empty_def)

lemma mru_cell:
  assumes "bnc_inv c" "n \<in> ran (m_nodemap c)"
  obtains p where "m_lpos c n = Some p" "(p, n) \<in> set (m_nodemru c)"
  using assms by (auto simp: bnc_inv_def)

lemma filter_cell:
  assumes "distinct (map fst xs)" "distinct (map snd xs)" "(p, n) \<in> set xs"
  shows "map snd (filter (\<lambda>x. fst x \<noteq> p) xs) = remove1 n (map snd xs)"
  using assms
proof (induction xs)
  case Nil
  then show ?case by simp
next
  case (Cons x xs)
  show ?case
  proof (cases "x = (p, n)")
    case True
    with Cons.prems have "filter (\<lambda>x. fst x \<noteq> p) xs = xs"
      by (force simp: filter_id_conv)
    with True show ?thesis by simp
  next
    case False
    with Cons.prems have mem: "(p, n) \<in> set xs" by auto
    with Cons.prems have "fst x \<noteq> p" "snd x \<noteq> n"
      by (auto simp: image_iff)
    with Cons mem show ?thesis by simp
  qed
qed

lemma mru_erase_ok:
  assumes "bnc_inv c" "n \<in> ran (m_nodemap c)"
  obtains p where "m_lpos c n = Some p" "(p, n) \<in> set (m_nodemru c)"
    "mru_erase (m_lpos c n) c = Inr (c\<lparr>m_nodemru := filter (\<lambda>x. fst x \<noteq> p) (m_nodemru c)\<rparr>)"
proof -
  obtain p where p: "m_lpos c n = Some p" "(p, n) \<in> set (m_nodemru c)"
    using assms by (rule mru_cell)
  then have "p \<in> fst ` set (m_nodemru c)" by force
  with p show ?thesis by (intro that) (simp_all add: mru_erase_def)
qed

lemma bnc_touch_ok:
  assumes inv: "bnc_inv c" and n: "n \<in> ran (m_nodemap c)"
  shows "\<exists>c'. bnc_touch n c = Inr c' \<and> bnc_inv c' \<and> m_nodemap c' = m_nodemap c \<and>
              mru_nodes c' = n # remove1 n (mru_nodes c)"
proof -
  obtain p where p: "m_lpos c n = Some p" "(p, n) \<in> set (m_nodemru c)"
    and er: "mru_erase (m_lpos c n) c = Inr (c\<lparr>m_nodemru := filter (\<lambda>x. fst x \<noteq> p) (m_nodemru c)\<rparr>)"
    using inv n by (rule mru_erase_ok)
  define c' where
    "c' = mru_push_front n (c\<lparr>m_nodemru := filter (\<lambda>x. fst x \<noteq> p) (m_nodemru c)\<rparr>)"
  have d: "distinct (map fst (m_nodemru c))" "distinct (map snd (m_nodemru c))"
    using inv by (simp_all add: bnc_inv_def)
  have nodes: "mru_nodes c' = n # remove1 n (mru_nodes c)"
    using filter_cell [OF d p(2)] by (simp add: c'_def mru_push_front_def mru_nodes_def)
  have other: "snd x \<noteq> n" if "x \<in> set (m_nodemru c)" "fst x \<noteq> p" for x
    using that inv p by (auto simp: bnc_inv_def)
  have "distinct (map snd (m_nodemru c'))"
    using nodes d by (simp add: mru_nodes_def)
  moreover have "distinct (map fst (m_nodemru c'))"
    using inv d by (auto simp: c'_def mru_push_front_def bnc_inv_def distinct_map_filter)
  moreover have "\<forall>x \<in> set (m_nodemru c'). m_lpos c' (snd x) = Some (fst x) \<and> fst x < m_ncell c'"
    using inv other by (auto simp: c'_def mru_push_front_def bnc_inv_def less_Suc_eq)
  moreover have "snd ` set (m_nodemru c') = snd ` set (m_nodemru c)"
  proof -
    have "n \<in> set (map snd (m_nodemru c))" using p(2) by force
    then have "set (mru_nodes c') = set (mru_nodes c)"
      using d(2) unfolding nodes by (auto simp: mru_nodes_def)
    then show ?thesis by (simp add: mru_nodes_def)
  qed
  moreover have nm: "m_nodemap c' = m_nodemap c"
    by (simp add: c'_def mru_push_front_def)
  ultimately have "bnc_inv c'"
    using inv unfolding bnc_inv_def by simp
  moreover have "bnc_touch n c = Inr c'"
    by (simp add: bnc_touch_def er c'_def)
  ultimately show ?thesis using nodes nm by blast
qed

subsection \<open>The cache as a map\<close>

text \<open>
  The contract the file nodes rely on: while no node is cached under two references,
  lookups answer as a map would, and no operation meets an invalid list position.
\<close>

datatype ('k, 'n) cop = CLookup 'k | CInsert 'k 'n | CRemove 'k

fun cop_spec :: "('k, 'n) cop \<Rightarrow> ('k \<Rightarrow> 'n option) \<Rightarrow> ('k \<Rightarrow> 'n option)" where
  "cop_spec (CLookup k) m = m"
| "cop_spec (CInsert k n) m = (case m k of None \<Rightarrow> m(k \<mapsto> n) | Some _ \<Rightarrow> m)"
| "cop_spec (CRemove k) m = m(k := None)"

fun cop_fresh :: "('k, 'n) cop \<Rightarrow> ('k \<Rightarrow> 'n option) \<Rightarrow> bool" where
  "cop_fresh (CInsert k n) m = (\<forall>k'. m k' = Some n \<longrightarrow> k' = k)"
| "cop_fresh _ m = True"

fun cops_fresh :: "('k, 'n) cop list \<Rightarrow> ('k \<Rightarrow> 'n option) \<Rightarrow> bool" where
  "cops_fresh [] m = True"
| "cops_fresh (x # xs) m = (cop_fresh x m \<and> cops_fresh xs (cop_spec x m))"

fun run_cops :: "('k, 'n) cop list \<Rightarrow> (('k, 'n) cop \<Rightarrow> 'c \<Rightarrow> 'c res) \<Rightarrow> 'c \<Rightarrow> 'c res" where
  "run_cops [] f c = Inr c"
| "run_cops (x # xs) f c = (case f x c of Inl e \<Rightarrow> Inl e | Inr c' \<Rightarrow> run_cops xs f c')"

locale node_cache =
  fixes lookup :: "'k \<Rightarrow> 'c \<Rightarrow> ('c \<times> 'n option) res"
    and insert :: "'k \<Rightarrow> 'n \<Rightarrow> 'c \<Rightarrow> 'c res"
    and remove :: "'k \<Rightarrow> 'c \<Rightarrow> 'c res"
    and abs :: "'c \<Rightarrow> 'k \<Rightarrow> 'n option"
    and inv :: "'c \<Rightarrow> bool"
    and step :: "('k, 'n) cop \<Rightarrow> 'c \<Rightarrow> 'c res"
  assumes lookup_ok: "inv c \<Longrightarrow>
      \<exists>c'. lookup k c = Inr (c', abs c k) \<and> inv c' \<and> abs c' = abs c"
    and insert_ok: "inv c \<Longrightarrow> \<forall>k'. abs c k' = Some n \<longrightarrow> k' = k \<Longrightarrow>
      \<exists>c'. insert k n c = Inr c' \<and> inv c' \<and> abs c' = cop_spec (CInsert k n) (abs c)"
    and remove_ok: "inv c \<Longrightarrow>
      \<exists>c'. remove k c = Inr c' \<and> inv c' \<and> abs c' = (abs c)(k := None)"
    and step_lookup: "step (CLookup k) c = map_sum id fst (lookup k c)"
    and step_insert: "step (CInsert k n) c = insert k n c"
    and step_remove: "step (CRemove k) c = remove k c"
begin

lemma step_ok:
  assumes "inv c" "cop_fresh x (abs c)"
  shows "\<exists>c'. step x c = Inr c' \<and> inv c' \<and> abs c' = cop_spec x (abs c)"
proof (cases x)
  case (CLookup k)
  with lookup_ok [OF assms(1), of k] show ?thesis by (auto simp: step_lookup)
next
  case (CInsert k n)
  with insert_ok [OF assms(1), of n k] assms(2) show ?thesis by (simp add: step_insert)
next
  case (CRemove k)
  with remove_ok [OF assms(1), of k] show ?thesis by (simp add: step_remove)
qed

lemma run_ok:
  "inv c \<Longrightarrow> cops_fresh xs (abs c) \<Longrightarrow>
   \<exists>c'. run_cops xs step c = Inr c' \<and> inv c' \<and> abs c' = fold cop_spec xs (abs c)"
proof (induction xs arbitrary: c)
  case Nil
  then show ?case by simp
next
  case (Cons x xs)
  from Cons.prems obtain c1 where c1: "step x c = Inr c1" "inv c1" "abs c1 = cop_spec x (abs c)"
    using step_ok [of c x] by auto
  with Cons.prems have "cops_fresh xs (abs c1)" by simp
  with Cons.IH [OF c1(2)] c1 show ?case by simp
qed

lemma lookup_after_insert:
  assumes "inv c" "abs c k = None" "\<forall>k'. abs c k' \<noteq> Some n" "insert k n c = Inr c'"
  shows "\<exists>c''. lookup k c' = Inr (c'', Some n)"
  using insert_ok [OF assms(1), of n k] lookup_ok [of c' k] assms(2-4) by auto

lemma lookup_after_remove:
  assumes "inv c" "remove k c = Inr c'"
  shows "\<exists>c''. lookup k c' = Inr (c'', None)"
  using remove_ok [OF assms(1), of k] lookup_ok [of c' k] assms(2) by auto

end

lemma bnc_lookup_ok:
  assumes "bnc_inv c"
  shows "\<exists>c'. bnc_lookup k c = Inr (c', m_nodemap c k) \<and> bnc_inv c' \<and> m_nodemap c' = m_nodemap c"
proof (cases "m_nodemap c k")
  case None
  with assms show ?thesis by (simp add: bnc_lookup_def)
next
  case (Some n)
  with bnc_touch_ok [OF assms, of n] Some ranI [of "m_nodemap c" k n] show ?thesis
    by (auto simp: bnc_lookup_def)
qed

lemma bnc_push_new:
  assumes inv: "bnc_inv c" and fresh: "n \<notin> ran (m_nodemap c)" and none: "m_nodemap c k = None"
  shows "bnc_inv (mru_push_front n (c\<lparr>m_nodemap := (m_nodemap c)(k \<mapsto> n)\<rparr>))"
proof -
  have "n \<notin> snd ` set (m_nodemru c)"
    using inv fresh by (simp add: bnc_inv_def)
  moreover have "m_ncell c \<notin> fst ` set (m_nodemru c)"
    using inv by (fastforce simp: bnc_inv_def)
  moreover have "\<forall>x \<in> set (m_nodemru c). snd x \<noteq> n"
    using calculation(1) by force
  moreover have "ran ((m_nodemap c)(k \<mapsto> n)) = Set.insert n (ran (m_nodemap c))"
    using none by simp
  moreover have "m_nodemap c j \<noteq> Some n" for j
    using fresh by (auto simp: ran_def)
  ultimately show ?thesis
    using inv unfolding bnc_inv_def mru_push_front_def
    by (auto simp: less_Suc_eq)
qed

lemma bnc_insert_ok:
  assumes inv: "bnc_inv c" and fresh: "\<forall>k'. m_nodemap c k' = Some n \<longrightarrow> k' = k"
  shows "\<exists>c'. bnc_insert (\<lambda>_. k) n c = Inr c' \<and> bnc_inv c' \<and>
              m_nodemap c' = cop_spec (CInsert k n) (m_nodemap c)"
proof (cases "m_nodemap c k")
  case None
  with fresh have "n \<notin> ran (m_nodemap c)" by (auto simp: ran_def)
  from bnc_push_new [OF inv this None] None show ?thesis
    by (simp add: bnc_insert_def mru_push_front_def)
next
  case (Some m)
  with bnc_touch_ok [OF inv, of m] Some ranI [of "m_nodemap c" k m] show ?thesis
    by (auto simp: bnc_insert_def)
qed

lemma ran_fun_upd_None:
  assumes "\<forall>k k' n. m k = Some n \<longrightarrow> m k' = Some n \<longrightarrow> k = k'" and "m k = Some n"
  shows "ran (m(k := None)) = ran m - {n}"
  using assms unfolding ran_def by (auto split: if_splits) (metis option.inject)

lemma bnc_remove_ok:
  assumes inv: "bnc_inv c"
  shows "\<exists>c'. bnc_remove k c = Inr c' \<and> bnc_inv c' \<and> m_nodemap c' = (m_nodemap c)(k := None)"
proof (cases "m_nodemap c k")
  case None
  then have "(m_nodemap c)(k := None) = m_nodemap c" by auto
  with None inv show ?thesis by (simp add: bnc_remove_def)
next
  case (Some n)
  obtain p where p: "m_lpos c n = Some p" "(p, n) \<in> set (m_nodemru c)"
    using inv ranI [of "m_nodemap c" k n, OF Some] by (rule mru_cell)
  define c' where
    "c' = c\<lparr>m_nodemap := (m_nodemap c)(k := None),
           m_nodemru := filter (\<lambda>x. fst x \<noteq> p) (m_nodemru c),
           m_lpos := (m_lpos c)(n := None)\<rparr>"
  have "p \<in> fst ` set (m_nodemru c)" using p(2) by force
  then have run: "bnc_remove k c = Inr c'"
    by (simp add: bnc_remove_def Some mru_erase_def p(1) c'_def)
  have d: "distinct (map fst (m_nodemru c))" "distinct (map snd (m_nodemru c))"
    using inv by (simp_all add: bnc_inv_def)
  have nodes: "map snd (m_nodemru c') = remove1 n (map snd (m_nodemru c))"
    using filter_cell [OF d p(2)] by (simp add: c'_def)
  then have "set (map snd (m_nodemru c')) = snd ` set (m_nodemru c) - {n}"
    using d(2) by simp
  moreover have "snd x \<noteq> n" if "x \<in> set (m_nodemru c')" for x
    using that inv p by (auto simp: bnc_inv_def c'_def)
  moreover have "distinct (map snd (m_nodemru c'))" using nodes d(2) by simp
  moreover have "distinct (map fst (m_nodemru c'))"
    using d(1) by (simp add: c'_def distinct_map_filter)
  moreover have "ran (m_nodemap c') = ran (m_nodemap c) - {n}"
    using inv Some by (simp add: bnc_inv_def c'_def ran_fun_upd_None)
  moreover have "\<forall>x \<in> set (m_nodemru c'). m_lpos c (snd x) = Some (fst x) \<and> fst x < m_ncell c"
    using inv by (auto simp: bnc_inv_def c'_def)
  ultimately have "bnc_inv c'"
    using inv by (auto simp: bnc_inv_def c'_def)
  with run show ?thesis by (auto simp: c'_def)
qed

fun bnc_step :: "(blkref, nid) cop \<Rightarrow> bncache \<Rightarrow> bncache res" where
  "bnc_step (CLookup k) c = map_sum id fst (bnc_lookup k c)"
| "bnc_step (CInsert k n) c = bnc_insert (\<lambda>_. k) n c"
| "bnc_step (CRemove k) c = bnc_remove k c"

interpretation bnc: node_cache bnc_lookup "\<lambda>k. bnc_insert (\<lambda>_. k)" bnc_remove m_nodemap bnc_inv bnc_step
  by unfold_locales
    (use bnc_lookup_ok bnc_insert_ok bnc_remove_ok in \<open>simp_all del: cop_spec.simps\<close>)

subsection \<open>Properties\<close>



text \<open>
  A lookup that hits moves its node to the recent end of the list and changes neither
  the order of the others nor the map.
\<close>

theorem bnc_lookup_touches:
  assumes "bnc_inv c" "m_nodemap c k = Some n"
  shows "\<exists>c'. bnc_lookup k c = Inr (c', Some n) \<and> bnc_inv c' \<and> m_nodemap c' = m_nodemap c \<and>
    mru_nodes c' = n # remove1 n (mru_nodes c)"
  using bnc_touch_ok [OF assms(1) ranI [of "m_nodemap c", OF assms(2)]] assms(2)
  by (auto simp: bnc_lookup_def)

theorem bnc_lookup_touches_witness:
  "\<exists>c c'. bnc_inv c \<and> m_nodemap c [1] = Some 7 \<and> bnc_lookup [1] c = Inr (c', Some 7) \<and>
     mru_nodes c' = 7 # remove1 7 (mru_nodes c)"
proof -
  let ?e = "BlockNodeCache_empty (\<lambda>_. None)"
  let ?c = "mru_push_front 7 (?e\<lparr>m_nodemap := (m_nodemap ?e)([1] \<mapsto> 7)\<rparr>)"
  have i: "bnc_inv ?c"
    by (rule bnc_push_new [OF bnc_inv_empty]) (simp_all add: BlockNodeCache_empty_def)
  have m: "m_nodemap ?c [1] = Some 7" by (simp add: mru_push_front_def)
  from bnc_lookup_touches [OF i m] i m show ?thesis by blast
qed

text \<open>
  A node inserted under two references, as happens when its reference changes while it
  stays cached, breaks the cache: removing both references uses an invalid list position.
\<close>

theorem bnc_two_refs_invalid:
  "k \<noteq> k' \<Longrightarrow>
   run_cops [CInsert k n, CInsert k' n, CRemove k', CRemove k] bnc_step (BlockNodeCache_empty lpos) =
     Inl InvalidIterator"
  by (simp add: BlockNodeCache_empty_def bnc_insert_def bnc_remove_def mru_push_front_def mru_erase_def)

theorem bnc_two_refs_invalid_witness:
  "[1] \<noteq> ([2] :: blkref) \<and>
   run_cops [CInsert [1] 7, CInsert [2] 7, CRemove [2], CRemove [1]] bnc_step
     (BlockNodeCache_empty (\<lambda>_. None)) = Inl InvalidIterator"
  using bnc_two_refs_invalid [of "[1]" "[2]" 7 "\<lambda>_. None"] by simp

end
