(* ===== verification/Block_Tree.thy ===== *)
theory Block_Tree
  imports Node_Cache Store_Interface
begin

text \<open>
  The blocks of a file below its inode: data blocks and single, double and triple indirect
  blocks (\<^verbatim>\<open>DataBlockNode.cpp\<close>, \<^verbatim>\<open>IndirectBlockNode.cpp\<close>, \<^verbatim>\<open>DoubleIndBlockNode.cpp\<close>,
  \<^verbatim>\<open>TripleIndBlockNode.cpp\<close> of \<^verbatim>\<open>modules/UTFileSystem\<close>), the visitors that read and write
  them (\<^verbatim>\<open>ReadBTF\<close> and \<^verbatim>\<open>WriteBTF\<close> of \<^verbatim>\<open>FileNode.cpp\<close>), and the context they share
  (\<^verbatim>\<open>Context.h\<close>, \<^verbatim>\<open>UTStats.h\<close>).

  \<^item> A node is a value of type \<open>bnode\<close>. A node object is reached through exactly one of: the
    slot of its parent (\<^verbatim>\<open>m_blkobj_X\<close>), the clean cache, or a zero singleton of the context,
    so after a node was worked on its new value is put back where it was found
    (\<open>put_back\<close>), also when the work ends with an exception.
  \<^item> The clean cache is the map that \<^verbatim>\<open>Node_Cache\<close> shows it implements.
  \<^item> The block store, SHA256, AES and the random source are the fields of \<open>env\<close>. A get does
    not change the store; \<open>e_junk\<close> is what a buffer holds before a short get fills it.
  \<^item> Offsets and sizes are natural numbers: the largest offset the code addresses is below
    \<open>2 ^ 38\<close>, and the callers pass offsets and lengths whose sum is below \<open>2 ^ 63\<close>.
\<close>

subsection \<open>Data\<close>

definition BLKSZ :: nat where "BLKSZ = 8192"
definition NUMREF :: nat where "NUMREF = BLKSZ div 32"

datatype bnode =
    DataNode (bn_blkref: blkref) (bn_isdirty: bool) (bn_zero: bool) (m_data: bytes)
  | IndNode (i_level: nat) (bn_blkref: blkref) (bn_isdirty: bool) (bn_zero: bool)
      (m_blkref: "blkref list") (m_blkobj: "bnode option list")

text \<open>The class of a node: 0 for data, 1, 2 and 3 for the indirect blocks.\<close>

fun blevel :: "bnode \<Rightarrow> nat" where
  "blevel (DataNode _ _ _ _) = 0"
| "blevel (IndNode l _ _ _ _ _) = l"

record 'bs env =
  e_sha256 :: "bytes \<Rightarrow> bytes"
  e_aes :: aes
  e_rand :: "nat \<Rightarrow> bytes option"
  e_get :: "'bs \<Rightarrow> key \<Rightarrow> nat \<Rightarrow> bytes res"
  e_put :: "'bs \<Rightarrow> key \<Rightarrow> bytes \<Rightarrow> 'bs \<times> unit res"
  e_refresh :: "'bs \<Rightarrow> 64 word \<Rightarrow> key list \<Rightarrow> 'bs \<times> key list res"
  e_junk :: bytes

record 'bs ctxt =
  m_bsh :: 'bs
  m_cipher :: cipher
  m_zdatobj :: "bnode option"
  m_zsinobj :: "bnode option"
  m_zdinobj :: "bnode option"
  m_ztinobj :: "bnode option"
  m_bncache :: "blkref \<Rightarrow> bnode option"
  m_ngops :: nat
  m_npops :: nat
  m_ngbytes :: nat
  m_npbytes :: nat
  m_nrand :: nat

definition cache_insert :: "bnode \<Rightarrow> 'bs ctxt \<Rightarrow> 'bs ctxt" where
  "cache_insert nh c =
     (if m_bncache c (bn_blkref nh) = None
      then c\<lparr>m_bncache := (m_bncache c)(bn_blkref nh \<mapsto> nh)\<rparr> else c)"

definition cache_remove :: "blkref \<Rightarrow> 'bs ctxt \<Rightarrow> 'bs ctxt" where
  "cache_remove r c = c\<lparr>m_bncache := (m_bncache c)(r := None)\<rparr>"

text \<open>
  Setting the dirty flag: the zero data block and the zero indirect block refuse; the other
  two zero classes do not override the method.
\<close>

fun bn_set_dirty :: "bnode \<Rightarrow> bnode res" where
  "bn_set_dirty (DataNode r d z dat) = (if z then Inl InternalError else Inr (DataNode r True z dat))"
| "bn_set_dirty (IndNode l r d z refs objs) =
     (if z \<and> l = 1 then Inl InternalError else Inr (IndNode l r True z refs objs))"

fun bn_set_clean :: "bnode \<Rightarrow> bnode" where
  "bn_set_clean (DataNode r d z dat) = DataNode r False z dat"
| "bn_set_clean (IndNode l r d z refs objs) = IndNode l r False z refs objs"

fun bn_set_ref :: "blkref \<Rightarrow> bnode \<Rightarrow> bnode" where
  "bn_set_ref r (DataNode _ d z dat) = DataNode r d z dat"
| "bn_set_ref r (IndNode l _ d z refs objs) = IndNode l r d z refs objs"

subsection \<open>Constructors\<close>

definition DataBlockNode_new :: bnode where
  "DataBlockNode_new = DataNode BlockRef_nil True False (replicate BLKSZ 0)"

definition IndirectBlockNode_new :: "nat \<Rightarrow> bnode" where
  "IndirectBlockNode_new l =
     IndNode l BlockRef_nil True False (replicate NUMREF BlockRef_nil) (replicate NUMREF None)"

definition new_node :: "nat \<Rightarrow> bnode" where
  "new_node l = (if l = 0 then DataBlockNode_new else IndirectBlockNode_new l)"

definition ZeroDataBlockNode :: bnode where
  "ZeroDataBlockNode = DataNode BlockRef_nil False True (replicate BLKSZ 0)"

definition ZeroIndirectBlockNode :: "bnode \<Rightarrow> bnode" where
  "ZeroIndirectBlockNode i_dbnh =
     IndNode 1 BlockRef_nil False True (replicate NUMREF BlockRef_nil) (replicate NUMREF (Some i_dbnh))"

definition ZeroDoubleIndBlockNode :: "bnode \<Rightarrow> bnode" where
  "ZeroDoubleIndBlockNode i_nh =
     IndNode 2 BlockRef_nil False True (replicate NUMREF BlockRef_nil) (replicate NUMREF (Some i_nh))"

definition ZeroTripleIndBlockNode :: "bnode \<Rightarrow> bnode" where
  "ZeroTripleIndBlockNode i_nh =
     IndNode 3 BlockRef_nil False True (replicate NUMREF BlockRef_nil) (replicate NUMREF (Some i_nh))"

fun zero_obj :: "nat \<Rightarrow> 'bs ctxt \<Rightarrow> bnode option" where
  "zero_obj 0 c = m_zdatobj c"
| "zero_obj (Suc 0) c = m_zsinobj c"
| "zero_obj (Suc (Suc 0)) c = m_zdinobj c"
| "zero_obj _ c = m_ztinobj c"

fun zero_upd :: "nat \<Rightarrow> bnode \<Rightarrow> 'bs ctxt \<Rightarrow> 'bs ctxt" where
  "zero_upd 0 nh c = c\<lparr>m_zdatobj := Some nh\<rparr>"
| "zero_upd (Suc 0) nh c = c\<lparr>m_zsinobj := Some nh\<rparr>"
| "zero_upd (Suc (Suc 0)) nh c = c\<lparr>m_zdinobj := Some nh\<rparr>"
| "zero_upd _ nh c = c\<lparr>m_ztinobj := Some nh\<rparr>"

text \<open>Reading a block into a buffer that held \<open>ini\<close>: get, count, validate, decrypt.\<close>

definition load_block :: "'bs env \<Rightarrow> bytes \<Rightarrow> blkref \<Rightarrow> 'bs ctxt \<Rightarrow> 'bs ctxt \<times> bytes res" where
  "load_block env ini i_ref c =
     (case e_get env (m_bsh c) i_ref BLKSZ of
        Inl e \<Rightarrow> (c, Inl e)
      | Inr got \<Rightarrow>
          (let buf = got @ drop (length got) ini;
               c1 = c\<lparr>m_ngops := m_ngops c + 1, m_ngbytes := m_ngbytes c + BLKSZ\<rparr> in
           case BlockRef_validate (e_sha256 env) i_ref buf of
             Inl e \<Rightarrow> (c1, Inl e)
           | Inr _ \<Rightarrow> (c1, BlockCipher_decrypt (e_aes env) (m_cipher c1) (BlockRef_iv i_ref) buf)))"

definition unpack_refs :: "bytes \<Rightarrow> blkref list" where
  "unpack_refs buf = map (\<lambda>i. subbuf buf (32 * i) 32) [0..<NUMREF]"

definition DataBlockNode_load :: "'bs env \<Rightarrow> blkref \<Rightarrow> 'bs ctxt \<Rightarrow> 'bs ctxt \<times> bnode res" where
  "DataBlockNode_load env i_ref c =
     (case load_block env (e_junk env) i_ref c of
        (c1, Inl e) \<Rightarrow> (c1, Inl e)
      | (c1, Inr buf) \<Rightarrow> (c1, Inr (DataNode i_ref False False buf)))"

definition IndirectBlockNode_load :: "nat \<Rightarrow> 'bs env \<Rightarrow> blkref \<Rightarrow> 'bs ctxt \<Rightarrow> 'bs ctxt \<times> bnode res" where
  "IndirectBlockNode_load l env i_ref c =
     (case load_block env (concat (replicate NUMREF BlockRef_nil)) i_ref c of
        (c1, Inl e) \<Rightarrow> (c1, Inl e)
      | (c1, Inr buf) \<Rightarrow>
          (c1, Inr (IndNode l i_ref False False (unpack_refs buf) (replicate NUMREF None))))"

definition load_node :: "'bs env \<Rightarrow> nat \<Rightarrow> blkref \<Rightarrow> 'bs ctxt \<Rightarrow> 'bs ctxt \<times> bnode res" where
  "load_node env l i_ref c =
     (if l = 0 then DataBlockNode_load env i_ref c else IndirectBlockNode_load l env i_ref c)"

subsection \<open>Visitors\<close>

datatype btf =
    ReadBTF (bt_buf: bytes) (bt_size: nat) (bt_off: nat) (bt_retval: nat)
  | WriteBTF (bt_buf: bytes) (bt_size: nat) (bt_off: nat) (bt_retval: nat)

fun bt_visit :: "btf \<Rightarrow> bytes \<Rightarrow> nat \<Rightarrow> nat \<Rightarrow> btf \<times> bytes \<times> bool" where
  "bt_visit (ReadBTF m_rddata m_rdsize m_rdoff m_retval) i_blkdata i_blkoff i_filesz =
     (let i_blksize = length i_blkdata;
          minoff = max m_rdoff i_blkoff;
          maxoff0 = min (m_rdoff + m_rdsize) (i_blkoff + i_blksize);
          maxoff = (if maxoff0 > i_filesz then i_filesz else maxoff0) in
      if minoff \<ge> maxoff then (ReadBTF m_rddata m_rdsize m_rdoff m_retval, i_blkdata, False)
      else
        (let sz = maxoff - minoff;
             src = subbuf i_blkdata (minoff - i_blkoff) sz
         in (ReadBTF (memcpy_at m_rddata (minoff - m_rdoff) src) m_rdsize m_rdoff (m_retval + sz),
             i_blkdata, False)))"
| "bt_visit (WriteBTF m_wrtdata m_wrtsize m_wrtoff m_retval) i_blkdata i_blkoff i_filesz =
     (let i_blksize = length i_blkdata;
          minoff = max m_wrtoff i_blkoff;
          maxoff = min (m_wrtoff + m_wrtsize) (i_blkoff + i_blksize) in
      if minoff \<ge> maxoff then (WriteBTF m_wrtdata m_wrtsize m_wrtoff m_retval, i_blkdata, False)
      else
        (let sz = maxoff - minoff;
             src = subbuf m_wrtdata (minoff - m_wrtoff) sz
         in (WriteBTF m_wrtdata m_wrtsize m_wrtoff (m_retval + sz),
             memcpy_at i_blkdata (minoff - i_blkoff) src, True)))"

subsection \<open>Finding a block\<close>

text \<open>Traversal flags.\<close>

type_synonym flags = "32 word"

definition RB_MODIFY_X :: flags where "RB_MODIFY_X = 1"
definition RB_NOCACHE :: flags where "RB_NOCACHE = 2"

definition has_flag :: "flags \<Rightarrow> flags \<Rightarrow> bool" where
  "has_flag i_flags m \<longleftrightarrow> Bit_Operations.and i_flags m \<noteq> 0"

text \<open>What a traversal works on besides the node: the context, the visitor, \<^verbatim>\<open>i_fn.blocks()\<close>.\<close>

record 'bs tst =
  t_ctxt :: "'bs ctxt"
  t_btf :: btf
  t_blocks :: nat

datatype origin = OSlot | OCache blkref | OLoose | OZero nat

text \<open>
  The search every traversal makes for the block at a position of level \<open>l\<close> with reference
  \<open>ref\<close> and slot \<open>obj\<close>. The result is the new slot and where the node is. A cached node of
  another class fails the cast, and the null handle is then dereferenced.
\<close>

definition find_block ::
    "'bs env \<Rightarrow> nat \<Rightarrow> flags \<Rightarrow> blkref \<Rightarrow> bnode option \<Rightarrow> 'bs tst \<Rightarrow>
     bnode option \<times> 'bs tst \<times> (origin \<times> bnode) res" where
  "find_block env l i_flags ref obj st =
     (case obj of
        Some nh \<Rightarrow> (obj, st, Inr (OSlot, nh))
      | None \<Rightarrow>
          if ref_set ref then
            (case m_bncache (t_ctxt st) ref of
               Some bnh \<Rightarrow>
                 (obj, st, if blevel bnh = l then Inr (OCache ref, bnh) else Inl NullDeref)
             | None \<Rightarrow>
                 (case load_node env l ref (t_ctxt st) of
                    (c1, Inl e) \<Rightarrow> (obj, st\<lparr>t_ctxt := c1\<rparr>, Inl e)
                  | (c1, Inr nh) \<Rightarrow>
                      if \<not> has_flag i_flags RB_NOCACHE
                      then (obj, st\<lparr>t_ctxt := cache_insert nh c1\<rparr>, Inr (OCache ref, nh))
                      else (obj, st\<lparr>t_ctxt := c1\<rparr>, Inr (OLoose, nh))))
          else if has_flag i_flags RB_MODIFY_X then
            (let nh = new_node l
             in (Some nh, st\<lparr>t_blocks := t_blocks st + 1\<rparr>, Inr (OSlot, nh)))
          else
            (case zero_obj l (t_ctxt st) of
               None \<Rightarrow> (obj, st, Inl NullDeref)
             | Some nh \<Rightarrow> (obj, st, Inr (OZero l, nh))))"

fun put_back :: "origin \<Rightarrow> bnode \<Rightarrow> bnode option \<Rightarrow> 'bs ctxt \<Rightarrow> bnode option \<times> 'bs ctxt" where
  "put_back OSlot nh obj c = (Some nh, c)"
| "put_back (OCache r) nh obj c =
     (obj, if m_bncache c r = None then c else c\<lparr>m_bncache := (m_bncache c)(r \<mapsto> nh)\<rparr>)"
| "put_back OLoose nh obj c = (obj, c)"
| "put_back (OZero l) nh obj c = (obj, zero_upd l nh c)"

type_synonym 'bs trav = "bnode \<Rightarrow> 'bs tst \<Rightarrow> bnode \<times> 'bs tst \<times> bool res"

text \<open>
  One step of a traversal: find the block, traverse it, and when it is dirty take it out of
  the clean cache into the slot. The result \<open>True\<close> asks the parent to become dirty.
\<close>

definition visit_child ::
    "'bs env \<Rightarrow> nat \<Rightarrow> flags \<Rightarrow> 'bs trav \<Rightarrow> blkref \<Rightarrow> bnode option \<Rightarrow> 'bs tst \<Rightarrow>
     bnode option \<times> 'bs tst \<times> bool res" where
  "visit_child env l i_flags trav ref obj st =
     (case find_block env l i_flags ref obj st of
        (obj1, st1, Inl e) \<Rightarrow> (obj1, st1, Inl e)
      | (obj1, st1, Inr (org, nh)) \<Rightarrow>
          (case trav nh st1 of
             (nh1, st2, r) \<Rightarrow>
               (let (obj2, c2) = put_back org nh1 obj1 (t_ctxt st2);
                    st3 = st2\<lparr>t_ctxt := c2\<rparr> in
                case r of
                  Inl e \<Rightarrow> (obj2, st3, Inl e)
                | Inr dirtied \<Rightarrow>
                    if dirtied \<and> has_flag i_flags RB_MODIFY_X
                    then (Some nh1, st3\<lparr>t_ctxt := cache_remove (bn_blkref nh1) c2\<rparr>, Inr True)
                    else (obj2, st3, Inr False))))"

text \<open>
  Visiting a data block. The indirect block throws when a visitor modifies without
  \<^verbatim>\<open>RB_MODIFY_X\<close> (\<open>strict\<close>); the inode ignores that.
\<close>

definition data_visit :: "bool \<Rightarrow> flags \<Rightarrow> nat \<Rightarrow> nat \<Rightarrow> 'bs trav" where
  "data_visit strict i_flags off filesz nh st =
     (case nh of
        IndNode _ _ _ _ _ _ \<Rightarrow> (nh, st, Inl NullDeref)
      | DataNode r d z dat \<Rightarrow>
          (case bt_visit (t_btf st) dat off filesz of
             (btf1, dat1, modified) \<Rightarrow>
               (let nh1 = DataNode r d z dat1; st1 = st\<lparr>t_btf := btf1\<rparr> in
                if \<not> modified then (nh1, st1, Inr False)
                else if has_flag i_flags RB_MODIFY_X then
                  (case bn_set_dirty nh1 of
                     Inl e \<Rightarrow> (nh1, st1, Inl e)
                   | Inr nh2 \<Rightarrow> (nh2, st1, Inr True))
                else (nh1, st1, if strict then Inl InternalError else Inr True))))"

subsection \<open>Traversal\<close>

text \<open>The loop over the references of an indirect block; \<open>child off\<close> traverses one at \<open>off\<close>.\<close>

fun ref_loop ::
    "'bs env \<Rightarrow> nat \<Rightarrow> nat \<Rightarrow> flags \<Rightarrow> (nat \<Rightarrow> 'bs trav) \<Rightarrow> nat \<Rightarrow> nat \<Rightarrow> nat \<Rightarrow> nat list \<Rightarrow>
     bnode \<Rightarrow> 'bs tst \<Rightarrow> bnode \<times> 'bs tst \<times> unit res" where
  "ref_loop env l refspan i_flags child i_base i_rngoff i_rngsize [] n st = (n, st, Inr ())"
| "ref_loop env l refspan i_flags child i_base i_rngoff i_rngsize (ndx # ndxs) n st =
     (let off = i_base + ndx * refspan in
      if off \<ge> i_rngoff + i_rngsize then (n, st, Inr ())
      else
        (case visit_child env l i_flags (child off) (m_blkref n ! ndx) (m_blkobj n ! ndx) st of
           (obj1, st1, r) \<Rightarrow>
             (let n1 = (case n of
                          IndNode lv rf d z refs objs \<Rightarrow> IndNode lv rf d z refs (objs[ndx := obj1])
                        | DataNode _ _ _ _ \<Rightarrow> n) in
              case r of
                Inl e \<Rightarrow> (n1, st1, Inl e)
              | Inr False \<Rightarrow>
                  ref_loop env l refspan i_flags child i_base i_rngoff i_rngsize ndxs n1 st1
              | Inr True \<Rightarrow>
                  (case bn_set_dirty n1 of
                     Inl e \<Rightarrow> (n1, st1, Inl e)
                   | Inr n2 \<Rightarrow>
                       ref_loop env l refspan i_flags child i_base i_rngoff i_rngsize ndxs n2 st1))))"

definition ref_traverse ::
    "'bs env \<Rightarrow> nat \<Rightarrow> nat \<Rightarrow> flags \<Rightarrow> (nat \<Rightarrow> 'bs trav) \<Rightarrow> nat \<Rightarrow> nat \<Rightarrow> nat \<Rightarrow> 'bs trav" where
  "ref_traverse env l refspan i_flags child i_base i_rngoff i_rngsize n st =
     (let startoff = max i_rngoff i_base in
      if i_base > i_rngoff + i_rngsize then (n, st, Inr (bn_isdirty n))
      else
        (case ref_loop env l refspan i_flags child i_base i_rngoff i_rngsize
                [(startoff - i_base) div refspan..<NUMREF] n st of
           (n1, st1, Inl e) \<Rightarrow> (n1, st1, Inl e)
         | (n1, st1, Inr _) \<Rightarrow> (n1, st1, Inr (bn_isdirty n1))))"

definition ind_traverse :: "'bs env \<Rightarrow> flags \<Rightarrow> nat \<Rightarrow> nat \<Rightarrow> nat \<Rightarrow> nat \<Rightarrow> 'bs trav" where
  "ind_traverse env i_flags filesz i_rngoff i_rngsize i_base =
     ref_traverse env 0 BLKSZ i_flags (\<lambda>off. data_visit True i_flags off filesz)
       i_base i_rngoff i_rngsize"

definition dbl_traverse :: "'bs env \<Rightarrow> flags \<Rightarrow> nat \<Rightarrow> nat \<Rightarrow> nat \<Rightarrow> nat \<Rightarrow> 'bs trav" where
  "dbl_traverse env i_flags filesz i_rngoff i_rngsize i_base =
     ref_traverse env 1 (NUMREF * BLKSZ) i_flags (ind_traverse env i_flags filesz i_rngoff i_rngsize)
       i_base i_rngoff i_rngsize"

definition tri_traverse :: "'bs env \<Rightarrow> flags \<Rightarrow> nat \<Rightarrow> nat \<Rightarrow> nat \<Rightarrow> nat \<Rightarrow> 'bs trav" where
  "tri_traverse env i_flags filesz i_rngoff i_rngsize i_base =
     ref_traverse env 2 (NUMREF * NUMREF * BLKSZ) i_flags
       (dbl_traverse env i_flags filesz i_rngoff i_rngsize) i_base i_rngoff i_rngsize"

subsection \<open>Truncation\<close>

text \<open>
  The search of a truncation: it never creates a block, and a cached node of another class
  is a null handle, here no node at all.
\<close>

definition find_trunc ::
    "'bs env \<Rightarrow> nat \<Rightarrow> blkref \<Rightarrow> bnode option \<Rightarrow> 'bs ctxt \<Rightarrow> 'bs ctxt \<times> (origin \<times> bnode) option res" where
  "find_trunc env l ref obj c =
     (case obj of
        Some nh \<Rightarrow> (c, Inr (Some (OSlot, nh)))
      | None \<Rightarrow>
          if ref_set ref then
            (case m_bncache c ref of
               Some bnh \<Rightarrow> (c, Inr (if blevel bnh = l then Some (OCache ref, bnh) else None))
             | None \<Rightarrow>
                 (case load_node env l ref c of
                    (c1, Inl e) \<Rightarrow> (c1, Inl e)
                  | (c1, Inr nh) \<Rightarrow> (cache_insert nh c1, Inr (Some (OCache ref, nh)))))
          else (c, Inr None))"

fun set_slot :: "nat \<Rightarrow> bnode option \<Rightarrow> bnode \<Rightarrow> bnode" where
  "set_slot i obj (IndNode l r d z refs objs) = IndNode l r d z refs (objs[i := obj])"
| "set_slot i obj (DataNode r d z dat) = DataNode r d z dat"

fun set_refslot :: "nat \<Rightarrow> blkref \<Rightarrow> bnode option \<Rightarrow> bnode \<Rightarrow> bnode" where
  "set_refslot i ref obj (IndNode l r d z refs objs) = IndNode l r d z (refs[i := ref]) (objs[i := obj])"
| "set_refslot i ref obj (DataNode r d z dat) = DataNode r d z dat"

type_synonym 'bs trunc = "bnode \<Rightarrow> 'bs ctxt \<Rightarrow> bnode \<times> 'bs ctxt \<times> nat res"

text \<open>Setting the dirty flag of the node and going on, unless the node refuses.\<close>

definition dirtied :: "bnode \<Rightarrow> 'bs ctxt \<Rightarrow> 'a res \<Rightarrow> bnode \<times> 'bs ctxt \<times> 'a res" where
  "dirtied n c r = (case bn_set_dirty n of Inl e \<Rightarrow> (n, c, Inl e) | Inr n1 \<Rightarrow> (n1, c, r))"

text \<open>Zeroing the tail of the data block that the new end of the file falls into.\<close>

definition zero_tail :: "'bs env \<Rightarrow> nat \<Rightarrow> blkref \<Rightarrow> bnode option \<Rightarrow> 'bs ctxt \<Rightarrow>
    bnode option \<times> 'bs ctxt \<times> bool res" where
  "zero_tail env off0 ref obj c =
     (case find_trunc env 0 ref obj c of
        (c1, Inl e) \<Rightarrow> (obj, c1, Inl e)
      | (c1, Inr None) \<Rightarrow> (obj, c1, Inr False)
      | (c1, Inr (Some (org, dbh))) \<Rightarrow>
          (case dbh of
             IndNode _ _ _ _ _ _ \<Rightarrow> (obj, c1, Inr False)
           | DataNode r d z dat \<Rightarrow>
               (let dbh1 = DataNode r d z (memset_from dat off0);
                    (obj1, c2) = put_back org dbh1 obj c1 in
                case bn_set_dirty dbh1 of
                  Inl e \<Rightarrow> (obj1, c2, Inl e)
                | Inr dbh2 \<Rightarrow> (Some dbh2, cache_remove (bn_blkref dbh2) c2, Inr True))))"

text \<open>One turn of the loop of \<^verbatim>\<open>IndirectBlockNode::rb_truncate\<close>; the result adds to the block count.\<close>

definition ind_trunc_step :: "'bs env \<Rightarrow> nat \<Rightarrow> nat \<Rightarrow> nat \<Rightarrow> 'bs trunc" where
  "ind_trunc_step env i_size ndx off n c =
     (let ref = m_blkref n ! ndx; obj = m_blkobj n ! ndx in
      if off + BLKSZ \<le> i_size then (n, c, Inr (if obj \<noteq> None \<or> ref_set ref then 1 else 0))
      else if off < i_size then
        (case zero_tail env (i_size - off) ref obj c of
           (obj1, c1, Inl e) \<Rightarrow> (set_slot ndx obj1 n, c1, Inl e)
         | (obj1, c1, Inr False) \<Rightarrow> (n, c1, Inr 0)
         | (obj1, c1, Inr True) \<Rightarrow> dirtied (set_slot ndx obj1 n) c1 (Inr 1))
      else
        dirtied (set_refslot ndx (BlockRef_clear ref) None n) (cache_remove ref c) (Inr 0))"

text \<open>One turn of the loop of the double and triple indirect blocks; \<open>child\<close> truncates a child.\<close>

definition ref_trunc_step :: "'bs env \<Rightarrow> nat \<Rightarrow> (nat \<Rightarrow> 'bs trunc) \<Rightarrow> nat \<Rightarrow> nat \<Rightarrow> nat \<Rightarrow> 'bs trunc" where
  "ref_trunc_step env l child i_size ndx off n c =
     (let ref = m_blkref n ! ndx; obj = m_blkobj n ! ndx in
      if off < i_size then
        (if obj \<noteq> None \<or> ref_set ref then
           (case find_trunc env l ref obj c of
              (c1, Inl e) \<Rightarrow> (n, c1, Inl e)
            | (c1, Inr None) \<Rightarrow> (n, c1, Inl NullDeref)
            | (c1, Inr (Some (org, nh))) \<Rightarrow>
                (case child off nh c1 of
                   (nh1, c2, r) \<Rightarrow>
                     (let (obj1, c3) = put_back org nh1 obj c2; n1 = set_slot ndx obj1 n in
                      case r of
                        Inl e \<Rightarrow> (n1, c3, Inl e)
                      | Inr nb \<Rightarrow>
                          (let (n2, c4, r2) =
                             (if bn_isdirty nh1
                              then dirtied (set_slot ndx (Some nh1) n1)
                                     (cache_remove (bn_blkref nh1) c3) (Inr nb)
                              else (n1, c3, Inr nb)) in
                           case r2 of
                             Inl e \<Rightarrow> (n2, c4, Inl e)
                           | Inr _ \<Rightarrow>
                               if nb > 1 then (n2, c4, Inr nb)
                               else dirtied (set_refslot ndx (BlockRef_clear ref) None n2)
                                      (cache_remove ref c4) (Inr 0)))))
         else (n, c, Inr 0))
      else
        dirtied (set_refslot ndx (BlockRef_clear ref) None n) (cache_remove ref c) (Inr 0))"

fun trunc_loop :: "(nat \<Rightarrow> nat \<Rightarrow> 'bs trunc) \<Rightarrow> nat \<Rightarrow> nat \<Rightarrow> nat \<Rightarrow> nat list \<Rightarrow> 'bs trunc" where
  "trunc_loop step refspan i_base nblocks [] n c = (n, c, Inr nblocks)"
| "trunc_loop step refspan i_base nblocks (ndx # ndxs) n c =
     (case step ndx (i_base + ndx * refspan) n c of
        (n1, c1, Inl e) \<Rightarrow> (n1, c1, Inl e)
      | (n1, c1, Inr nb) \<Rightarrow> trunc_loop step refspan i_base (nblocks + nb) ndxs n1 c1)"

definition ind_truncate :: "'bs env \<Rightarrow> nat \<Rightarrow> nat \<Rightarrow> 'bs trunc" where
  "ind_truncate env i_size i_base = trunc_loop (ind_trunc_step env i_size) BLKSZ i_base 1 [0..<NUMREF]"

definition dbl_truncate :: "'bs env \<Rightarrow> nat \<Rightarrow> nat \<Rightarrow> 'bs trunc" where
  "dbl_truncate env i_size i_base =
     trunc_loop (ref_trunc_step env 1 (ind_truncate env i_size) i_size) (NUMREF * BLKSZ) i_base 1 [0..<NUMREF]"

definition tri_truncate :: "'bs env \<Rightarrow> nat \<Rightarrow> nat \<Rightarrow> 'bs trunc" where
  "tri_truncate env i_size i_base =
     trunc_loop (ref_trunc_step env 2 (dbl_truncate env i_size) i_size) (NUMREF * NUMREF * BLKSZ) i_base 1
       [0..<NUMREF]"

subsection \<open>Persisting and flushing\<close>

text \<open>
  Encrypt a buffer under a fresh initialisation vector, name it by its digest and put it.
  The node has its new reference as soon as it is computed, also when the put throws.
\<close>

definition persist_buf :: "'bs env \<Rightarrow> bytes \<Rightarrow> 'bs ctxt \<Rightarrow> 'bs ctxt \<times> blkref option \<times> blkref res" where
  "persist_buf env buf c =
     (let c1 = c\<lparr>m_nrand := m_nrand c + 1\<rparr> in
      case e_rand env (m_nrand c) of
        None \<Rightarrow> (c1, None, Inl InternalError)
      | Some iv \<Rightarrow>
          (case BlockCipher_encrypt (e_aes env) (m_cipher c1) iv buf of
             Inl e \<Rightarrow> (c1, None, Inl e)
           | Inr enc \<Rightarrow>
               (let ref = BlockRef_make (Digest_of (e_sha256 env) enc) iv in
                case e_put env (m_bsh c1) ref enc of
                  (bs, Inl e) \<Rightarrow> (c1\<lparr>m_bsh := bs\<rparr>, Some ref, Inl e)
                | (bs, Inr _) \<Rightarrow>
                    (c1\<lparr>m_bsh := bs, m_npops := m_npops c1 + 1, m_npbytes := m_npbytes c1 + BLKSZ\<rparr>,
                     Some ref, Inr ref))))"

type_synonym 'bs flush = "bnode \<Rightarrow> 'bs ctxt \<Rightarrow> bnode \<times> 'bs ctxt \<times> blkref res"

definition node_persist :: "'bs env \<Rightarrow> bytes \<Rightarrow> 'bs flush" where
  "node_persist env buf n c =
     (case persist_buf env buf c of
        (c1, rf, r) \<Rightarrow>
          (let n1 = (case rf of None \<Rightarrow> n | Some ref \<Rightarrow> bn_set_ref ref n) in
           case r of Inl e \<Rightarrow> (n1, c1, Inl e) | Inr ref \<Rightarrow> (bn_set_clean n1, c1, Inr ref)))"

definition DataBlockNode_persist :: "'bs env \<Rightarrow> 'bs flush" where
  "DataBlockNode_persist env n c =
     (if bn_zero n then (n, c, Inl InternalError) else node_persist env (m_data n) n c)"

definition IndirectBlockNode_persist :: "'bs env \<Rightarrow> 'bs flush" where
  "IndirectBlockNode_persist env n c =
     (if bn_zero n then (n, c, Inl InternalError)
      else node_persist env (memcpy_at (replicate BLKSZ 0) 0 (concat (m_blkref n))) n c)"

definition DataBlockNode_flush :: "'bs env \<Rightarrow> 'bs flush" where
  "DataBlockNode_flush env = DataBlockNode_persist env"

fun flush_loop :: "'bs flush \<Rightarrow> nat list \<Rightarrow> bnode \<Rightarrow> 'bs ctxt \<Rightarrow> bnode \<times> 'bs ctxt \<times> unit res" where
  "flush_loop child [] n c = (n, c, Inr ())"
| "flush_loop child (i # is) n c =
     (case m_blkobj n ! i of
        None \<Rightarrow> flush_loop child is n c
      | Some nh \<Rightarrow>
          (case child nh c of
             (nh1, c1, Inl e) \<Rightarrow> (set_slot i (Some nh1) n, c1, Inl e)
           | (nh1, c1, Inr ref) \<Rightarrow>
               flush_loop child is (set_refslot i ref None n) (cache_insert nh1 c1)))"

definition ref_flush :: "'bs env \<Rightarrow> 'bs flush \<Rightarrow> 'bs flush" where
  "ref_flush env child n c =
     (if \<not> bn_isdirty n then (n, c, Inr (bn_blkref n))
      else
        (case flush_loop child [0..<NUMREF] n c of
           (n1, c1, Inl e) \<Rightarrow> (n1, c1, Inl e)
         | (n1, c1, Inr _) \<Rightarrow> IndirectBlockNode_persist env n1 c1))"

definition ind_flush :: "'bs env \<Rightarrow> 'bs flush" where
  "ind_flush env = ref_flush env (DataBlockNode_flush env)"

definition dbl_flush :: "'bs env \<Rightarrow> 'bs flush" where
  "dbl_flush env = ref_flush env (ind_flush env)"

definition tri_flush :: "'bs env \<Rightarrow> 'bs flush" where
  "tri_flush env = ref_flush env (dbl_flush env)"

subsection \<open>Refresh\<close>

type_synonym 'bs refresh = "bnode \<Rightarrow> 'bs ctxt \<Rightarrow> 'bs ctxt \<times> nat res"

definition refresh_keys :: "'bs env \<Rightarrow> 64 word \<Rightarrow> blkref list \<Rightarrow> nat \<Rightarrow> 'bs ctxt \<Rightarrow> 'bs ctxt \<times> nat res" where
  "refresh_keys env i_rid keys nblocks c =
     (case e_refresh env (m_bsh c) i_rid keys of
        (bs, Inl e) \<Rightarrow> (c\<lparr>m_bsh := bs\<rparr>, Inl e)
      | (bs, Inr missing) \<Rightarrow>
          (c\<lparr>m_bsh := bs\<rparr>, if missing \<noteq> [] then Inl InternalError else Inr nblocks))"

definition ind_refresh :: "'bs env \<Rightarrow> 64 word \<Rightarrow> 'bs refresh" where
  "ind_refresh env i_rid n c =
     (let keys = filter ref_set (m_blkref n) in refresh_keys env i_rid keys (length keys) c)"

text \<open>The node a refresh descends into: loaded when it is not in memory, and then not cached.\<close>

definition find_refresh :: "'bs env \<Rightarrow> nat \<Rightarrow> blkref \<Rightarrow> bnode option \<Rightarrow> 'bs ctxt \<Rightarrow> 'bs ctxt \<times> bnode res" where
  "find_refresh env l ref obj c =
     (case obj of
        Some nh \<Rightarrow> (c, Inr nh)
      | None \<Rightarrow>
          (case m_bncache c ref of
             Some bnh \<Rightarrow> (c, if blevel bnh = l then Inr bnh else Inl NullDeref)
           | None \<Rightarrow> load_node env l ref c))"

fun refresh_loop ::
    "'bs env \<Rightarrow> nat \<Rightarrow> 'bs refresh \<Rightarrow> nat \<Rightarrow> (blkref \<times> bnode option) list \<Rightarrow> 'bs ctxt \<Rightarrow> 'bs ctxt \<times> nat res" where
  "refresh_loop env l child nblocks [] c = (c, Inr nblocks)"
| "refresh_loop env l child nblocks ((ref, obj) # slots) c =
     (if ref_set ref then
        (case find_refresh env l ref obj c of
           (c1, Inl e) \<Rightarrow> (c1, Inl e)
         | (c1, Inr nh) \<Rightarrow>
             (case child nh c1 of
                (c2, Inl e) \<Rightarrow> (c2, Inl e)
              | (c2, Inr nb) \<Rightarrow> refresh_loop env l child (nblocks + 1 + nb) slots c2))
      else refresh_loop env l child nblocks slots c)"

definition ref_refresh :: "'bs env \<Rightarrow> nat \<Rightarrow> 'bs refresh \<Rightarrow> 64 word \<Rightarrow> 'bs refresh" where
  "ref_refresh env l child i_rid n c =
     (case refresh_loop env l child 0 (zip (m_blkref n) (m_blkobj n)) c of
        (c1, Inl e) \<Rightarrow> (c1, Inl e)
      | (c1, Inr nblocks) \<Rightarrow> refresh_keys env i_rid (filter ref_set (m_blkref n)) nblocks c1)"

definition dbl_refresh :: "'bs env \<Rightarrow> 64 word \<Rightarrow> 'bs refresh" where
  "dbl_refresh env i_rid = ref_refresh env 1 (ind_refresh env i_rid) i_rid"

definition tri_refresh :: "'bs env \<Rightarrow> 64 word \<Rightarrow> 'bs refresh" where
  "tri_refresh env i_rid = ref_refresh env 2 (dbl_refresh env i_rid) i_rid"

end
