(* ===== verification/File_Node.thy ===== *)
theory File_Node
  imports Block_Tree
begin

text \<open>
  The inode of a file (\<^verbatim>\<open>modules/UTFileSystem/FileNode.cpp\<close>): the metadata, the first 4096
  octets of the file, twenty direct references and the single, double and triple indirect
  references, each with the slot of its dirty object. The member functions return the node
  and the context they leave behind and a result that is an exception or a value.

  \<^item> \<^verbatim>\<open>INode\<close> is a protobuf message; its serialisation and its parser are the arguments
    \<open>ser\<close> and \<open>parse\<close>.
  \<^item> \<open>rb_traverse\<close> is split where the source has its section comments. Its argument \<^verbatim>\<open>i_fn\<close> is
    the node itself in every call, so the block count is threaded as \<^const>\<open>t_blocks\<close>.
  \<^item> The clock is an argument \<open>now\<close>, in microseconds.
\<close>

definition INLSZ :: nat where "INLSZ = 4096"
definition NDIRECT :: nat where "NDIRECT = 20"

record inode =
  ino_mode :: "32 word"
  ino_nlink :: "32 word"
  ino_uname :: string
  ino_gname :: string
  ino_size :: nat
  ino_atime :: int
  ino_mtime :: int
  ino_ctime :: int
  ino_blocks :: nat

record filenode =
  fn_ref :: blkref
  fn_dirty :: bool
  m_inode :: inode
  m_inl :: bytes
  m_dirref :: "blkref list"
  m_sinref :: blkref
  m_dinref :: blkref
  m_tinref :: blkref
  m_qinref :: blkref
  m_dirobj :: "bnode option list"
  m_sinobj :: "bnode option"
  m_dinobj :: "bnode option"
  m_tinobj :: "bnode option"

abbreviation fn_size :: "filenode \<Rightarrow> nat" where "fn_size fn \<equiv> ino_size (m_inode fn)"
abbreviation fn_blocks :: "filenode \<Rightarrow> nat" where "fn_blocks fn \<equiv> ino_blocks (m_inode fn)"

definition set_size :: "nat \<Rightarrow> filenode \<Rightarrow> filenode" where
  "set_size n fn = fn\<lparr>m_inode := (m_inode fn)\<lparr>ino_size := n\<rparr>\<rparr>"

definition set_blocks :: "nat \<Rightarrow> filenode \<Rightarrow> filenode" where
  "set_blocks n fn = fn\<lparr>m_inode := (m_inode fn)\<lparr>ino_blocks := n\<rparr>\<rparr>"

subsection \<open>Constructors and persistence\<close>

definition S_IFREG :: "32 word" where "S_IFREG = 0x8000"

definition FileNode_new :: "32 word \<Rightarrow> string \<Rightarrow> string \<Rightarrow> int \<Rightarrow> filenode" where
  "FileNode_new mode uname gname now =
     \<lparr>fn_ref = BlockRef_nil, fn_dirty = True,
      m_inode = \<lparr>ino_mode = or mode S_IFREG, ino_nlink = 1, ino_uname = uname, ino_gname = gname,
                 ino_size = 0, ino_atime = now, ino_mtime = now, ino_ctime = now, ino_blocks = 1\<rparr>,
      m_inl = replicate INLSZ 0, m_dirref = replicate NDIRECT BlockRef_nil,
      m_sinref = BlockRef_nil, m_dinref = BlockRef_nil, m_tinref = BlockRef_nil, m_qinref = BlockRef_nil,
      m_dirobj = replicate NDIRECT None, m_sinobj = None, m_dinobj = None, m_tinobj = None\<rparr>"

definition fixed_field_size :: nat where
  "fixed_field_size = INLSZ + NDIRECT * 32 + 32 + 32 + 32 + 32"

definition FileNode_load ::
    "'bs env \<Rightarrow> (bytes \<Rightarrow> inode option) \<Rightarrow> blkref \<Rightarrow> 'bs ctxt \<Rightarrow> 'bs ctxt \<times> filenode res" where
  "FileNode_load env parse i_ref c =
     (case load_block env (replicate BLKSZ 0) i_ref c of
        (c1, Inl e) \<Rightarrow> (c1, Inl e)
      | (c1, Inr buf) \<Rightarrow>
          (let sz = BLKSZ - fixed_field_size in
           case parse (take sz buf) of
             None \<Rightarrow> (c1, Inl InternalError)
           | Some ino \<Rightarrow>
               (let p1 = sz + INLSZ; p2 = p1 + NDIRECT * 32 in
                (c1, Inr
                  \<lparr>fn_ref = i_ref, fn_dirty = False, m_inode = ino,
                   m_inl = subbuf buf sz INLSZ,
                   m_dirref = map (\<lambda>i. subbuf buf (p1 + 32 * i) 32) [0..<NDIRECT],
                   m_sinref = subbuf buf p2 32, m_dinref = subbuf buf (p2 + 32) 32,
                   m_tinref = subbuf buf (p2 + 64) 32, m_qinref = subbuf buf (p2 + 96) 32,
                   m_dirobj = replicate NDIRECT None, m_sinobj = None, m_dinobj = None,
                   m_tinobj = None\<rparr>))))"

text \<open>The buffer \<^verbatim>\<open>bn_persist\<close> encrypts; \<open>ser\<close> fails when the message does not fit.\<close>

definition fn_buffer :: "(inode \<Rightarrow> nat \<Rightarrow> bytes option) \<Rightarrow> filenode \<Rightarrow> bytes option" where
  "fn_buffer ser fn =
     (let sz = BLKSZ - fixed_field_size in
      case ser (m_inode fn) sz of
        None \<Rightarrow> None
      | Some msg \<Rightarrow>
          (let b1 = memcpy_at (replicate BLKSZ 0) 0 msg;
               b2 = memcpy_at b1 sz (m_inl fn);
               p1 = sz + INLSZ;
               b3 = memcpy_at b2 p1 (concat (m_dirref fn));
               p2 = p1 + NDIRECT * 32;
               b4 = memcpy_at b3 p2 (m_sinref fn);
               b5 = memcpy_at b4 (p2 + 32) (m_dinref fn);
               b6 = memcpy_at b5 (p2 + 64) (m_tinref fn)
           in Some (memcpy_at b6 (p2 + 96) (m_qinref fn))))"

definition FileNode_persist ::
    "'bs env \<Rightarrow> (inode \<Rightarrow> nat \<Rightarrow> bytes option) \<Rightarrow> filenode \<Rightarrow> 'bs ctxt \<Rightarrow> filenode \<times> 'bs ctxt \<times> blkref res" where
  "FileNode_persist env ser fn c =
     (case fn_buffer ser fn of
        None \<Rightarrow> (fn, c, Inl InternalError)
      | Some buf \<Rightarrow>
          (case persist_buf env buf c of
             (c1, rf, r) \<Rightarrow>
               (let fn1 = (case rf of None \<Rightarrow> fn | Some ref \<Rightarrow> fn\<lparr>fn_ref := ref\<rparr>) in
                case r of
                  Inl e \<Rightarrow> (fn1, c1, Inl e)
                | Inr ref \<Rightarrow> (fn1\<lparr>fn_dirty := False\<rparr>, c1, Inr ref))))"

fun fn_flush_direct :: "'bs env \<Rightarrow> nat list \<Rightarrow> filenode \<Rightarrow> 'bs ctxt \<Rightarrow> filenode \<times> 'bs ctxt \<times> unit res" where
  "fn_flush_direct env [] fn c = (fn, c, Inr ())"
| "fn_flush_direct env (i # is) fn c =
     (case m_dirobj fn ! i of
        None \<Rightarrow> fn_flush_direct env is fn c
      | Some nh \<Rightarrow>
          (case DataBlockNode_flush env nh c of
             (nh1, c1, Inl e) \<Rightarrow> (fn\<lparr>m_dirobj := (m_dirobj fn)[i := Some nh1]\<rparr>, c1, Inl e)
           | (nh1, c1, Inr ref) \<Rightarrow>
               fn_flush_direct env is
                 (fn\<lparr>m_dirref := (m_dirref fn)[i := ref], m_dirobj := (m_dirobj fn)[i := None]\<rparr>)
                 (cache_insert nh1 c1)))"

text \<open>Flushing the object of one indirect slot: the new reference, the new slot.\<close>

definition flush_slot ::
    "'bs flush \<Rightarrow> blkref \<Rightarrow> bnode option \<Rightarrow> 'bs ctxt \<Rightarrow> blkref \<times> bnode option \<times> 'bs ctxt \<times> unit res" where
  "flush_slot flush ref obj c =
     (case obj of
        None \<Rightarrow> (ref, obj, c, Inr ())
      | Some nh \<Rightarrow>
          (case flush nh c of
             (nh1, c1, Inl e) \<Rightarrow> (ref, Some nh1, c1, Inl e)
           | (nh1, c1, Inr ref1) \<Rightarrow> (ref1, None, cache_insert nh1 c1, Inr ())))"

definition FileNode_flush ::
    "'bs env \<Rightarrow> (inode \<Rightarrow> nat \<Rightarrow> bytes option) \<Rightarrow> filenode \<Rightarrow> 'bs ctxt \<Rightarrow> filenode \<times> 'bs ctxt \<times> blkref res" where
  "FileNode_flush env ser fn c =
     (if \<not> fn_dirty fn then (fn, c, Inr (fn_ref fn))
      else
        (case fn_flush_direct env [0..<NDIRECT] fn c of
           (fn0, c0, Inl e) \<Rightarrow> (fn0, c0, Inl e)
         | (fn0, c0, Inr _) \<Rightarrow>
             (case flush_slot (ind_flush env) (m_sinref fn0) (m_sinobj fn0) c0 of
                (sr, so, c1, r1) \<Rightarrow>
                  (let fn1 = fn0\<lparr>m_sinref := sr, m_sinobj := so\<rparr> in
                   case r1 of
                     Inl e \<Rightarrow> (fn1, c1, Inl e)
                   | Inr _ \<Rightarrow>
                       (case flush_slot (dbl_flush env) (m_dinref fn1) (m_dinobj fn1) c1 of
                          (dr, d_o, c2, r2) \<Rightarrow>
                            (let fn2 = fn1\<lparr>m_dinref := dr, m_dinobj := d_o\<rparr> in
                             case r2 of
                               Inl e \<Rightarrow> (fn2, c2, Inl e)
                             | Inr _ \<Rightarrow>
                                 (case flush_slot (tri_flush env) (m_tinref fn2) (m_tinobj fn2) c2 of
                                    (tr, t_o, c3, r3) \<Rightarrow>
                                      (let fn3 = fn2\<lparr>m_tinref := tr, m_tinobj := t_o\<rparr> in
                                       case r3 of
                                         Inl e \<Rightarrow> (fn3, c3, Inl e)
                                       | Inr _ \<Rightarrow> FileNode_persist env ser fn3 c3))))))))"

subsection \<open>Traversal\<close>

text \<open>A section returns \<open>True\<close> when it jumps to \<^verbatim>\<open>done\<close>.\<close>

type_synonym 'bs sect = "filenode \<Rightarrow> 'bs tst \<Rightarrow> filenode \<times> 'bs tst \<times> bool res"

definition fn_inline :: "nat \<Rightarrow> nat \<Rightarrow> 'bs sect" where
  "fn_inline i_rngoff i_rngsize fn st =
     (let (fn1, st1) =
        (if i_rngoff < INLSZ then
           (case bt_visit (t_btf st) (m_inl fn) 0 (fn_size fn) of
              (btf1, inl1, modified) \<Rightarrow>
                (fn\<lparr>m_inl := inl1, fn_dirty := fn_dirty fn \<or> modified\<rparr>, st\<lparr>t_btf := btf1\<rparr>))
         else (fn, st))
      in (fn1, st1, Inr (INLSZ \<ge> i_rngoff + i_rngsize)))"

fun fn_direct_loop :: "'bs env \<Rightarrow> flags \<Rightarrow> nat \<Rightarrow> nat \<Rightarrow> nat list \<Rightarrow> 'bs sect" where
  "fn_direct_loop env i_flags i_rngoff i_rngsize [] fn st = (fn, st, Inr False)"
| "fn_direct_loop env i_flags i_rngoff i_rngsize (i # is) fn st =
     (let off = INLSZ + i * BLKSZ in
      if off \<ge> i_rngoff + i_rngsize then (fn, st, Inr True)
      else if i_rngoff < off + BLKSZ then
        (case visit_child env 0 i_flags (data_visit False i_flags off (fn_size fn))
                (m_dirref fn ! i) (m_dirobj fn ! i) st of
           (obj1, st1, r) \<Rightarrow>
             (let fn1 = fn\<lparr>m_dirobj := (m_dirobj fn)[i := obj1]\<rparr> in
              case r of
                Inl e \<Rightarrow> (fn1, st1, Inl e)
              | Inr dirty \<Rightarrow>
                  fn_direct_loop env i_flags i_rngoff i_rngsize is
                    (fn1\<lparr>fn_dirty := fn_dirty fn1 \<or> dirty\<rparr>) st1))
      else fn_direct_loop env i_flags i_rngoff i_rngsize is fn st)"

definition fn_direct :: "'bs env \<Rightarrow> flags \<Rightarrow> nat \<Rightarrow> nat \<Rightarrow> 'bs sect" where
  "fn_direct env i_flags i_rngoff i_rngsize fn st =
     (let off = INLSZ + NDIRECT * BLKSZ in
      if i_rngoff \<ge> off then (fn, st, Inr (off \<ge> i_rngoff + i_rngsize))
      else
        (case fn_direct_loop env i_flags i_rngoff i_rngsize [0..<NDIRECT] fn st of
           (fn1, st1, Inl e) \<Rightarrow> (fn1, st1, Inl e)
         | (fn1, st1, Inr True) \<Rightarrow> (fn1, st1, Inr True)
         | (fn1, st1, Inr False) \<Rightarrow> (fn1, st1, Inr (off \<ge> i_rngoff + i_rngsize))))"

definition sin_off :: nat where "sin_off = INLSZ + NDIRECT * BLKSZ"
definition din_off :: nat where "din_off = sin_off + NUMREF * BLKSZ"
definition tin_off :: nat where "tin_off = din_off + NUMREF * NUMREF * BLKSZ"
definition end_off :: nat where "end_off = tin_off + NUMREF * NUMREF * NUMREF * BLKSZ"

definition fn_single :: "'bs env \<Rightarrow> flags \<Rightarrow> nat \<Rightarrow> nat \<Rightarrow> 'bs sect" where
  "fn_single env i_flags i_rngoff i_rngsize fn st =
     (if i_rngoff < din_off then
        (case visit_child env 1 i_flags
                (ind_traverse env i_flags (fn_size fn) i_rngoff i_rngsize sin_off)
                (m_sinref fn) (m_sinobj fn) st of
           (obj1, st1, Inl e) \<Rightarrow> (fn\<lparr>m_sinobj := obj1\<rparr>, st1, Inl e)
         | (obj1, st1, Inr dirty) \<Rightarrow>
             (fn\<lparr>m_sinobj := obj1, fn_dirty := fn_dirty fn \<or> dirty\<rparr>, st1,
              Inr (din_off \<ge> i_rngoff + i_rngsize)))
      else (fn, st, Inr (din_off \<ge> i_rngoff + i_rngsize)))"

definition fn_double :: "'bs env \<Rightarrow> flags \<Rightarrow> nat \<Rightarrow> nat \<Rightarrow> 'bs sect" where
  "fn_double env i_flags i_rngoff i_rngsize fn st =
     (if i_rngoff < tin_off then
        (case visit_child env 2 i_flags
                (dbl_traverse env i_flags (fn_size fn) i_rngoff i_rngsize din_off)
                (m_dinref fn) (m_dinobj fn) st of
           (obj1, st1, Inl e) \<Rightarrow> (fn\<lparr>m_dinobj := obj1\<rparr>, st1, Inl e)
         | (obj1, st1, Inr dirty) \<Rightarrow>
             (fn\<lparr>m_dinobj := obj1, fn_dirty := fn_dirty fn \<or> dirty\<rparr>, st1,
              Inr (tin_off \<ge> i_rngoff + i_rngsize)))
      else (fn, st, Inr (tin_off \<ge> i_rngoff + i_rngsize)))"

definition fn_triple :: "'bs env \<Rightarrow> flags \<Rightarrow> nat \<Rightarrow> nat \<Rightarrow> 'bs sect" where
  "fn_triple env i_flags i_rngoff i_rngsize fn st =
     (if i_rngoff < end_off then
        (case visit_child env 3 i_flags
                (tri_traverse env i_flags (fn_size fn) i_rngoff i_rngsize tin_off)
                (m_tinref fn) (m_tinobj fn) st of
           (obj1, st1, Inl e) \<Rightarrow> (fn\<lparr>m_tinobj := obj1\<rparr>, st1, Inl e)
         | (obj1, st1, Inr dirty) \<Rightarrow>
             (fn\<lparr>m_tinobj := obj1, fn_dirty := fn_dirty fn \<or> dirty\<rparr>, st1,
              Inr (end_off \<ge> i_rngoff + i_rngsize)))
      else (fn, st, Inr (end_off \<ge> i_rngoff + i_rngsize)))"

text \<open>Beyond the triple indirect block the code has nothing.\<close>

definition fn_beyond :: "'bs sect" where
  "fn_beyond fn st = (fn, st, Inl InternalError)"

definition sect_then :: "'bs sect \<Rightarrow> 'bs sect \<Rightarrow> 'bs sect" where
  "sect_then a b fn st =
     (case a fn st of
        (fn1, st1, Inl e) \<Rightarrow> (fn1, st1, Inl e)
      | (fn1, st1, Inr True) \<Rightarrow> (fn1, st1, Inr True)
      | (fn1, st1, Inr False) \<Rightarrow> b fn1 st1)"

definition FileNode_traverse ::
    "'bs env \<Rightarrow> flags \<Rightarrow> nat \<Rightarrow> nat \<Rightarrow> nat \<Rightarrow> filenode \<Rightarrow> 'bs ctxt \<Rightarrow> btf \<Rightarrow>
     filenode \<times> 'bs ctxt \<times> btf \<times> bool res" where
  "FileNode_traverse env i_flags i_base i_rngoff i_rngsize fn c btf =
     (if i_base \<noteq> 0 then (fn, c, btf, Inl InternalError)
      else
        (case (sect_then (fn_inline i_rngoff i_rngsize)
               (sect_then (fn_direct env i_flags i_rngoff i_rngsize)
               (sect_then (fn_single env i_flags i_rngoff i_rngsize)
               (sect_then (fn_double env i_flags i_rngoff i_rngsize)
               (sect_then (fn_triple env i_flags i_rngoff i_rngsize) fn_beyond)))))
                fn \<lparr>t_ctxt = c, t_btf = btf, t_blocks = fn_blocks fn\<rparr> of
           (fn1, st1, r) \<Rightarrow>
             (let fn2 = set_blocks (t_blocks st1) fn1 in
              (fn2, t_ctxt st1, t_btf st1,
               case r of Inl e \<Rightarrow> Inl e | Inr _ \<Rightarrow> Inr (fn_dirty fn2)))))"

subsection \<open>Reading and writing\<close>

definition errno_val :: "errno \<Rightarrow> int" where
  "errno_val e = (case e of ENOENT \<Rightarrow> 2 | EIO \<Rightarrow> 5 | EACCES \<Rightarrow> 13 | EEXIST \<Rightarrow> 17 | ENOTDIR \<Rightarrow> 20
     | EISDIR \<Rightarrow> 21 | EINVAL \<Rightarrow> 22 | ENOTEMPTY \<Rightarrow> 39)"

definition FileNode_read ::
    "'bs env \<Rightarrow> bytes \<Rightarrow> nat \<Rightarrow> nat \<Rightarrow> flags \<Rightarrow> filenode \<Rightarrow> 'bs ctxt \<Rightarrow>
     filenode \<times> 'bs ctxt \<times> bytes \<times> int res" where
  "FileNode_read env o_buf i_size i_off i_flags fn c =
     (case FileNode_traverse env i_flags 0 i_off i_size fn c (ReadBTF o_buf i_size i_off 0) of
        (fn1, c1, btf1, r) \<Rightarrow>
          (fn1, c1, bt_buf btf1,
           case r of
             Inr _ \<Rightarrow> Inr (int (bt_retval btf1))
           | Inl NotFoundError \<Rightarrow> Inr (- errno_val EIO)
           | Inl (Errno e) \<Rightarrow> Inr (- errno_val e)
           | Inl e \<Rightarrow> Inl e))"

definition FileNode_write ::
    "'bs env \<Rightarrow> bytes \<Rightarrow> nat \<Rightarrow> nat \<Rightarrow> filenode \<Rightarrow> 'bs ctxt \<Rightarrow> filenode \<times> 'bs ctxt \<times> int res" where
  "FileNode_write env i_data i_size i_off fn c =
     (case FileNode_traverse env RB_MODIFY_X 0 i_off i_size fn c (WriteBTF i_data i_size i_off 0) of
        (fn1, c1, btf1, r) \<Rightarrow>
          (case r of
             Inr True \<Rightarrow>
               ((set_size (max (i_off + i_size) (fn_size fn1)) fn1)\<lparr>fn_dirty := True\<rparr>, c1,
                Inr (int (bt_retval btf1)))
           | Inr False \<Rightarrow> (fn1, c1, Inr (int (bt_retval btf1)))
           | Inl (Errno e) \<Rightarrow> (fn1, c1, Inr (- errno_val e))
           | Inl e \<Rightarrow> (fn1, c1, Inl e)))"

text \<open>Other entry points of the inode.\<close>

record statbuf =
  st_mode :: "32 word"
  st_uid :: nat
  st_gid :: nat
  st_nlink :: "32 word"
  st_size :: nat
  st_atime :: int
  st_mtime :: int
  st_ctime :: int
  st_blocks :: nat

text \<open>
  The user data base is the arguments \<open>uid\<close> and \<open>gid\<close>: an unknown name is 0. Division of the
  times truncates towards zero.
\<close>

definition mapuname :: "(string \<Rightarrow> nat option) \<Rightarrow> string \<Rightarrow> nat" where
  "mapuname uid i_uname = (case uid i_uname of Some u \<Rightarrow> u | None \<Rightarrow> 0)"

definition mapgname :: "(string \<Rightarrow> nat option) \<Rightarrow> string \<Rightarrow> nat" where
  "mapgname gid i_gname = (case gid i_gname of Some g \<Rightarrow> g | None \<Rightarrow> 0)"

definition usec_to_sec :: "int \<Rightarrow> int" where
  "usec_to_sec t = (if t < 0 then - ((- t) div 1000000) else t div 1000000)"

definition FileNode_getattr :: "(string \<Rightarrow> nat option) \<Rightarrow> (string \<Rightarrow> nat option) \<Rightarrow> filenode \<Rightarrow> statbuf" where
  "FileNode_getattr uid gid fn =
     (let ino = m_inode fn in
      \<lparr>st_mode = ino_mode ino, st_uid = mapuname uid (ino_uname ino), st_gid = mapgname gid (ino_gname ino),
       st_nlink = ino_nlink ino, st_size = ino_size ino, st_atime = usec_to_sec (ino_atime ino),
       st_mtime = usec_to_sec (ino_mtime ino), st_ctime = usec_to_sec (ino_ctime ino),
       st_blocks = ino_blocks ino * 16\<rparr>)"

definition FileNode_readlink :: "int res" where
  "FileNode_readlink = Inl (Errno EINVAL)"

definition ALLPERMS :: "32 word" where "ALLPERMS = 0xfff"

definition FileNode_chmod :: "32 word \<Rightarrow> filenode \<Rightarrow> filenode" where
  "FileNode_chmod i_mode fn =
     (let md = or (and (ino_mode (m_inode fn)) (not ALLPERMS)) (and i_mode ALLPERMS)
      in fn\<lparr>m_inode := (m_inode fn)\<lparr>ino_mode := md\<rparr>, fn_dirty := True\<rparr>)"

definition FileNode_chown :: "string \<Rightarrow> string \<Rightarrow> filenode \<Rightarrow> filenode" where
  "FileNode_chown i_uname i_gname fn =
     fn\<lparr>m_inode := (m_inode fn)\<lparr>ino_uname := i_uname, ino_gname := i_gname\<rparr>, fn_dirty := True\<rparr>"

definition FileNode_access :: int where
  "FileNode_access = 0"

subsection \<open>Truncation\<close>

definition fn_trunc_inline :: "nat \<Rightarrow> filenode \<Rightarrow> filenode \<times> nat" where
  "fn_trunc_inline i_size fn =
     (if i_size < INLSZ
      then (fn\<lparr>m_inl := memset_from (m_inl fn) i_size, fn_dirty := True\<rparr>, INLSZ + INLSZ)
      else (fn, INLSZ))"

fun fn_trunc_direct ::
    "'bs env \<Rightarrow> nat \<Rightarrow> nat \<Rightarrow> nat \<Rightarrow> nat list \<Rightarrow> filenode \<Rightarrow> 'bs ctxt \<Rightarrow> filenode \<times> 'bs ctxt \<times> nat res" where
  "fn_trunc_direct env i_size off nblocks [] fn c = (fn, c, Inr nblocks)"
| "fn_trunc_direct env i_size off nblocks (ndx # ndxs) fn c =
     (let ref = m_dirref fn ! ndx; obj = m_dirobj fn ! ndx in
      if off + BLKSZ \<le> i_size then
        fn_trunc_direct env i_size (off + BLKSZ)
          (if obj \<noteq> None \<or> ref_set ref then nblocks + 1 else nblocks) ndxs fn c
      else if off < i_size then
        (case zero_tail env (i_size - off) ref obj c of
           (obj1, c1, Inl e) \<Rightarrow> (fn\<lparr>m_dirobj := (m_dirobj fn)[ndx := obj1]\<rparr>, c1, Inl e)
         | (obj1, c1, Inr False) \<Rightarrow> fn_trunc_direct env i_size (off + BLKSZ) nblocks ndxs fn c1
         | (obj1, c1, Inr True) \<Rightarrow>
             fn_trunc_direct env i_size (off + BLKSZ) (nblocks + 1) ndxs
               (fn\<lparr>m_dirobj := (m_dirobj fn)[ndx := obj1], fn_dirty := True\<rparr>) c1)
      else
        fn_trunc_direct env i_size (off + BLKSZ) nblocks ndxs
          (fn\<lparr>m_dirref := (m_dirref fn)[ndx := BlockRef_clear ref],
              m_dirobj := (m_dirobj fn)[ndx := None], fn_dirty := True\<rparr>)
          (cache_remove ref c))"

definition fn_drop_single :: "filenode \<Rightarrow> 'bs ctxt \<Rightarrow> filenode \<times> 'bs ctxt" where
  "fn_drop_single fn c =
     (fn\<lparr>m_sinref := BlockRef_clear (m_sinref fn), m_sinobj := None, fn_dirty := True\<rparr>,
      cache_remove (m_sinref fn) c)"

definition fn_trunc_single ::
    "'bs env \<Rightarrow> nat \<Rightarrow> nat \<Rightarrow> nat \<Rightarrow> filenode \<Rightarrow> 'bs ctxt \<Rightarrow> filenode \<times> 'bs ctxt \<times> nat res" where
  "fn_trunc_single env i_size off nblocks fn c =
     (if m_sinobj fn \<noteq> None \<or> ref_set (m_sinref fn) then
        (if off < i_size then
           (case find_trunc env 1 (m_sinref fn) (m_sinobj fn) c of
              (c1, Inl e) \<Rightarrow> (fn, c1, Inl e)
            | (c1, Inr None) \<Rightarrow> (fn, c1, Inl NullDeref)
            | (c1, Inr (Some (org, nh))) \<Rightarrow>
                (case ind_truncate env i_size off nh c1 of
                   (nh1, c2, r) \<Rightarrow>
                     (let (obj1, c3) = put_back org nh1 (m_sinobj fn) c2;
                          fn1 = fn\<lparr>m_sinobj := obj1\<rparr> in
                      case r of
                        Inl e \<Rightarrow> (fn1, c3, Inl e)
                      | Inr nb \<Rightarrow>
                          (let (fn2, c4) =
                             (if bn_isdirty nh1
                              then (fn1\<lparr>m_sinobj := Some nh1, fn_dirty := True\<rparr>,
                                    cache_remove (bn_blkref nh1) c3)
                              else (fn1, c3)) in
                           if nb > 1 then (fn2, c4, Inr (nblocks + nb))
                           else (let (fn3, c5) = fn_drop_single fn2 c4 in (fn3, c5, Inr nblocks))))))
         else (let (fn1, c1) = fn_drop_single fn c in (fn1, c1, Inr nblocks)))
      else (fn, c, Inr nblocks))"

definition FileNode_rb_truncate ::
    "'bs env \<Rightarrow> nat \<Rightarrow> filenode \<Rightarrow> 'bs ctxt \<Rightarrow> filenode \<times> 'bs ctxt \<times> nat res" where
  "FileNode_rb_truncate env i_size fn c =
     (let (fn1, off) = fn_trunc_inline i_size fn in
      case fn_trunc_direct env i_size off 1 [0..<NDIRECT] fn1 c of
        (fn2, c2, Inl e) \<Rightarrow> (fn2, c2, Inl e)
      | (fn2, c2, Inr nblocks) \<Rightarrow> fn_trunc_single env i_size (off + NDIRECT * BLKSZ) nblocks fn2 c2)"

definition FileNode_truncate ::
    "'bs env \<Rightarrow> int \<Rightarrow> nat \<Rightarrow> filenode \<Rightarrow> 'bs ctxt \<Rightarrow> filenode \<times> 'bs ctxt \<times> int res" where
  "FileNode_truncate env now i_size fn c =
     (case FileNode_rb_truncate env i_size fn c of
        (fn1, c1, Inl e) \<Rightarrow> (fn1, c1, Inl e)
      | (fn1, c1, Inr nblocks) \<Rightarrow>
          (let fn2 = set_size i_size (set_blocks nblocks fn1)
           in (fn2\<lparr>m_inode := (m_inode fn2)\<lparr>ino_mtime := now\<rparr>, fn_dirty := True\<rparr>, c1, Inr 0)))"

subsection \<open>Refresh\<close>

text \<open>Descending into one indirect reference; the result adds to the block count.\<close>

definition refresh_slot :: "'bs env \<Rightarrow> nat \<Rightarrow> 'bs refresh \<Rightarrow> blkref \<Rightarrow> bnode option \<Rightarrow> 'bs ctxt \<Rightarrow>
    'bs ctxt \<times> nat res" where
  "refresh_slot env l child ref obj c =
     (if ref_set ref then
        (case find_refresh env l ref obj c of
           (c1, Inl e) \<Rightarrow> (c1, Inl e)
         | (c1, Inr nh) \<Rightarrow>
             (case child nh c1 of
                (c2, Inl e) \<Rightarrow> (c2, Inl e)
              | (c2, Inr nb) \<Rightarrow> (c2, Inr (1 + nb))))
      else (c, Inr 0))"

text \<open>Blocks that are missing are only logged here.\<close>

definition FileNode_refresh :: "'bs env \<Rightarrow> 64 word \<Rightarrow> filenode \<Rightarrow> 'bs ctxt \<Rightarrow> 'bs ctxt \<times> nat res" where
  "FileNode_refresh env i_rid fn c =
     (let dkeys = filter ref_set (m_dirref fn) in
      case refresh_slot env 1 (ind_refresh env i_rid) (m_sinref fn) (m_sinobj fn) c of
        (c1, Inl e) \<Rightarrow> (c1, Inl e)
      | (c1, Inr n1) \<Rightarrow>
          (case refresh_slot env 2 (dbl_refresh env i_rid) (m_dinref fn) (m_dinobj fn) c1 of
             (c2, Inl e) \<Rightarrow> (c2, Inl e)
           | (c2, Inr n2) \<Rightarrow>
               (case refresh_slot env 3 (tri_refresh env i_rid) (m_tinref fn) (m_tinobj fn) c2 of
                  (c3, Inl e) \<Rightarrow> (c3, Inl e)
                | (c3, Inr n3) \<Rightarrow>
                    (let keys = fn_ref fn # dkeys @ filter ref_set [m_sinref fn, m_dinref fn, m_tinref fn] in
                     case e_refresh env (m_bsh c3) i_rid keys of
                       (bs, Inl e) \<Rightarrow> (c3\<lparr>m_bsh := bs\<rparr>, Inl e)
                     | (bs, Inr missing) \<Rightarrow> (c3\<lparr>m_bsh := bs\<rparr>, Inr (1 + length dkeys + n1 + n2 + n3))))))"

end
