(* ===== verification/Tree_Content.thy ===== *)
theory Tree_Content
  imports Block_Tree
begin

text \<open>
  What the block trees mean: the octet a tree holds at an offset, and that the traversals
  with the reading and the writing visitor read and write exactly these octets, whatever
  mixture of dirty, cached and stored blocks the tree is.
\<close>

named_theorems tree_simps \<open>evaluation of the tree predicates\<close>

primrec span :: "nat \<Rightarrow> nat" where
  "span 0 = BLKSZ"
| "span (Suc l) = NUMREF * span l"

lemma BLKSZ_pos [simp]: "0 < BLKSZ" by (simp add: BLKSZ_def)
lemma NUMREF_pos [simp]: "0 < NUMREF" by (simp add: NUMREF_def BLKSZ_def)
lemma span_pos [simp]: "0 < span l" by (induction l) simp_all

subsection \<open>The octets of a tree\<close>

text \<open>\<open>L l r\<close> is what loading the block \<open>r\<close> as a node of level \<open>l\<close> gives.\<close>

type_synonym loader = "nat \<Rightarrow> blkref \<Rightarrow> bnode res"

definition slot_cont :: "loader \<Rightarrow> nat \<Rightarrow> (bnode \<Rightarrow> byte) \<Rightarrow> blkref \<Rightarrow> bnode option \<Rightarrow> byte" where
  "slot_cont L l f ref obj =
     (case obj of
        Some k \<Rightarrow> f k
      | None \<Rightarrow> if ref_set ref then (case L l ref of Inr k \<Rightarrow> f k | Inl _ \<Rightarrow> 0) else 0)"

fun ncont :: "loader \<Rightarrow> nat \<Rightarrow> bnode \<Rightarrow> nat \<Rightarrow> byte" where
  "ncont L 0 n p = m_data n ! p"
| "ncont L (Suc l) n p =
     slot_cont L l (\<lambda>k. ncont L l k (p mod span l))
       (m_blkref n ! (p div span l)) (m_blkobj n ! (p div span l))"

definition cont :: "loader \<Rightarrow> nat \<Rightarrow> blkref \<Rightarrow> bnode option \<Rightarrow> nat \<Rightarrow> byte" where
  "cont L l ref obj p = slot_cont L l (\<lambda>k. ncont L l k p) ref obj"

lemma ncont_Suc:
  "ncont L (Suc l) n p = cont L l (m_blkref n ! (p div span l)) (m_blkobj n ! (p div span l)) (p mod span l)"
  by (simp add: cont_def)

subsection \<open>Well-formed trees\<close>

text \<open>
  Every node has the class of its level and full arrays, every reference can be loaded, and
  a reference is used at one level only, \<open>T r\<close>. An object in a slot is dirty, and so is the
  node that has it (\<open>slots_dirty\<close>), or a flush would pass it by. \<open>Z\<close> says whether it is a tree
  of zero nodes.
\<close>

definition slot_wf :: "loader \<Rightarrow> (blkref \<Rightarrow> nat) \<Rightarrow> nat \<Rightarrow> (bnode \<Rightarrow> bool) \<Rightarrow> blkref \<Rightarrow> bnode option \<Rightarrow> bool" where
  "slot_wf L T l P ref obj =
     (case obj of
        Some k \<Rightarrow> P k
      | None \<Rightarrow> ref_set ref \<longrightarrow> T ref = l \<and> (\<exists>k. L l ref = Inr k \<and> P k))"

definition slots_dirty :: "bool \<Rightarrow> bnode option list \<Rightarrow> bool" where
  "slots_dirty d objs \<longleftrightarrow> (\<forall>k. Some k \<in> set objs \<longrightarrow> d \<and> bn_isdirty k)"

lemma slots_dirty_None [simp]: "slots_dirty d (replicate n None)"
  by (simp add: slots_dirty_def)

lemma slots_dirty_upd:
  "slots_dirty d objs \<Longrightarrow> bn_isdirty k \<Longrightarrow> slots_dirty True (objs[i := Some k])"
  using set_update_subset_insert [of objs i "Some k"] by (auto simp: slots_dirty_def)

lemma slots_dirty_clear: "slots_dirty d objs \<Longrightarrow> slots_dirty d (objs[i := None])"
  using set_update_subset_insert [of objs i None] by (auto simp: slots_dirty_def)

lemma slots_dirty_True: "slots_dirty d objs \<Longrightarrow> slots_dirty True objs"
  by (simp add: slots_dirty_def)

fun wfn :: "loader \<Rightarrow> (blkref \<Rightarrow> nat) \<Rightarrow> bool \<Rightarrow> nat \<Rightarrow> bnode \<Rightarrow> bool" where
  "wfn L T Z 0 n \<longleftrightarrow> (\<exists>r d dat. n = DataNode r d Z dat \<and> length dat = BLKSZ)"
| "wfn L T Z (Suc l) n \<longleftrightarrow>
     (\<exists>r d refs objs. n = IndNode (Suc l) r d Z refs objs \<and> length refs = NUMREF \<and>
        length objs = NUMREF \<and> (\<forall>ref \<in> set refs. length ref = 32) \<and> (Z \<or> slots_dirty d objs) \<and>
        (\<forall>i < NUMREF. slot_wf L T l (wfn L T Z l) (refs ! i) (objs ! i)))"

abbreviation wfs :: "loader \<Rightarrow> (blkref \<Rightarrow> nat) \<Rightarrow> bool \<Rightarrow> nat \<Rightarrow> blkref \<Rightarrow> bnode option \<Rightarrow> bool" where
  "wfs L T Z l \<equiv> slot_wf L T l (wfn L T Z l)"

lemma wfs_Some [simp]: "wfs L T Z l ref (Some k) = wfn L T Z l k"
  by (simp add: slot_wf_def)

lemma wfn_Data [simp]: "wfn L T Z 0 (DataNode r d z dat) \<longleftrightarrow> z = Z \<and> length dat = BLKSZ"
  by auto

lemma wfn_Ind [simp]:
  "wfn L T Z (Suc l) (IndNode l' r d z refs objs) \<longleftrightarrow> l' = Suc l \<and> z = Z \<and> length refs = NUMREF \<and>
     length objs = NUMREF \<and> (\<forall>ref \<in> set refs. length ref = 32) \<and> (Z \<or> slots_dirty d objs) \<and>
     (\<forall>i < NUMREF. wfs L T Z l (refs ! i) (objs ! i))"
  by auto

lemma wfn_blevel: "wfn L T Z l n \<Longrightarrow> blevel n = l"
  by (cases l) auto

text \<open>
  The context: the loads give \<open>L\<close>, the clean cache holds only what a load gives, and the zero
  singletons are there and are trees of zeros.
\<close>

definition coh :: "loader \<Rightarrow> (blkref \<Rightarrow> nat) \<Rightarrow> 'bs ctxt \<Rightarrow> bool" where
  "coh L T c \<longleftrightarrow> (\<forall>r nh. m_bncache c r = Some nh \<longrightarrow> L (T r) r = Inr nh)"

definition zeros_ok :: "loader \<Rightarrow> (blkref \<Rightarrow> nat) \<Rightarrow> 'bs ctxt \<Rightarrow> bool" where
  "zeros_ok L T c \<longleftrightarrow>
     (\<forall>l \<le> 3. \<exists>z. zero_obj l c = Some z \<and> wfn L T True l z \<and> (\<forall>p < span l. ncont L l z p = 0))"

definition ctxt_ok :: "'bs env \<Rightarrow> loader \<Rightarrow> (blkref \<Rightarrow> nat) \<Rightarrow> 'bs ctxt \<Rightarrow> bool" where
  "ctxt_ok env L T c \<longleftrightarrow> (\<forall>l r. snd (load_node env l r c) = L l r) \<and> coh L T c \<and> zeros_ok L T c"

lemma load_node_ctxt:
  "\<exists>g b. fst (load_node env l r c) = c\<lparr>m_ngops := g, m_ngbytes := b\<rparr>"
proof -
  have "\<exists>g b. fst (load_block env ini r c) = c\<lparr>m_ngops := g, m_ngbytes := b\<rparr>" for ini
  proof (cases "e_get env (m_bsh c) r BLKSZ")
    case (Inl e)
    then have "fst (load_block env ini r c) = c\<lparr>m_ngops := m_ngops c, m_ngbytes := m_ngbytes c\<rparr>"
      by (simp add: load_block_def)
    then show ?thesis by blast
  next
    case (Inr got)
    then have "fst (load_block env ini r c) = c\<lparr>m_ngops := m_ngops c + 1, m_ngbytes := m_ngbytes c + BLKSZ\<rparr>"
      by (simp add: load_block_def Let_def split: sum.split)
    then show ?thesis by blast
  qed
  then show ?thesis
    by (auto simp: load_node_def DataBlockNode_load_def IndirectBlockNode_load_def
        split: prod.split sum.split) (metis fst_conv)+
qed

lemma load_node_cong:
  assumes "m_bsh c' = m_bsh c" "m_cipher c' = m_cipher c"
  shows "snd (load_node env l r c') = snd (load_node env l r c)"
  using assms
  by (simp add: load_node_def DataBlockNode_load_def IndirectBlockNode_load_def load_block_def Let_def
      split: prod.split sum.split)

lemma load_node_ref:
  "snd (load_node env l r c) = Inr n \<Longrightarrow> bn_blkref n = r \<and> \<not> bn_isdirty n \<and> blevel n = l"
  by (auto simp: load_node_def DataBlockNode_load_def IndirectBlockNode_load_def
      split: if_splits prod.splits sum.splits)

text \<open>What the operations on a context keep.\<close>

lemma zero_obj_cong:
  assumes "m_zdatobj c' = m_zdatobj c" "m_zsinobj c' = m_zsinobj c" "m_zdinobj c' = m_zdinobj c"
    "m_ztinobj c' = m_ztinobj c"
  shows "zero_obj l c' = zero_obj l c"
  using assms by (induction l c rule: zero_obj.induct) simp_all

definition same_base :: "'bs ctxt \<Rightarrow> 'bs ctxt \<Rightarrow> bool" where
  "same_base c c' \<longleftrightarrow> m_bsh c' = m_bsh c \<and> m_cipher c' = m_cipher c \<and> m_zdatobj c' = m_zdatobj c \<and>
     m_zsinobj c' = m_zsinobj c \<and> m_zdinobj c' = m_zdinobj c \<and> m_ztinobj c' = m_ztinobj c"

lemma same_base_refl [simp]: "same_base c c" by (simp add: same_base_def)

lemma same_base_trans: "same_base c c1 \<Longrightarrow> same_base c1 c2 \<Longrightarrow> same_base c c2"
  by (simp add: same_base_def)

lemma ctxt_ok_cache:
  assumes "ctxt_ok env L T c" "same_base c c'"
    "\<And>r nh. m_bncache c' r = Some nh \<Longrightarrow> L (T r) r = Inr nh"
  shows "ctxt_ok env L T c'"
proof -
  have "zero_obj l c' = zero_obj l c" for l
    by (rule zero_obj_cong) (use assms(2) in \<open>simp_all add: same_base_def\<close>)
  moreover have "snd (load_node env l r c') = snd (load_node env l r c)" for l r
    by (rule load_node_cong) (use assms(2) in \<open>simp_all add: same_base_def\<close>)
  ultimately show ?thesis
    using assms(1,3) by (simp add: ctxt_ok_def coh_def zeros_ok_def)
qed

lemma same_base_simps [simp]:
  "same_base c (c\<lparr>m_ngops := g, m_ngbytes := b\<rparr>)" "same_base c (c\<lparr>m_bncache := m\<rparr>)"
  "same_base c (cache_remove r c)" "same_base c (cache_insert nh c)"
  by (simp_all add: same_base_def cache_remove_def cache_insert_def)

lemma ctxt_ok_remove:
  "ctxt_ok env L T c \<Longrightarrow> ctxt_ok env L T (cache_remove r c)"
  by (rule ctxt_ok_cache [of env L T c])
    (auto simp: cache_remove_def ctxt_ok_def coh_def same_base_def split: if_splits)

lemma ctxt_ok_load:
  assumes ok: "ctxt_ok env L T c" and run: "load_node env l r c = (c1, x)"
  shows "ctxt_ok env L T c1" "same_base c c1" "x = L l r" "m_bncache c1 = m_bncache c"
proof -
  obtain g b where c1: "c1 = c\<lparr>m_ngops := g, m_ngbytes := b\<rparr>"
    using load_node_ctxt [of env l r c] run by auto
  show "x = L l r" using ok run by (metis ctxt_ok_def snd_conv)
  show "same_base c c1" "m_bncache c1 = m_bncache c" by (simp_all add: c1)
  show "ctxt_ok env L T c1"
    by (rule ctxt_ok_cache [OF ok]) (use ok in \<open>simp_all add: c1 ctxt_ok_def coh_def\<close>)
qed

lemma ctxt_ok_insert:
  assumes ok: "ctxt_ok env L T c" and n: "L (T r) r = Inr nh"
  shows "ctxt_ok env L T (cache_insert nh c)"
proof -
  have "bn_blkref nh = r" using ok n load_node_ref by (metis ctxt_ok_def)
  then show ?thesis
    using ok n by (intro ctxt_ok_cache [OF ok])
      (auto simp: cache_insert_def ctxt_ok_def coh_def split: if_splits)
qed

subsection \<open>What the visitors do\<close>

text \<open>The visitor after it has seen the octets \<open>f\<close> of the offsets from \<open>lo\<close> to \<open>hi\<close>.\<close>

fun btf_adv :: "btf \<Rightarrow> nat \<Rightarrow> nat \<Rightarrow> (nat \<Rightarrow> byte) \<Rightarrow> nat \<Rightarrow> btf" where
  "btf_adv (ReadBTF buf sz off rv) lo hi f fsz =
     (let a = max off lo; b = min (min (off + sz) hi) fsz
      in ReadBTF (memcpy_at buf (a - off) (map f [a..<b])) sz off (rv + (b - a)))"
| "btf_adv (WriteBTF buf sz off rv) lo hi f fsz =
     WriteBTF buf sz off (rv + (min (off + sz) hi - max off lo))"

fun wr_cont :: "btf \<Rightarrow> (nat \<Rightarrow> byte) \<Rightarrow> nat \<Rightarrow> byte" where
  "wr_cont (ReadBTF buf sz off rv) f p = f p"
| "wr_cont (WriteBTF buf sz off rv) f p = (if off \<le> p \<and> p < off + sz then buf ! (p - off) else f p)"

definition is_read :: "btf \<Rightarrow> bool" where
  "is_read btf = (case btf of ReadBTF _ _ _ _ \<Rightarrow> True | WriteBTF _ _ _ _ \<Rightarrow> False)"

abbreviation btf_end :: "btf \<Rightarrow> nat" where "btf_end btf \<equiv> bt_off btf + bt_size btf"

definition btf_ok :: "btf \<Rightarrow> bool" where
  "btf_ok btf \<longleftrightarrow> length (bt_buf btf) = bt_size btf"

lemma btf_adv_fields [simp]:
  "bt_size (btf_adv b lo hi f fsz) = bt_size b" "bt_off (btf_adv b lo hi f fsz) = bt_off b"
  "is_read (btf_adv b lo hi f fsz) = is_read b"
  by (cases b; simp add: Let_def is_read_def)+

lemma length_copy:
  assumes "off \<le> a" "b \<le> off + length buf"
  shows "length (memcpy_at buf (a - off) (map f [a..<b])) = length buf"
proof (cases "a < b")
  case True
  with assms show ?thesis by simp
next
  case False
  then show ?thesis by (simp add: memcpy_at_def)
qed

lemma btf_adv_ok [simp]: "btf_ok b \<Longrightarrow> btf_ok (btf_adv b lo hi f fsz)"
  by (cases b) (simp_all add: btf_ok_def Let_def length_copy)

lemma btf_adv_outside:
  "hi \<le> bt_off b \<or> btf_end b \<le> lo \<or> hi \<le> lo \<Longrightarrow> btf_adv b lo hi f fsz = b"
  by (cases b) (auto simp: Let_def memcpy_at_def)

lemma nth_copy:
  assumes "length buf = sz" "b \<le> off + sz" "i < sz" "off \<le> a"
  shows "memcpy_at buf (a - off) (map f [a..<b]) ! i =
    (if a \<le> off + i \<and> off + i < b then f (off + i) else buf ! i)"
proof (cases "a < b")
  case False
  then have "\<not> (a \<le> off + i \<and> off + i < b)" by linarith
  moreover have "memcpy_at buf (a - off) (map f [a..<b]) = buf" using False by (simp add: memcpy_at_def)
  ultimately show ?thesis by (simp only: if_False)
next
  case True
  then have "a - off + length (map f [a..<b]) \<le> length buf" using assms by simp
  then show ?thesis using assms True by (subst nth_memcpy_at) (auto simp: nth_append add.commute)
qed

lemma btf_adv_join:
  assumes "btf_ok b" "lo \<le> mid" "mid \<le> hi"
  shows "btf_adv (btf_adv b lo mid f fsz) mid hi f fsz = btf_adv b lo hi f fsz"
proof (cases b)
  case (WriteBTF buf sz off rv)
  with assms show ?thesis by (auto simp: min_def max_def)
next
  case (ReadBTF buf sz off rv)
  have len: "length buf = sz" using assms(1) ReadBTF by (simp add: btf_ok_def)
  let ?b = "\<lambda>hi. min (min (off + sz) hi) fsz"
  let ?m = "\<lambda>buf lo hi. memcpy_at buf (max off lo - off) (map f [max off lo..<?b hi])"
  have l: "length (?m buf' lo hi) = sz" if "length buf' = sz" for buf' lo hi
    using that by (simp add: length_copy)
  have "?m (?m buf lo mid) mid hi = ?m buf lo hi"
  proof (rule nth_equalityI)
    show "length (?m (?m buf lo mid) mid hi) = length (?m buf lo hi)" by (simp only: l len)
    fix i assume "i < length (?m (?m buf lo mid) mid hi)"
    then have i: "i < sz" by (simp only: l len)
    note n = nth_copy [OF _ _ i]
    have "?m (?m buf lo mid) mid hi ! i =
        (if max off mid \<le> off + i \<and> off + i < ?b hi then f (off + i) else ?m buf lo mid ! i)"
      by (rule nth_copy [OF l [OF len] _ i]) simp_all
    also have "?m buf lo mid ! i = (if max off lo \<le> off + i \<and> off + i < ?b mid then f (off + i) else buf ! i)"
      by (rule n) (simp_all add: len)
    also have "(if max off mid \<le> off + i \<and> off + i < ?b hi then f (off + i)
        else if max off lo \<le> off + i \<and> off + i < ?b mid then f (off + i) else buf ! i) =
        (if max off lo \<le> off + i \<and> off + i < ?b hi then f (off + i) else buf ! i)"
      using assms(2,3) by (auto simp: min_def max_def split: if_splits)
    also have "\<dots> = ?m buf lo hi ! i"
      by (rule n [symmetric]) (simp_all add: len)
    finally show "?m (?m buf lo mid) mid hi ! i = ?m buf lo hi ! i" .
  qed
  moreover have "?b mid - max off lo + (?b hi - max off mid) = ?b hi - max off lo"
    using assms(2,3) by (auto simp: min_def max_def)
  ultimately show ?thesis by (simp only: ReadBTF btf_adv.simps Let_def add.assoc)
qed

lemma btf_adv_cong:
  assumes "\<And>p. lo \<le> p \<Longrightarrow> p < hi \<Longrightarrow> f p = g p"
  shows "btf_adv b lo hi f fsz = btf_adv b lo hi g fsz"
proof (cases b)
  case (ReadBTF buf sz off rv)
  have "map f [max off lo..<min (min (off + sz) hi) fsz] = map g [max off lo..<min (min (off + sz) hi) fsz]"
    by (rule map_cong) (use assms in auto)
  then show ?thesis by (simp only: ReadBTF btf_adv.simps Let_def)
qed simp

lemma bt_visit_read:
  assumes "is_read b"
  shows "bt_visit b dat off fsz = (btf_adv b off (off + length dat) (\<lambda>p. dat ! (p - off)) fsz, dat, False)"
proof (cases b)
  case (ReadBTF buf sz boff rv)
  let ?a = "max boff off" and ?b = "min (min (boff + sz) (off + length dat)) fsz"
  have sub: "subbuf dat (?a - off) (?b - ?a) = map (\<lambda>p. dat ! (p - off)) [?a..<?b]" if "?a < ?b"
  proof (rule nth_equalityI)
    have fit: "?a - off + (?b - ?a) \<le> length dat" using that by auto
    then show "length (subbuf dat (?a - off) (?b - ?a)) = length (map (\<lambda>p. dat ! (p - off)) [?a..<?b])"
      by (simp only: length_subbuf length_map length_upt)
    fix i assume "i < length (subbuf dat (?a - off) (?b - ?a))"
    then have i: "i < ?b - ?a" using fit by (simp only: length_subbuf)
    then have ai: "?a + i < ?b" by linarith
    have "?a - off + i = ?a + i - off" by simp
    with i fit show "subbuf dat (?a - off) (?b - ?a) ! i = map (\<lambda>p. dat ! (p - off)) [?a..<?b] ! i"
      by (simp only: nth_subbuf length_map length_upt nth_map nth_upt [OF ai])
  qed
  have b: "(if min (boff + sz) (off + length dat) > fsz then fsz else min (boff + sz) (off + length dat)) = ?b"
    by (simp add: min_def)
  show ?thesis
  proof (cases "?a < ?b")
    case True
    then have "\<not> ?b \<le> ?a" by linarith
    with sub [OF True] show ?thesis
      by (simp only: ReadBTF bt_visit.simps btf_adv.simps Let_def b if_False)
  next
    case False
    then have "?b \<le> ?a" by linarith
    moreover from this have "?b - ?a = 0" "[?a..<?b] = []" by simp_all
    ultimately show ?thesis
      by (simp only: ReadBTF bt_visit.simps btf_adv.simps Let_def b if_True list.map memcpy_at_Nil add_0_right)
  qed
qed (use assms in \<open>simp add: is_read_def\<close>)

lemma bt_visit_write:
  assumes "\<not> is_read b" "btf_ok b" "bt_off b < off + length dat" "off < btf_end b" "dat \<noteq> []" "0 < bt_size b"
  obtains dat' where
    "bt_visit b dat off fsz = (btf_adv b off (off + length dat) f fsz, dat', True)"
    "length dat' = length dat"
    "\<forall>i < length dat. dat' ! i = wr_cont b (\<lambda>p. dat ! (p - off)) (off + i)"
proof (cases b)
  case (WriteBTF buf sz boff rv)
  let ?a = "max boff off" and ?b = "min (boff + sz) (off + length dat)"
  have ab: "?a < ?b" using assms WriteBTF by auto
  define src where "src = subbuf buf (?a - boff) (?b - ?a)"
  have len: "length src = ?b - ?a" unfolding src_def
    using assms(2) ab WriteBTF by (intro length_subbuf) (auto simp: btf_ok_def)
  have fit: "?a - off + length src \<le> length dat" using ab by (simp add: len)
  show ?thesis
  proof
    show "bt_visit b dat off fsz = (btf_adv b off (off + length dat) f fsz, memcpy_at dat (?a - off) src, True)"
      using ab by (simp add: WriteBTF Let_def src_def not_le [symmetric])
    show "length (memcpy_at dat (?a - off) src) = length dat" using fit by simp
    have "memcpy_at dat (?a - off) src ! i = wr_cont b (\<lambda>p. dat ! (p - off)) (off + i)"
      if i: "i < length dat" for i
    proof -
      have "src ! (off + i - ?a) = buf ! (off + i - boff)" if "?a \<le> off + i" "off + i < ?b"
        unfolding src_def using that assms(2) ab WriteBTF by (subst nth_subbuf) (auto simp: btf_ok_def)
      then show ?thesis using i fit ab len by (subst nth_memcpy_at) (auto simp: WriteBTF add.commute)
    qed
    then show "\<forall>i < length dat. memcpy_at dat (?a - off) src ! i = wr_cont b (\<lambda>p. dat ! (p - off)) (off + i)"
      by blast
  qed
qed (use assms in \<open>simp add: is_read_def\<close>)

end
