(* ===== verification/Tree_Traverse.thy ===== *)
theory Tree_Traverse
  imports Tree_Content
begin

text \<open>
  The traversals of \<^verbatim>\<open>Block_Tree\<close> read and write the octets of \<^verbatim>\<open>Tree_Content\<close>. The two
  lemmas \<open>ref_traverse_reads\<close> and \<open>ref_traverse_writes\<close> lift the property of the traversal of a
  child to the traversal of its parent; the three levels are instances.
\<close>

subsection \<open>Reading\<close>

lemma zero_upd_same: "zero_obj l c = Some nh \<Longrightarrow> zero_upd l nh c = c"
  by (induction l c rule: zero_obj.induct) simp_all

lemma ctxt_ok_loaded:
  assumes "ctxt_ok env L T c" "L l r = Inr k"
  shows "bn_blkref k = r" "\<not> bn_isdirty k" "blevel k = l"
  using assms load_node_ref [of env l r c k] by (simp_all add: ctxt_ok_def)

lemma put_back_cached:
  assumes "ctxt_ok env L T c" "L (T r) r = Inr nh"
  shows "put_back (OCache r) nh obj c = (obj, c)"
proof (cases "m_bncache c r")
  case (Some nh')
  with assms have "m_bncache c r = Some nh" by (auto simp: ctxt_ok_def coh_def)
  then have "(m_bncache c)(r \<mapsto> nh) = m_bncache c" by (simp add: fun_upd_idem)
  then show ?thesis by simp
qed simp

definition found_for_read :: "'bs env \<Rightarrow> loader \<Rightarrow> (blkref \<Rightarrow> nat) \<Rightarrow> nat \<Rightarrow> blkref \<Rightarrow> bnode option \<Rightarrow>
    'bs tst \<Rightarrow> 'bs tst \<Rightarrow> origin \<Rightarrow> bnode \<Rightarrow> bool" where
  "found_for_read env L T l ref obj st st1 org nh \<longleftrightarrow>
     (\<exists>Z. wfn L T Z l nh) \<and> ctxt_ok env L T (t_ctxt st1) \<and> same_base (t_ctxt st) (t_ctxt st1) \<and>
     t_btf st1 = t_btf st \<and> t_blocks st1 = t_blocks st \<and>
     (\<forall>p < span l. ncont L l nh p = cont L l ref obj p) \<and>
     (\<forall>c. ctxt_ok env L T c \<longrightarrow> same_base (t_ctxt st1) c \<longrightarrow> put_back org nh obj c = (obj, c))"

lemma find_block_read:
  assumes ok: "ctxt_ok env L T (t_ctxt st)" and wf: "wfs L T Z l ref obj"
    and fl: "\<not> has_flag fl RB_MODIFY_X" and l: "l \<le> 3"
  obtains org nh st1 where "find_block env l fl ref obj st = (obj, st1, Inr (org, nh))"
    "found_for_read env L T l ref obj st st1 org nh"
proof (cases obj)
  case (Some nh)
  have "find_block env l fl ref obj st = (obj, st, Inr (OSlot, nh))"
    by (simp add: find_block_def Some)
  moreover have "found_for_read env L T l ref obj st st OSlot nh"
    using ok wf Some by (auto simp: found_for_read_def cont_def slot_cont_def)
  ultimately show ?thesis by (rule that)
next
  case None
  note [simp] = None
  show ?thesis
  proof (cases "ref_set ref")
    case False
    from ok l obtain z where z: "zero_obj l (t_ctxt st) = Some z" "wfn L T True l z"
      "\<forall>p < span l. ncont L l z p = 0" by (auto simp: ctxt_ok_def zeros_ok_def)
    have "find_block env l fl ref obj st = (obj, st, Inr (OZero l, z))"
      using False fl z by (simp add: find_block_def)
    moreover have "put_back (OZero l) z obj c = (obj, c)" if "same_base (t_ctxt st) c" for c
    proof -
      have "zero_obj l c = Some z"
        using z(1) that by (subst zero_obj_cong [of c "t_ctxt st"]) (simp_all add: same_base_def)
      then show ?thesis by (simp add: zero_upd_same)
    qed
    then have "found_for_read env L T l ref obj st st (OZero l) z"
      using ok z False by (auto simp: found_for_read_def cont_def slot_cont_def)
    ultimately show ?thesis by (rule that)
  next
    case True
    with wf obtain k where T: "T ref = l" and k: "L l ref = Inr k" "wfn L T Z l k"
      by (auto simp: slot_wf_def)
    have cont: "\<forall>p < span l. ncont L l k p = cont L l ref obj p"
      using True k by (simp add: cont_def slot_cont_def)
    have pb: "put_back (OCache ref) k obj c = (obj, c)" if "ctxt_ok env L T c" for c
      by (rule put_back_cached [OF that]) (use k T in simp)
    show ?thesis
    proof (cases "m_bncache (t_ctxt st) ref")
      case (Some bnh)
      have bnh: "bnh = k" using ok Some k T by (auto simp: ctxt_ok_def coh_def)
      have "find_block env l fl ref obj st = (obj, st, Inr (OCache ref, k))"
        using True Some bnh wfn_blevel [OF k(2)] by (simp add: find_block_def)
      moreover have "found_for_read env L T l ref obj st st (OCache ref) k"
        using ok k cont pb by (auto simp: found_for_read_def)
      ultimately show ?thesis by (rule that)
    next
      case miss: None
      obtain c1 x where ld: "load_node env l ref (t_ctxt st) = (c1, x)" by fastforce
      note c1 = ctxt_ok_load [OF ok ld]
      show ?thesis
      proof (cases "has_flag fl RB_NOCACHE")
        case nocache: True
        have "find_block env l fl ref obj st = (obj, st\<lparr>t_ctxt := c1\<rparr>, Inr (OLoose, k))"
          using True miss ld c1(3) k(1) nocache by (simp add: find_block_def)
        moreover have "found_for_read env L T l ref obj st (st\<lparr>t_ctxt := c1\<rparr>) OLoose k"
          using c1 k cont by (auto simp: found_for_read_def)
        ultimately show ?thesis by (rule that)
      next
        case False
        have "find_block env l fl ref obj st = (obj, st\<lparr>t_ctxt := cache_insert k c1\<rparr>, Inr (OCache ref, k))"
          using True miss ld c1(3) k(1) False by (simp add: find_block_def)
        moreover have "ctxt_ok env L T (cache_insert k c1)"
          using c1(1) k(1) T by (intro ctxt_ok_insert [of env L T c1 ref]) simp_all
        then have "found_for_read env L T l ref obj st (st\<lparr>t_ctxt := cache_insert k c1\<rparr>) (OCache ref) k"
          using c1 k cont pb by (auto simp: found_for_read_def intro: same_base_trans)
        ultimately show ?thesis by (rule that)
      qed
    qed
  qed
qed

text \<open>What it means that a traversal of a node of level \<open>l\<close> reads.\<close>

definition read_to :: "'bs env \<Rightarrow> loader \<Rightarrow> (blkref \<Rightarrow> nat) \<Rightarrow> nat \<Rightarrow> nat \<Rightarrow> nat \<Rightarrow> (nat \<Rightarrow> byte) \<Rightarrow>
    'bs tst \<Rightarrow> 'bs tst \<Rightarrow> bool" where
  "read_to env L T fsz lo hi f st st' \<longleftrightarrow>
     ctxt_ok env L T (t_ctxt st') \<and> same_base (t_ctxt st) (t_ctxt st') \<and>
     t_blocks st' = t_blocks st \<and> t_btf st' = btf_adv (t_btf st) lo hi f fsz"

definition may_read :: "'bs env \<Rightarrow> loader \<Rightarrow> (blkref \<Rightarrow> nat) \<Rightarrow> nat \<Rightarrow> nat \<Rightarrow> 'bs tst \<Rightarrow> bool" where
  "may_read env L T ro rs st \<longleftrightarrow>
     ctxt_ok env L T (t_ctxt st) \<and> is_read (t_btf st) \<and> btf_ok (t_btf st) \<and>
     bt_off (t_btf st) = ro \<and> bt_size (t_btf st) = rs"

definition reads :: "'bs env \<Rightarrow> loader \<Rightarrow> (blkref \<Rightarrow> nat) \<Rightarrow> nat \<Rightarrow> nat \<Rightarrow> nat \<Rightarrow> nat \<Rightarrow>
    (nat \<Rightarrow> 'bs trav) \<Rightarrow> bool" where
  "reads env L T fsz ro rs l tr \<longleftrightarrow>
     (\<forall>base Z n st. wfn L T Z l n \<longrightarrow> may_read env L T ro rs st \<longrightarrow>
        (\<exists>st' d. tr base n st = (n, st', Inr d) \<and>
           read_to env L T fsz base (base + span l) (\<lambda>p. ncont L l n (p - base)) st st'))"

lemma may_read_after:
  "may_read env L T ro rs st \<Longrightarrow> read_to env L T fsz lo hi f st st' \<Longrightarrow> may_read env L T ro rs st'"
  by (simp add: may_read_def read_to_def)

lemma read_to_outside:
  "may_read env L T ro rs st \<Longrightarrow> hi \<le> ro \<or> ro + rs \<le> lo \<or> hi \<le> lo \<Longrightarrow> read_to env L T fsz lo hi f st st"
  by (auto simp: may_read_def read_to_def btf_adv_outside)

lemma read_to_join:
  assumes "may_read env L T ro rs st" "read_to env L T fsz lo mid f st st1"
    "read_to env L T fsz mid hi f st1 st2" "lo \<le> mid" "mid \<le> hi"
  shows "read_to env L T fsz lo hi f st st2"
  using assms by (auto simp: may_read_def read_to_def btf_adv_join intro: same_base_trans)

lemma read_to_cong:
  assumes "read_to env L T fsz lo hi f st st'" "\<And>p. lo \<le> p \<Longrightarrow> p < hi \<Longrightarrow> f p = g p"
  shows "read_to env L T fsz lo hi g st st'"
  using assms btf_adv_cong [of lo hi f g "t_btf st" fsz] by (simp add: read_to_def)

lemma data_visit_reads: "reads env L T fsz ro rs 0 (\<lambda>off. data_visit strict fl off fsz)"
  unfolding reads_def
proof (intro allI impI)
  fix base Z n st
  assume "wfn L T Z 0 n" and st: "may_read env L T ro rs (st :: 'a tst)"
  then obtain r d dat where n: "n = DataNode r d Z dat" "length dat = BLKSZ" by auto
  have rd: "is_read (t_btf st)" using st by (simp add: may_read_def)
  have "data_visit strict fl base fsz n st =
      (n, st\<lparr>t_btf := btf_adv (t_btf st) base (base + BLKSZ) (\<lambda>p. dat ! (p - base)) fsz\<rparr>, Inr False)"
    using n by (simp add: data_visit_def bt_visit_read [OF rd] Let_def)
  then show "\<exists>st' d. data_visit strict fl base fsz n st = (n, st', Inr d) \<and>
      read_to env L T fsz base (base + span 0) (\<lambda>p. ncont L 0 n (p - base)) st st'"
    using st n by (auto simp: read_to_def may_read_def)
qed

lemma visit_child_read:
  assumes tr: "reads env L T fsz ro rs l tr" and st: "may_read env L T ro rs st"
    and wf: "wfs L T Z l ref obj" and fl: "\<not> has_flag fl RB_MODIFY_X" and l: "l \<le> 3"
  obtains st' where "visit_child env l fl (tr base) ref obj st = (obj, st', Inr False)"
    "read_to env L T fsz base (base + span l) (\<lambda>p. cont L l ref obj (p - base)) st st'"
proof -
  from st have ok: "ctxt_ok env L T (t_ctxt st)" by (simp add: may_read_def)
  obtain org nh st1 where f: "find_block env l fl ref obj st = (obj, st1, Inr (org, nh))"
    and fr: "found_for_read env L T l ref obj st st1 org nh"
    by (rule find_block_read [OF ok wf fl l])
  from fr obtain Z' where wfn: "wfn L T Z' l nh" by (auto simp: found_for_read_def)
  have st1: "may_read env L T ro rs st1" using st fr by (simp add: may_read_def found_for_read_def)
  obtain st2 d where t: "tr base nh st1 = (nh, st2, Inr d)"
    "read_to env L T fsz base (base + span l) (\<lambda>p. ncont L l nh (p - base)) st1 st2"
    using tr wfn st1 unfolding reads_def by blast
  have "put_back org nh obj (t_ctxt st2) = (obj, t_ctxt st2)"
    using fr t(2) by (simp add: found_for_read_def read_to_def)
  then have "visit_child env l fl (tr base) ref obj st = (obj, st2, Inr False)"
    using f t(1) fl by (simp add: visit_child_def)
  moreover have "read_to env L T fsz base (base + span l) (\<lambda>p. cont L l ref obj (p - base)) st1 st2"
    by (rule read_to_cong [OF t(2)]) (use fr in \<open>simp add: found_for_read_def\<close>)
  then have "read_to env L T fsz base (base + span l) (\<lambda>p. cont L l ref obj (p - base)) st st2"
    using fr by (auto simp: read_to_def found_for_read_def intro: same_base_trans)
  ultimately show ?thesis by (rule that)
qed

lemma slot_of_offset:
  assumes "k * s \<le> p" "p < k * s + s" "0 < (s :: nat)"
  shows "p div s = k" "p mod s = p - k * s"
proof -
  have "p = k * s + (p - k * s)" "p - k * s < s" using assms by simp_all
  then show "p div s = k" "p mod s = p - k * s"
    using assms(3) by (metis div_mult_self3 div_less add.commute add.right_neutral less_numeral_extra(3),
        metis mod_mult_self3 mod_less)
qed

lemma ref_loop_read:
  assumes tr: "reads env L T fsz ro rs l tr" and fl: "\<not> has_flag fl RB_MODIFY_X" and l: "l \<le> 3"
    and wf: "wfn L T Z (Suc l) n"
  shows "k \<le> NUMREF \<Longrightarrow> may_read env L T ro rs st \<Longrightarrow>
    \<exists>st'. ref_loop env l (span l) fl tr base ro rs [k..<NUMREF] n st = (n, st', Inr ()) \<and>
      read_to env L T fsz (base + k * span l) (base + span (Suc l)) (\<lambda>p. ncont L (Suc l) n (p - base)) st st'"
proof (induction "NUMREF - k" arbitrary: k st)
  case 0
  then have "k = NUMREF" by simp
  with 0 show ?case by (auto intro!: read_to_outside)
next
  case (Suc m)
  from wf obtain r d refs objs where n: "n = IndNode (Suc l) r d Z refs objs"
    "length objs = NUMREF" "\<forall>i < NUMREF. wfs L T Z l (refs ! i) (objs ! i)" by auto
  from Suc have k: "k < NUMREF" "[k..<NUMREF] = k # [Suc k..<NUMREF]" by (simp_all add: upt_conv_Cons)
  have mono: "Suc k * span l \<le> NUMREF * span l" using k by (intro mult_le_mono1) simp
  show ?case
  proof (cases "ro + rs \<le> base + k * span l")
    case True
    then show ?thesis using Suc.prems k by (auto intro!: read_to_outside)
  next
    case False
    have wfk: "wfs L T Z l (refs ! k) (objs ! k)" using n k by simp
    obtain st1 where v: "visit_child env l fl (tr (base + k * span l)) (refs ! k) (objs ! k) st =
        (objs ! k, st1, Inr False)"
      and r1: "read_to env L T fsz (base + k * span l) (base + k * span l + span l)
        (\<lambda>p. cont L l (refs ! k) (objs ! k) (p - (base + k * span l))) st st1"
      by (rule visit_child_read [OF tr Suc.prems(2) wfk fl l])
    have r1': "read_to env L T fsz (base + k * span l) (base + Suc k * span l)
        (\<lambda>p. ncont L (Suc l) n (p - base)) st st1"
    proof -
      have "cont L l (refs ! k) (objs ! k) (p - (base + k * span l)) = ncont L (Suc l) n (p - base)"
        if "base + k * span l \<le> p" "p < base + k * span l + span l" for p
      proof -
        have "k * span l \<le> p - base" "p - base < k * span l + span l" using that by simp_all
        from slot_of_offset [OF this span_pos] show ?thesis
          by (simp add: ncont_Suc n del: ncont.simps)
      qed
      note same = this
      have e: "base + Suc k * span l = base + k * span l + span l" by simp
      show ?thesis unfolding e using same by (rule read_to_cong [OF r1])
    qed
    have st1: "may_read env L T ro rs st1" by (rule may_read_after [OF Suc.prems(2) r1])
    obtain st2 where rec: "ref_loop env l (span l) fl tr base ro rs [Suc k..<NUMREF] n st1 = (n, st2, Inr ())"
      "read_to env L T fsz (base + Suc k * span l) (base + span (Suc l)) (\<lambda>p. ncont L (Suc l) n (p - base)) st1 st2"
    proof -
      have "m = NUMREF - Suc k" "Suc k \<le> NUMREF" using Suc.hyps(2) k by simp_all
      from Suc.hyps(1) [OF this st1] that show ?thesis by blast
    qed
    have "ref_loop env l (span l) fl tr base ro rs [k..<NUMREF] n st = (n, st2, Inr ())"
      using False v rec(1) by (simp add: k n Let_def)
    moreover have "read_to env L T fsz (base + k * span l) (base + span (Suc l))
        (\<lambda>p. ncont L (Suc l) n (p - base)) st st2"
      by (rule read_to_join [OF Suc.prems(2) r1' rec(2)]) (use mono in simp_all)
    ultimately show ?thesis by blast
  qed
qed

lemma ref_traverse_reads:
  assumes tr: "reads env L T fsz ro rs l tr" and fl: "\<not> has_flag fl RB_MODIFY_X" and l: "l \<le> 3"
  shows "reads env L T fsz ro rs (Suc l) (\<lambda>base. ref_traverse env l (span l) fl tr base ro rs)"
  unfolding reads_def
proof (intro allI impI)
  fix base Z n st
  assume wf: "wfn L T Z (Suc l) n" and st: "may_read env L T ro rs (st :: 'a tst)"
  let ?f = "\<lambda>p. ncont L (Suc l) n (p - base)"
  let ?k = "(max ro base - base) div span l"
  show "\<exists>st' d. ref_traverse env l (span l) fl tr base ro rs n st = (n, st', Inr d) \<and>
      read_to env L T fsz base (base + span (Suc l)) ?f st st'"
  proof (cases "ro + rs < base \<or> NUMREF < ?k")
    case True
    have "base + span (Suc l) \<le> ro" if "NUMREF < ?k"
    proof -
      have "NUMREF * span l \<le> ?k * span l" using that by (intro mult_le_mono1) simp
      also have "\<dots> \<le> max ro base - base" by (rule div_times_less_eq_dividend)
      finally have "span (Suc l) \<le> max ro base - base" by simp
      moreover have "0 < span (Suc l)" by (rule span_pos)
      ultimately show ?thesis by linarith
    qed
    then have out: "read_to env L T fsz base (base + span (Suc l)) ?f st st"
      using True st by (intro read_to_outside) auto
    have "ref_traverse env l (span l) fl tr base ro rs n st = (n, st, Inr (bn_isdirty n))"
      using True by (auto simp: ref_traverse_def Let_def)
    with out show ?thesis by blast
  next
    case False
    then have k: "?k \<le> NUMREF" by simp
    obtain st' where lp: "ref_loop env l (span l) fl tr base ro rs [?k..<NUMREF] n st = (n, st', Inr ())"
      "read_to env L T fsz (base + ?k * span l) (base + span (Suc l)) ?f st st'"
      using ref_loop_read [OF tr fl l wf k st] by blast
    have ks: "?k * span l \<le> max ro base - base" by (rule div_times_less_eq_dividend)
    have pre: "read_to env L T fsz base (base + ?k * span l) ?f st st"
    proof -
      have "base + ?k * span l \<le> ro \<or> base + ?k * span l \<le> base" using ks by linarith
      then show ?thesis by (intro read_to_outside [OF st]) blast
    qed
    have "?k * span l \<le> NUMREF * span l" using k by (rule mult_le_mono1)
    then have "read_to env L T fsz base (base + span (Suc l)) ?f st st'"
      by (intro read_to_join [OF st pre lp(2)]) simp_all
    moreover have "ref_traverse env l (span l) fl tr base ro rs n st = (n, st', Inr (bn_isdirty n))"
      using False lp(1) by (simp add: ref_traverse_def Let_def)
    ultimately show ?thesis by blast
  qed
qed

text \<open>The three classes are instances of the loop.\<close>

lemma traverse_eqs:
  "ind_traverse env fl fsz ro rs = (\<lambda>base. ref_traverse env 0 (span 0) fl
     (\<lambda>off. data_visit True fl off fsz) base ro rs)"
  "dbl_traverse env fl fsz ro rs = (\<lambda>base. ref_traverse env 1 (span 1) fl
     (ind_traverse env fl fsz ro rs) base ro rs)"
  "tri_traverse env fl fsz ro rs = (\<lambda>base. ref_traverse env 2 (span 2) fl
     (dbl_traverse env fl fsz ro rs) base ro rs)"
  by (intro ext; simp add: ind_traverse_def dbl_traverse_def tri_traverse_def numeral_2_eq_2 mult.assoc)+

lemma traverse_reads:
  assumes "\<not> has_flag fl RB_MODIFY_X"
  shows "reads env L T fsz ro rs 1 (ind_traverse env fl fsz ro rs)"
    "reads env L T fsz ro rs 2 (dbl_traverse env fl fsz ro rs)"
    "reads env L T fsz ro rs 3 (tri_traverse env fl fsz ro rs)"
proof -
  show 1: "reads env L T fsz ro rs 1 (ind_traverse env fl fsz ro rs)"
    unfolding traverse_eqs(1) using ref_traverse_reads [OF data_visit_reads assms, of env L T fsz ro rs True fl] by simp
  show 2: "reads env L T fsz ro rs 2 (dbl_traverse env fl fsz ro rs)"
    unfolding traverse_eqs(2) using ref_traverse_reads [OF 1 assms] by (simp add: numeral_2_eq_2)
  show "reads env L T fsz ro rs 3 (tri_traverse env fl fsz ro rs)"
    unfolding traverse_eqs(3) using ref_traverse_reads [OF 2 assms] by (simp add: numeral_3_eq_3)
qed

subsection \<open>Writing\<close>

lemma wr_cont_adv [simp]: "wr_cont (btf_adv b lo hi f fsz) g p = wr_cont b g p"
  by (cases b) (simp_all add: Let_def)

lemma wr_cont_outside: "p < bt_off b \<or> btf_end b \<le> p \<Longrightarrow> wr_cont b f p = f p"
  by (cases b) auto

lemma wr_cont_cong: "f p = g p \<Longrightarrow> wr_cont b f p = wr_cont b g p"
  by (cases b) auto

lemma btf_adv_write: "\<not> is_read b \<Longrightarrow> btf_adv b lo hi f fsz = btf_adv b lo hi g fsz'"
  by (cases b) (simp_all add: is_read_def)

definition may_write :: "'bs env \<Rightarrow> loader \<Rightarrow> (blkref \<Rightarrow> nat) \<Rightarrow> nat \<Rightarrow> nat \<Rightarrow> 'bs tst \<Rightarrow> bool" where
  "may_write env L T ro rs st \<longleftrightarrow>
     ctxt_ok env L T (t_ctxt st) \<and> \<not> is_read (t_btf st) \<and> btf_ok (t_btf st) \<and>
     bt_off (t_btf st) = ro \<and> bt_size (t_btf st) = rs \<and> 0 < rs"

definition wrote_to :: "'bs env \<Rightarrow> loader \<Rightarrow> (blkref \<Rightarrow> nat) \<Rightarrow> nat \<Rightarrow> nat \<Rightarrow> 'bs tst \<Rightarrow> 'bs tst \<Rightarrow> bool" where
  "wrote_to env L T lo hi st st' \<longleftrightarrow>
     ctxt_ok env L T (t_ctxt st') \<and> same_base (t_ctxt st) (t_ctxt st') \<and>
     t_btf st' = btf_adv (t_btf st) lo hi (\<lambda>_. 0) 0"

text \<open>The node that a write leaves, from the offset \<open>lo\<close> of the node on.\<close>

definition written :: "loader \<Rightarrow> (blkref \<Rightarrow> nat) \<Rightarrow> nat \<Rightarrow> btf \<Rightarrow> nat \<Rightarrow> nat \<Rightarrow> bnode \<Rightarrow> bnode \<Rightarrow> bool" where
  "written L T l b base lo n n' \<longleftrightarrow>
     wfn L T False l n' \<and> bn_blkref n' = bn_blkref n \<and>
     (\<forall>p < span l. ncont L l n' p =
        (if lo \<le> p then wr_cont b (\<lambda>q. ncont L l n (q - base)) (base + p) else ncont L l n p))"

definition writes :: "'bs env \<Rightarrow> loader \<Rightarrow> (blkref \<Rightarrow> nat) \<Rightarrow> nat \<Rightarrow> nat \<Rightarrow> nat \<Rightarrow>
    (nat \<Rightarrow> 'bs trav) \<Rightarrow> bool" where
  "writes env L T ro rs l tr \<longleftrightarrow>
     (\<forall>base n st. wfn L T False l n \<longrightarrow> may_write env L T ro rs st \<longrightarrow>
        ro < base + span l \<longrightarrow> base < ro + rs \<longrightarrow>
        (\<exists>n' st'. tr base n st = (n', st', Inr True) \<and> wrote_to env L T base (base + span l) st st' \<and>
           bn_isdirty n' \<and> written L T l (t_btf st) base 0 n n'))"

lemma may_write_after:
  "may_write env L T ro rs st \<Longrightarrow> wrote_to env L T lo hi st st' \<Longrightarrow> may_write env L T ro rs st'"
  by (simp add: may_write_def wrote_to_def)

lemma wrote_to_outside:
  "may_write env L T ro rs st \<Longrightarrow> hi \<le> ro \<or> ro + rs \<le> lo \<or> hi \<le> lo \<Longrightarrow> wrote_to env L T lo hi st st"
  by (auto simp: may_write_def wrote_to_def btf_adv_outside)

lemma wrote_to_join:
  assumes "may_write env L T ro rs st" "wrote_to env L T lo mid st st1"
    "wrote_to env L T mid hi st1 st2" "lo \<le> mid" "mid \<le> hi"
  shows "wrote_to env L T lo hi st st2"
  using assms by (auto simp: may_write_def wrote_to_def btf_adv_join intro: same_base_trans)

lemma data_visit_writes:
  assumes fl: "has_flag fl RB_MODIFY_X"
  shows "writes env L T ro rs 0 (\<lambda>off. data_visit strict fl off fsz)"
  unfolding writes_def
proof (intro allI impI)
  fix base n st
  assume "wfn L T False 0 n" and st: "may_write env L T ro rs (st :: 'a tst)"
    and ov: "ro < base + span 0" "base < ro + rs"
  then obtain r d dat where n: "n = DataNode r d False dat" "length dat = BLKSZ" by auto
  let ?b = "t_btf st"
  have "dat \<noteq> []" using n(2) by (metis BLKSZ_pos length_greater_0_conv)
  then have b: "\<not> is_read ?b" "btf_ok ?b" "bt_off ?b < base + length dat" "base < btf_end ?b" "dat \<noteq> []"
    "0 < bt_size ?b"
    using st ov n by (auto simp: may_write_def)
  obtain dat' where v: "bt_visit ?b dat base fsz = (btf_adv ?b base (base + length dat) (\<lambda>_. 0) fsz, dat', True)"
    "length dat' = length dat" "\<forall>i < length dat. dat' ! i = wr_cont ?b (\<lambda>p. dat ! (p - base)) (base + i)"
    by (rule bt_visit_write [OF b, of fsz "\<lambda>_. 0"])
  have adv: "btf_adv ?b base (base + BLKSZ) (\<lambda>_. 0) fsz = btf_adv ?b base (base + BLKSZ) (\<lambda>_. 0) 0"
    by (rule btf_adv_write [OF b(1)])
  have "data_visit strict fl base fsz n st = (DataNode r True False dat',
      st\<lparr>t_btf := btf_adv ?b base (base + BLKSZ) (\<lambda>_. 0) 0\<rparr>, Inr True)"
    using n v(1) fl by (simp add: data_visit_def Let_def adv)
  moreover have "written L T 0 ?b base 0 n (DataNode r True False dat')"
    using v n by (auto simp: written_def)
  ultimately show "\<exists>n' st'. data_visit strict fl base fsz n st = (n', st', Inr True) \<and>
      wrote_to env L T base (base + span 0) st st' \<and> bn_isdirty n' \<and> written L T 0 ?b base 0 n n'"
    using st by (auto simp: wrote_to_def may_write_def)
qed

lemma wfn_new: "wfn L T False l (new_node l)"
proof (cases l)
  case 0
  then show ?thesis by (auto simp: new_node_def DataBlockNode_new_def)
next
  case (Suc m)
  have "slot_wf L T m P BlockRef_nil None" for P by (simp add: slot_wf_def)
  then show ?thesis by (auto simp: Suc new_node_def IndirectBlockNode_new_def)
qed

lemma ncont_new: "p < span l \<Longrightarrow> ncont L l (new_node l) p = 0"
proof (cases l)
  case 0
  assume "p < span l"
  with 0 show ?thesis by (simp add: new_node_def DataBlockNode_new_def)
next
  case (Suc m)
  assume "p < span l"
  then have "p div span m < NUMREF" by (simp add: Suc less_mult_imp_div_less)
  then show ?thesis by (simp add: Suc new_node_def IndirectBlockNode_new_def slot_cont_def)
qed

definition found_for_write :: "'bs env \<Rightarrow> loader \<Rightarrow> (blkref \<Rightarrow> nat) \<Rightarrow> nat \<Rightarrow> blkref \<Rightarrow> bnode option \<Rightarrow>
    'bs tst \<Rightarrow> bnode option \<Rightarrow> 'bs tst \<Rightarrow> origin \<Rightarrow> bnode \<Rightarrow> bool" where
  "found_for_write env L T l ref obj st obj1 st1 org nh \<longleftrightarrow>
     wfn L T False l nh \<and> ctxt_ok env L T (t_ctxt st1) \<and> same_base (t_ctxt st) (t_ctxt st1) \<and>
     t_btf st1 = t_btf st \<and> (\<forall>p < span l. ncont L l nh p = cont L l ref obj p) \<and>
     (\<forall>c n'. ctxt_ok env L T c \<longrightarrow> bn_blkref n' = bn_blkref nh \<longrightarrow>
        ctxt_ok env L T (cache_remove (bn_blkref n') (snd (put_back org n' obj1 c))) \<and>
        same_base c (snd (put_back org n' obj1 c)))"

lemma put_back_cached_write:
  assumes "ctxt_ok env L T c" "bn_blkref n' = r"
  shows "ctxt_ok env L T (cache_remove r (snd (put_back (OCache r) n' obj c)))"
    "same_base c (snd (put_back (OCache r) n' obj c))"
proof -
  show "same_base c (snd (put_back (OCache r) n' obj c))" by simp
  have "cache_remove r (snd (put_back (OCache r) n' obj c)) = cache_remove r c"
    by (simp add: cache_remove_def)
  then show "ctxt_ok env L T (cache_remove r (snd (put_back (OCache r) n' obj c)))"
    using assms(1) by (simp add: ctxt_ok_remove)
qed

lemma find_block_write:
  assumes ok: "ctxt_ok env L T (t_ctxt st)" and wf: "wfs L T False l ref obj"
    and fl: "has_flag fl RB_MODIFY_X"
  obtains org nh obj1 st1 where "find_block env l fl ref obj st = (obj1, st1, Inr (org, nh))"
    "found_for_write env L T l ref obj st obj1 st1 org nh"
proof (cases obj)
  case (Some nh)
  have "find_block env l fl ref obj st = (obj, st, Inr (OSlot, nh))"
    by (simp add: find_block_def Some)
  moreover have "found_for_write env L T l ref obj st obj st OSlot nh"
    using ok wf Some by (auto simp: found_for_write_def cont_def slot_cont_def ctxt_ok_remove)
  ultimately show ?thesis by (rule that)
next
  case None
  note [simp] = None
  show ?thesis
  proof (cases "ref_set ref")
    case False
    have "find_block env l fl ref obj st =
        (Some (new_node l), st\<lparr>t_blocks := t_blocks st + 1\<rparr>, Inr (OSlot, new_node l))"
      using False fl by (simp add: find_block_def Let_def)
    moreover have "found_for_write env L T l ref obj st (Some (new_node l))
        (st\<lparr>t_blocks := t_blocks st + 1\<rparr>) OSlot (new_node l)"
      using ok False
      by (auto simp: found_for_write_def cont_def slot_cont_def ctxt_ok_remove wfn_new ncont_new)
    ultimately show ?thesis by (rule that)
  next
    case True
    with wf obtain k where T: "T ref = l" and k: "L l ref = Inr k" "wfn L T False l k"
      by (auto simp: slot_wf_def)
    have cont: "\<forall>p < span l. ncont L l k p = cont L l ref obj p"
      using True k by (simp add: cont_def slot_cont_def)
    have ref: "bn_blkref k = ref" by (rule ctxt_ok_loaded [OF ok k(1)])
    show ?thesis
    proof (cases "m_bncache (t_ctxt st) ref")
      case (Some bnh)
      have bnh: "bnh = k" using ok Some k T by (auto simp: ctxt_ok_def coh_def)
      have "find_block env l fl ref obj st = (obj, st, Inr (OCache ref, k))"
        using True Some bnh wfn_blevel [OF k(2)] by (simp add: find_block_def)
      moreover have "found_for_write env L T l ref obj st obj st (OCache ref) k"
        using ok k cont ref put_back_cached_write unfolding found_for_write_def
        by (metis same_base_refl)
      ultimately show ?thesis by (rule that)
    next
      case miss: None
      obtain c1 x where ld: "load_node env l ref (t_ctxt st) = (c1, x)" by fastforce
      note c1 = ctxt_ok_load [OF ok ld]
      show ?thesis
      proof (cases "has_flag fl RB_NOCACHE")
        case nocache: True
        have "find_block env l fl ref obj st = (obj, st\<lparr>t_ctxt := c1\<rparr>, Inr (OLoose, k))"
          using True miss ld c1(3) k(1) nocache by (simp add: find_block_def)
        moreover have "found_for_write env L T l ref obj st obj (st\<lparr>t_ctxt := c1\<rparr>) OLoose k"
          using c1 k cont by (auto simp: found_for_write_def ctxt_ok_remove)
        ultimately show ?thesis by (rule that)
      next
        case False
        let ?st = "st\<lparr>t_ctxt := cache_insert k c1\<rparr>"
        have "find_block env l fl ref obj st = (obj, ?st, Inr (OCache ref, k))"
          using True miss ld c1(3) k(1) False by (simp add: find_block_def)
        moreover have "ctxt_ok env L T (cache_insert k c1)"
          using c1(1) k(1) T by (intro ctxt_ok_insert [of env L T c1 ref]) simp_all
        then have "found_for_write env L T l ref obj st obj ?st (OCache ref) k"
          using c1 k cont ref put_back_cached_write same_base_trans [OF c1(2) same_base_simps(4)]
          by (auto simp: found_for_write_def simp del: put_back.simps)
        ultimately show ?thesis by (rule that)
      qed
    qed
  qed
qed

lemma visit_child_write:
  assumes tr: "writes env L T ro rs l tr" and st: "may_write env L T ro rs st"
    and wf: "wfs L T False l ref obj" and fl: "has_flag fl RB_MODIFY_X"
    and ov: "ro < base + span l" "base < ro + rs"
  obtains n' st' where "visit_child env l fl (tr base) ref obj st = (Some n', st', Inr True)"
    "wrote_to env L T base (base + span l) st st'" "wfn L T False l n'" "bn_isdirty n'"
    "\<forall>p < span l. ncont L l n' p = wr_cont (t_btf st) (\<lambda>q. cont L l ref obj (q - base)) (base + p)"
proof -
  from st have ok: "ctxt_ok env L T (t_ctxt st)" by (simp add: may_write_def)
  obtain org nh obj1 st1 where f: "find_block env l fl ref obj st = (obj1, st1, Inr (org, nh))"
    and fw: "found_for_write env L T l ref obj st obj1 st1 org nh"
    by (rule find_block_write [OF ok wf fl])
  have st1: "may_write env L T ro rs st1" and wfn: "wfn L T False l nh"
    using st fw by (simp_all add: may_write_def found_for_write_def)
  obtain n' st2 where t: "tr base nh st1 = (n', st2, Inr True)"
    "wrote_to env L T base (base + span l) st1 st2" "written L T l (t_btf st1) base 0 nh n'" "bn_isdirty n'"
    using tr wfn st1 ov unfolding writes_def by blast
  obtain obj2 c2 where pb: "put_back org n' obj1 (t_ctxt st2) = (obj2, c2)" by fastforce
  have c2: "ctxt_ok env L T (cache_remove (bn_blkref n') c2)" "same_base (t_ctxt st2) c2"
    using fw t(2,3) pb unfolding found_for_write_def wrote_to_def written_def
    by (metis snd_conv)+
  let ?st3 = "st2\<lparr>t_ctxt := cache_remove (bn_blkref n') c2\<rparr>"
  show ?thesis
  proof
    show "visit_child env l fl (tr base) ref obj st = (Some n', ?st3, Inr True)"
      using f t(1) pb fl by (simp add: visit_child_def)
    have "same_base (t_ctxt st) (cache_remove (bn_blkref n') c2)"
      using fw t(2) c2(2) unfolding found_for_write_def wrote_to_def
      by (meson same_base_simps(3) same_base_trans)
    then show "wrote_to env L T base (base + span l) st ?st3"
      using fw t(2) c2(1) by (simp add: wrote_to_def found_for_write_def)
    show "wfn L T False l n'" "bn_isdirty n'" using t(3,4) by (simp_all add: written_def)
    have "ncont L l n' p = wr_cont (t_btf st) (\<lambda>q. cont L l ref obj (q - base)) (base + p)"
      if "p < span l" for p
    proof -
      have "ncont L l n' p = wr_cont (t_btf st) (\<lambda>q. ncont L l nh (q - base)) (base + p)"
        using t(3) fw that by (simp add: written_def found_for_write_def)
      also have "\<dots> = wr_cont (t_btf st) (\<lambda>q. cont L l ref obj (q - base)) (base + p)"
        by (rule wr_cont_cong) (use fw that in \<open>simp add: found_for_write_def\<close>)
      finally show ?thesis .
    qed
    then show "\<forall>p < span l. ncont L l n' p = wr_cont (t_btf st) (\<lambda>q. cont L l ref obj (q - base)) (base + p)"
      by blast
  qed
qed

text \<open>Replacing the child at the slot \<open>k\<close> by one that was written.\<close>

lemma written_slot:
  assumes n: "wfn L T False (Suc l) (IndNode (Suc l) r d False refs objs)" and k: "k < NUMREF"
    and c: "wfn L T False l c'"
      "\<forall>p < span l. ncont L l c' p =
        wr_cont b (\<lambda>q. cont L l (refs ! k) (objs ! k) (q - (base + k * span l))) (base + k * span l + p)"
    and rest: "written L T (Suc l) b base (Suc k * span l) (IndNode (Suc l) r True False refs (objs[k := Some c'])) n'"
  shows "written L T (Suc l) b base (k * span l) (IndNode (Suc l) r d False refs objs) n'"
proof -
  let ?n = "IndNode (Suc l) r d False refs objs" and ?n1 = "IndNode (Suc l) r True False refs (objs[k := Some c'])"
  have len: "length objs = NUMREF" using n by simp
  have same: "ncont L (Suc l) ?n1 p = ncont L (Suc l) ?n p" if "p < k * span l \<or> Suc k * span l \<le> p" for p
  proof -
    have "p div span l \<noteq> k"
    proof
      assume "p div span l = k"
      then have "k * span l \<le> p" "p < Suc k * span l"
        by (metis div_times_less_eq_dividend, metis dividend_less_div_times span_pos add.commute mult_Suc)
      with that show False by simp
    qed
    then show ?thesis by (simp add: ncont_Suc del: ncont.simps)
  qed
  have here: "ncont L (Suc l) ?n1 p = wr_cont b (\<lambda>q. ncont L (Suc l) ?n (q - base)) (base + p)"
    if "k * span l \<le> p" "p < Suc k * span l" for p
  proof -
    have p: "p div span l = k" "p mod span l = p - k * span l"
      using slot_of_offset [of k "span l" p] that by simp_all
    have lt: "p - k * span l < span l" using that by simp
    have "ncont L (Suc l) ?n1 p = ncont L l c' (p - k * span l)"
      using k len p by (simp add: slot_cont_def)
    also have "\<dots> = wr_cont b (\<lambda>q. cont L l (refs ! k) (objs ! k) (q - (base + k * span l))) (base + p)"
      using c(2) lt that by simp
    also have "\<dots> = wr_cont b (\<lambda>q. ncont L (Suc l) ?n (q - base)) (base + p)"
      by (rule wr_cont_cong) (simp add: ncont_Suc p del: ncont.simps)
    finally show ?thesis .
  qed
  show ?thesis
    unfolding written_def
  proof (intro conjI allI impI)
    show "wfn L T False (Suc l) n'" "bn_blkref n' = bn_blkref ?n" using rest by (simp_all add: written_def)
    fix p assume p: "p < span (Suc l)"
    show "ncont L (Suc l) n' p = (if k * span l \<le> p then wr_cont b (\<lambda>q. ncont L (Suc l) ?n (q - base)) (base + p)
        else ncont L (Suc l) ?n p)"
    proof (cases "Suc k * span l \<le> p")
      case True
      then have "ncont L (Suc l) n' p = wr_cont b (\<lambda>q. ncont L (Suc l) ?n1 (q - base)) (base + p)"
        using rest p by (simp add: written_def del: ncont.simps)
      also have "\<dots> = wr_cont b (\<lambda>q. ncont L (Suc l) ?n (q - base)) (base + p)"
        by (rule wr_cont_cong) (use same True in \<open>simp del: ncont.simps\<close>)
      finally show ?thesis using True by simp
    next
      case False
      then have "ncont L (Suc l) n' p = ncont L (Suc l) ?n1 p"
        using rest p by (simp add: written_def del: ncont.simps)
      then show ?thesis using here [of p] same [of p] False by (auto simp del: ncont.simps)
    qed
  qed
qed

lemma written_refl:
  assumes "wfn L T False l n" "\<And>p. p < span l \<Longrightarrow> lo \<le> p \<Longrightarrow> base + p < bt_off b \<or> btf_end b \<le> base + p"
  shows "written L T l b base lo n n"
  using assms by (auto simp: written_def wr_cont_outside)

lemma written_adv [simp]: "written L T l (btf_adv b lo hi f fsz) base p n n' = written L T l b base p n n'"
  by (simp add: written_def)

lemma ref_loop_write:
  assumes tr: "writes env L T ro rs l tr" and fl: "has_flag fl RB_MODIFY_X"
  shows "k \<le> NUMREF \<Longrightarrow> may_write env L T ro rs st \<Longrightarrow> wfn L T False (Suc l) n \<Longrightarrow>
    ro < base + Suc k * span l \<Longrightarrow>
    \<exists>n' st'. ref_loop env l (span l) fl tr base ro rs [k..<NUMREF] n st = (n', st', Inr ()) \<and>
      wrote_to env L T (base + k * span l) (base + span (Suc l)) st st' \<and>
      written L T (Suc l) (t_btf st) base (k * span l) n n' \<and>
      (bn_isdirty n \<or> (k < NUMREF \<and> base + k * span l < ro + rs) \<longrightarrow> bn_isdirty n')"
proof (induction "NUMREF - k" arbitrary: k st n)
  case 0
  then have k: "k = NUMREF" by simp
  have "written L T (Suc l) (t_btf st) base (k * span l) n n"
    by (rule written_refl [OF 0(4)]) (simp add: k)
  with 0 k show ?case by (auto intro!: wrote_to_outside)
next
  case (Suc m)
  from Suc.prems(3) obtain r d refs objs where n: "n = IndNode (Suc l) r d False refs objs" by auto
  from Suc have k: "k < NUMREF" "[k..<NUMREF] = k # [Suc k..<NUMREF]" by (simp_all add: upt_conv_Cons)
  have len: "length objs = NUMREF" and wfk: "wfs L T False l (refs ! k) (objs ! k)"
    using Suc.prems(3) n k by auto
  show ?case
  proof (cases "ro + rs \<le> base + k * span l")
    case True
    have "written L T (Suc l) (t_btf st) base (k * span l) n n"
      by (rule written_refl [OF Suc.prems(3)]) (use True Suc.prems(2) in \<open>auto simp: may_write_def\<close>)
    then show ?thesis using Suc.prems k True by (auto intro!: wrote_to_outside)
  next
    case False
    have ov: "ro < base + k * span l + span l" "base + k * span l < ro + rs"
      using Suc.prems(4) False by (simp_all add: add.assoc add.commute)
    obtain c' st1 where v: "visit_child env l fl (tr (base + k * span l)) (refs ! k) (objs ! k) st =
        (Some c', st1, Inr True)"
      and w1: "wrote_to env L T (base + k * span l) (base + k * span l + span l) st st1"
      and c': "wfn L T False l c'" and dc: "bn_isdirty c'" and cc: "\<forall>p < span l. ncont L l c' p = wr_cont (t_btf st)
        (\<lambda>q. cont L l (refs ! k) (objs ! k) (q - (base + k * span l))) (base + k * span l + p)"
      by (rule visit_child_write [OF tr Suc.prems(2) wfk fl ov])
    let ?n1 = "IndNode (Suc l) r True False refs (objs[k := Some c'])"
    have st1: "may_write env L T ro rs st1" by (rule may_write_after [OF Suc.prems(2) w1])
    have wf1: "wfn L T False (Suc l) ?n1"
    proof -
      have "wfs L T False l (refs ! i) (objs[k := Some c'] ! i)" if "i < NUMREF" for i
        using Suc.prems(3) c' len that by (cases "i = k") (auto simp: n)
      moreover have "slots_dirty True (objs[k := Some c'])"
        using Suc.prems(3) dc by (auto simp: n intro: slots_dirty_upd)
      ultimately show ?thesis using Suc.prems(3) by (auto simp: n)
    qed
    have "m = NUMREF - Suc k" "Suc k \<le> NUMREF" "ro < base + Suc (Suc k) * span l"
      using Suc.hyps(2) k Suc.prems(4) by simp_all
    from Suc.hyps(1) [OF this(1,2) st1 wf1 this(3)] obtain n' st2 where
      rec: "ref_loop env l (span l) fl tr base ro rs [Suc k..<NUMREF] ?n1 st1 = (n', st2, Inr ())"
      and w2: "wrote_to env L T (base + Suc k * span l) (base + span (Suc l)) st1 st2"
      and wr: "written L T (Suc l) (t_btf st1) base (Suc k * span l) ?n1 n'" and dirty: "bn_isdirty n'"
      by auto
    have "ref_loop env l (span l) fl tr base ro rs [k..<NUMREF] n st = (n', st2, Inr ())"
      using False v rec by (simp add: k n Let_def)
    moreover have "written L T (Suc l) (t_btf st) base (k * span l) n n'"
      unfolding n
      by (rule written_slot [OF _ k(1) c' cc]) (use Suc.prems(3) n wr w1 in \<open>simp_all add: wrote_to_def\<close>)
    moreover have "wrote_to env L T (base + k * span l) (base + span (Suc l)) st st2"
    proof -
      have e: "base + k * span l + span l = base + Suc k * span l" by simp
      have "Suc k * span l \<le> span (Suc l)" using k unfolding span.simps by (intro mult_le_mono1) simp
      then show ?thesis by (intro wrote_to_join [OF Suc.prems(2) w1 [unfolded e] w2]) simp_all
    qed
    ultimately show ?thesis using dirty by blast
  qed
qed

lemma ref_traverse_writes:
  assumes tr: "writes env L T ro rs l tr" and fl: "has_flag fl RB_MODIFY_X"
  shows "writes env L T ro rs (Suc l) (\<lambda>base. ref_traverse env l (span l) fl tr base ro rs)"
  unfolding writes_def
proof (intro allI impI)
  fix base n st
  assume wf: "wfn L T False (Suc l) n" and st: "may_write env L T ro rs (st :: 'a tst)"
    and ov: "ro < base + span (Suc l)" "base < ro + rs"
  let ?k = "(max ro base - base) div span l"
  have rs: "0 < rs" using st by (simp add: may_write_def)
  have "max ro base - base < NUMREF * span l" using ov(1) span_pos [of "Suc l"] unfolding span.simps by linarith
  then have k: "?k < NUMREF" by (simp add: less_mult_imp_div_less)
  have ks: "?k * span l \<le> max ro base - base" by (rule div_times_less_eq_dividend)
  have "max ro base - base < Suc ?k * span l"
    by (metis dividend_less_div_times span_pos add.commute mult_Suc)
  then have start: "ro < base + Suc ?k * span l" by linarith
  have hit: "base + ?k * span l < ro + rs" using ks ov(2) rs by linarith
  obtain n' st' where lp: "ref_loop env l (span l) fl tr base ro rs [?k..<NUMREF] n st = (n', st', Inr ())"
    and w: "wrote_to env L T (base + ?k * span l) (base + span (Suc l)) st st'"
    and wr: "written L T (Suc l) (t_btf st) base (?k * span l) n n'" and d: "bn_isdirty n'"
    using ref_loop_write [OF tr fl less_imp_le [OF k] st wf start] k hit by blast
  have "wrote_to env L T base (base + span (Suc l)) st st'"
  proof -
    have "base + ?k * span l \<le> ro \<or> base + ?k * span l \<le> base" using ks by linarith
    then have "wrote_to env L T base (base + ?k * span l) st st" by (intro wrote_to_outside [OF st]) blast
    moreover have "?k * span l \<le> span (Suc l)" using k unfolding span.simps by (intro mult_le_mono1) simp
    ultimately show ?thesis by (intro wrote_to_join [OF st _ w]) simp_all
  qed
  moreover have "written L T (Suc l) (t_btf st) base 0 n n'"
  proof -
    have "wr_cont (t_btf st) f (base + p) = f (base + p)" if "p < ?k * span l" for p f
    proof -
      have "base + p < ro" using that ks by linarith
      then show ?thesis using st by (intro wr_cont_outside) (simp add: may_write_def)
    qed
    then show ?thesis using wr by (auto simp: written_def simp del: ncont.simps)
  qed
  moreover have "ref_traverse env l (span l) fl tr base ro rs n st = (n', st', Inr True)"
    using ov(2) lp d by (simp add: ref_traverse_def Let_def)
  ultimately show "\<exists>n' st'. ref_traverse env l (span l) fl tr base ro rs n st = (n', st', Inr True) \<and>
      wrote_to env L T base (base + span (Suc l)) st st' \<and> bn_isdirty n' \<and>
      written L T (Suc l) (t_btf st) base 0 n n'"
    using d by blast
qed

lemma traverse_writes:
  assumes "has_flag fl RB_MODIFY_X"
  shows "writes env L T ro rs 1 (ind_traverse env fl fsz ro rs)"
    "writes env L T ro rs 2 (dbl_traverse env fl fsz ro rs)"
    "writes env L T ro rs 3 (tri_traverse env fl fsz ro rs)"
proof -
  show 1: "writes env L T ro rs 1 (ind_traverse env fl fsz ro rs)"
    unfolding traverse_eqs(1) using ref_traverse_writes [OF data_visit_writes [OF assms] assms] by simp
  show 2: "writes env L T ro rs 2 (dbl_traverse env fl fsz ro rs)"
    unfolding traverse_eqs(2) using ref_traverse_writes [OF 1 assms] by (simp add: numeral_2_eq_2)
  show "writes env L T ro rs 3 (tri_traverse env fl fsz ro rs)"
    unfolding traverse_eqs(3) using ref_traverse_writes [OF 2 assms] by (simp add: numeral_3_eq_3)
qed

end
