(* ===== verification/File_Content.thy ===== *)
theory File_Content
  imports File_Node Tree_Traverse
begin

text \<open>
  What a file is: a function from offsets to octets. Reading returns these octets and
  changes nothing else than the clean cache and the counters; writing changes exactly the
  octets of the range written; both for files of any mixture of dirty, cached and stored
  blocks, up to the largest offset the inode can address.
\<close>

subsection \<open>Offsets\<close>

lemma off_order:
  "INLSZ \<le> sin_off" "sin_off < din_off" "din_off < tin_off" "tin_off < end_off"
  by (simp_all add: sin_off_def din_off_def tin_off_def end_off_def)

lemma off_spans:
  "din_off = sin_off + span 1" "tin_off = din_off + span 2" "end_off = tin_off + span 3"
  by (simp_all add: din_off_def tin_off_def end_off_def numeral_2_eq_2 numeral_3_eq_3 mult.assoc)

lemma end_off_bound: "end_off < 2 ^ 38"
  by (simp add: end_off_def tin_off_def din_off_def sin_off_def INLSZ_def NDIRECT_def NUMREF_def BLKSZ_def)

subsection \<open>The octets of a file\<close>

definition fcont :: "loader \<Rightarrow> filenode \<Rightarrow> nat \<Rightarrow> byte" where
  "fcont L fn p =
     (if p < INLSZ then m_inl fn ! p
      else if p < sin_off then
        (let q = p - INLSZ; i = q div BLKSZ
         in cont L 0 (m_dirref fn ! i) (m_dirobj fn ! i) (q mod BLKSZ))
      else if p < din_off then cont L 1 (m_sinref fn) (m_sinobj fn) (p - sin_off)
      else if p < tin_off then cont L 2 (m_dinref fn) (m_dinobj fn) (p - din_off)
      else cont L 3 (m_tinref fn) (m_tinobj fn) (p - tin_off))"

definition fn_wf :: "loader \<Rightarrow> (blkref \<Rightarrow> nat) \<Rightarrow> filenode \<Rightarrow> bool" where
  "fn_wf L T fn \<longleftrightarrow>
     length (m_inl fn) = INLSZ \<and> length (m_dirref fn) = NDIRECT \<and> length (m_dirobj fn) = NDIRECT \<and>
     (\<forall>i < NDIRECT. wfs L T False 0 (m_dirref fn ! i) (m_dirobj fn ! i)) \<and>
     wfs L T False 1 (m_sinref fn) (m_sinobj fn) \<and> wfs L T False 2 (m_dinref fn) (m_dinobj fn) \<and>
     wfs L T False 3 (m_tinref fn) (m_tinobj fn) \<and>
     slots_dirty (fn_dirty fn) (m_tinobj fn # m_dinobj fn # m_sinobj fn # m_dirobj fn) \<and>
     (\<forall>ref \<in> set (m_qinref fn # m_tinref fn # m_dinref fn # m_sinref fn # m_dirref fn). length ref = 32)"

lemma fcont_direct:
  assumes "i < NDIRECT" "INLSZ + i * BLKSZ \<le> p" "p < INLSZ + i * BLKSZ + BLKSZ"
  shows "fcont L fn p = cont L 0 (m_dirref fn ! i) (m_dirobj fn ! i) (p - (INLSZ + i * BLKSZ))"
proof -
  have "i * BLKSZ \<le> p - INLSZ" "p - INLSZ < i * BLKSZ + BLKSZ" using assms by simp_all
  from slot_of_offset [OF this BLKSZ_pos]
  have q: "(p - INLSZ) div BLKSZ = i" "(p - INLSZ) mod BLKSZ = p - (INLSZ + i * BLKSZ)" by simp_all
  have "Suc i * BLKSZ \<le> NDIRECT * BLKSZ" using assms(1) by (intro mult_le_mono1) simp
  then have "\<not> p < INLSZ" "p < sin_off" using assms by (simp_all add: sin_off_def)
  then show ?thesis by (simp add: fcont_def Let_def q)
qed

lemma fcont_tree:
  "sin_off \<le> p \<Longrightarrow> p < din_off \<Longrightarrow> fcont L fn p = cont L 1 (m_sinref fn) (m_sinobj fn) (p - sin_off)"
  "din_off \<le> p \<Longrightarrow> p < tin_off \<Longrightarrow> fcont L fn p = cont L 2 (m_dinref fn) (m_dinobj fn) (p - din_off)"
  "tin_off \<le> p \<Longrightarrow> p < end_off \<Longrightarrow> fcont L fn p = cont L 3 (m_tinref fn) (m_tinobj fn) (p - tin_off)"
  using off_order by (simp_all add: fcont_def)

lemma fcont_cong:
  assumes "m_inl fn' = m_inl fn" "m_dirref fn' = m_dirref fn" "m_dirobj fn' = m_dirobj fn"
    "m_sinref fn' = m_sinref fn" "m_sinobj fn' = m_sinobj fn" "m_dinref fn' = m_dinref fn"
    "m_dinobj fn' = m_dinobj fn" "m_tinref fn' = m_tinref fn" "m_tinobj fn' = m_tinobj fn"
  shows "fcont L fn' = fcont L fn"
    and "m_qinref fn' = m_qinref fn \<Longrightarrow> fn_dirty fn' \<or> fn_dirty fn' = fn_dirty fn \<Longrightarrow> fn_wf L T fn \<Longrightarrow> fn_wf L T fn'"
  using assms by (auto simp: fcont_def fn_wf_def fun_eq_iff slots_dirty_def)

subsection \<open>Reading\<close>

text \<open>A section reads its part of the file and jumps to the end when the range is done.\<close>

definition sect_reads :: "'bs env \<Rightarrow> loader \<Rightarrow> (blkref \<Rightarrow> nat) \<Rightarrow> nat \<Rightarrow> nat \<Rightarrow> filenode \<Rightarrow> nat \<Rightarrow> nat \<Rightarrow>
    'bs sect \<Rightarrow> bool" where
  "sect_reads env L T ro rs fn lo hi s \<longleftrightarrow>
     (\<forall>st. may_read env L T ro rs st \<longrightarrow>
        (\<exists>st'. s fn st = (fn, st', Inr (ro + rs \<le> hi)) \<and>
           read_to env L T (fn_size fn) lo hi (fcont L fn) st st'))"

lemma sect_readsE:
  assumes "sect_reads env L T ro rs fn lo hi s" "may_read env L T ro rs st"
  obtains st' where "s fn st = (fn, st', Inr (ro + rs \<le> hi))"
    "read_to env L T (fn_size fn) lo hi (fcont L fn) st st'"
  using assms unfolding sect_reads_def by blast

lemma sect_then_reads:
  assumes a: "sect_reads env L T ro rs fn lo mid a" and b: "sect_reads env L T ro rs fn mid hi b"
    and ord: "lo \<le> mid" "mid \<le> hi"
  shows "sect_reads env L T ro rs fn lo hi (sect_then a b)"
  unfolding sect_reads_def
proof (intro allI impI)
  fix st assume st: "may_read env L T ro rs (st :: 'a tst)"
  obtain st1 where a1: "a fn st = (fn, st1, Inr (ro + rs \<le> mid))"
    "read_to env L T (fn_size fn) lo mid (fcont L fn) st st1"
    by (rule sect_readsE [OF a st])
  have st1: "may_read env L T ro rs st1" by (rule may_read_after [OF st a1(2)])
  show "\<exists>st'. sect_then a b fn st = (fn, st', Inr (ro + rs \<le> hi)) \<and>
      read_to env L T (fn_size fn) lo hi (fcont L fn) st st'"
  proof (cases "ro + rs \<le> mid")
    case True
    have "read_to env L T (fn_size fn) mid hi (fcont L fn) st1 st1"
      using True by (intro read_to_outside [OF st1]) simp
    from read_to_join [OF st a1(2) this ord] show ?thesis
      using a1(1) True ord by (simp add: sect_then_def)
  next
    case False
    obtain st2 where b2: "b fn st1 = (fn, st2, Inr (ro + rs \<le> hi))"
      "read_to env L T (fn_size fn) mid hi (fcont L fn) st1 st2"
      by (rule sect_readsE [OF b st1])
    from read_to_join [OF st a1(2) b2(2) ord] show ?thesis
      using a1(1) b2(1) False by (simp add: sect_then_def)
  qed
qed

lemma fn_inline_reads:
  assumes "fn_wf L T fn"
  shows "sect_reads env L T ro rs fn 0 INLSZ (fn_inline ro rs)"
  unfolding sect_reads_def
proof (intro allI impI)
  fix st assume st: "may_read env L T ro rs (st :: 'a tst)"
  show "\<exists>st'. fn_inline ro rs fn st = (fn, st', Inr (ro + rs \<le> INLSZ)) \<and>
      read_to env L T (fn_size fn) 0 INLSZ (fcont L fn) st st'"
  proof (cases "ro < INLSZ")
    case False
    then have "read_to env L T (fn_size fn) 0 INLSZ (fcont L fn) st st"
      by (intro read_to_outside [OF st]) simp
    with False show ?thesis by (simp add: fn_inline_def)
  next
    case True
    let ?b = "btf_adv (t_btf st) 0 INLSZ (\<lambda>p. m_inl fn ! p) (fn_size fn)"
    have "bt_visit (t_btf st) (m_inl fn) 0 (fn_size fn) = (?b, m_inl fn, False)"
      using bt_visit_read [of "t_btf st" "m_inl fn" 0] st assms by (simp add: may_read_def fn_wf_def)
    then have "fn_inline ro rs fn st = (fn, st\<lparr>t_btf := ?b\<rparr>, Inr (ro + rs \<le> INLSZ))"
      using True by (simp add: fn_inline_def)
    moreover have "?b = btf_adv (t_btf st) 0 INLSZ (fcont L fn) (fn_size fn)"
      by (rule btf_adv_cong) (simp add: fcont_def)
    ultimately show ?thesis using st by (auto simp: read_to_def may_read_def)
  qed
qed

lemma fn_direct_loop_reads:
  assumes fl: "\<not> has_flag fl RB_MODIFY_X" and wf: "fn_wf L T fn"
  shows "k \<le> NDIRECT \<Longrightarrow> may_read env L T ro rs st \<Longrightarrow>
    \<exists>st' d. fn_direct_loop env fl ro rs [k..<NDIRECT] fn st = (fn, st', Inr d) \<and>
      (d \<longrightarrow> ro + rs \<le> sin_off) \<and>
      read_to env L T (fn_size fn) (INLSZ + k * BLKSZ) sin_off (fcont L fn) st st'"
proof (induction "NDIRECT - k" arbitrary: k st)
  case 0
  then have "k = NDIRECT" by simp
  with 0 show ?case by (auto simp: sin_off_def intro!: read_to_outside)
next
  case (Suc m)
  from Suc have k: "k < NDIRECT" "[k..<NDIRECT] = k # [Suc k..<NDIRECT]" by (simp_all add: upt_conv_Cons)
  let ?off = "INLSZ + k * BLKSZ"
  have "Suc k * BLKSZ \<le> NDIRECT * BLKSZ" using k by (intro mult_le_mono1) simp
  then have fit: "?off + BLKSZ \<le> sin_off" by (simp add: sin_off_def)
  show ?case
  proof (cases "ro + rs \<le> ?off")
    case True
    then have "read_to env L T (fn_size fn) ?off sin_off (fcont L fn) st st"
      by (intro read_to_outside [OF Suc.prems(2)]) simp
    with True fit show ?thesis by (auto simp: k)
  next
    case False
    obtain st1 where step: "read_to env L T (fn_size fn) ?off (?off + BLKSZ) (fcont L fn) st st1"
      and eq: "fn_direct_loop env fl ro rs [k..<NDIRECT] fn st = fn_direct_loop env fl ro rs [Suc k..<NDIRECT] fn st1"
    proof (cases "ro < ?off + BLKSZ")
      case skip: False
      have "read_to env L T (fn_size fn) ?off (?off + BLKSZ) (fcont L fn) st st"
        using skip by (intro read_to_outside [OF Suc.prems(2)]) simp
      then show ?thesis using that skip False by (simp add: k Let_def)
    next
      case True
      have wfk: "wfs L T False 0 (m_dirref fn ! k) (m_dirobj fn ! k)" and len: "length (m_dirobj fn) = NDIRECT"
        using wf k by (auto simp: fn_wf_def)
      obtain st1 where v: "visit_child env 0 fl (data_visit False fl ?off (fn_size fn)) (m_dirref fn ! k)
          (m_dirobj fn ! k) st = (m_dirobj fn ! k, st1, Inr False)"
        "read_to env L T (fn_size fn) ?off (?off + span 0)
          (\<lambda>p. cont L 0 (m_dirref fn ! k) (m_dirobj fn ! k) (p - ?off)) st st1"
        by (rule visit_child_read [OF data_visit_reads Suc.prems(2) wfk fl]) simp_all
      have "read_to env L T (fn_size fn) ?off (?off + BLKSZ) (fcont L fn) st st1"
        by (rule read_to_cong [OF v(2) [unfolded span.simps]]) (simp add: fcont_direct [OF k(1)])
      then show ?thesis using that True False v(1) by (simp add: k Let_def)
    qed
    have st1: "may_read env L T ro rs st1" by (rule may_read_after [OF Suc.prems(2) step])
    have "m = NDIRECT - Suc k" "Suc k \<le> NDIRECT" using Suc.hyps(2) k by simp_all
    from Suc.hyps(1) [OF this st1] obtain st2 d where
      r: "fn_direct_loop env fl ro rs [Suc k..<NDIRECT] fn st1 = (fn, st2, Inr d)" "d \<longrightarrow> ro + rs \<le> sin_off"
      "read_to env L T (fn_size fn) (INLSZ + Suc k * BLKSZ) sin_off (fcont L fn) st1 st2" by blast
    have e: "INLSZ + Suc k * BLKSZ = ?off + BLKSZ" by simp
    have "read_to env L T (fn_size fn) ?off sin_off (fcont L fn) st st2"
      by (rule read_to_join [OF Suc.prems(2) step r(3) [unfolded e]]) (use fit in simp_all)
    with r eq show ?thesis by auto
  qed
qed

lemma fn_direct_reads:
  assumes fl: "\<not> has_flag fl RB_MODIFY_X" and wf: "fn_wf L T fn"
  shows "sect_reads env L T ro rs fn INLSZ sin_off (fn_direct env fl ro rs)"
  unfolding sect_reads_def
proof (intro allI impI)
  fix st assume st: "may_read env L T ro rs (st :: 'a tst)"
  show "\<exists>st'. fn_direct env fl ro rs fn st = (fn, st', Inr (ro + rs \<le> sin_off)) \<and>
      read_to env L T (fn_size fn) INLSZ sin_off (fcont L fn) st st'"
  proof (cases "sin_off \<le> ro")
    case True
    then have "read_to env L T (fn_size fn) INLSZ sin_off (fcont L fn) st st"
      by (intro read_to_outside [OF st]) simp
    with True show ?thesis by (simp add: fn_direct_def Let_def sin_off_def)
  next
    case False
    obtain st' d where r: "fn_direct_loop env fl ro rs [0..<NDIRECT] fn st = (fn, st', Inr d)"
      "d \<longrightarrow> ro + rs \<le> sin_off" "read_to env L T (fn_size fn) INLSZ sin_off (fcont L fn) st st'"
      using fn_direct_loop_reads [OF fl wf, of 0 env ro rs st] st by auto
    have "fn_direct env fl ro rs fn st = (fn, st', Inr (ro + rs \<le> sin_off))"
      using r(1,2) False by (cases d) (auto simp: fn_direct_def Let_def sin_off_def)
    with r(3) show ?thesis by blast
  qed
qed

text \<open>The three sections with an indirect block.\<close>

lemma fn_tree_reads:
  assumes fl: "\<not> has_flag fl RB_MODIFY_X" and wf: "fn_wf L T fn"
  shows "sect_reads env L T ro rs fn sin_off din_off (fn_single env fl ro rs)"
    "sect_reads env L T ro rs fn din_off tin_off (fn_double env fl ro rs)"
    "sect_reads env L T ro rs fn tin_off end_off (fn_triple env fl ro rs)"
proof -
  have visit: "\<exists>st'. visit_child env l fl (tr lo) ref obj st = (obj, st', Inr False) \<and>
      read_to env L T (fn_size fn) lo hi (fcont L fn) st st'"
    if "reads env L T (fn_size fn) ro rs l tr" "wfs L T False l ref obj" "l \<le> 3" "hi = lo + span l"
      "\<And>p. lo \<le> p \<Longrightarrow> p < hi \<Longrightarrow> fcont L fn p = cont L l ref obj (p - lo)"
      "may_read env L T ro rs st"
    for l tr ref obj lo hi and st :: "'a tst"
  proof -
    note t = that
    obtain st' where v: "visit_child env l fl (tr lo) ref obj st = (obj, st', Inr False)"
      "read_to env L T (fn_size fn) lo (lo + span l) (\<lambda>p. cont L l ref obj (p - lo)) st st'"
      by (rule visit_child_read [OF t(1,6,2) fl t(3)])
    have "read_to env L T (fn_size fn) lo hi (fcont L fn) st st'"
      unfolding t(4) by (rule read_to_cong [OF v(2)]) (use t(4,5) in simp)
    with v(1) show ?thesis by blast
  qed
  have skip: "read_to env L T (fn_size fn) lo hi (fcont L fn) st st"
    if "\<not> ro < hi" "may_read env L T ro rs st" for lo hi and st :: "'a tst"
    using that by (intro read_to_outside [OF that(2)]) simp
  have w: "wfs L T False 1 (m_sinref fn) (m_sinobj fn)" "wfs L T False 2 (m_dinref fn) (m_dinobj fn)"
    "wfs L T False 3 (m_tinref fn) (m_tinobj fn)" using wf by (simp_all add: fn_wf_def)
  show "sect_reads env L T ro rs fn sin_off din_off (fn_single env fl ro rs)"
    unfolding sect_reads_def
  proof (intro allI impI)
    fix st assume st: "may_read env L T ro rs (st :: 'a tst)"
    show "\<exists>st'. fn_single env fl ro rs fn st = (fn, st', Inr (ro + rs \<le> din_off)) \<and>
        read_to env L T (fn_size fn) sin_off din_off (fcont L fn) st st'"
      using skip [OF _ st, of din_off sin_off]
        visit [OF traverse_reads(1) [OF fl] w(1) _ off_spans(1) fcont_tree(1) st]
      by (auto simp: fn_single_def)
  qed
  show "sect_reads env L T ro rs fn din_off tin_off (fn_double env fl ro rs)"
    unfolding sect_reads_def
  proof (intro allI impI)
    fix st assume st: "may_read env L T ro rs (st :: 'a tst)"
    show "\<exists>st'. fn_double env fl ro rs fn st = (fn, st', Inr (ro + rs \<le> tin_off)) \<and>
        read_to env L T (fn_size fn) din_off tin_off (fcont L fn) st st'"
      using skip [OF _ st, of tin_off din_off]
        visit [OF traverse_reads(2) [OF fl] w(2) _ off_spans(2) fcont_tree(2) st]
      by (auto simp: fn_double_def)
  qed
  show "sect_reads env L T ro rs fn tin_off end_off (fn_triple env fl ro rs)"
    unfolding sect_reads_def
  proof (intro allI impI)
    fix st assume st: "may_read env L T ro rs (st :: 'a tst)"
    show "\<exists>st'. fn_triple env fl ro rs fn st = (fn, st', Inr (ro + rs \<le> end_off)) \<and>
        read_to env L T (fn_size fn) tin_off end_off (fcont L fn) st st'"
      using skip [OF _ st, of end_off tin_off]
        visit [OF traverse_reads(3) [OF fl] w(3) _ off_spans(3) fcont_tree(3) st]
      by (auto simp: fn_triple_def)
  qed
qed

text \<open>The whole traversal.\<close>

lemma FileNode_traverse_reads:
  assumes fl: "\<not> has_flag fl RB_MODIFY_X" and wf: "fn_wf L T fn" and ok: "ctxt_ok env L T c"
    and buf: "length buf = rs" and fit: "ro + rs \<le> end_off"
  obtains c' where
    "FileNode_traverse env fl 0 ro rs fn c (ReadBTF buf rs ro rv) =
       (fn, c', btf_adv (ReadBTF buf rs ro rv) 0 end_off (fcont L fn) (fn_size fn), Inr (fn_dirty fn))"
    "ctxt_ok env L T c'" "same_base c c'"
proof -
  let ?st = "\<lparr>t_ctxt = c, t_btf = ReadBTF buf rs ro rv, t_blocks = fn_blocks fn\<rparr>"
  have st: "may_read env L T ro rs ?st" using ok buf by (simp add: may_read_def is_read_def btf_ok_def)
  have "sect_reads env L T ro rs fn tin_off end_off (sect_then (fn_triple env fl ro rs) fn_beyond)"
    using fn_tree_reads(3) [OF fl wf, of env ro rs] fit
    by (fastforce simp: sect_reads_def sect_then_def)
  from sect_then_reads [OF fn_tree_reads(2) [OF fl wf] this]
  have "sect_reads env L T ro rs fn din_off end_off
      (sect_then (fn_double env fl ro rs) (sect_then (fn_triple env fl ro rs) fn_beyond))"
    using off_order by simp
  from sect_then_reads [OF fn_tree_reads(1) [OF fl wf] this]
  have "sect_reads env L T ro rs fn sin_off end_off (sect_then (fn_single env fl ro rs)
      (sect_then (fn_double env fl ro rs) (sect_then (fn_triple env fl ro rs) fn_beyond)))"
    using off_order by simp
  from sect_then_reads [OF fn_inline_reads [OF wf] sect_then_reads [OF fn_direct_reads [OF fl wf] this]]
  obtain st' where "sect_then (fn_inline ro rs) (sect_then (fn_direct env fl ro rs)
      (sect_then (fn_single env fl ro rs) (sect_then (fn_double env fl ro rs)
      (sect_then (fn_triple env fl ro rs) fn_beyond)))) fn ?st = (fn, st', Inr (ro + rs \<le> end_off))"
    and r: "read_to env L T (fn_size fn) 0 end_off (fcont L fn) ?st st'"
    using off_order st by (auto elim: sect_readsE)
  moreover have "set_blocks (t_blocks st') fn = fn" using r by (simp add: read_to_def set_blocks_def)
  ultimately have "FileNode_traverse env fl 0 ro rs fn c (ReadBTF buf rs ro rv) =
      (fn, t_ctxt st', t_btf st', Inr (fn_dirty fn))"
    by (simp add: FileNode_traverse_def Let_def)
  with r that show ?thesis by (auto simp: read_to_def)
qed

subsection \<open>Writing\<close>

text \<open>
  What a section of a write leaves: the octets of its part of the file are those written,
  the others are unchanged, and the node is dirty when the range meets that part.
\<close>

definition fn_written :: "loader \<Rightarrow> (blkref \<Rightarrow> nat) \<Rightarrow> btf \<Rightarrow> nat \<Rightarrow> nat \<Rightarrow> filenode \<Rightarrow> filenode \<Rightarrow> bool" where
  "fn_written L T b lo hi fn fn' \<longleftrightarrow>
     fn_wf L T fn' \<and> m_inode fn' = m_inode fn \<and> fn_ref fn' = fn_ref fn \<and> m_qinref fn' = m_qinref fn \<and>
     (\<forall>p < end_off. fcont L fn' p =
        (if lo \<le> p \<and> p < hi then wr_cont b (fcont L fn) p else fcont L fn p)) \<and>
     (fn_dirty fn \<or> (0 < bt_size b \<and> bt_off b < hi \<and> lo < btf_end b \<and> lo < hi) \<longrightarrow> fn_dirty fn')"

definition sect_writes :: "'bs env \<Rightarrow> loader \<Rightarrow> (blkref \<Rightarrow> nat) \<Rightarrow> nat \<Rightarrow> nat \<Rightarrow> nat \<Rightarrow> nat \<Rightarrow>
    'bs sect \<Rightarrow> bool" where
  "sect_writes env L T ro rs lo hi s \<longleftrightarrow>
     (\<forall>fn st. fn_wf L T fn \<longrightarrow> may_write env L T ro rs st \<longrightarrow> lo < ro + rs \<longrightarrow>
        (\<exists>fn' st'. s fn st = (fn', st', Inr (ro + rs \<le> hi)) \<and> wrote_to env L T lo hi st st' \<and>
           fn_written L T (t_btf st) lo hi fn fn'))"

lemma sect_writesE:
  assumes "sect_writes env L T ro rs lo hi s" "fn_wf L T fn" "may_write env L T ro rs st" "lo < ro + rs"
  obtains fn' st' where "s fn st = (fn', st', Inr (ro + rs \<le> hi))" "wrote_to env L T lo hi st st'"
    "fn_written L T (t_btf st) lo hi fn fn'"
  using assms unfolding sect_writes_def by blast

lemma fn_written_adv [simp]: "fn_written L T (btf_adv b l h f fsz) lo hi fn fn' = fn_written L T b lo hi fn fn'"
  by (simp add: fn_written_def)

lemma fn_written_skip:
  assumes "fn_wf L T fn" "hi \<le> bt_off b \<or> btf_end b \<le> lo \<or> hi \<le> lo"
  shows "fn_written L T b lo hi fn fn"
  using assms by (auto simp: fn_written_def wr_cont_outside)

lemma fn_written_join:
  assumes "fn_written L T b lo mid fn fn1" "fn_written L T b mid hi fn1 fn2" "lo \<le> mid" "mid \<le> hi"
  shows "fn_written L T b lo hi fn fn2"
proof -
  have "fcont L fn2 p = (if lo \<le> p \<and> p < hi then wr_cont b (fcont L fn) p else fcont L fn p)"
    if p: "p < end_off" for p
  proof (cases "p < mid")
    case True
    with p assms show ?thesis by (auto simp: fn_written_def)
  next
    case False
    have f1: "fcont L fn1 p = fcont L fn p" using False p assms(1) by (simp add: fn_written_def)
    have "wr_cont b (fcont L fn1) p = wr_cont b (fcont L fn) p" using f1 by (rule wr_cont_cong)
    with f1 False p assms show ?thesis by (auto simp: fn_written_def)
  qed
  moreover have "fn_dirty fn2"
    if h: "fn_dirty fn \<or> (0 < bt_size b \<and> bt_off b < hi \<and> lo < btf_end b \<and> lo < hi)"
  proof (cases "fn_dirty fn \<or> (0 < bt_size b \<and> bt_off b < mid \<and> lo < btf_end b \<and> lo < mid)")
    case True
    then have "fn_dirty fn1" using assms(1) by (simp add: fn_written_def)
    then show ?thesis using assms(2) by (simp add: fn_written_def)
  next
    case False
    then have "0 < bt_size b \<and> bt_off b < hi \<and> mid < btf_end b \<and> mid < hi"
      using h assms(3,4) by linarith
    then show ?thesis using assms(2) by (simp add: fn_written_def)
  qed
  ultimately show ?thesis using assms by (simp add: fn_written_def)
qed

lemma sect_then_writes:
  assumes a: "sect_writes env L T ro rs lo mid a" and b: "sect_writes env L T ro rs mid hi b"
    and ord: "lo \<le> mid" "mid \<le> hi"
  shows "sect_writes env L T ro rs lo hi (sect_then a b)"
  unfolding sect_writes_def
proof (intro allI impI)
  fix fn st assume wf: "fn_wf L T fn" and st: "may_write env L T ro rs (st :: 'a tst)" and lo: "lo < ro + rs"
  obtain fn1 st1 where a1: "a fn st = (fn1, st1, Inr (ro + rs \<le> mid))" "wrote_to env L T lo mid st st1"
    "fn_written L T (t_btf st) lo mid fn fn1"
    by (rule sect_writesE [OF a wf st lo])
  have st1: "may_write env L T ro rs st1" by (rule may_write_after [OF st a1(2)])
  have wf1: "fn_wf L T fn1" using a1(3) by (simp add: fn_written_def)
  show "\<exists>fn' st'. sect_then a b fn st = (fn', st', Inr (ro + rs \<le> hi)) \<and> wrote_to env L T lo hi st st' \<and>
      fn_written L T (t_btf st) lo hi fn fn'"
  proof (cases "ro + rs \<le> mid")
    case True
    have "wrote_to env L T mid hi st1 st1" using True by (intro wrote_to_outside [OF st1]) simp
    moreover have "fn_written L T (t_btf st) mid hi fn1 fn1"
      using True st by (intro fn_written_skip [OF wf1]) (simp add: may_write_def)
    ultimately show ?thesis
      using a1 True ord wrote_to_join [OF st a1(2)] fn_written_join [OF a1(3)]
      by (auto simp: sect_then_def)
  next
    case False
    then have mid: "mid < ro + rs" by simp
    obtain fn2 st2 where b2: "b fn1 st1 = (fn2, st2, Inr (ro + rs \<le> hi))" "wrote_to env L T mid hi st1 st2"
      "fn_written L T (t_btf st1) mid hi fn1 fn2"
      by (rule sect_writesE [OF b wf1 st1 mid])
    have "fn_written L T (t_btf st) mid hi fn1 fn2" using b2(3) a1(2) by (simp add: wrote_to_def)
    with a1 b2 False show ?thesis
      using wrote_to_join [OF st a1(2) b2(2) ord] fn_written_join [OF a1(3) _ ord]
      by (auto simp: sect_then_def)
  qed
qed

lemma fn_inline_writes: "sect_writes env L T ro rs 0 INLSZ (fn_inline ro rs)"
  unfolding sect_writes_def
proof (intro allI impI)
  fix fn st assume wf: "fn_wf L T fn" and st: "may_write env L T ro rs (st :: 'a tst)" and lo: "0 < ro + rs"
  have len: "length (m_inl fn) = INLSZ" using wf by (simp add: fn_wf_def)
  show "\<exists>fn' st'. fn_inline ro rs fn st = (fn', st', Inr (ro + rs \<le> INLSZ)) \<and>
      wrote_to env L T 0 INLSZ st st' \<and> fn_written L T (t_btf st) 0 INLSZ fn fn'"
  proof (cases "ro < INLSZ")
    case False
    then have "wrote_to env L T 0 INLSZ st st" by (intro wrote_to_outside [OF st]) simp
    moreover have "fn_written L T (t_btf st) 0 INLSZ fn fn"
      using False st by (intro fn_written_skip [OF wf]) (simp add: may_write_def)
    ultimately show ?thesis using False by (simp add: fn_inline_def)
  next
    case True
    have "m_inl fn \<noteq> []" using len by (auto simp: INLSZ_def)
    then have b: "\<not> is_read (t_btf st)" "btf_ok (t_btf st)" "bt_off (t_btf st) < 0 + length (m_inl fn)"
      "0 < btf_end (t_btf st)" "m_inl fn \<noteq> []" "0 < bt_size (t_btf st)"
      using st True len by (auto simp: may_write_def)
    obtain inl' where v: "bt_visit (t_btf st) (m_inl fn) 0 (fn_size fn) =
        (btf_adv (t_btf st) 0 (0 + length (m_inl fn)) (\<lambda>_. 0) (fn_size fn), inl', True)"
      "length inl' = length (m_inl fn)"
      "\<forall>i < length (m_inl fn). inl' ! i = wr_cont (t_btf st) (\<lambda>p. m_inl fn ! (p - 0)) (0 + i)"
      by (rule bt_visit_write [OF b, of "fn_size fn" "\<lambda>_. 0"])
    let ?fn = "fn\<lparr>m_inl := inl', fn_dirty := True\<rparr>"
    let ?st = "st\<lparr>t_btf := btf_adv (t_btf st) 0 INLSZ (\<lambda>_. 0) 0\<rparr>"
    have "btf_adv (t_btf st) 0 INLSZ (\<lambda>_. 0) (fn_size fn) = btf_adv (t_btf st) 0 INLSZ (\<lambda>_. 0) 0"
      by (rule btf_adv_write [OF b(1)])
    then have "fn_inline ro rs fn st = (?fn, ?st, Inr (ro + rs \<le> INLSZ))"
      using True v(1) len by (simp add: fn_inline_def)
    moreover have "wrote_to env L T 0 INLSZ st ?st" using st by (simp add: wrote_to_def may_write_def)
    moreover have "fn_wf L T ?fn" using wf v(2) by (auto simp: fn_wf_def slots_dirty_def)
    moreover have "fcont L ?fn p = (if p < INLSZ then wr_cont (t_btf st) (fcont L fn) p else fcont L fn p)" for p
    proof (cases "p < INLSZ")
      case True
      then have "inl' ! p = wr_cont (t_btf st) (\<lambda>p. m_inl fn ! p) p" using v(3) len by simp
      also have "\<dots> = wr_cont (t_btf st) (fcont L fn) p" by (rule wr_cont_cong) (simp add: fcont_def True)
      finally show ?thesis using True by (simp add: fcont_def [of L ?fn])
    qed (simp add: fcont_def)
    ultimately show ?thesis by (auto simp: fn_written_def)
  qed
qed

text \<open>Replacing one direct block.\<close>

lemma fn_written_direct:
  assumes wf: "fn_wf L T fn" and i: "i < NDIRECT" and c: "wfn L T False 0 c'" "bn_isdirty c'"
    and w: "\<forall>p < BLKSZ. ncont L 0 c' p = wr_cont b
        (\<lambda>q. cont L 0 (m_dirref fn ! i) (m_dirobj fn ! i) (q - (INLSZ + i * BLKSZ))) (INLSZ + i * BLKSZ + p)"
  shows "fn_written L T b (INLSZ + i * BLKSZ) (INLSZ + i * BLKSZ + BLKSZ) fn
    (fn\<lparr>m_dirobj := (m_dirobj fn)[i := Some c'], fn_dirty := True\<rparr>)"
proof -
  let ?off = "INLSZ + i * BLKSZ" and ?fn = "fn\<lparr>m_dirobj := (m_dirobj fn)[i := Some c'], fn_dirty := True\<rparr>"
  have len: "length (m_dirobj fn) = NDIRECT" using wf by (simp add: fn_wf_def)
  have "wfs L T False 0 (m_dirref fn ! j) ((m_dirobj fn)[i := Some c'] ! j)" if "j < NDIRECT" for j
    using wf c len that by (cases "j = i") (auto simp: fn_wf_def)
  then have wf': "fn_wf L T ?fn"
    using wf c(2) set_update_subset_insert [of "m_dirobj fn" i "Some c'"]
    by (auto simp: fn_wf_def slots_dirty_def)
  have "fcont L ?fn p = (if ?off \<le> p \<and> p < ?off + BLKSZ then wr_cont b (fcont L fn) p else fcont L fn p)" for p
  proof (cases "?off \<le> p \<and> p < ?off + BLKSZ")
    case True
    then have "fcont L ?fn p = ncont L 0 c' (p - ?off)"
      using fcont_direct [OF i, of p L ?fn] len i by (simp add: cont_def slot_cont_def)
    also have "\<dots> = wr_cont b (\<lambda>q. cont L 0 (m_dirref fn ! i) (m_dirobj fn ! i) (q - ?off)) p"
    proof -
      have "p - ?off < BLKSZ" "?off + (p - ?off) = p" using True by linarith+
      then show ?thesis using w by metis
    qed
    also have "\<dots> = wr_cont b (fcont L fn) p"
      by (rule wr_cont_cong) (use fcont_direct [OF i, of p L fn] True in simp)
    finally show ?thesis using True by simp
  next
    case False
    have "(p - INLSZ) div BLKSZ \<noteq> i" if "INLSZ \<le> p"
    proof
      assume d: "(p - INLSZ) div BLKSZ = i"
      have "i * BLKSZ \<le> p - INLSZ" using d div_times_less_eq_dividend [of "p - INLSZ" BLKSZ] by simp
      moreover have "p - INLSZ < BLKSZ + i * BLKSZ"
        using d dividend_less_div_times [of BLKSZ "p - INLSZ"] by simp
      ultimately show False using False that by linarith
    qed
    then show ?thesis using False by (auto simp: fcont_def Let_def)
  qed
  with wf' show ?thesis by (simp add: fn_written_def)
qed

lemma fn_direct_loop_writes:
  assumes fl: "has_flag fl RB_MODIFY_X"
  shows "k \<le> NDIRECT \<Longrightarrow> may_write env L T ro rs st \<Longrightarrow> fn_wf L T fn \<Longrightarrow>
    \<exists>fn' st' d. fn_direct_loop env fl ro rs [k..<NDIRECT] fn st = (fn', st', Inr d) \<and>
      (d \<longrightarrow> ro + rs \<le> sin_off) \<and> wrote_to env L T (INLSZ + k * BLKSZ) sin_off st st' \<and>
      fn_written L T (t_btf st) (INLSZ + k * BLKSZ) sin_off fn fn'"
proof (induction "NDIRECT - k" arbitrary: k st fn)
  case 0
  then have "k = NDIRECT" by simp
  with 0 show ?case by (auto simp: sin_off_def intro!: wrote_to_outside fn_written_skip)
next
  case (Suc m)
  from Suc have k: "k < NDIRECT" "[k..<NDIRECT] = k # [Suc k..<NDIRECT]" by (simp_all add: upt_conv_Cons)
  let ?off = "INLSZ + k * BLKSZ"
  have "Suc k * BLKSZ \<le> NDIRECT * BLKSZ" using k by (intro mult_le_mono1) simp
  then have fit: "?off + BLKSZ \<le> sin_off" by (simp add: sin_off_def)
  have b: "bt_off (t_btf st) = ro" "btf_end (t_btf st) = ro + rs" using Suc.prems(2) by (simp_all add: may_write_def)
  show ?case
  proof (cases "ro + rs \<le> ?off")
    case True
    have "wrote_to env L T ?off sin_off st st" using True by (intro wrote_to_outside [OF Suc.prems(2)]) simp
    moreover have "fn_written L T (t_btf st) ?off sin_off fn fn"
      using True b by (intro fn_written_skip [OF Suc.prems(3)]) simp
    ultimately show ?thesis using True fit by (auto simp: k)
  next
    case False
    obtain fn1 st1 where step: "wrote_to env L T ?off (?off + BLKSZ) st st1"
        "fn_written L T (t_btf st) ?off (?off + BLKSZ) fn fn1"
      and eq: "fn_direct_loop env fl ro rs [k..<NDIRECT] fn st = fn_direct_loop env fl ro rs [Suc k..<NDIRECT] fn1 st1"
    proof (cases "ro < ?off + BLKSZ")
      case skip: False
      have "wrote_to env L T ?off (?off + BLKSZ) st st"
        using skip by (intro wrote_to_outside [OF Suc.prems(2)]) simp
      moreover have "fn_written L T (t_btf st) ?off (?off + BLKSZ) fn fn"
        using skip b by (intro fn_written_skip [OF Suc.prems(3)]) simp
      ultimately show ?thesis using that skip False by (simp add: k Let_def)
    next
      case True
      have wfk: "wfs L T False 0 (m_dirref fn ! k) (m_dirobj fn ! k)" using Suc.prems(3) k by (simp add: fn_wf_def)
      have ov: "ro < ?off + span 0" "?off < ro + rs" using True False by simp_all
      obtain c' st1 where v: "visit_child env 0 fl (data_visit False fl ?off (fn_size fn)) (m_dirref fn ! k)
          (m_dirobj fn ! k) st = (Some c', st1, Inr True)" "wrote_to env L T ?off (?off + span 0) st st1"
        "wfn L T False 0 c'" "bn_isdirty c'"
        "\<forall>p < span 0. ncont L 0 c' p = wr_cont (t_btf st)
           (\<lambda>q. cont L 0 (m_dirref fn ! k) (m_dirobj fn ! k) (q - ?off)) (?off + p)"
        by (rule visit_child_write [OF data_visit_writes [OF fl] Suc.prems(2) wfk fl ov])
      have "fn_written L T (t_btf st) ?off (?off + BLKSZ) fn
          (fn\<lparr>m_dirobj := (m_dirobj fn)[k := Some c'], fn_dirty := True\<rparr>)"
        by (rule fn_written_direct [OF Suc.prems(3) k(1) v(3,4)]) (use v(5) in simp)
      then show ?thesis using that v(1,2) True False by (simp add: k Let_def)
    qed
    have st1: "may_write env L T ro rs st1" by (rule may_write_after [OF Suc.prems(2) step(1)])
    have wf1: "fn_wf L T fn1" using step(2) by (simp add: fn_written_def)
    have "m = NDIRECT - Suc k" "Suc k \<le> NDIRECT" using Suc.hyps(2) k by simp_all
    from Suc.hyps(1) [OF this st1 wf1] obtain fn2 st2 d where
      r: "fn_direct_loop env fl ro rs [Suc k..<NDIRECT] fn1 st1 = (fn2, st2, Inr d)" "d \<longrightarrow> ro + rs \<le> sin_off"
      "wrote_to env L T (INLSZ + Suc k * BLKSZ) sin_off st1 st2"
      "fn_written L T (t_btf st1) (INLSZ + Suc k * BLKSZ) sin_off fn1 fn2" by blast
    have e: "INLSZ + Suc k * BLKSZ = ?off + BLKSZ" by simp
    have "wrote_to env L T ?off sin_off st st2"
      by (rule wrote_to_join [OF Suc.prems(2) step(1) r(3) [unfolded e]]) (use fit in simp_all)
    moreover have "fn_written L T (t_btf st) (?off + BLKSZ) sin_off fn1 fn2"
      using r(4) step(1) unfolding e by (simp add: wrote_to_def)
    from fn_written_join [OF step(2) this] have "fn_written L T (t_btf st) ?off sin_off fn fn2"
      using fit by simp
    ultimately show ?thesis using r(1,2) eq by auto
  qed
qed

lemma fn_direct_writes:
  assumes fl: "has_flag fl RB_MODIFY_X"
  shows "sect_writes env L T ro rs INLSZ sin_off (fn_direct env fl ro rs)"
  unfolding sect_writes_def
proof (intro allI impI)
  fix fn st assume wf: "fn_wf L T fn" and st: "may_write env L T ro rs (st :: 'a tst)" and "INLSZ < ro + rs"
  show "\<exists>fn' st'. fn_direct env fl ro rs fn st = (fn', st', Inr (ro + rs \<le> sin_off)) \<and>
      wrote_to env L T INLSZ sin_off st st' \<and> fn_written L T (t_btf st) INLSZ sin_off fn fn'"
  proof (cases "sin_off \<le> ro")
    case True
    have "wrote_to env L T INLSZ sin_off st st" using True by (intro wrote_to_outside [OF st]) simp
    moreover have "fn_written L T (t_btf st) INLSZ sin_off fn fn"
      using True st by (intro fn_written_skip [OF wf]) (simp add: may_write_def)
    ultimately show ?thesis using True by (simp add: fn_direct_def Let_def sin_off_def)
  next
    case False
    obtain fn' st' d where r: "fn_direct_loop env fl ro rs [0..<NDIRECT] fn st = (fn', st', Inr d)"
      "d \<longrightarrow> ro + rs \<le> sin_off" "wrote_to env L T INLSZ sin_off st st'"
      "fn_written L T (t_btf st) INLSZ sin_off fn fn'"
      using fn_direct_loop_writes [OF fl, of 0 env L T ro rs st fn] st wf by auto
    have "fn_direct env fl ro rs fn st = (fn', st', Inr (ro + rs \<le> sin_off))"
      using r(1,2) False by (cases d) (auto simp: fn_direct_def Let_def sin_off_def)
    with r(3,4) show ?thesis by blast
  qed
qed

text \<open>One indirect section: \<open>upd\<close> stores the new object into its slot.\<close>

lemma tree_section_writes:
  assumes tr: "\<And>fsz. writes env L T ro rs l (tr fsz)" and fl: "has_flag fl RB_MODIFY_X"
    and hi: "hi = lo + span l" "hi \<le> end_off"
    and sect: "\<And>fn st. sect fn st =
      (if ro < hi then
         (case visit_child env l fl (tr (fn_size fn) lo) (ref fn) (obj fn) st of
            (obj1, st1, Inl e) \<Rightarrow> (upd_exn obj1 fn, st1, Inl e)
          | (obj1, st1, Inr dirty) \<Rightarrow> (upd obj1 dirty fn, st1, Inr (hi \<ge> ro + rs)))
       else (fn, st, Inr (hi \<ge> ro + rs)))"
    and wf: "\<And>fn. fn_wf L T fn \<Longrightarrow> wfs L T False l (ref fn) (obj fn)"
    and upd: "\<And>fn c'. fn_wf L T fn \<Longrightarrow> wfn L T False l c' \<Longrightarrow> bn_isdirty c' \<Longrightarrow>
      fn_wf L T (upd (Some c') True fn) \<and> m_inode (upd (Some c') True fn) = m_inode fn \<and>
      fn_ref (upd (Some c') True fn) = fn_ref fn \<and> m_qinref (upd (Some c') True fn) = m_qinref fn \<and>
      fn_dirty (upd (Some c') True fn) \<and>
      (\<forall>p < end_off. fcont L (upd (Some c') True fn) p =
         (if lo \<le> p \<and> p < hi then ncont L l c' (p - lo) else fcont L fn p))"
    and here: "\<And>fn p. lo \<le> p \<Longrightarrow> p < hi \<Longrightarrow> fcont L fn p = cont L l (ref fn) (obj fn) (p - lo)"
  shows "sect_writes env L T ro rs lo hi sect"
  unfolding sect_writes_def
proof (intro allI impI)
  fix fn st assume wfn: "fn_wf L T fn" and st: "may_write env L T ro rs (st :: 'a tst)" and lo: "lo < ro + rs"
  show "\<exists>fn' st'. sect fn st = (fn', st', Inr (ro + rs \<le> hi)) \<and> wrote_to env L T lo hi st st' \<and>
      fn_written L T (t_btf st) lo hi fn fn'"
  proof (cases "ro < hi")
    case False
    have "wrote_to env L T lo hi st st" using False by (intro wrote_to_outside [OF st]) simp
    moreover have "fn_written L T (t_btf st) lo hi fn fn"
      using False st by (intro fn_written_skip [OF wfn]) (simp add: may_write_def)
    ultimately show ?thesis using False by (simp add: sect)
  next
    case True
    obtain c' st1 where v: "visit_child env l fl (tr (fn_size fn) lo) (ref fn) (obj fn) st = (Some c', st1, Inr True)"
      "wrote_to env L T lo (lo + span l) st st1" "wfn L T False l c'" "bn_isdirty c'"
      "\<forall>p < span l. ncont L l c' p = wr_cont (t_btf st) (\<lambda>q. cont L l (ref fn) (obj fn) (q - lo)) (lo + p)"
      by (rule visit_child_write [OF tr st wf [OF wfn] fl True [unfolded hi(1)] lo])
    have "ncont L l c' (p - lo) = wr_cont (t_btf st) (fcont L fn) p" if "lo \<le> p" "p < hi" for p
    proof -
      have "p - lo < span l" "lo + (p - lo) = p" using that hi(1) by linarith+
      then have "ncont L l c' (p - lo) = wr_cont (t_btf st) (\<lambda>q. cont L l (ref fn) (obj fn) (q - lo)) p"
        using v(5) by metis
      also have "\<dots> = wr_cont (t_btf st) (fcont L fn) p"
        by (rule wr_cont_cong) (use here that in simp)
      finally show ?thesis .
    qed
    then have "fn_written L T (t_btf st) lo hi fn (upd (Some c') True fn)"
      using upd [OF wfn v(3,4)] by (auto simp: fn_written_def)
    moreover have "sect fn st = (upd (Some c') True fn, st1, Inr (ro + rs \<le> hi))"
      using True v(1) by (simp add: sect)
    ultimately show ?thesis using v(2) hi(1) by blast
  qed
qed

lemma fn_tree_writes:
  assumes fl: "has_flag fl RB_MODIFY_X"
  shows "sect_writes env L T ro rs sin_off din_off (fn_single env fl ro rs)"
    "sect_writes env L T ro rs din_off tin_off (fn_double env fl ro rs)"
    "sect_writes env L T ro rs tin_off end_off (fn_triple env fl ro rs)"
proof -
  show "sect_writes env L T ro rs sin_off din_off (fn_single env fl ro rs)"
    by (rule tree_section_writes [where tr = "\<lambda>fsz. ind_traverse env fl fsz ro rs" and ref = m_sinref
          and obj = m_sinobj and upd_exn = "\<lambda>obj1 fn. fn\<lparr>m_sinobj := obj1\<rparr>"
          and upd = "\<lambda>obj1 dirty fn. fn\<lparr>m_sinobj := obj1, fn_dirty := fn_dirty fn \<or> dirty\<rparr>",
          OF traverse_writes(1) [OF fl] fl off_spans(1)])
      (use off_order in \<open>auto simp: fn_single_def fn_wf_def fcont_def cont_def slot_cont_def slots_dirty_def\<close>)
  show "sect_writes env L T ro rs din_off tin_off (fn_double env fl ro rs)"
    by (rule tree_section_writes [where tr = "\<lambda>fsz. dbl_traverse env fl fsz ro rs" and ref = m_dinref
          and obj = m_dinobj and upd_exn = "\<lambda>obj1 fn. fn\<lparr>m_dinobj := obj1\<rparr>"
          and upd = "\<lambda>obj1 dirty fn. fn\<lparr>m_dinobj := obj1, fn_dirty := fn_dirty fn \<or> dirty\<rparr>",
          OF traverse_writes(2) [OF fl] fl off_spans(2)])
      (use off_order in \<open>auto simp: fn_double_def fn_wf_def fcont_def cont_def slot_cont_def slots_dirty_def\<close>)
  show "sect_writes env L T ro rs tin_off end_off (fn_triple env fl ro rs)"
    by (rule tree_section_writes [where tr = "\<lambda>fsz. tri_traverse env fl fsz ro rs" and ref = m_tinref
          and obj = m_tinobj and upd_exn = "\<lambda>obj1 fn. fn\<lparr>m_tinobj := obj1\<rparr>"
          and upd = "\<lambda>obj1 dirty fn. fn\<lparr>m_tinobj := obj1, fn_dirty := fn_dirty fn \<or> dirty\<rparr>",
          OF traverse_writes(3) [OF fl] fl off_spans(3)])
      (use off_order in \<open>auto simp: fn_triple_def fn_wf_def fcont_def cont_def slot_cont_def slots_dirty_def\<close>)
qed

lemma has_flag_modify [simp]: "has_flag RB_MODIFY_X RB_MODIFY_X" "\<not> has_flag 0 m" "\<not> has_flag RB_NOCACHE RB_MODIFY_X"
  by (simp_all add: has_flag_def RB_MODIFY_X_def RB_NOCACHE_def)

lemma FileNode_traverse_writes:
  assumes fl: "has_flag fl RB_MODIFY_X" and wf: "fn_wf L T fn" and ok: "ctxt_ok env L T c"
    and buf: "length buf = rs" and rs: "0 < rs" and fit: "ro + rs \<le> end_off"
  obtains fn' c' nb where
    "FileNode_traverse env fl 0 ro rs fn c (WriteBTF buf rs ro rv) =
       (set_blocks nb fn', c', WriteBTF buf rs ro (rv + rs), Inr True)"
    "fn_written L T (WriteBTF buf rs ro rv) 0 end_off fn fn'" "fn_dirty fn'"
    "ctxt_ok env L T c'" "same_base c c'"
proof -
  let ?b = "WriteBTF buf rs ro rv"
  let ?st = "\<lparr>t_ctxt = c, t_btf = ?b, t_blocks = fn_blocks fn\<rparr>"
  have st: "may_write env L T ro rs ?st" using ok buf rs by (simp add: may_write_def is_read_def btf_ok_def)
  have "sect_writes env L T ro rs tin_off end_off (sect_then (fn_triple env fl ro rs) fn_beyond)"
    using fn_tree_writes(3) [OF fl, of env L T ro rs] fit
    by (fastforce simp: sect_writes_def sect_then_def)
  from sect_then_writes [OF fn_tree_writes(2) [OF fl] this]
  have "sect_writes env L T ro rs din_off end_off
      (sect_then (fn_double env fl ro rs) (sect_then (fn_triple env fl ro rs) fn_beyond))"
    using off_order by simp
  from sect_then_writes [OF fn_tree_writes(1) [OF fl] this]
  have "sect_writes env L T ro rs sin_off end_off (sect_then (fn_single env fl ro rs)
      (sect_then (fn_double env fl ro rs) (sect_then (fn_triple env fl ro rs) fn_beyond)))"
    using off_order by simp
  from sect_then_writes [OF fn_inline_writes sect_then_writes [OF fn_direct_writes [OF fl] this]]
  obtain fn' st' where s: "sect_then (fn_inline ro rs) (sect_then (fn_direct env fl ro rs)
      (sect_then (fn_single env fl ro rs) (sect_then (fn_double env fl ro rs)
      (sect_then (fn_triple env fl ro rs) fn_beyond)))) fn ?st = (fn', st', Inr (ro + rs \<le> end_off))"
    and w: "wrote_to env L T 0 end_off ?st st'" "fn_written L T (t_btf ?st) 0 end_off fn fn'"
    using off_order st wf rs by (auto elim: sect_writesE)
  have d: "fn_dirty fn'" using w(2) rs fit off_order by (simp add: fn_written_def)
  have b: "t_btf st' = WriteBTF buf rs ro (rv + rs)"
    using w(1) fit by (simp add: wrote_to_def)
  have "FileNode_traverse env fl 0 ro rs fn c ?b = (set_blocks (t_blocks st') fn', t_ctxt st', t_btf st', Inr True)"
    using s d by (simp add: FileNode_traverse_def Let_def set_blocks_def)
  with b w d that show ?thesis by (auto simp: wrote_to_def)
qed

subsection \<open>The operations\<close>

lemma FileNode_read_ok:
  assumes fl: "\<not> has_flag fl RB_MODIFY_X" and wf: "fn_wf L T fn" and ok: "ctxt_ok env L T c"
    and buf: "length buf = sz" and fit: "off + sz \<le> end_off"
  obtains c' where
    "FileNode_read env buf sz off fl fn c =
       (fn, c', map (fcont L fn) [off..<min (off + sz) (fn_size fn)] @ drop (min (off + sz) (fn_size fn) - off) buf,
        Inr (int (min (off + sz) (fn_size fn) - off)))"
    "ctxt_ok env L T c'" "same_base c c'"
proof -
  let ?e = "min (off + sz) (fn_size fn)"
  obtain c' where t: "FileNode_traverse env fl 0 off sz fn c (ReadBTF buf sz off 0) =
       (fn, c', btf_adv (ReadBTF buf sz off 0) 0 end_off (fcont L fn) (fn_size fn), Inr (fn_dirty fn))"
    "ctxt_ok env L T c'" "same_base c c'"
    by (rule FileNode_traverse_reads [OF fl wf ok buf fit])
  have "btf_adv (ReadBTF buf sz off 0) 0 end_off (fcont L fn) (fn_size fn) =
      ReadBTF (map (fcont L fn) [off..<?e] @ drop (?e - off) buf) sz off (?e - off)"
    using fit by (simp add: Let_def memcpy_at_def min_absorb1)
  with t that show ?thesis by (simp add: FileNode_read_def)
qed

lemma FileNode_write_ok:
  assumes wf: "fn_wf L T fn" and ok: "ctxt_ok env L T c"
    and data: "length data = sz" "0 < sz" and fit: "off + sz \<le> end_off"
  obtains fn' c' where
    "FileNode_write env data sz off fn c = (fn', c', Inr (int sz))"
    "fn_wf L T fn'" "ctxt_ok env L T c'" "same_base c c'" "fn_dirty fn'"
    "fn_size fn' = max (off + sz) (fn_size fn)" "fn_ref fn' = fn_ref fn"
    "\<forall>p < end_off. fcont L fn' p = (if off \<le> p \<and> p < off + sz then data ! (p - off) else fcont L fn p)"
proof -
  obtain fn1 c' nb where t: "FileNode_traverse env RB_MODIFY_X 0 off sz fn c (WriteBTF data sz off 0) =
      (set_blocks nb fn1, c', WriteBTF data sz off (0 + sz), Inr True)"
    "fn_written L T (WriteBTF data sz off 0) 0 end_off fn fn1" "fn_dirty fn1"
    "ctxt_ok env L T c'" "same_base c c'"
    by (rule FileNode_traverse_writes [OF has_flag_modify(1) wf ok data fit])
  let ?fn = "(set_size (max (off + sz) (fn_size fn1)) (set_blocks nb fn1))\<lparr>fn_dirty := True\<rparr>"
  have f: "fcont L ?fn = fcont L fn1" by (rule fcont_cong) (simp_all add: set_size_def set_blocks_def)
  show ?thesis
  proof
    show "FileNode_write env data sz off fn c = (?fn, c', Inr (int sz))"
      using t(1) by (simp add: FileNode_write_def set_blocks_def)
    show "fn_wf L T ?fn"
      by (rule fcont_cong(2) [of ?fn fn1])
        (use t(2) in \<open>simp_all add: set_size_def set_blocks_def fn_written_def\<close>)
    show "ctxt_ok env L T c'" "same_base c c'" by (fact t)+
    show "fn_dirty ?fn" by simp
    show "fn_size ?fn = max (off + sz) (fn_size fn)" "fn_ref ?fn = fn_ref fn"
      using t(2) by (simp_all add: set_size_def set_blocks_def fn_written_def)
    show "\<forall>p < end_off. fcont L ?fn p = (if off \<le> p \<and> p < off + sz then data ! (p - off) else fcont L fn p)"
      using t(2) f by (simp add: fn_written_def)
  qed
qed

text \<open>A new file is well-formed and all zero.\<close>

lemma FileNode_new_ok:
  "fn_wf L T (FileNode_new mode u g now)" "fn_size (FileNode_new mode u g now) = 0"
  "p < end_off \<Longrightarrow> fcont L (FileNode_new mode u g now) p = 0"
proof -
  have "slot_wf L T l P BlockRef_nil None" for l P by (simp add: slot_wf_def)
  then show "fn_wf L T (FileNode_new mode u g now)"
    by (simp add: FileNode_new_def fn_wf_def slots_dirty_def)
  show "fn_size (FileNode_new mode u g now) = 0" by (simp add: FileNode_new_def)
  assume "p < end_off"
  have "(p - INLSZ) div BLKSZ < NDIRECT" if "\<not> p < INLSZ" "p < sin_off"
    using that by (simp add: sin_off_def less_mult_imp_div_less)
  then show "fcont L (FileNode_new mode u g now) p = 0"
    by (simp add: FileNode_new_def fcont_def cont_def slot_cont_def Let_def)
qed

end
