(* ===== verification/Tree_Truncate.thy ===== *)
theory Tree_Truncate
  imports Tree_Traverse
begin

text \<open>
  Truncating a tree of blocks zeroes exactly the octets from the new end on. The lemma
  \<open>ref_truncates\<close> lifts this from the truncation of a child to the truncation of its parent,
  so it holds for the single, double and triple indirect blocks alike. The returned count
  of blocks is 1 only when nothing but zeros is left, which is when the caller drops the node.
\<close>

subsection \<open>Finding the block\<close>

definition found_trunc :: "'bs env \<Rightarrow> loader \<Rightarrow> (blkref \<Rightarrow> nat) \<Rightarrow> nat \<Rightarrow> blkref \<Rightarrow> bnode option \<Rightarrow>
    'bs ctxt \<Rightarrow> 'bs ctxt \<Rightarrow> origin \<Rightarrow> bnode \<Rightarrow> bool" where
  "found_trunc env L T l ref obj c c1 org nh \<longleftrightarrow>
     wfn L T False l nh \<and> ctxt_ok env L T c1 \<and> same_base c c1 \<and>
     (\<forall>p < span l. ncont L l nh p = cont L l ref obj p) \<and>
     (\<forall>c. ctxt_ok env L T c \<longrightarrow> put_back org nh obj c = (obj, c)) \<and>
     (\<forall>c n'. ctxt_ok env L T c \<longrightarrow> bn_blkref n' = bn_blkref nh \<longrightarrow>
        ctxt_ok env L T (cache_remove (bn_blkref n') (snd (put_back org n' obj c))) \<and>
        same_base c (snd (put_back org n' obj c)))"

lemma find_trunc_ok:
  assumes ok: "ctxt_ok env L T c" and wf: "wfs L T False l ref obj" and ex: "obj \<noteq> None \<or> ref_set ref"
  obtains c1 org nh where "find_trunc env l ref obj c = (c1, Inr (Some (org, nh)))"
    "found_trunc env L T l ref obj c c1 org nh"
proof (cases obj)
  case (Some nh)
  have "find_trunc env l ref obj c = (c, Inr (Some (OSlot, nh)))" by (simp add: find_trunc_def Some)
  moreover have "found_trunc env L T l ref obj c c OSlot nh"
    using ok wf Some by (auto simp: found_trunc_def cont_def slot_cont_def ctxt_ok_remove)
  ultimately show ?thesis by (rule that)
next
  case None
  with ex have r: "ref_set ref" by simp
  with wf None obtain k where T: "T ref = l" and k: "L l ref = Inr k" "wfn L T False l k"
    by (auto simp: slot_wf_def)
  have ref: "bn_blkref k = ref" by (rule ctxt_ok_loaded(1) [OF ok k(1)])
  have cont: "\<forall>p < span l. ncont L l k p = cont L l ref obj p"
    using r None k by (simp add: cont_def slot_cont_def)
  have pb: "put_back (OCache ref) k obj c = (obj, c)" if "ctxt_ok env L T c" for c
    by (rule put_back_cached [OF that]) (use k T in simp)
  have found: "found_trunc env L T l ref obj c c1 (OCache ref) k" if "ctxt_ok env L T c1" "same_base c c1" for c1
    using that k(2) cont pb put_back_cached_write ref
    by (auto simp: found_trunc_def simp del: put_back.simps)
  show ?thesis
  proof (cases "m_bncache c ref")
    case (Some bnh)
    have "bnh = k" using ok Some k T by (auto simp: ctxt_ok_def coh_def)
    then have "find_trunc env l ref obj c = (c, Inr (Some (OCache ref, k)))"
      using r None Some wfn_blevel [OF k(2)] by (simp add: find_trunc_def)
    then show ?thesis by (rule that) (rule found, use ok in simp_all)
  next
    case miss: None
    obtain c1 x where ld: "load_node env l ref c = (c1, x)" by fastforce
    note c1 = ctxt_ok_load [OF ok ld]
    have "find_trunc env l ref obj c = (cache_insert k c1, Inr (Some (OCache ref, k)))"
      using r None miss ld c1(3) k(1) by (simp add: find_trunc_def)
    moreover have "ctxt_ok env L T (cache_insert k c1)"
      using c1(1) k(1) T by (intro ctxt_ok_insert [of env L T c1 ref]) simp_all
    ultimately show ?thesis
      using that found same_base_trans [OF c1(2) same_base_simps(4)] by blast
  qed
qed

lemma cont_absent: "\<not> (obj \<noteq> None \<or> ref_set ref) \<Longrightarrow> cont L l ref obj p = 0"
  by (simp add: cont_def slot_cont_def)

subsection \<open>The block with the new end\<close>

lemma zero_tail_ok:
  assumes ok: "ctxt_ok env L T c" and wf: "wfs L T False 0 ref obj" and off0: "off0 \<le> BLKSZ"
    and ex: "obj \<noteq> None \<or> ref_set ref"
  obtains nh c' where "zero_tail env off0 ref obj c = (Some nh, c', Inr True)"
    "ctxt_ok env L T c'" "same_base c c'" "wfn L T False 0 nh" "bn_isdirty nh"
    "\<forall>p < BLKSZ. ncont L 0 nh p = (if off0 \<le> p then 0 else cont L 0 ref obj p)"
proof -
  obtain c1 org nh where f: "find_trunc env 0 ref obj c = (c1, Inr (Some (org, nh)))"
    and ft: "found_trunc env L T 0 ref obj c c1 org nh"
    by (rule find_trunc_ok [OF ok wf ex])
  from ft obtain r d dat where nh: "nh = DataNode r d False dat" "length dat = BLKSZ"
    by (auto simp: found_trunc_def)
  let ?n1 = "DataNode r d False (memset_from dat off0)" and ?n2 = "DataNode r True False (memset_from dat off0)"
  obtain obj1 c2 where pb: "put_back org ?n1 obj c1 = (obj1, c2)" by fastforce
  have c2: "ctxt_ok env L T (cache_remove r c2)" "same_base c1 c2"
    using ft nh pb unfolding found_trunc_def by (metis bnode.sel(1) snd_conv)+
  show ?thesis
  proof
    show "zero_tail env off0 ref obj c = (Some ?n2, cache_remove r c2, Inr True)"
      using f nh pb by (simp add: zero_tail_def Let_def)
    show "ctxt_ok env L T (cache_remove r c2)" by (fact c2(1))
    show "same_base c (cache_remove r c2)"
      using ft c2(2) unfolding found_trunc_def by (meson same_base_simps(3) same_base_trans)
    show "wfn L T False 0 ?n2" "bn_isdirty ?n2" using nh off0 by (simp_all del: wfn.simps)
    have "memset_from dat off0 ! p = (if off0 \<le> p then 0 else dat ! p)" if "p < BLKSZ" for p
      using that nh(2) off0 by (simp add: nth_memset_from)
    then show "\<forall>p < BLKSZ. ncont L 0 ?n2 p = (if off0 \<le> p then 0 else cont L 0 ref obj p)"
      using ft nh by (auto simp: found_trunc_def)
  qed
qed

lemma zero_tail_absent:
  "\<not> (obj \<noteq> None \<or> ref_set ref) \<Longrightarrow> zero_tail env off0 ref obj c = (obj, c, Inr False)"
  by (simp add: zero_tail_def find_trunc_def)

subsection \<open>One slot\<close>

text \<open>
  What a turn of the loop makes of a node: the octets of slot \<open>i\<close> from the offset \<open>k\<close> of the
  file on are zero, all others as they were. A count of 0 says the slot is empty.
\<close>

definition slot_trunc :: "loader \<Rightarrow> (blkref \<Rightarrow> nat) \<Rightarrow> nat \<Rightarrow> nat \<Rightarrow> nat \<Rightarrow> nat \<Rightarrow> bnode \<Rightarrow> bnode \<Rightarrow> nat \<Rightarrow> bool" where
  "slot_trunc L T l k base i n n' nb \<longleftrightarrow>
     wfn L T False (Suc l) n' \<and> bn_blkref n' = bn_blkref n \<and> (n' = n \<or> bn_isdirty n') \<and>
     (\<forall>p < span (Suc l). ncont L (Suc l) n' p =
        (if p div span l = i \<and> k \<le> base + p then 0 else ncont L (Suc l) n p)) \<and>
     (nb = 0 \<longrightarrow> (\<forall>p < span (Suc l). p div span l = i \<longrightarrow> ncont L (Suc l) n' p = 0))"

lemma slot_trunc_keep:
  assumes n: "wfn L T False (Suc l) n"
    and live: "\<And>p. p < span l \<Longrightarrow> k \<le> base + i * span l + p \<Longrightarrow> cont L l (m_blkref n ! i) (m_blkobj n ! i) p = 0"
    and nb: "\<And>p. p < span l \<Longrightarrow> nb = 0 \<Longrightarrow> cont L l (m_blkref n ! i) (m_blkobj n ! i) p = 0"
  shows "slot_trunc L T l k base i n n nb"
proof -
  have here: "ncont L (Suc l) n p = cont L l (m_blkref n ! i) (m_blkobj n ! i) (p mod span l)"
    if "p div span l = i" for p using that by (simp add: ncont_Suc del: ncont.simps)
  have "ncont L (Suc l) n p = 0" if "p div span l = i" "k \<le> base + p" for p
  proof -
    have "i * span l + p mod span l = p" using that(1) by (metis div_mult_mod_eq)
    then have "base + i * span l + p mod span l = base + p" by simp
    with live [of "p mod span l"] that(2) here [OF that(1)] show ?thesis by simp
  qed
  then have "ncont L (Suc l) n p = (if p div span l = i \<and> k \<le> base + p then 0 else ncont L (Suc l) n p)" for p
    by simp
  moreover have "ncont L (Suc l) n p = 0" if "nb = 0" "p div span l = i" for p
    using nb [of "p mod span l"] that(1) here [OF that(2)] by simp
  ultimately show ?thesis using n unfolding slot_trunc_def by blast
qed

lemma slot_trunc_set:
  assumes n: "n = IndNode (Suc l) r d False refs objs" "wfn L T False (Suc l) n" and i: "i < NUMREF"
    and new: "wfs L T False l ref' obj'" "length ref' = 32" "\<forall>nh. obj' = Some nh \<longrightarrow> bn_isdirty nh"
    and cont: "\<forall>p < span l. cont L l ref' obj' p =
      (if k \<le> base + i * span l + p then 0 else cont L l (refs ! i) (objs ! i) p)"
    and nb: "nb = 0 \<Longrightarrow> \<forall>p < span l. cont L l ref' obj' p = 0"
  shows "slot_trunc L T l k base i n (IndNode (Suc l) r True False (refs[i := ref']) (objs[i := obj'])) nb"
    (is "slot_trunc L T l k base i n ?n nb")
proof -
  have len: "length refs = NUMREF" "length objs = NUMREF" using n by auto
  have "wfs L T False l (refs[i := ref'] ! j) (objs[i := obj'] ! j)" if "j < NUMREF" for j
    using n new that len by (cases "j = i") auto
  moreover have "slots_dirty True (objs[i := obj'])"
  proof (cases obj')
    case None
    then show ?thesis using n slots_dirty_True slots_dirty_clear by auto
  next
    case (Some nh)
    then show ?thesis using n new(3) by (auto intro: slots_dirty_upd)
  qed
  moreover have "\<forall>x \<in> set (refs[i := ref']). length x = 32"
    using n new(2) set_update_subset_insert [of refs i ref'] by auto
  ultimately have wf: "wfn L T False (Suc l) ?n" using len by (simp del: wfn.simps)
  have other: "ncont L (Suc l) ?n p = ncont L (Suc l) n p" if "p div span l \<noteq> i" for p
    using that by (simp add: n ncont_Suc del: ncont.simps)
  have here: "ncont L (Suc l) ?n p = cont L l ref' obj' (p mod span l)" if "p div span l = i" for p
    using that i len by (simp add: ncont_Suc del: ncont.simps)
  have "ncont L (Suc l) ?n p = (if p div span l = i \<and> k \<le> base + p then 0 else ncont L (Suc l) n p)"
    if "p < span (Suc l)" for p
  proof (cases "p div span l = i")
    case True
    have "i * span l + p mod span l = p" using True by (metis div_mult_mod_eq)
    then have "base + i * span l + p mod span l = base + p" by simp
    moreover have "p mod span l < span l" by simp
    ultimately have "cont L l ref' obj' (p mod span l) =
        (if k \<le> base + p then 0 else cont L l (refs ! i) (objs ! i) (p mod span l))"
      using cont by metis
    moreover have "ncont L (Suc l) n p = cont L l (refs ! i) (objs ! i) (p mod span l)"
      using True by (simp add: n ncont_Suc del: ncont.simps)
    ultimately show ?thesis using here [OF True] True by simp
  qed (use other in simp)
  moreover have "ncont L (Suc l) ?n p = 0" if "nb = 0" "p div span l = i" for p
    using here [OF that(2)] nb [OF that(1)] by simp
  moreover have "bn_blkref ?n = bn_blkref n" "bn_isdirty ?n" by (simp_all add: n(1))
  ultimately show ?thesis using wf unfolding slot_trunc_def by blast
qed

lemma wfs_nil: "wfs L T Z l (BlockRef_clear ref) None"
  by (simp add: slot_wf_def)

lemma slot_trunc_drop:
  assumes n: "n = IndNode (Suc l) r d False refs objs" "wfn L T False (Suc l) n" and i: "i < NUMREF"
    and gone: "k \<le> base + i * span l \<or> (\<forall>p < span l. cont L l (refs ! i) (objs ! i) p = 0)"
  shows "slot_trunc L T l k base i n
    (IndNode (Suc l) r True False (refs[i := BlockRef_clear ref]) (objs[i := None])) 0"
  by (rule slot_trunc_set [OF n i wfs_nil]) (use gone in \<open>auto simp: cont_absent\<close>)

text \<open>What is asked of a turn of the loop, for all nodes of level \<open>Suc l\<close>.\<close>

definition step_truncs :: "'bs env \<Rightarrow> loader \<Rightarrow> (blkref \<Rightarrow> nat) \<Rightarrow> nat \<Rightarrow> nat \<Rightarrow> (nat \<Rightarrow> nat \<Rightarrow> 'bs trunc) \<Rightarrow> bool" where
  "step_truncs env L T l k step \<longleftrightarrow>
     (\<forall>base i n c. wfn L T False (Suc l) n \<longrightarrow> ctxt_ok env L T c \<longrightarrow> i < NUMREF \<longrightarrow>
        (\<exists>n' c' nb. step i (base + i * span l) n c = (n', c', Inr nb) \<and> ctxt_ok env L T c' \<and> same_base c c' \<and>
           slot_trunc L T l k base i n n' nb))"

lemma ind_step_truncs: "step_truncs env L T 0 k (ind_trunc_step env k)"
  unfolding step_truncs_def
proof (intro allI impI)
  fix base i n c
  assume wf: "wfn L T False (Suc 0) n" and ok: "ctxt_ok env L T (c :: 'a ctxt)" and i: "i < NUMREF"
  from wf obtain r d refs objs where n: "n = IndNode (Suc 0) r d False refs objs" by auto
  let ?off = "base + i * span 0" and ?ref = "refs ! i" and ?obj = "objs ! i"
  have wfi: "wfs L T False 0 ?ref ?obj" using wf i by (auto simp: n)
  have sz: "span 0 = BLKSZ" by simp
  consider "?off + BLKSZ \<le> k" | "?off < k" "\<not> ?off + BLKSZ \<le> k" "?obj \<noteq> None \<or> ref_set ?ref"
    | "?off < k" "\<not> ?off + BLKSZ \<le> k" "\<not> (?obj \<noteq> None \<or> ref_set ?ref)" | "k \<le> ?off" by linarith
  then show "\<exists>n' c' nb. ind_trunc_step env k i ?off n c = (n', c', Inr nb) \<and> ctxt_ok env L T c' \<and> same_base c c' \<and>
      slot_trunc L T 0 k base i n n' nb"
  proof cases
    case 1
    let ?nb = "if ?obj \<noteq> None \<or> ref_set ?ref then 1 else 0 :: nat"
    have "slot_trunc L T 0 k base i n n ?nb"
    proof (rule slot_trunc_keep [OF wf])
      show "cont L 0 (m_blkref n ! i) (m_blkobj n ! i) p = 0" if "p < span 0" "k \<le> ?off + p" for p
        using 1 that by simp
      show "cont L 0 (m_blkref n ! i) (m_blkobj n ! i) p = 0" if "?nb = 0" for p
        using that cont_absent [of ?obj ?ref] by (simp add: n split: if_splits)
    qed
    moreover have "ind_trunc_step env k i ?off n c = (n, c, Inr ?nb)"
      using 1 by (simp add: ind_trunc_step_def n Let_def)
    ultimately show ?thesis using ok same_base_refl by blast
  next
    case 2
    have "k - ?off \<le> BLKSZ" using 2 by linarith
    from zero_tail_ok [OF ok wfi this 2(3)] obtain nh c' where z:
      "zero_tail env (k - ?off) ?ref ?obj c = (Some nh, c', Inr True)" "ctxt_ok env L T c'" "same_base c c'"
      "wfn L T False 0 nh" "bn_isdirty nh"
      "\<forall>p < BLKSZ. ncont L 0 nh p = (if k - ?off \<le> p then 0 else cont L 0 ?ref ?obj p)" .
    let ?n = "IndNode (Suc 0) r True False (refs[i := ?ref]) (objs[i := Some nh])"
    have "slot_trunc L T 0 k base i n ?n 1"
    proof (rule slot_trunc_set [OF n wf i])
      show "length ?ref = 32" using wf i by (auto simp: n)
      have "cont L 0 ?ref (Some nh) p = ncont L 0 nh p" for p by (simp add: cont_def slot_cont_def)
      moreover have "k - ?off \<le> p \<longleftrightarrow> k \<le> ?off + p" for p using 2 by linarith
      ultimately show "\<forall>p < span 0. cont L 0 ?ref (Some nh) p = (if k \<le> ?off + p then 0 else cont L 0 ?ref ?obj p)"
        using z(6) by simp
    qed (use z in simp_all)
    moreover have "ind_trunc_step env k i ?off n c = (?n, c', Inr 1)"
      using 2 z(1) by (simp add: ind_trunc_step_def n Let_def dirtied_def)
    ultimately show ?thesis using z by blast
  next
    case 3
    have "slot_trunc L T 0 k base i n n 0"
      by (rule slot_trunc_keep [OF wf]) (use 3 in \<open>simp_all add: n cont_absent\<close>)
    moreover have "ind_trunc_step env k i ?off n c = (n, c, Inr 0)"
      using 3 zero_tail_absent [OF 3(3), of env "k - ?off" c] by (simp add: ind_trunc_step_def n Let_def)
    ultimately show ?thesis using ok same_base_refl by blast
  next
    case 4
    have far: "\<not> ?off + BLKSZ \<le> k" using 4 BLKSZ_pos by linarith
    have "slot_trunc L T 0 k base i n
        (IndNode (Suc 0) r True False (refs[i := BlockRef_clear ?ref]) (objs[i := None])) 0"
      by (rule slot_trunc_drop [OF n wf i]) (use 4 in simp)
    moreover have "ind_trunc_step env k i ?off n c =
        (IndNode (Suc 0) r True False (refs[i := BlockRef_clear ?ref]) (objs[i := None]), cache_remove ?ref c, Inr 0)"
      using 4 far by (simp add: ind_trunc_step_def n Let_def dirtied_def)
    ultimately show ?thesis using ctxt_ok_remove [OF ok] same_base_simps(3) by blast
  qed
qed

subsection \<open>The loop\<close>

definition truncated :: "loader \<Rightarrow> (blkref \<Rightarrow> nat) \<Rightarrow> nat \<Rightarrow> nat \<Rightarrow> nat \<Rightarrow> bnode \<Rightarrow> bnode \<Rightarrow> bool" where
  "truncated L T l k base n n' \<longleftrightarrow>
     wfn L T False l n' \<and> bn_blkref n' = bn_blkref n \<and> (n' = n \<or> bn_isdirty n') \<and>
     (\<forall>p < span l. ncont L l n' p = (if k \<le> base + p then 0 else ncont L l n p))"

definition truncs :: "'bs env \<Rightarrow> loader \<Rightarrow> (blkref \<Rightarrow> nat) \<Rightarrow> nat \<Rightarrow> nat \<Rightarrow> (nat \<Rightarrow> 'bs trunc) \<Rightarrow> bool" where
  "truncs env L T l k tr \<longleftrightarrow>
     (\<forall>base n c. wfn L T False l n \<longrightarrow> ctxt_ok env L T c \<longrightarrow>
        (\<exists>n' c' nb. tr base n c = (n', c', Inr nb) \<and> ctxt_ok env L T c' \<and> same_base c c' \<and>
           truncated L T l k base n n' \<and> 1 \<le> nb \<and>
           (nb = 1 \<longrightarrow> (\<forall>p < span l. ncont L l n' p = 0))))"

lemma trunc_loop_ok:
  assumes step: "step_truncs env L T l k step"
  shows "j \<le> NUMREF \<Longrightarrow> wfn L T False (Suc l) n \<Longrightarrow> ctxt_ok env L T c \<Longrightarrow>
    \<exists>n' c' m. trunc_loop step (span l) base N [j..<NUMREF] n c = (n', c', Inr (N + m)) \<and>
      ctxt_ok env L T c' \<and> same_base c c' \<and>
      wfn L T False (Suc l) n' \<and> bn_blkref n' = bn_blkref n \<and> (n' = n \<or> bn_isdirty n') \<and>
      (\<forall>p < span (Suc l). ncont L (Suc l) n' p =
         (if j \<le> p div span l \<and> k \<le> base + p then 0 else ncont L (Suc l) n p)) \<and>
      (m = 0 \<longrightarrow> (\<forall>p < span (Suc l). j \<le> p div span l \<longrightarrow> ncont L (Suc l) n' p = 0))"
proof (induction "NUMREF - j" arbitrary: j N n c)
  case 0
  then have j: "j = NUMREF" by simp
  have "\<not> j \<le> p div span l" if "p < span (Suc l)" for p
    using that by (simp add: j not_le less_mult_imp_div_less)
  with 0 j show ?case by (intro exI [of _ n] exI [of _ c] exI [of _ 0]) (simp del: ncont.simps wfn.simps span.simps)
next
  case (Suc x)
  from Suc have j: "j < NUMREF" "[j..<NUMREF] = j # [Suc j..<NUMREF]" by (simp_all add: upt_conv_Cons)
  from step Suc.prems(2,3) j(1) obtain n1 c1 nb where s:
    "step j (base + j * span l) n c = (n1, c1, Inr nb)" "ctxt_ok env L T c1" "same_base c c1"
    "slot_trunc L T l k base j n n1 nb"
    unfolding step_truncs_def by blast
  have wf1: "wfn L T False (Suc l) n1" using s(4) by (simp add: slot_trunc_def del: wfn.simps)
  have "x = NUMREF - Suc j" "Suc j \<le> NUMREF" using Suc.hyps(2) j by simp_all
  from Suc.hyps(1) [OF this wf1 s(2), of "N + nb"] obtain n' c' m where r:
    "trunc_loop step (span l) base (N + nb) [Suc j..<NUMREF] n1 c1 = (n', c', Inr (N + nb + m))"
    "ctxt_ok env L T c'" "same_base c1 c'" "wfn L T False (Suc l) n'" "bn_blkref n' = bn_blkref n1"
    "n' = n1 \<or> bn_isdirty n'"
    "\<forall>p < span (Suc l). ncont L (Suc l) n' p =
       (if Suc j \<le> p div span l \<and> k \<le> base + p then 0 else ncont L (Suc l) n1 p)"
    "m = 0 \<longrightarrow> (\<forall>p < span (Suc l). Suc j \<le> p div span l \<longrightarrow> ncont L (Suc l) n' p = 0)" by blast
  have run: "trunc_loop step (span l) base N [j..<NUMREF] n c = (n', c', Inr (N + (nb + m)))"
    using s(1) r(1) by (simp add: j(2) add.assoc)
  have cont: "ncont L (Suc l) n' p = (if j \<le> p div span l \<and> k \<le> base + p then 0 else ncont L (Suc l) n p)"
    if "p < span (Suc l)" for p
  proof -
    have "ncont L (Suc l) n1 p = (if p div span l = j \<and> k \<le> base + p then 0 else ncont L (Suc l) n p)"
      using s(4) that unfolding slot_trunc_def by blast
    moreover have "j \<le> p div span l \<longleftrightarrow> p div span l = j \<or> Suc j \<le> p div span l" by linarith
    ultimately show ?thesis using r(7) that by (simp del: ncont.simps span.simps)
  qed
  have zero: "ncont L (Suc l) n' p = 0" if "nb + m = 0" "p < span (Suc l)" "j \<le> p div span l" for p
  proof (cases "p div span l = j")
    case True
    then have "ncont L (Suc l) n1 p = 0" using s(4) that unfolding slot_trunc_def by simp
    with r(7) that True show ?thesis by (simp del: ncont.simps span.simps)
  next
    case False
    with r(8) that show ?thesis by (simp del: ncont.simps span.simps)
  qed
  have "bn_blkref n' = bn_blkref n" "n' = n \<or> bn_isdirty n'"
    using s(4) r(5,6) unfolding slot_trunc_def by auto
  with run cont zero r(2,4) same_base_trans [OF s(3) r(3)] show ?case by blast
qed

lemma trunc_loop_truncs:
  assumes "step_truncs env L T l k step"
  shows "truncs env L T (Suc l) k (\<lambda>base. trunc_loop step (span l) base 1 [0..<NUMREF])"
  unfolding truncs_def
proof (intro allI impI)
  fix base n c
  assume "wfn L T False (Suc l) n" "ctxt_ok env L T (c :: 'a ctxt)"
  from trunc_loop_ok [OF assms le0 this, of base 1] obtain n' c' m where
    "trunc_loop step (span l) base 1 [0..<NUMREF] n c = (n', c', Inr (1 + m))"
    "ctxt_ok env L T c'" "same_base c c'" "truncated L T (Suc l) k base n n'"
    "m = 0 \<longrightarrow> (\<forall>p < span (Suc l). ncont L (Suc l) n' p = 0)"
    unfolding truncated_def by (auto simp del: ncont.simps wfn.simps span.simps)
  then show "\<exists>n' c' nb. trunc_loop step (span l) base 1 [0..<NUMREF] n c = (n', c', Inr nb) \<and> ctxt_ok env L T c' \<and>
      same_base c c' \<and> truncated L T (Suc l) k base n n' \<and> 1 \<le> nb \<and>
      (nb = 1 \<longrightarrow> (\<forall>p < span (Suc l). ncont L (Suc l) n' p = 0))"
    by (intro exI [of _ n'] exI [of _ c'] exI [of _ "1 + m"]) (simp del: ncont.simps wfn.simps span.simps)
qed

subsection \<open>Double and triple indirect blocks\<close>

lemma ref_step_truncs:
  assumes child: "truncs env L T l k child"
  shows "step_truncs env L T l k (ref_trunc_step env l child k)"
  unfolding step_truncs_def
proof (intro allI impI)
  fix base i n c
  assume wf: "wfn L T False (Suc l) n" and ok: "ctxt_ok env L T (c :: 'a ctxt)" and i: "i < NUMREF"
  from wf obtain r d refs objs where n: "n = IndNode (Suc l) r d False refs objs" by auto
  let ?off = "base + i * span l" and ?ref = "refs ! i" and ?obj = "objs ! i"
  let ?step = "ref_trunc_step env l child k i ?off n c"
  let ?drop = "IndNode (Suc l) r True False (refs[i := BlockRef_clear ?ref]) (objs[i := None])"
  have wfi: "wfs L T False l ?ref ?obj" using wf i by (auto simp: n)
  show "\<exists>n' c' nb. ?step = (n', c', Inr nb) \<and> ctxt_ok env L T c' \<and> same_base c c' \<and> slot_trunc L T l k base i n n' nb"
  proof (cases "?off < k")
    case False
    have "slot_trunc L T l k base i n ?drop 0" by (rule slot_trunc_drop [OF n wf i]) (use False in simp)
    moreover have "?step = (?drop, cache_remove ?ref c, Inr 0)"
      using False by (simp add: ref_trunc_step_def n Let_def dirtied_def)
    ultimately show ?thesis using ctxt_ok_remove [OF ok] same_base_simps(3) by blast
  next
    case live: True
    show ?thesis
    proof (cases "?obj \<noteq> None \<or> ref_set ?ref")
      case False
      have "slot_trunc L T l k base i n n 0"
        by (rule slot_trunc_keep [OF wf]) (use False in \<open>simp_all add: n cont_absent\<close>)
      moreover have "?step = (n, c, Inr 0)" using live False by (simp add: ref_trunc_step_def n Let_def)
      ultimately show ?thesis using ok same_base_refl by blast
    next
      case True
      obtain c1 org nh where f: "find_trunc env l ?ref ?obj c = (c1, Inr (Some (org, nh)))"
        and ft: "found_trunc env L T l ?ref ?obj c c1 org nh"
        by (rule find_trunc_ok [OF ok wfi True])
      have wnh: "wfn L T False l nh" and ok1: "ctxt_ok env L T c1" and b1: "same_base c c1"
        and cnh: "\<forall>p < span l. ncont L l nh p = cont L l ?ref ?obj p"
        using ft by (simp_all add: found_trunc_def)
      from child wnh ok1 obtain nh1 c2 nb where t: "child ?off nh c1 = (nh1, c2, Inr nb)"
        "ctxt_ok env L T c2" "same_base c1 c2" "truncated L T l k ?off nh nh1" "1 \<le> nb"
        "nb = 1 \<longrightarrow> (\<forall>p < span l. ncont L l nh1 p = 0)"
        unfolding truncs_def by blast
      obtain obj1 c3 where pb: "put_back org nh1 ?obj c2 = (obj1, c3)" by fastforce
      have c3: "ctxt_ok env L T (cache_remove (bn_blkref nh1) c3)" "same_base c2 c3"
        using ft t(2,4) pb unfolding found_trunc_def truncated_def by (metis snd_conv)+
      have b3: "same_base c c3" using b1 t(3) c3(2) by (blast intro: same_base_trans)
      have ctrunc: "ncont L l nh1 p = (if k \<le> ?off + p then 0 else cont L l ?ref ?obj p)" if "p < span l" for p
        using t(4) cnh that by (simp add: truncated_def)
      let ?keep = "IndNode (Suc l) r True False (refs[i := ?ref]) (objs[i := Some nh1])"
      have kept: "slot_trunc L T l k base i n ?keep nb" if "bn_isdirty nh1"
      proof (rule slot_trunc_set [OF n wf i])
        show "length ?ref = 32" using wf i by (auto simp: n)
        show "wfs L T False l ?ref (Some nh1)" using t(4) by (simp add: truncated_def del: wfn.simps)
        show "\<forall>p < span l. cont L l ?ref (Some nh1) p = (if k \<le> ?off + p then 0 else cont L l ?ref ?obj p)"
          using ctrunc by (simp add: cont_def slot_cont_def)
      qed (use that t(5) in simp_all)
      have dropped: "slot_trunc L T l k base i n ?drop 0" if "nb = 1"
      proof (rule slot_trunc_set [OF n wf i wfs_nil])
        have "cont L l ?ref ?obj p = 0" if "p < span l" "\<not> k \<le> ?off + p" for p
          using that t(6) ctrunc [OF that(1)] \<open>nb = 1\<close> by simp
        then show "\<forall>p < span l. cont L l (BlockRef_clear ?ref) None p =
            (if k \<le> ?off + p then 0 else cont L l ?ref ?obj p)"
          by (simp add: cont_absent)
      qed (simp_all add: cont_absent)
      show ?thesis
      proof (cases "bn_isdirty nh1")
        case dirty: True
        let ?c4 = "cache_remove (bn_blkref nh1) c3"
        have b4: "same_base c ?c4" using b3 same_base_simps(3) same_base_trans by blast
        have run: "?step = (if nb > 1 then (?keep, ?c4, Inr nb) else (?drop, cache_remove ?ref ?c4, Inr 0))"
          using live True f t(1) pb dirty by (simp add: ref_trunc_step_def n Let_def dirtied_def)
        show ?thesis
        proof (cases "nb > 1")
          case True
          with run kept [OF dirty] c3(1) b4 show ?thesis by auto
        next
          case False
          with t(5) have "nb = 1" by simp
          with run dropped ctxt_ok_remove [OF c3(1)] same_base_trans [OF b4 same_base_simps(3)] False
          show ?thesis by auto
        qed
      next
        case clean: False
        then have "nh1 = nh" using t(4) by (simp add: truncated_def)
        then have same: "obj1 = ?obj" "c3 = c2" using ft t(2) pb by (simp_all add: found_trunc_def)
        have run: "?step = (if nb > 1 then (n, c2, Inr nb) else (?drop, cache_remove ?ref c2, Inr 0))"
          using live True f t(1) pb clean same by (simp add: ref_trunc_step_def n Let_def dirtied_def)
        show ?thesis
        proof (cases "nb > 1")
          case True
          have "slot_trunc L T l k base i n n nb"
          proof (rule slot_trunc_keep [OF wf])
            show "cont L l (m_blkref n ! i) (m_blkobj n ! i) p = 0" if "p < span l" "k \<le> ?off + p" for p
              using ctrunc [OF that(1)] that cnh \<open>nh1 = nh\<close> by (simp add: n)
          qed (use True in simp)
          with run True t(2) b3 same show ?thesis by auto
        next
          case False
          with t(5) have "nb = 1" by simp
          with run dropped ctxt_ok_remove [OF t(2)] same_base_trans [OF b3 same_base_simps(3)] same False
          show ?thesis by auto
        qed
      qed
    qed
  qed
qed

lemma truncate_truncs:
  "truncs env L T 1 k (ind_truncate env k)" "truncs env L T 2 k (dbl_truncate env k)"
  "truncs env L T 3 k (tri_truncate env k)"
proof -
  have eqs: "ind_truncate env k = (\<lambda>base. trunc_loop (ind_trunc_step env k) (span 0) base 1 [0..<NUMREF])"
    "dbl_truncate env k = (\<lambda>base. trunc_loop (ref_trunc_step env 1 (ind_truncate env k) k) (span 1) base 1 [0..<NUMREF])"
    "tri_truncate env k = (\<lambda>base. trunc_loop (ref_trunc_step env 2 (dbl_truncate env k) k) (span 2) base 1 [0..<NUMREF])"
    by (simp_all add: ind_truncate_def dbl_truncate_def tri_truncate_def fun_eq_iff numeral_2_eq_2 mult.assoc)
  show 1: "truncs env L T 1 k (ind_truncate env k)"
    unfolding eqs(1) using trunc_loop_truncs [OF ind_step_truncs] by simp
  show 2: "truncs env L T 2 k (dbl_truncate env k)"
    unfolding eqs(2) using trunc_loop_truncs [OF ref_step_truncs [OF 1]] by (simp add: numeral_2_eq_2)
  show "truncs env L T 3 k (tri_truncate env k)"
    unfolding eqs(3) using trunc_loop_truncs [OF ref_step_truncs [OF 2]] by (simp add: numeral_3_eq_3)
qed

end
