(* ===== verification/File_Truncate.thy ===== *)
theory File_Truncate
  imports File_Content Tree_Truncate
begin

text \<open>
  Truncating a file zeroes the octets from the new end up to the end of the single indirect
  block. The double and the triple indirect blocks are left as they are, for which the
  source has a \<^verbatim>\<open>FIXME\<close>.
\<close>

definition fn_truncated :: "loader \<Rightarrow> (blkref \<Rightarrow> nat) \<Rightarrow> nat \<Rightarrow> nat \<Rightarrow> nat \<Rightarrow> filenode \<Rightarrow> filenode \<Rightarrow> bool" where
  "fn_truncated L T k lo hi fn fn' \<longleftrightarrow>
     fn_wf L T fn' \<and> m_inode fn' = m_inode fn \<and> fn_ref fn' = fn_ref fn \<and>
     (\<forall>p < end_off. fcont L fn' p = (if lo \<le> p \<and> p < hi \<and> k \<le> p then 0 else fcont L fn p))"

lemma fn_truncated_join:
  assumes "fn_truncated L T k lo mid fn fn1" "fn_truncated L T k mid hi fn1 fn2" "lo \<le> mid" "mid \<le> hi"
  shows "fn_truncated L T k lo hi fn fn2"
  using assms unfolding fn_truncated_def by auto

lemma fn_truncated_skip:
  assumes "fn_wf L T fn" "\<And>p. lo \<le> p \<Longrightarrow> p < hi \<Longrightarrow> k \<le> p \<Longrightarrow> fcont L fn p = 0"
  shows "fn_truncated L T k lo hi fn fn"
  using assms unfolding fn_truncated_def by auto

lemma fn_trunc_inline_ok:
  assumes "fn_wf L T fn"
  obtains fn1 off where "fn_trunc_inline k fn = (fn1, off)" "fn_truncated L T k 0 INLSZ fn fn1"
    "off = INLSZ \<or> k < INLSZ \<and> off = INLSZ + INLSZ"
proof (cases "k < INLSZ")
  case True
  have len: "length (m_inl fn) = INLSZ" using assms by (simp add: fn_wf_def)
  let ?fn = "fn\<lparr>m_inl := memset_from (m_inl fn) k, fn_dirty := True\<rparr>"
  have "fn_wf L T ?fn" using assms True len by (auto simp: fn_wf_def slots_dirty_def)
  moreover have "fcont L ?fn p = (if p < INLSZ \<and> k \<le> p then 0 else fcont L fn p)" for p
    using len True by (auto simp: fcont_def nth_memset_from)
  ultimately have "fn_truncated L T k 0 INLSZ fn ?fn" by (simp add: fn_truncated_def)
  with that True show ?thesis by (simp add: fn_trunc_inline_def)
next
  case False
  have "fn_truncated L T k 0 INLSZ fn fn" by (rule fn_truncated_skip [OF assms]) (use False in simp)
  with that False show ?thesis by (simp add: fn_trunc_inline_def)
qed

subsection \<open>Direct blocks\<close>

lemma fn_truncated_direct:
  assumes wf: "fn_wf L T fn" and i: "i < NDIRECT"
    and new: "wfs L T False 0 ref' obj'" "length ref' = 32" "\<forall>nh. obj' = Some nh \<longrightarrow> bn_isdirty nh"
    and cont: "\<forall>p < BLKSZ. cont L 0 ref' obj' p =
      (if k \<le> INLSZ + i * BLKSZ + p then 0 else cont L 0 (m_dirref fn ! i) (m_dirobj fn ! i) p)"
  shows "fn_truncated L T k (INLSZ + i * BLKSZ) (INLSZ + i * BLKSZ + BLKSZ) fn
    (fn\<lparr>m_dirref := (m_dirref fn)[i := ref'], m_dirobj := (m_dirobj fn)[i := obj'], fn_dirty := True\<rparr>)"
    (is "fn_truncated L T k ?off _ fn ?fn")
proof -
  have len: "length (m_dirobj fn) = NDIRECT" "length (m_dirref fn) = NDIRECT" using wf by (simp_all add: fn_wf_def)
  have "wfs L T False 0 ((m_dirref fn)[i := ref'] ! j) ((m_dirobj fn)[i := obj'] ! j)" if "j < NDIRECT" for j
    using wf new len that by (cases "j = i") (auto simp: fn_wf_def)
  then have wf': "fn_wf L T ?fn"
    using wf new(2,3) set_update_subset_insert [of "m_dirobj fn" i obj'] set_update_subset_insert [of "m_dirref fn" i ref']
    by (auto simp: fn_wf_def slots_dirty_def)
  have "fcont L ?fn p = (if ?off \<le> p \<and> p < ?off + BLKSZ \<and> k \<le> p then 0 else fcont L fn p)" for p
  proof (cases "?off \<le> p \<and> p < ?off + BLKSZ")
    case True
    then have "fcont L ?fn p = cont L 0 ref' obj' (p - ?off)"
      using fcont_direct [OF i, of p L ?fn] len i by simp
    moreover have "fcont L fn p = cont L 0 (m_dirref fn ! i) (m_dirobj fn ! i) (p - ?off)"
      using fcont_direct [OF i, of p L fn] True by simp
    moreover have "p - ?off < BLKSZ" "?off + (p - ?off) = p" using True by linarith+
    ultimately show ?thesis using True cont by metis
  next
    case False
    have "(p - INLSZ) div BLKSZ \<noteq> i" if "INLSZ \<le> p"
    proof
      assume d: "(p - INLSZ) div BLKSZ = i"
      have "i * BLKSZ \<le> p - INLSZ" using d div_times_less_eq_dividend [of "p - INLSZ" BLKSZ] by simp
      moreover have "p - INLSZ < BLKSZ + i * BLKSZ"
        using d dividend_less_div_times [of BLKSZ "p - INLSZ"] by simp
      ultimately show False using False that by linarith
    qed
    then show ?thesis using False by (auto simp: fcont_def Let_def)
  qed
  with wf' show ?thesis by (simp add: fn_truncated_def)
qed

lemma fn_trunc_direct_ok:
  assumes b: "base = INLSZ \<or> k < INLSZ \<and> base = INLSZ + INLSZ"
  shows "j \<le> NDIRECT \<Longrightarrow> fn_wf L T fn \<Longrightarrow> ctxt_ok env L T c \<Longrightarrow>
    \<exists>fn' c' m. fn_trunc_direct env k (base + j * BLKSZ) N [j..<NDIRECT] fn c = (fn', c', Inr m) \<and>
      ctxt_ok env L T c' \<and> same_base c c' \<and> fn_truncated L T k (INLSZ + j * BLKSZ) sin_off fn fn'"
proof (induction "NDIRECT - j" arbitrary: j N fn c)
  case 0
  then have "j = NDIRECT" by simp
  moreover have "fn_truncated L T k (INLSZ + NDIRECT * BLKSZ) sin_off fn fn"
    by (rule fn_truncated_skip [OF 0(3)]) (simp add: sin_off_def)
  ultimately show ?case using 0 by auto
next
  case (Suc x)
  from Suc have j: "j < NDIRECT" "[j..<NDIRECT] = j # [Suc j..<NDIRECT]" by (simp_all add: upt_conv_Cons)
  let ?off = "base + j * BLKSZ" and ?lo = "INLSZ + j * BLKSZ"
  let ?ref = "m_dirref fn ! j" and ?obj = "m_dirobj fn ! j"
  have wfj: "wfs L T False 0 ?ref ?obj" and rl: "length ?ref = 32"
    using Suc.prems(2) j by (auto simp: fn_wf_def)
  have off: "?off < k \<longrightarrow> ?off = ?lo" "k \<le> ?off \<longrightarrow> k \<le> ?lo" using b by auto
  obtain fn1 c1 N1 where step: "fn_truncated L T k ?lo (?lo + BLKSZ) fn fn1" "ctxt_ok env L T c1" "same_base c c1"
    and eq: "fn_trunc_direct env k ?off N [j..<NDIRECT] fn c =
      fn_trunc_direct env k (?off + BLKSZ) N1 [Suc j..<NDIRECT] fn1 c1"
  proof -
    consider "?off + BLKSZ \<le> k" | "?off < k" "\<not> ?off + BLKSZ \<le> k" "?obj \<noteq> None \<or> ref_set ?ref"
      | "?off < k" "\<not> ?off + BLKSZ \<le> k" "\<not> (?obj \<noteq> None \<or> ref_set ?ref)" | "k \<le> ?off" by linarith
    then show ?thesis
    proof cases
      case 1
      then have "?off < k" using BLKSZ_pos by linarith
      then have "fn_truncated L T k ?lo (?lo + BLKSZ) fn fn"
        using 1 off by (intro fn_truncated_skip [OF Suc.prems(2)]) simp
      with that Suc.prems(3) show ?thesis using 1 by (simp add: j(2) Let_def)
    next
      case 2
      have "k - ?off \<le> BLKSZ" using 2 by linarith
      from zero_tail_ok [OF Suc.prems(3) wfj this 2(3)] obtain nh c' where z:
        "zero_tail env (k - ?off) ?ref ?obj c = (Some nh, c', Inr True)" "ctxt_ok env L T c'" "same_base c c'"
        "wfn L T False 0 nh" "bn_isdirty nh"
        "\<forall>p < BLKSZ. ncont L 0 nh p = (if k - ?off \<le> p then 0 else cont L 0 ?ref ?obj p)" .
      have "k - ?off \<le> p \<longleftrightarrow> k \<le> ?lo + p" for p using 2 off by linarith
      then have "fn_truncated L T k ?lo (?lo + BLKSZ) fn
          (fn\<lparr>m_dirref := (m_dirref fn)[j := ?ref], m_dirobj := (m_dirobj fn)[j := Some nh], fn_dirty := True\<rparr>)"
        using z rl by (intro fn_truncated_direct [OF Suc.prems(2) j(1)]) (simp_all add: cont_def slot_cont_def)
      with that z(1-3) 2 show ?thesis by (simp add: j(2) Let_def)
    next
      case 3
      then have "fn_truncated L T k ?lo (?lo + BLKSZ) fn fn"
        using fcont_direct [OF j(1)] by (intro fn_truncated_skip [OF Suc.prems(2)]) (simp add: cont_absent)
      with that Suc.prems(3) zero_tail_absent [OF 3(3), of env "k - ?off" c] 3 show ?thesis
        by (simp add: j(2) Let_def)
    next
      case 4
      have far: "\<not> ?off + BLKSZ \<le> k" using 4 BLKSZ_pos by linarith
      have "fn_truncated L T k ?lo (?lo + BLKSZ) fn (fn\<lparr>m_dirref := (m_dirref fn)[j := BlockRef_clear ?ref],
          m_dirobj := (m_dirobj fn)[j := None], fn_dirty := True\<rparr>)"
        using 4 off by (intro fn_truncated_direct [OF Suc.prems(2) j(1) wfs_nil]) (simp_all add: cont_absent)
      from that [OF this ctxt_ok_remove [OF Suc.prems(3)] same_base_simps(3)] 4 far show ?thesis
        by (simp add: j(2) Let_def)
    qed
  qed
  have "x = NDIRECT - Suc j" "Suc j \<le> NDIRECT" using Suc.hyps(2) j by simp_all
  moreover have "fn_wf L T fn1" using step(1) by (simp add: fn_truncated_def)
  ultimately obtain fn' c' m where r:
    "fn_trunc_direct env k (base + Suc j * BLKSZ) N1 [Suc j..<NDIRECT] fn1 c1 = (fn', c', Inr m)"
    "ctxt_ok env L T c'" "same_base c1 c'" "fn_truncated L T k (INLSZ + Suc j * BLKSZ) sin_off fn1 fn'"
    using Suc.hyps(1) step(2) by blast
  have e: "?off + BLKSZ = base + Suc j * BLKSZ" "INLSZ + Suc j * BLKSZ = ?lo + BLKSZ" by simp_all
  have "Suc j * BLKSZ \<le> NDIRECT * BLKSZ" using j by (intro mult_le_mono1) simp
  then have "?lo + BLKSZ \<le> sin_off" by (simp add: sin_off_def)
  then have "fn_truncated L T k ?lo sin_off fn fn'"
    using r(4) [unfolded e(2)] by (intro fn_truncated_join [OF step(1)]) simp_all
  with r(1-3) eq e(1) same_base_trans [OF step(3) r(3)] show ?case by auto
qed

subsection \<open>The single indirect block\<close>

lemma fn_truncated_single:
  assumes wf: "fn_wf L T fn" and new: "wfs L T False 1 ref' obj'" "length ref' = 32"
      "\<forall>nh. obj' = Some nh \<longrightarrow> bn_isdirty nh"
    and cont: "\<forall>p < span 1. cont L 1 ref' obj' p = (if k \<le> sin_off + p then 0 else cont L 1 (m_sinref fn) (m_sinobj fn) p)"
  shows "fn_truncated L T k sin_off din_off fn (fn\<lparr>m_sinref := ref', m_sinobj := obj', fn_dirty := True\<rparr>)"
    (is "fn_truncated L T k _ _ fn ?fn")
proof -
  have "fn_wf L T ?fn" using wf new by (auto simp: fn_wf_def slots_dirty_def)
  moreover have "fcont L ?fn p = (if sin_off \<le> p \<and> p < din_off \<and> k \<le> p then 0 else fcont L fn p)" for p
  proof (cases "sin_off \<le> p \<and> p < din_off")
    case True
    then have "p - sin_off < span 1" "sin_off + (p - sin_off) = p" using off_spans(1) by linarith+
    then show ?thesis using True cont fcont_tree(1) [of p L ?fn] fcont_tree(1) [of p L fn] by auto
  next
    case False
    then show ?thesis using off_order by (auto simp: fcont_def)
  qed
  ultimately show ?thesis by (simp add: fn_truncated_def)
qed

lemma fn_drop_single_ok:
  assumes "fn_wf L T fn" "ctxt_ok env L T c"
    "\<forall>p < span 1. k \<le> sin_off + p \<or> cont L 1 (m_sinref fn) (m_sinobj fn) p = 0"
  shows "fn_truncated L T k sin_off din_off fn (fst (fn_drop_single fn c))"
    "ctxt_ok env L T (snd (fn_drop_single fn c))" "same_base c (snd (fn_drop_single fn c))"
proof -
  show "fn_truncated L T k sin_off din_off fn (fst (fn_drop_single fn c))"
    unfolding fn_drop_single_def fst_conv
    by (rule fn_truncated_single [OF assms(1) wfs_nil]) (use assms(3) in \<open>auto simp: cont_absent\<close>)
qed (simp_all add: fn_drop_single_def ctxt_ok_remove assms)

lemma fn_trunc_single_ok:
  assumes off: "off = sin_off \<or> k < INLSZ \<and> off = sin_off + INLSZ"
    and wf: "fn_wf L T fn" and ok: "ctxt_ok env L T c"
  obtains fn' c' m where "fn_trunc_single env k off N fn c = (fn', c', Inr m)"
    "ctxt_ok env L T c'" "same_base c c'" "fn_truncated L T k sin_off din_off fn fn'"
proof (cases "m_sinobj fn \<noteq> None \<or> ref_set (m_sinref fn)")
  case False
  then have "fn_truncated L T k sin_off din_off fn fn"
    using fcont_tree(1) by (intro fn_truncated_skip [OF wf]) (simp add: cont_absent)
  with that [of fn c N] ok False show ?thesis by (simp add: fn_trunc_single_def)
next
  case ex: True
  show ?thesis
  proof (cases "off < k")
    case False
    then have "\<forall>p < span 1. k \<le> sin_off + p \<or> cont L 1 (m_sinref fn) (m_sinobj fn) p = 0"
      using off off_order(1) by auto
    note d = fn_drop_single_ok [OF wf ok this]
    show ?thesis
      by (rule that [OF _ d(2,3,1), of N]) (use ex False in \<open>simp add: fn_trunc_single_def split: prod.split\<close>)
  next
    case True
    with off off_order have o: "off = sin_off" by auto
    have wfs: "wfs L T False 1 (m_sinref fn) (m_sinobj fn)" and rl: "length (m_sinref fn) = 32"
      using wf by (simp_all add: fn_wf_def)
    obtain c1 org nh where f: "find_trunc env 1 (m_sinref fn) (m_sinobj fn) c = (c1, Inr (Some (org, nh)))"
      and ft: "found_trunc env L T 1 (m_sinref fn) (m_sinobj fn) c c1 org nh"
      by (rule find_trunc_ok [OF ok wfs ex])
    have wnh: "wfn L T False 1 nh" and ok1: "ctxt_ok env L T c1" and b1: "same_base c c1"
      and cnh: "\<forall>p < span 1. ncont L 1 nh p = cont L 1 (m_sinref fn) (m_sinobj fn) p"
      using ft unfolding found_trunc_def by blast+
    from truncate_truncs(1) [of env L T k] wnh ok1 obtain nh1 c2 nb where
      t: "ind_truncate env k off nh c1 = (nh1, c2, Inr nb)"
      "ctxt_ok env L T c2" "same_base c1 c2" "truncated L T 1 k off nh nh1" "1 \<le> nb"
      "nb = 1 \<longrightarrow> (\<forall>p < span 1. ncont L 1 nh1 p = 0)"
      unfolding truncs_def by blast
    obtain obj1 c3 where pb: "put_back org nh1 (m_sinobj fn) c2 = (obj1, c3)" by fastforce
    have c3: "ctxt_ok env L T (cache_remove (bn_blkref nh1) c3)" "same_base c2 c3"
      using ft t(2,4) pb unfolding found_trunc_def truncated_def by (metis snd_conv)+
    have b3: "same_base c c3" using b1 t(3) c3(2) by (blast intro: same_base_trans)
    have ctrunc: "ncont L 1 nh1 p = (if k \<le> sin_off + p then 0 else cont L 1 (m_sinref fn) (m_sinobj fn) p)"
      if "p < span 1" for p
      using t(4) cnh that unfolding truncated_def o by simp
    let ?keep = "fn\<lparr>m_sinref := m_sinref fn, m_sinobj := Some nh1, fn_dirty := True\<rparr>"
    have kept: "fn_truncated L T k sin_off din_off fn ?keep" if "bn_isdirty nh1"
      by (rule fn_truncated_single [OF wf _ rl])
        (use t(4) that ctrunc in \<open>auto simp: truncated_def cont_def slot_cont_def simp del: ncont.simps wfn.simps\<close>)
    let ?drop = "fn\<lparr>m_sinref := BlockRef_clear (m_sinref fn), m_sinobj := None, fn_dirty := True\<rparr>"
    have dropped: "fn_truncated L T k sin_off din_off fn ?drop" if "nb = 1"
    proof (rule fn_truncated_single [OF wf wfs_nil])
      have "cont L 1 (m_sinref fn) (m_sinobj fn) p = 0" if "p < span 1" "\<not> k \<le> sin_off + p" for p
        using ctrunc [OF that(1)] that t(6) \<open>nb = 1\<close> by simp
      then show "\<forall>p < span 1. cont L 1 (BlockRef_clear (m_sinref fn)) None p =
          (if k \<le> sin_off + p then 0 else cont L 1 (m_sinref fn) (m_sinobj fn) p)"
        by (simp add: cont_absent)
    qed simp_all
    obtain fn2 c4 where c4: "ctxt_ok env L T c4" "same_base c c4" and m: "nb > 1 \<longrightarrow> fn_truncated L T k sin_off din_off fn fn2"
      and d: "fn2\<lparr>m_sinref := BlockRef_clear (m_sinref fn2), m_sinobj := None, fn_dirty := True\<rparr> = ?drop"
        "m_sinref fn2 = m_sinref fn"
      and run: "fn_trunc_single env k off N fn c = (if nb > 1 then (fn2, c4, Inr (N + nb))
        else (fst (fn_drop_single fn2 c4), snd (fn_drop_single fn2 c4), Inr N))"
    proof (cases "bn_isdirty nh1")
      case dirty: True
      show ?thesis
        by (rule that [of "cache_remove (bn_blkref nh1) c3" ?keep])
          (use kept [OF dirty] c3(1) same_base_trans [OF b3 same_base_simps(3)] ex True f t(1) pb dirty in
            \<open>simp_all add: fn_trunc_single_def Let_def split: prod.split\<close>)
    next
      case clean: False
      then have "nh1 = nh" using t(4) by (simp add: truncated_def)
      then have same: "obj1 = m_sinobj fn" "c3 = c2" using ft t(2) pb by (simp_all add: found_trunc_def)
      have "fn_truncated L T k sin_off din_off fn fn"
      proof (rule fn_truncated_skip [OF wf])
        fix p assume p: "sin_off \<le> p" "p < din_off" "k \<le> p"
        then have "p - sin_off < span 1" "sin_off + (p - sin_off) = p" using off_spans(1) by linarith+
        with ctrunc [of "p - sin_off"] cnh \<open>nh1 = nh\<close> p fcont_tree(1) [OF p(1,2)] show "fcont L fn p = 0" by simp
      qed
      then show ?thesis
        by (intro that [of c2 fn]) (use t(1,2) b3 same ex True f pb clean in
            \<open>simp_all add: fn_trunc_single_def Let_def split: prod.split\<close>)
    qed
    show ?thesis
    proof (cases "nb > 1")
      case True
      with run m c4 that show ?thesis by simp
    next
      case False
      with t(5) have "nb = 1" by simp
      with dropped d have "fn_truncated L T k sin_off din_off fn (fst (fn_drop_single fn2 c4))"
        by (simp add: fn_drop_single_def)
      moreover have "ctxt_ok env L T (snd (fn_drop_single fn2 c4))" "same_base c (snd (fn_drop_single fn2 c4))"
        using c4 same_base_trans [OF c4(2) same_base_simps(3)] by (simp_all add: fn_drop_single_def ctxt_ok_remove)
      ultimately show ?thesis using run False that by simp
    qed
  qed
qed

subsection \<open>The operation\<close>

lemma FileNode_rb_truncate_ok:
  assumes wf: "fn_wf L T fn" and ok: "ctxt_ok env L T c"
  obtains fn' c' nb where "FileNode_rb_truncate env k fn c = (fn', c', Inr nb)"
    "ctxt_ok env L T c'" "same_base c c'" "fn_truncated L T k 0 din_off fn fn'"
proof -
  obtain fn1 off where i: "fn_trunc_inline k fn = (fn1, off)" "fn_truncated L T k 0 INLSZ fn fn1"
    "off = INLSZ \<or> k < INLSZ \<and> off = INLSZ + INLSZ"
    by (rule fn_trunc_inline_ok [OF wf])
  have wf1: "fn_wf L T fn1" using i(2) by (simp add: fn_truncated_def)
  from fn_trunc_direct_ok [OF i(3) le0 wf1 ok, of 1] obtain fn2 c2 m where
    d: "fn_trunc_direct env k off 1 [0..<NDIRECT] fn1 c = (fn2, c2, Inr m)" "ctxt_ok env L T c2" "same_base c c2"
    "fn_truncated L T k INLSZ sin_off fn1 fn2" by auto
  have wf2: "fn_wf L T fn2" using d(4) by (simp add: fn_truncated_def)
  have "off + NDIRECT * BLKSZ = sin_off \<or> k < INLSZ \<and> off + NDIRECT * BLKSZ = sin_off + INLSZ"
    using i(3) by (auto simp: sin_off_def)
  from fn_trunc_single_ok [OF this wf2 d(2), of m] obtain fn3 c3 m3 where
    s: "fn_trunc_single env k (off + NDIRECT * BLKSZ) m fn2 c2 = (fn3, c3, Inr m3)" "ctxt_ok env L T c3"
    "same_base c2 c3" "fn_truncated L T k sin_off din_off fn2 fn3" .
  have "fn_truncated L T k 0 din_off fn fn3"
    using off_order by (intro fn_truncated_join [OF i(2) fn_truncated_join [OF d(4) s(4)]]) simp_all
  with that s(1,2) i(1) d(1) same_base_trans [OF d(3) s(3)] show ?thesis
    by (simp add: FileNode_rb_truncate_def)
qed

lemma FileNode_truncate_ok:
  assumes wf: "fn_wf L T fn" and ok: "ctxt_ok env L T c"
  obtains fn' c' where "FileNode_truncate env now k fn c = (fn', c', Inr 0)"
    "fn_wf L T fn'" "ctxt_ok env L T c'" "same_base c c'" "fn_dirty fn'" "fn_size fn' = k"
    "\<forall>p < end_off. fcont L fn' p = (if k \<le> p \<and> p < din_off then 0 else fcont L fn p)"
proof -
  obtain fn1 c' nb where t: "FileNode_rb_truncate env k fn c = (fn1, c', Inr nb)"
    "ctxt_ok env L T c'" "same_base c c'" "fn_truncated L T k 0 din_off fn fn1"
    by (rule FileNode_rb_truncate_ok [OF wf ok])
  let ?fn2 = "set_size k (set_blocks nb fn1)"
  let ?fn = "?fn2\<lparr>m_inode := (m_inode ?fn2)\<lparr>ino_mtime := now\<rparr>, fn_dirty := True\<rparr>"
  have f: "fcont L ?fn = fcont L fn1" by (rule fcont_cong) (simp_all add: set_size_def set_blocks_def)
  show ?thesis
  proof
    show "FileNode_truncate env now k fn c = (?fn, c', Inr 0)" using t(1) by (simp add: FileNode_truncate_def Let_def)
    show "fn_wf L T ?fn"
      by (rule fcont_cong(2) [of ?fn fn1]) (use t(4) in \<open>simp_all add: set_size_def set_blocks_def fn_truncated_def\<close>)
    show "ctxt_ok env L T c'" "same_base c c'" by (fact t)+
    show "fn_dirty ?fn" "fn_size ?fn = k" by (simp_all add: set_size_def)
    show "\<forall>p < end_off. fcont L ?fn p = (if k \<le> p \<and> p < din_off then 0 else fcont L fn p)"
      unfolding f using t(4) by (auto simp: fn_truncated_def)
  qed
qed

end
