(* ===== verification/File_Ops.thy ===== *)
theory File_Ops
  imports File_Truncate
begin

text \<open>
  Files as sequences of octets. \<open>afile\<close> is what a file is for its user, a size and the octets,
  and \<open>afile_op\<close> what reading, writing and truncating mean there. The locale \<open>octet_file\<close> states
  that an implementation does the same step by step; the inode and its block trees are an
  instance of it, for files within the reach of the single indirect block, as a truncation
  does not see the blocks beyond it.
\<close>

subsection \<open>The context of a file system\<close>

text \<open>
  What \<^verbatim>\<open>UTFileSystem::fs_mkfs\<close> and \<^verbatim>\<open>UTFileSystem::fs_mount\<close> put into the context. Mounting
  leaves the zero triple indirect block as it was, which is null in a new file system object.
\<close>

definition ctxt_new :: "'bs \<Rightarrow> 'bs ctxt" where
  "ctxt_new bsh =
     \<lparr>m_bsh = bsh, m_cipher = BlockCipher_unset_key, m_zdatobj = None, m_zsinobj = None, m_zdinobj = None,
      m_ztinobj = None, m_bncache = Map.empty, m_ngops = 0, m_npops = 0, m_ngbytes = 0, m_npbytes = 0, m_nrand = 0\<rparr>"

definition ctxt_mount :: "'bs env \<Rightarrow> bytes \<Rightarrow> 'bs \<Rightarrow> 'bs ctxt \<Rightarrow> 'bs ctxt" where
  "ctxt_mount env i_passphrase i_bsh c =
     (let zdat = ZeroDataBlockNode; zsin = ZeroIndirectBlockNode zdat; zdin = ZeroDoubleIndBlockNode zsin in
      c\<lparr>m_bsh := i_bsh, m_cipher := BlockCipher_set_key (Digest_of (e_sha256 env) i_passphrase),
        m_zdatobj := Some zdat, m_zsinobj := Some zsin, m_zdinobj := Some zdin\<rparr>)"

definition ctxt_mkfs :: "'bs env \<Rightarrow> bytes \<Rightarrow> 'bs \<Rightarrow> 'bs ctxt \<Rightarrow> 'bs ctxt" where
  "ctxt_mkfs env i_passphrase i_bsh c =
     (let zdat = ZeroDataBlockNode; zsin = ZeroIndirectBlockNode zdat; zdin = ZeroDoubleIndBlockNode zsin;
          ztin = ZeroTripleIndBlockNode zdin in
      c\<lparr>m_bsh := i_bsh, m_cipher := BlockCipher_set_key (Digest_of (e_sha256 env) i_passphrase),
        m_zdatobj := Some zdat, m_zsinobj := Some zsin, m_zdinobj := Some zdin, m_ztinobj := Some ztin\<rparr>)"

text \<open>A node whose slots all hold the same tree of zeros.\<close>

lemma zero_tree_Suc:
  assumes "wfn L T True l z" "\<forall>p < span l. ncont L l z p = 0"
  shows "wfn L T True (Suc l) (IndNode (Suc l) r d True (replicate NUMREF BlockRef_nil) (replicate NUMREF (Some z)))"
    "\<forall>p < span (Suc l).
       ncont L (Suc l) (IndNode (Suc l) r d True (replicate NUMREF BlockRef_nil) (replicate NUMREF (Some z))) p = 0"
proof -
  show "wfn L T True (Suc l) (IndNode (Suc l) r d True (replicate NUMREF BlockRef_nil) (replicate NUMREF (Some z)))"
    using assms(1) by (simp del: wfn.simps)
  have "p div span l < NUMREF" if "p < span (Suc l)" for p using that by (simp add: less_mult_imp_div_less)
  then show "\<forall>p < span (Suc l).
      ncont L (Suc l) (IndNode (Suc l) r d True (replicate NUMREF BlockRef_nil) (replicate NUMREF (Some z))) p = 0"
    using assms(2) by (simp add: slot_cont_def)
qed

lemma zero_trees:
  shows "wfn L T True 0 ZeroDataBlockNode \<and> (\<forall>p < span 0. ncont L 0 ZeroDataBlockNode p = 0)" (is ?d)
    and "wfn L T True 1 (ZeroIndirectBlockNode ZeroDataBlockNode) \<and>
      (\<forall>p < span 1. ncont L 1 (ZeroIndirectBlockNode ZeroDataBlockNode) p = 0)" (is ?s)
    and "wfn L T True 2 (ZeroDoubleIndBlockNode (ZeroIndirectBlockNode ZeroDataBlockNode)) \<and>
      (\<forall>p < span 2. ncont L 2 (ZeroDoubleIndBlockNode (ZeroIndirectBlockNode ZeroDataBlockNode)) p = 0)" (is ?t)
    and "wfn L T True 3 (ZeroTripleIndBlockNode (ZeroDoubleIndBlockNode (ZeroIndirectBlockNode ZeroDataBlockNode))) \<and>
      (\<forall>p < span 3. ncont L 3 (ZeroTripleIndBlockNode (ZeroDoubleIndBlockNode
         (ZeroIndirectBlockNode ZeroDataBlockNode))) p = 0)" (is ?u)
proof -
  show d: ?d by (simp add: ZeroDataBlockNode_def del: wfn.simps)
  show s: ?s using zero_tree_Suc [of L T 0 ZeroDataBlockNode] d
    by (simp add: ZeroIndirectBlockNode_def del: wfn.simps ncont.simps span.simps)
  show t: ?t using zero_tree_Suc [of L T 1] s
    by (simp add: ZeroDoubleIndBlockNode_def numeral_2_eq_2 del: wfn.simps ncont.simps span.simps)
  show ?u using zero_tree_Suc [of L T 2] t
    by (simp add: ZeroTripleIndBlockNode_def numeral_3_eq_3 del: wfn.simps ncont.simps span.simps)
qed

definition loads :: "'bs env \<Rightarrow> 'bs ctxt \<Rightarrow> loader" where
  "loads env c l r = snd (load_node env l r c)"

lemma le3: "(l :: nat) \<le> 3 \<longleftrightarrow> l = 0 \<or> l = 1 \<or> l = 2 \<or> l = 3"
  by auto

lemma ctxt_mkfs_ok:
  assumes "m_bncache c = Map.empty"
  shows "ctxt_ok env (loads env (ctxt_mkfs env pass bsh c)) T (ctxt_mkfs env pass bsh c)"
proof -
  let ?c = "ctxt_mkfs env pass bsh c"
  have z: "zero_obj 0 ?c = Some ZeroDataBlockNode" "zero_obj 1 ?c = Some (ZeroIndirectBlockNode ZeroDataBlockNode)"
    "zero_obj 2 ?c = Some (ZeroDoubleIndBlockNode (ZeroIndirectBlockNode ZeroDataBlockNode))"
    "zero_obj 3 ?c = Some (ZeroTripleIndBlockNode (ZeroDoubleIndBlockNode (ZeroIndirectBlockNode ZeroDataBlockNode)))"
    by (simp_all add: ctxt_mkfs_def Let_def numeral_2_eq_2 numeral_3_eq_3)
  have "zeros_ok (loads env ?c) T ?c"
    unfolding zeros_ok_def le3 using z zero_trees by blast
  moreover have "m_bncache ?c = Map.empty" using assms by (simp add: ctxt_mkfs_def Let_def)
  ultimately show ?thesis by (simp add: ctxt_ok_def coh_def loads_def)
qed

subsection \<open>Files as octets\<close>

record afile =
  a_size :: nat
  a_data :: "nat \<Rightarrow> byte"

datatype fop = FRead nat nat | FWrite bytes nat | FTruncate nat

fun afile_op :: "fop \<Rightarrow> afile \<Rightarrow> afile \<times> bytes \<times> int" where
  "afile_op (FRead sz off) a =
     (let e = min (off + sz) (a_size a) in (a, map (a_data a) [off..<e], int (e - off)))"
| "afile_op (FWrite dat off) a =
     (a\<lparr>a_size := max (off + length dat) (a_size a),
        a_data := (\<lambda>p. if off \<le> p \<and> p < off + length dat then dat ! (p - off) else a_data a p)\<rparr>,
      [], int (length dat))"
| "afile_op (FTruncate k) a =
     (a\<lparr>a_size := k, a_data := (\<lambda>p. if p < k then a_data a p else 0)\<rparr>, [], 0)"

fun afile_run :: "fop list \<Rightarrow> afile \<Rightarrow> afile \<times> (bytes \<times> int) list" where
  "afile_run [] a = (a, [])"
| "afile_run (op # ops) a =
     (let (a1, x) = afile_op op a; (a2, xs) = afile_run ops a1 in (a2, x # xs))"

definition afile_empty :: afile where
  "afile_empty = \<lparr>a_size = 0, a_data = (\<lambda>_. 0)\<rparr>"

text \<open>The operations that stay below the offset \<open>lim\<close>; reads may go on to the end of the addressable octets.\<close>

fun fop_fits :: "nat \<Rightarrow> fop \<Rightarrow> bool" where
  "fop_fits lim (FRead sz off) \<longleftrightarrow> off + sz \<le> end_off"
| "fop_fits lim (FWrite dat off) \<longleftrightarrow> dat \<noteq> [] \<and> off + length dat \<le> lim"
| "fop_fits lim (FTruncate k) \<longleftrightarrow> k \<le> lim"

fun file_run :: "(fop \<Rightarrow> 's \<Rightarrow> 's \<times> 'x) \<Rightarrow> fop list \<Rightarrow> 's \<Rightarrow> 's \<times> 'x list" where
  "file_run step [] s = (s, [])"
| "file_run step (op # ops) s =
     (let (s1, x) = step op s; (s2, xs) = file_run step ops s1 in (s2, x # xs))"

text \<open>An implementation: a state, its steps, and when a state stands for a file.\<close>

locale octet_file =
  fixes step :: "fop \<Rightarrow> 's \<Rightarrow> 's \<times> (bytes \<times> int) res"
    and repr :: "'s \<Rightarrow> afile \<Rightarrow> bool"
    and fits :: "fop \<Rightarrow> bool"
  assumes step_repr: "repr s a \<Longrightarrow> fits op \<Longrightarrow> afile_op op a = (a', x) \<Longrightarrow>
    \<exists>s'. step op s = (s', Inr x) \<and> repr s' a'"
begin

lemma file_run_refines:
  assumes "repr s a" "list_all fits ops"
  shows "\<exists>s'. file_run step ops s = (s', map Inr (snd (afile_run ops a))) \<and> repr s' (fst (afile_run ops a))"
  using assms
proof (induction ops arbitrary: s a)
  case (Cons op ops)
  obtain a1 x where a: "afile_op op a = (a1, x)" by (metis surj_pair)
  from step_repr [OF Cons.prems(1) _ a] Cons.prems(2) obtain s1 where s: "step op s = (s1, Inr x)" "repr s1 a1"
    by auto
  from Cons.IH [OF s(2)] Cons.prems(2) obtain s' where
    "file_run step ops s1 = (s', map Inr (snd (afile_run ops a1)))" "repr s' (fst (afile_run ops a1))" by auto
  with a s(1) show ?case by (simp add: split_beta Let_def)
qed simp

text \<open>A read of what was written returns it.\<close>

lemma read_after_write:
  assumes "repr s a" "fits (FWrite dat off)" "fits (FRead (length dat) off)"
  shows "\<exists>s'. file_run step [FWrite dat off, FRead (length dat) off] s =
    (s', [Inr ([], int (length dat)), Inr (dat, int (length dat))])"
proof -
  have "map (\<lambda>p. if off \<le> p \<and> p < off + length dat then dat ! (p - off) else a_data a p) [off..<off + length dat] = dat"
    by (rule nth_equalityI) auto
  with file_run_refines [OF assms(1), of "[FWrite dat off, FRead (length dat) off]"] assms(2,3)
  show ?thesis by (auto simp: Let_def)
qed

end

subsection \<open>The inode as a file\<close>

fun fn_step :: "'bs env \<Rightarrow> int \<Rightarrow> flags \<Rightarrow> fop \<Rightarrow> filenode \<times> 'bs ctxt \<Rightarrow> (filenode \<times> 'bs ctxt) \<times> (bytes \<times> int) res" where
  "fn_step env now fl (FRead sz off) (fn, c) =
     (case FileNode_read env (replicate sz 0) sz off fl fn c of
        (fn1, c1, buf, Inl e) \<Rightarrow> ((fn1, c1), Inl e)
      | (fn1, c1, buf, Inr n) \<Rightarrow> ((fn1, c1), Inr (take (nat n) buf, n)))"
| "fn_step env now fl (FWrite dat off) (fn, c) =
     (case FileNode_write env dat (length dat) off fn c of
        (fn1, c1, Inl e) \<Rightarrow> ((fn1, c1), Inl e)
      | (fn1, c1, Inr n) \<Rightarrow> ((fn1, c1), Inr ([], n)))"
| "fn_step env now fl (FTruncate k) (fn, c) =
     (case FileNode_truncate env now k fn c of
        (fn1, c1, Inl e) \<Rightarrow> ((fn1, c1), Inl e)
      | (fn1, c1, Inr n) \<Rightarrow> ((fn1, c1), Inr ([], n)))"

definition fn_repr :: "'bs env \<Rightarrow> loader \<Rightarrow> (blkref \<Rightarrow> nat) \<Rightarrow> filenode \<times> 'bs ctxt \<Rightarrow> afile \<Rightarrow> bool" where
  "fn_repr env L T fc a \<longleftrightarrow>
     fn_wf L T (fst fc) \<and> ctxt_ok env L T (snd fc) \<and> fn_size (fst fc) = a_size a \<and>
     (\<forall>p < end_off. fcont L (fst fc) p = a_data a p) \<and> (\<forall>p \<ge> din_off. a_data a p = 0)"

lemma fn_step_read:
  assumes r: "fn_repr env L T (fn, c) a" and fl: "\<not> has_flag fl RB_MODIFY_X" and fit: "off + sz \<le> end_off"
    and a: "afile_op (FRead sz off) a = (a', x)"
  shows "\<exists>s'. fn_step env now fl (FRead sz off) (fn, c) = (s', Inr x) \<and> fn_repr env L T s' a'"
proof -
  let ?e = "min (off + sz) (fn_size fn)"
  obtain c' where rd: "FileNode_read env (replicate sz 0) sz off fl fn c =
      (fn, c', map (fcont L fn) [off..<?e] @ drop (?e - off) (replicate sz 0), Inr (int (?e - off)))"
    "ctxt_ok env L T c'"
    by (rule FileNode_read_ok [OF fl, of L T fn env c "replicate sz 0" sz off]) (use r fit in \<open>auto simp: fn_repr_def\<close>)
  have "map (fcont L fn) [off..<?e] = map (a_data a) [off..<?e]"
    by (rule map_cong) (use r fit in \<open>auto simp: fn_repr_def\<close>)
  then show ?thesis using rd r a by (auto simp: fn_repr_def Let_def)
qed

lemma fn_step_write:
  assumes r: "fn_repr env L T (fn, c) a" and fit: "dat \<noteq> []" "off + length dat \<le> din_off"
    and a: "afile_op (FWrite dat off) a = (a', x)"
  shows "\<exists>s'. fn_step env now fl (FWrite dat off) (fn, c) = (s', Inr x) \<and> fn_repr env L T s' a'"
proof -
  have f: "fn_wf L T fn" "ctxt_ok env L T c" "0 < length dat" "off + length dat \<le> end_off"
    using r fit off_order by (simp_all add: fn_repr_def)
  obtain fn' c' where w: "FileNode_write env dat (length dat) off fn c = (fn', c', Inr (int (length dat)))"
    "fn_wf L T fn'" "ctxt_ok env L T c'" "fn_size fn' = max (off + length dat) (fn_size fn)"
    "\<forall>p < end_off. fcont L fn' p = (if off \<le> p \<and> p < off + length dat then dat ! (p - off) else fcont L fn p)"
    by (rule FileNode_write_ok [OF f(1,2) refl f(3,4)])
  have "fn_repr env L T (fn', c') a'"
    using r a w(2-5) fit(2) by (auto simp: fn_repr_def)
  with w(1) a show ?thesis by auto
qed

lemma fn_step_truncate:
  assumes r: "fn_repr env L T (fn, c) a" and fit: "k \<le> din_off"
    and a: "afile_op (FTruncate k) a = (a', x)"
  shows "\<exists>s'. fn_step env now fl (FTruncate k) (fn, c) = (s', Inr x) \<and> fn_repr env L T s' a'"
proof -
  have f: "fn_wf L T fn" "ctxt_ok env L T c" using r by (simp_all add: fn_repr_def)
  obtain fn' c' where t: "FileNode_truncate env now k fn c = (fn', c', Inr 0)"
    "fn_wf L T fn'" "ctxt_ok env L T c'" "fn_size fn' = k"
    "\<forall>p < end_off. fcont L fn' p = (if k \<le> p \<and> p < din_off then 0 else fcont L fn p)"
    by (rule FileNode_truncate_ok [OF f])
  have "fcont L fn' p = a_data a' p" if "p < end_off" for p
    using that r a fit t(5) by (cases "p < din_off") (auto simp: fn_repr_def)
  then have "fn_repr env L T (fn', c') a'" using r a t(2-4) by (auto simp: fn_repr_def)
  with t(1) a show ?thesis by auto
qed

interpretation fnf: octet_file "fn_step env now fl" "\<lambda>fc a. fn_repr env L T fc a \<and> \<not> has_flag fl RB_MODIFY_X"
  "fop_fits din_off" for env now fl L T
proof
  fix s a op a' x
  assume r: "fn_repr env L T s a \<and> \<not> has_flag fl RB_MODIFY_X" and fit: "fop_fits din_off op"
    and a: "afile_op op a = (a', x)"
  obtain fn c where s: "s = (fn, c)" by fastforce
  show "\<exists>s'. fn_step env now fl op s = (s', Inr x) \<and> fn_repr env L T s' a' \<and> \<not> has_flag fl RB_MODIFY_X"
  proof (cases op)
    case (FRead sz off)
    with fn_step_read [of env L T fn c a fl off sz] r fit a s show ?thesis by auto
  next
    case (FWrite dat off)
    with fn_step_write [of env L T fn c a dat off] r fit a s show ?thesis by auto
  next
    case (FTruncate k)
    with fn_step_truncate [of env L T fn c a k] r fit a s show ?thesis by auto
  qed
qed

lemma new_file_repr:
  assumes "ctxt_ok env L T c"
  shows "fn_repr env L T (FileNode_new mode u g now, c) afile_empty"
  using assms by (simp add: fn_repr_def afile_empty_def FileNode_new_ok)

subsection \<open>Properties\<close>


definition wit_env :: "unit env" where
  "wit_env = \<lparr>e_sha256 = (\<lambda>_. replicate 32 0), e_aes = (\<lambda>_ _ _ b. b), e_rand = (\<lambda>_. None),
     e_get = (\<lambda>_ _ _. Inl NotFoundError), e_put = (\<lambda>s _ _. (s, Inl NoSpaceError)),
     e_refresh = (\<lambda>s _ _. (s, Inl NotFoundError)), e_junk = []\<rparr>"

abbreviation wit_ctxt :: "unit ctxt" where
  "wit_ctxt \<equiv> ctxt_mkfs wit_env [] () (ctxt_new ())"

abbreviation wit_file :: filenode where
  "wit_file \<equiv> FileNode_new 0 [] [] 0"

lemma wit_ctxt_ok: "ctxt_ok wit_env (loads wit_env wit_ctxt) T wit_ctxt"
  by (rule ctxt_mkfs_ok) (simp add: ctxt_new_def)






text \<open>
  C21. A truncation completes, sets the size, zeroes every octet from the new end up to the
  end of the single indirect block and keeps the octets before the new end; the octets of
  the double and triple indirect blocks are all kept, whatever the new size.
\<close>

theorem file_truncate_effect:
  assumes "fn_wf L T fn" "ctxt_ok env L T c"
  shows "\<exists>fn' c'. FileNode_truncate env now k fn c = (fn', c', Inr 0) \<and> fn_wf L T fn' \<and> ctxt_ok env L T c' \<and>
      m_bsh c' = m_bsh c \<and> fn_dirty fn' \<and> fn_size fn' = k \<and>
      (\<forall>p < end_off. fcont L fn' p = (if k \<le> p \<and> p < din_off then 0 else fcont L fn p))"
proof -
  from FileNode_truncate_ok [OF assms] obtain fn' c' where "FileNode_truncate env now k fn c = (fn', c', Inr 0)"
    "fn_wf L T fn'" "ctxt_ok env L T c'" "same_base c c'" "fn_dirty fn'" "fn_size fn' = k"
    "\<forall>p < end_off. fcont L fn' p = (if k \<le> p \<and> p < din_off then 0 else fcont L fn p)" by blast
  then show ?thesis unfolding same_base_def by blast
qed

theorem file_truncate_effect_witness:
  "\<exists>fn' c'. FileNode_truncate wit_env 1 5000 wit_file wit_ctxt = (fn', c', Inr 0) \<and> fn_size fn' = 5000 \<and> fn_dirty fn'"
  using file_truncate_effect [where T = "\<lambda>_. 0" and fn = wit_file and now = 1 and k = 5000,
      OF FileNode_new_ok(1) wit_ctxt_ok] by blast

text \<open>
  C33. An octet written at the start of the double indirect block survives a truncation to
  nothing: when the file is extended again, a read returns the old octet, not zero.
\<close>

theorem truncated_octet_reappears:
  "snd (file_run (fn_step env now 0) [FWrite [b] din_off, FTruncate 0, FTruncate (din_off + 1), FRead 1 din_off]
      (FileNode_new mode u g now0, ctxt_mkfs env pass bsh (ctxt_new bsh0))) =
   [Inr ([], 1), Inr ([], 0), Inr ([], 0), Inr ([b], 1)]"
proof -
  let ?c = "ctxt_mkfs env pass bsh (ctxt_new bsh0)" and ?fn = "FileNode_new mode u g now0"
  let ?L = "loads env ?c" and ?T = "\<lambda>_. 0 :: nat"
  have ok: "ctxt_ok env ?L ?T ?c" by (rule ctxt_mkfs_ok) (simp add: ctxt_new_def)
  have fit: "din_off + 1 \<le> end_off" "din_off + length [b] \<le> end_off" using off_order by simp_all
  have "0 < length [b]" by simp
  from FileNode_write_ok [OF FileNode_new_ok(1) ok refl this fit(2)] obtain fn1 c1 where w:
    "FileNode_write env [b] (length [b]) din_off ?fn ?c = (fn1, c1, Inr (int (length [b])))" "fn_wf ?L ?T fn1"
    "ctxt_ok env ?L ?T c1"
    "\<forall>p < end_off. fcont ?L fn1 p = (if din_off \<le> p \<and> p < din_off + length [b] then [b] ! (p - din_off)
       else fcont ?L ?fn p)" by blast
  from FileNode_truncate_ok [OF w(2,3), of now 0] obtain fn2 c2 where t:
    "FileNode_truncate env now 0 fn1 c1 = (fn2, c2, Inr 0)" "fn_wf ?L ?T fn2" "ctxt_ok env ?L ?T c2"
    "\<forall>p < end_off. fcont ?L fn2 p = (if 0 \<le> p \<and> p < din_off then 0 else fcont ?L fn1 p)" by blast
  from FileNode_truncate_ok [OF t(2,3), of now "din_off + 1"] obtain fn3 c3 where e:
    "FileNode_truncate env now (din_off + 1) fn2 c2 = (fn3, c3, Inr 0)" "fn_wf ?L ?T fn3" "ctxt_ok env ?L ?T c3"
    "fn_size fn3 = din_off + 1"
    "\<forall>p < end_off. fcont ?L fn3 p = (if din_off + 1 \<le> p \<and> p < din_off then 0 else fcont ?L fn2 p)" by blast
  have b: "fcont ?L fn3 din_off = b" using e(5) t(4) w(4) off_order by simp
  have "length (replicate 1 (0 :: byte)) = 1" by simp
  from FileNode_read_ok [OF has_flag_modify(2) e(2,3) this fit(1)] obtain c4 where
    "FileNode_read env (replicate 1 0) 1 din_off 0 fn3 c3 = (fn3, c4, [b], Inr 1)"
    by (auto simp: e(4) b)
  with w(1) t(1) e(1) show ?thesis by (simp add: Let_def)
qed

lemma sect_then_next:
  assumes "sect_reads env L T ro rs fn lo mid a" "may_read env L T ro rs st" "mid < ro + rs"
  obtains st1 where "sect_then a b fn st = b fn st1" "may_read env L T ro rs st1" "t_blocks st1 = t_blocks st"
proof -
  obtain st1 where "a fn st = (fn, st1, Inr (ro + rs \<le> mid))" "read_to env L T (fn_size fn) lo mid (fcont L fn) st st1"
    by (rule sect_readsE [OF assms(1,2)])
  then show ?thesis using that assms(3) may_read_after [OF assms(2)] by (simp add: sect_then_def read_to_def)
qed

lemma FileNode_read_beyond:
  assumes fl: "\<not> has_flag fl RB_MODIFY_X" and wf: "fn_wf L T fn" and ok: "ctxt_ok env L T c"
    and buf: "length buf = sz" and far: "end_off < off + sz"
  shows "\<exists>c' buf'. FileNode_read env buf sz off fl fn c = (fn, c', buf', Inl InternalError)"
proof -
  let ?st = "\<lparr>t_ctxt = c, t_btf = ReadBTF buf sz off 0, t_blocks = fn_blocks fn\<rparr>"
  have st: "may_read env L T off sz ?st" using ok buf by (simp add: may_read_def is_read_def btf_ok_def)
  let ?t = "sect_then (fn_triple env fl off sz) fn_beyond"
  let ?d = "sect_then (fn_double env fl off sz) ?t"
  let ?s = "sect_then (fn_single env fl off sz) ?d"
  let ?i = "sect_then (fn_direct env fl off sz) ?s"
  have o: "INLSZ < off + sz" "sin_off < off + sz" "din_off < off + sz" "tin_off < off + sz"
    using off_order far by linarith+
  obtain st1 where 1: "sect_then (fn_inline off sz) ?i fn ?st = ?i fn st1" "may_read env L T off sz st1" "t_blocks st1 = t_blocks ?st"
    by (rule sect_then_next [OF fn_inline_reads [OF wf] st o(1)])
  obtain st2 where 2: "?i fn st1 = ?s fn st2" "may_read env L T off sz st2" "t_blocks st2 = t_blocks st1"
    by (rule sect_then_next [OF fn_direct_reads [OF fl wf] 1(2) o(2)])
  obtain st3 where 3: "?s fn st2 = ?d fn st3" "may_read env L T off sz st3" "t_blocks st3 = t_blocks st2"
    by (rule sect_then_next [OF fn_tree_reads(1) [OF fl wf] 2(2) o(3)])
  obtain st4 where 4: "?d fn st3 = ?t fn st4" "may_read env L T off sz st4" "t_blocks st4 = t_blocks st3"
    by (rule sect_then_next [OF fn_tree_reads(2) [OF fl wf] 3(2) o(4)])
  obtain st5 where 5: "?t fn st4 = fn_beyond fn st5" "may_read env L T off sz st5" "t_blocks st5 = t_blocks st4"
    by (rule sect_then_next [OF fn_tree_reads(3) [OF fl wf] 4(2) far])
  have "set_blocks (t_blocks st5) fn = fn" using 1(3) 2(3) 3(3) 4(3) 5(3) by (simp add: set_blocks_def)
  with 1(1) 2(1) 3(1) 4(1) 5(1) show ?thesis
    by (simp add: FileNode_read_def FileNode_traverse_def fn_beyond_def Let_def)
qed

text \<open>
  A read whose range ends beyond the triple indirect block throws, also where it would
  lie beyond the end of a short file and have nothing to read.
\<close>

theorem file_read_beyond:
  assumes "fn_wf L T fn" "ctxt_ok env L T c" "\<not> has_flag fl RB_MODIFY_X" "length buf = sz" "end_off < off + sz"
  shows "\<exists>c' buf'. FileNode_read env buf sz off fl fn c = (fn, c', buf', Inl InternalError)"
  by (rule FileNode_read_beyond [OF assms(3,1,2,4,5)])

theorem file_read_beyond_witness:
  "\<exists>c' buf'. FileNode_read wit_env [7] 1 end_off 0 wit_file wit_ctxt = (wit_file, c', buf', Inl InternalError)"
  using file_read_beyond [where T = "\<lambda>_. 0" and fn = wit_file and fl = 0 and buf = "[7]" and sz = 1 and off = end_off,
      OF FileNode_new_ok(1) wit_ctxt_ok] by simp

text \<open>
  In a file system that was mounted, and not made, by its process, a read in the range of
  the triple indirect block of a file that has none dereferences a null pointer.
\<close>

theorem mounted_sparse_triple_null:
  assumes "m_tinobj fn = None" "\<not> ref_set (m_tinref fn)" "\<not> has_flag fl RB_MODIFY_X"
    "0 < sz" "tin_off \<le> off" "off < end_off"
  shows "snd (snd (snd (FileNode_read env buf sz off fl fn (ctxt_mount env pass bsh (ctxt_new bsh0))))) = Inl NullDeref"
proof -
  let ?c = "ctxt_mount env pass bsh (ctxt_new bsh0)"
  have o: "INLSZ \<le> off" "sin_off \<le> off" "din_off \<le> off" "INLSZ < off + sz" "sin_off < off + sz" "din_off < off + sz"
    "tin_off < off + sz" using off_order assms(4,5) by linarith+
  have "zero_obj 3 ?c = None" by (simp add: ctxt_mount_def ctxt_new_def Let_def numeral_3_eq_3)
  then have "fn_triple env fl off sz fn \<lparr>t_ctxt = ?c, t_btf = ReadBTF buf sz off 0, t_blocks = fn_blocks fn\<rparr> =
      (fn\<lparr>m_tinobj := None\<rparr>, \<lparr>t_ctxt = ?c, t_btf = ReadBTF buf sz off 0, t_blocks = fn_blocks fn\<rparr>, Inl NullDeref)"
    using assms by (simp add: fn_triple_def visit_child_def find_block_def)
  then show ?thesis
    using o assms(5)
    by (simp add: FileNode_read_def FileNode_traverse_def sect_then_def fn_inline_def fn_direct_def fn_single_def
        fn_double_def sin_off_def [symmetric] Let_def not_le [symmetric] not_less)
qed

theorem mounted_sparse_triple_null_witness:
  "snd (snd (snd (FileNode_read wit_env [0] 1 tin_off 0 wit_file (ctxt_mount wit_env [] () (ctxt_new ()))))) = Inl NullDeref"
  by (rule mounted_sparse_triple_null) (use off_order in \<open>simp_all add: FileNode_new_def\<close>)

text \<open>
  A write of no octets changes nothing in a clean file, but in a file that is already
  dirty it sets the size to its offset when that is larger. This is for offsets within the inode.
\<close>

theorem empty_write_grows_dirty_file:
  assumes "off \<le> INLSZ"
  shows "FileNode_write env [] 0 off fn c =
    (if fn_dirty fn then set_size (max off (fn_size fn)) fn else fn, c, Inr 0)"
proof -
  have "FileNode_traverse env RB_MODIFY_X 0 off 0 fn c (WriteBTF [] 0 off 0) =
      (fn, c, WriteBTF [] 0 off 0, Inr (fn_dirty fn))"
    using assms by (simp add: FileNode_traverse_def sect_then_def fn_inline_def Let_def set_blocks_def)
  then show ?thesis by (auto simp: FileNode_write_def set_size_def)
qed

theorem empty_write_grows_dirty_file_witness:
  "FileNode_write wit_env [] 0 100 wit_file wit_ctxt = (set_size 100 wit_file, wit_ctxt, Inr 0)"
  using empty_write_grows_dirty_file [of 100 wit_env wit_file wit_ctxt]
  by (simp add: INLSZ_def FileNode_new_def)

text \<open>
  Changing the mode of a file replaces its permission bits by those of the argument and
  keeps its type.
\<close>

theorem chmod_bits:
  "and (ino_mode (m_inode (FileNode_chmod i_mode fn))) ALLPERMS = and i_mode ALLPERMS \<and>
   and (ino_mode (m_inode (FileNode_chmod i_mode fn))) (not ALLPERMS) = and (ino_mode (m_inode fn)) (not ALLPERMS) \<and>
   fn_dirty (FileNode_chmod i_mode fn)"
proof -
  have "and (or (and m (not a)) (and n a)) a = and n a" "and (or (and m (not a)) (and n a)) (not a) = and m (not a)"
    for m n a :: "32 word"
    by (rule bit_word_eqI; auto simp: bit_simps)+
  then show ?thesis by (simp add: FileNode_chmod_def Let_def)
qed

end
