(* ===== verification/Dir_Node.thy ===== *)
theory Dir_Node
  imports File_Ops Head_Graph "HOL-Library.List_Lexorder" "HOL-Library.Char_ord"
begin

text \<open>
  Directories and the other inodes derived from \<^verbatim>\<open>FileNode\<close>: \<^verbatim>\<open>DirNode.cpp\<close>,
  \<^verbatim>\<open>RootDirNode.cpp\<close>, \<^verbatim>\<open>SpecialDirNode.cpp\<close>, \<^verbatim>\<open>SpecialFileNode.cpp\<close> and
  \<^verbatim>\<open>SymlinkNode.cpp\<close> of \<^verbatim>\<open>modules/UTFileSystem\<close>.

  \<^item> Inodes are shared: a node may be in the dirty table of a directory and in the clean cache,
    under several references, at once. They live in a heap, and a handle is the index of the
    node in it.
  \<^item> The clean cache of inodes is \<open>n_fcache\<close>; the one of the blocks below them is in the
    context. A reference that is cached for a block of the other kind fails the cast.
  \<^item> The protobuf messages, the clock, the user data base and the head operations of the block
    store are fields of \<open>fenv\<close>.
  \<^item> A flush that never returns, which a directory that is its own descendant causes, is \<open>None\<close>.
\<close>

subsection \<open>Paths\<close>

definition pathsplit :: "string \<Rightarrow> (string \<times> string) res" where
  "pathsplit i_path =
     (case i_path of
        [] \<Rightarrow> Inl InternalError
      | c # rest \<Rightarrow>
          if c \<noteq> CHR ''/'' then Inl InternalError
          else
            (let name = takeWhile (\<lambda>x. x \<noteq> CHR ''/'') rest;
                 more = dropWhile (\<lambda>x. x \<noteq> CHR ''/'') rest in
             if more = [] then Inr (rest, [])
             else
               (let next = dropWhile (\<lambda>x. x = CHR ''/'') more in
                if next = [] then Inr (take (1 + length name) rest, [])
                else Inr (name, CHR ''/'' # next))))"

lemma pathsplit_rest:
  assumes "pathsplit (c # rest) = Inr (a, b)"
  shows "b = [] \<or> (\<exists>n. n = dropWhile (\<lambda>x. x = CHR ''/'') (dropWhile (\<lambda>x. x \<noteq> CHR ''/'') rest) \<and> n \<noteq> [] \<and> b = CHR ''/'' # n)"
proof -
  define name more where "name = takeWhile (\<lambda>x. x \<noteq> CHR ''/'') rest" and "more = dropWhile (\<lambda>x. x \<noteq> CHR ''/'') rest"
  define nxt where "nxt = dropWhile (\<lambda>x. x = CHR ''/'') more"
  show ?thesis
    using assms unfolding pathsplit_def Let_def list.case name_def [symmetric] more_def [symmetric] nxt_def [symmetric]
    by (auto split: if_split_asm)
qed

lemma pathsplit_shorter: "pathsplit p = Inr (a, b) \<Longrightarrow> length b < length p"
proof (cases p)
  case (Cons c rest)
  let ?more = "dropWhile (\<lambda>x. x \<noteq> CHR ''/'') rest"
  let ?next = "dropWhile (\<lambda>x. x = CHR ''/'') ?more"
  assume "pathsplit p = Inr (a, b)"
  then have b: "b = [] \<or> ?next \<noteq> [] \<and> b = CHR ''/'' # ?next" using pathsplit_rest Cons by blast
  have "length ?next < length rest" if "?next \<noteq> []"
  proof -
    from that have "?more \<noteq> []" by (metis dropWhile.simps(1))
    then obtain ys where m: "?more = CHR ''/'' # ys"
      using hd_dropWhile [of "\<lambda>x. x \<noteq> CHR ''/''" rest] by (metis list.exhaust_sel)
    have "length ?next \<le> length ys" unfolding m by (simp add: length_dropWhile_le)
    moreover have "length ?more \<le> length rest" by (rule length_dropWhile_le)
    ultimately show ?thesis unfolding m by simp
  qed
  then show ?thesis using b Cons by (metis length_Cons length_0_conv Suc_mono zero_less_Suc)
qed (simp add: pathsplit_def)

subsection \<open>Data\<close>

type_synonym fid = nat

record dirent =
  de_name :: string
  de_blkref :: bytes

text \<open>The classes derived from \<^verbatim>\<open>FileNode\<close>, with the members that are not in every node.\<close>

datatype fclass =
    CFile
  | CSymlink
  | CDir
  | CRoot fid
  | CSpecialDir fid "fid option"
  | CSpecialFile bytes

record fnobj =
  o_fn :: filenode
  o_class :: fclass
  o_dir :: "dirent list"
  o_dirty :: "(string \<times> fid) list"

record 'bs fenv =
  fe_env :: "'bs env"
  fe_ser_ino :: "inode \<Rightarrow> nat \<Rightarrow> bytes option"
  fe_parse_ino :: "bytes \<Rightarrow> inode option"
  fe_ser_dir :: "dirent list \<Rightarrow> bytes option"
  fe_parse_dir :: "bytes \<Rightarrow> dirent list option"
  fe_clock :: "nat \<Rightarrow> int"
  fe_uid :: "string \<Rightarrow> nat option"
  fe_gid :: "string \<Rightarrow> nat option"

record 'bs nst =
  n_ctxt :: "'bs ctxt"
  n_heap :: "fid \<Rightarrow> fnobj"
  n_next :: fid
  n_fcache :: "blkref \<Rightarrow> fid option"
  n_ticks :: nat

definition is_dirnode :: "fnobj \<Rightarrow> bool" where
  "is_dirnode ob = (case o_class ob of CDir \<Rightarrow> True | CRoot _ \<Rightarrow> True | CSpecialDir _ _ \<Rightarrow> True | _ \<Rightarrow> False)"

definition heap_set :: "fid \<Rightarrow> fnobj \<Rightarrow> ('bs, 'z) nst_scheme \<Rightarrow> ('bs, 'z) nst_scheme" where
  "heap_set i ob s = s\<lparr>n_heap := (n_heap s)(i := ob)\<rparr>"

definition alloc :: "fnobj \<Rightarrow> ('bs, 'z) nst_scheme \<Rightarrow> ('bs, 'z) nst_scheme \<times> fid" where
  "alloc ob s = (heap_set (n_next s) ob (s\<lparr>n_next := Suc (n_next s)\<rparr>), n_next s)"

definition T64_now :: "'bs fenv \<Rightarrow> ('bs, 'z) nst_scheme \<Rightarrow> ('bs, 'z) nst_scheme \<times> int" where
  "T64_now fe s = (s\<lparr>n_ticks := Suc (n_ticks s)\<rparr>, fe_clock fe (n_ticks s))"

text \<open>The dirty table is a \<^verbatim>\<open>std::map\<close>: sorted by name, and an insertion does not replace.\<close>

fun map_insert :: "string \<Rightarrow> fid \<Rightarrow> (string \<times> fid) list \<Rightarrow> (string \<times> fid) list" where
  "map_insert k v [] = [(k, v)]"
| "map_insert k v ((k', v') # m) =
     (if k < k' then (k, v) # (k', v') # m else if k = k' then (k', v') # m else (k', v') # map_insert k v m)"

definition map_erase :: "string \<Rightarrow> (string \<times> fid) list \<Rightarrow> (string \<times> fid) list" where
  "map_erase k m = filter (\<lambda>e. fst e \<noteq> k) m"

text \<open>The clean cache of inodes.\<close>

definition fcache_insert :: "fid \<Rightarrow> ('bs, 'z) nst_scheme \<Rightarrow> ('bs, 'z) nst_scheme" where
  "fcache_insert i s =
     (let r = fn_ref (o_fn (n_heap s i)) in
      if n_fcache s r = None \<and> m_bncache (n_ctxt s) r = None
      then s\<lparr>n_fcache := (n_fcache s)(r \<mapsto> i)\<rparr> else s)"

definition fcache_remove :: "blkref \<Rightarrow> ('bs, 'z) nst_scheme \<Rightarrow> ('bs, 'z) nst_scheme" where
  "fcache_remove r s = s\<lparr>n_fcache := (n_fcache s)(r := None), n_ctxt := cache_remove r (n_ctxt s)\<rparr>"

definition upd_fn :: "(filenode \<Rightarrow> filenode) \<Rightarrow> fid \<Rightarrow> ('bs, 'z) nst_scheme \<Rightarrow> ('bs, 'z) nst_scheme" where
  "upd_fn g i s = heap_set i ((n_heap s i)\<lparr>o_fn := g (o_fn (n_heap s i))\<rparr>) s"

definition set_mtime :: "int \<Rightarrow> filenode \<Rightarrow> filenode" where
  "set_mtime t fn = fn\<lparr>m_inode := (m_inode fn)\<lparr>ino_mtime := t\<rparr>\<rparr>"

definition set_atime :: "int \<Rightarrow> filenode \<Rightarrow> filenode" where
  "set_atime t fn = fn\<lparr>m_inode := (m_inode fn)\<lparr>ino_atime := t\<rparr>\<rparr>"

definition set_mode :: "32 word \<Rightarrow> filenode \<Rightarrow> filenode" where
  "set_mode m fn = fn\<lparr>m_inode := (m_inode fn)\<lparr>ino_mode := m\<rparr>\<rparr>"

definition set_nlink :: "32 word \<Rightarrow> filenode \<Rightarrow> filenode" where
  "set_nlink n fn = fn\<lparr>m_inode := (m_inode fn)\<lparr>ino_nlink := n\<rparr>\<rparr>"

definition set_dirty :: "filenode \<Rightarrow> filenode" where
  "set_dirty fn = fn\<lparr>fn_dirty := True\<rparr>"

subsection \<open>Constructors\<close>

definition S_IFMT :: "32 word" where "S_IFMT = 0xF000"
definition S_IFDIR :: "32 word" where "S_IFDIR = 0x4000"
definition S_IFLNK :: "32 word" where "S_IFLNK = 0xA000"

definition S_ISDIR :: "32 word \<Rightarrow> bool" where "S_ISDIR m \<longleftrightarrow> Bit_Operations.and m S_IFMT = S_IFDIR"
definition S_ISLNK :: "32 word \<Rightarrow> bool" where "S_ISLNK m \<longleftrightarrow> Bit_Operations.and m S_IFMT = S_IFLNK"

definition with_type :: "32 word \<Rightarrow> filenode \<Rightarrow> filenode" where
  "with_type t fn =
     set_mode (Bit_Operations.or (Bit_Operations.and (ino_mode (m_inode fn)) (Bit_Operations.not S_IFMT)) t) fn"

definition plain_node :: "fclass \<Rightarrow> filenode \<Rightarrow> fnobj" where
  "plain_node cl fn = \<lparr>o_fn = fn, o_class = cl, o_dir = [], o_dirty = []\<rparr>"

definition DirNode_fn :: "32 word \<Rightarrow> string \<Rightarrow> string \<Rightarrow> int \<Rightarrow> filenode" where
  "DirNode_fn mode uname gname now = set_nlink 2 (with_type S_IFDIR (FileNode_new mode uname gname now))"

definition DirNode_new :: "32 word \<Rightarrow> string \<Rightarrow> string \<Rightarrow> int \<Rightarrow> fnobj" where
  "DirNode_new mode uname gname now = plain_node CDir (DirNode_fn mode uname gname now)"

text \<open>A path longer than the inline buffer is copied over its end.\<close>

definition SymlinkNode_new :: "string \<Rightarrow> int \<Rightarrow> fnobj res" where
  "SymlinkNode_new i_path now =
     (let fn = with_type S_IFLNK (FileNode_new 0x1FF ''root'' ''root'' now) in
      if length i_path > INLSZ then Inl OutOfBounds
      else Inr (plain_node CSymlink
        (set_size (length i_path) (fn\<lparr>m_inl := memcpy_at (m_inl fn) 0 (map of_char i_path)\<rparr>))))"

text \<open>The upgrade of a loaded inode to a directory: its data is read and parsed.\<close>

definition DirNode_deserialize :: "'bs fenv \<Rightarrow> filenode \<Rightarrow> 'bs ctxt \<Rightarrow> 'bs ctxt \<times> fnobj res" where
  "DirNode_deserialize fe fn c =
     (case FileNode_read (fe_env fe) (replicate (fn_size fn) 0) (fn_size fn) 0 0 fn c of
        (fn1, c1, buf, Inl e) \<Rightarrow> (c1, Inl e)
      | (fn1, c1, buf, Inr rv) \<Rightarrow>
          if rv < 0 then (c1, Inl InternalError)
          else (case fe_parse_dir fe buf of
                  None \<Rightarrow> (c1, Inl InternalError)
                | Some ents \<Rightarrow> (c1, Inr ((plain_node CDir fn1)\<lparr>o_dir := ents\<rparr>))))"

text \<open>An inode from the store, upgraded to the class its mode names, in the heap.\<close>

definition fnode_load :: "'bs fenv \<Rightarrow> blkref \<Rightarrow> ('bs, 'z) nst_scheme \<Rightarrow> ('bs, 'z) nst_scheme \<times> fid res" where
  "fnode_load fe i_ref s =
     (case FileNode_load (fe_env fe) (fe_parse_ino fe) i_ref (n_ctxt s) of
        (c1, Inl e) \<Rightarrow> (s\<lparr>n_ctxt := c1\<rparr>, Inl e)
      | (c1, Inr fn) \<Rightarrow>
          (let (c2, r) =
             (if S_ISDIR (ino_mode (m_inode fn)) then DirNode_deserialize fe fn c1
              else if S_ISLNK (ino_mode (m_inode fn)) then (c1, Inr (plain_node CSymlink fn))
              else (c1, Inr (plain_node CFile fn)));
               s1 = s\<lparr>n_ctxt := c2\<rparr> in
           case r of
             Inl e \<Rightarrow> (s1, Inl e)
           | Inr ob \<Rightarrow> (let (s2, i) = alloc ob s1 in (s2, Inr i))))"

subsection \<open>Entries\<close>

definition lookup_dirty :: "fnobj \<Rightarrow> string \<Rightarrow> fid option" where
  "lookup_dirty ob i_entry = map_of (o_dirty ob) i_entry"

text \<open>
  The entry table: the first entry of a name counts. A reference is unmarshaled when it is
  used, which fails unless it has 32 octets.
\<close>

definition find_entry :: "string \<Rightarrow> dirent list \<Rightarrow> dirent option" where
  "find_entry i_entry ents = find (\<lambda>e. de_name e = i_entry) ents"

fun ent_update :: "string \<Rightarrow> blkref \<Rightarrow> dirent list \<Rightarrow> dirent list" where
  "ent_update i_entry i_blkref [] = [\<lparr>de_name = i_entry, de_blkref = i_blkref\<rparr>]"
| "ent_update i_entry i_blkref (e # es) =
     (if de_name e = i_entry then e\<lparr>de_blkref := i_blkref\<rparr> # es else e # ent_update i_entry i_blkref es)"

text \<open>
  Removal: the first entry of the name, looked for everywhere but in the last place, is
  overwritten by the last entry, and the last place is dropped. The result has the reference
  of the entry that was found.
\<close>

fun ent_swap :: "string \<Rightarrow> dirent \<Rightarrow> dirent list \<Rightarrow> dirent list \<times> bytes option" where
  "ent_swap i_entry lst [] = ([], None)"
| "ent_swap i_entry lst (e # es) =
     (if de_name e = i_entry then (lst # es, Some (de_blkref e))
      else (let (es1, r) = ent_swap i_entry lst es in (e # es1, r)))"

definition DirNode_remove :: "fid \<Rightarrow> string \<Rightarrow> ('bs, 'z) nst_scheme \<Rightarrow> ('bs, 'z) nst_scheme \<times> unit res" where
  "DirNode_remove i i_entry s =
     (let ob = n_heap s i in
      if o_dir ob = [] then (s, Inl OutOfBounds)
      else
        (let (es, found) = ent_swap i_entry (last (o_dir ob)) (butlast (o_dir ob)) in
         case (case found of None \<Rightarrow> Inr BlockRef_nil | Some r \<Rightarrow> BlockRef_parse r) of
           Inl e \<Rightarrow> (s, Inl e)
         | Inr ref \<Rightarrow>
             (let s1 = heap_set i (ob\<lparr>o_dir := es, o_dirty := map_erase i_entry (o_dirty ob)\<rparr>) s;
                  s2 = (if ref_set ref then fcache_remove ref s1 else s1)
              in (upd_fn set_dirty i s2, Inr ()))))"

definition DirNode_lookup ::
    "'bs fenv \<Rightarrow> bool \<Rightarrow> fid \<Rightarrow> string \<Rightarrow> ('bs, 'z) nst_scheme \<Rightarrow> ('bs, 'z) nst_scheme \<times> fid option res" where
  "DirNode_lookup fe i_readonly i i_entry s =
     (case lookup_dirty (n_heap s i) i_entry of
        Some j \<Rightarrow> (s, Inr (Some j))
      | None \<Rightarrow>
          (case find_entry i_entry (o_dir (n_heap s i)) of
             None \<Rightarrow> (s, Inr None)
           | Some ent \<Rightarrow>
               (case BlockRef_parse (de_blkref ent) of
                  Inl e \<Rightarrow> (s, Inl e)
                | Inr ref \<Rightarrow>
                    (case n_fcache s ref of
                       Some j \<Rightarrow> (s, Inr (Some j))
                     | None \<Rightarrow>
                         if m_bncache (n_ctxt s) ref \<noteq> None then (s, Inr None)
                         else if i_readonly then (s, Inl OperationError)
                         else
                           (case fnode_load fe ref s of
                              (s1, Inl e) \<Rightarrow> (s1, Inl e)
                            | (s1, Inr j) \<Rightarrow> (fcache_insert j s1, Inr (Some j)))))))"

text \<open>The two \<^verbatim>\<open>update\<close> methods: of the dirty table and of the entry table.\<close>

definition DirNode_update ::
    "'bs fenv \<Rightarrow> fid \<Rightarrow> string \<Rightarrow> fid option \<Rightarrow> ('bs, 'z) nst_scheme \<Rightarrow> ('bs, 'z) nst_scheme" where
  "DirNode_update fe i i_entry i_fnh s =
     (let (s1, now) = T64_now fe s;
          s2 = upd_fn (set_mtime now) i s1;
          s3 = (case i_fnh of
                  None \<Rightarrow> s2
                | Some j \<Rightarrow> heap_set i ((n_heap s2 i)\<lparr>o_dirty := map_insert i_entry j (o_dirty (n_heap s2 i))\<rparr>) s2)
      in upd_fn set_dirty i s3)"

definition DirNode_update_ref :: "fid \<Rightarrow> string \<Rightarrow> blkref \<Rightarrow> ('bs, 'z) nst_scheme \<Rightarrow> ('bs, 'z) nst_scheme" where
  "DirNode_update_ref i i_entry i_blkref s =
     heap_set i ((n_heap s i)\<lparr>o_dir := ent_update i_entry i_blkref (o_dir (n_heap s i))\<rparr>) s"

definition add_dirty :: "fid \<Rightarrow> string \<Rightarrow> fid \<Rightarrow> ('bs, 'z) nst_scheme \<Rightarrow> ('bs, 'z) nst_scheme" where
  "add_dirty i i_entry j s =
     heap_set i ((n_heap s i)\<lparr>o_dirty := map_insert i_entry j (o_dirty (n_heap s i))\<rparr>) s"

subsection \<open>Flushing\<close>

text \<open>Running a member function of \<^verbatim>\<open>FileNode\<close> on a node of the heap.\<close>

definition run_fn ::
    "(filenode \<Rightarrow> 'bs ctxt \<Rightarrow> filenode \<times> 'bs ctxt \<times> 'a res) \<Rightarrow> fid \<Rightarrow> ('bs, 'z) nst_scheme \<Rightarrow>
     ('bs, 'z) nst_scheme \<times> 'a res" where
  "run_fn g i s =
     (case g (o_fn (n_heap s i)) (n_ctxt s) of
        (fn1, c1, r) \<Rightarrow> (upd_fn (\<lambda>_. fn1) i (s\<lparr>n_ctxt := c1\<rparr>), r))"

definition fnode_flush :: "'bs fenv \<Rightarrow> fid \<Rightarrow> ('bs, 'z) nst_scheme \<Rightarrow> ('bs, 'z) nst_scheme \<times> blkref res" where
  "fnode_flush fe = run_fn (FileNode_flush (fe_env fe) (fe_ser_ino fe))"

text \<open>The end of \<^verbatim>\<open>DirNode::bn_flush\<close>: write the entries to the file of the directory and flush that.\<close>

definition dir_write_out :: "'bs fenv \<Rightarrow> fid \<Rightarrow> ('bs, 'z) nst_scheme \<Rightarrow> ('bs, 'z) nst_scheme \<times> blkref res" where
  "dir_write_out fe i s =
     (let oldsz = fn_size (o_fn (n_heap s i)) in
      case fe_ser_dir fe (o_dir (n_heap s i)) of
        None \<Rightarrow> (s, Inl InternalError)
      | Some dat \<Rightarrow>
          (case run_fn (FileNode_write (fe_env fe) dat (length dat) 0) i s of
             (s1, Inl e) \<Rightarrow> (s1, Inl e)
           | (s1, Inr rv) \<Rightarrow>
               if rv < 0 then (s1, Inl InternalError)
               else if length dat < oldsz then
                 (let (s2, now) = T64_now fe s1 in
                  case run_fn (FileNode_truncate (fe_env fe) now (length dat)) i s2 of
                    (s3, Inl e) \<Rightarrow> (s3, Inl e)
                  | (s3, Inr _) \<Rightarrow> fnode_flush fe i s3)
               else fnode_flush fe i s1))"

definition flushed_child :: "fid \<Rightarrow> string \<Rightarrow> fid \<Rightarrow> blkref \<Rightarrow> ('bs, 'z) nst_scheme \<Rightarrow> ('bs, 'z) nst_scheme" where
  "flushed_child i name j blkref s =
     (let s1 = fcache_insert j (DirNode_update_ref i name blkref s)
      in heap_set i ((n_heap s1 i)\<lparr>o_dirty := map_erase name (o_dirty (n_heap s1 i))\<rparr>) s1)"

text \<open>
  \<^verbatim>\<open>bn_flush\<close> of every class; with \<open>enter = False\<close> it continues the loop over the dirty table
  of a directory.
\<close>

partial_function (option) bn_flush ::
    "'bs fenv \<Rightarrow> bool \<Rightarrow> fid \<Rightarrow> ('bs, 'z) nst_scheme \<Rightarrow> (('bs, 'z) nst_scheme \<times> blkref res) option" where
  "bn_flush fe enter i s =
     (if \<not> is_dirnode (n_heap s i) then Some (fnode_flush fe i s)
      else if enter \<and> \<not> fn_dirty (o_fn (n_heap s i)) then Some (s, Inr (fn_ref (o_fn (n_heap s i))))
      else
        (case o_dirty (n_heap s i) of
           [] \<Rightarrow> Some (dir_write_out fe i s)
         | (name, j) # _ \<Rightarrow>
             Option.bind (bn_flush fe True j s) (\<lambda>(s1, r).
               case r of
                 Inl e \<Rightarrow> Some (s1, Inl e)
               | Inr blkref \<Rightarrow> bn_flush fe False i (flushed_child i name j blkref s1))))"

subsection \<open>Refreshing\<close>

definition fnode_refresh :: "'bs fenv \<Rightarrow> 64 word \<Rightarrow> fid \<Rightarrow> ('bs, 'z) nst_scheme \<Rightarrow> ('bs, 'z) nst_scheme \<times> nat res" where
  "fnode_refresh fe i_rid i s =
     (case FileNode_refresh (fe_env fe) i_rid (o_fn (n_heap s i)) (n_ctxt s) of
        (c1, r) \<Rightarrow> (s\<lparr>n_ctxt := c1\<rparr>, r))"

text \<open>The node of an entry, loaded when it is not in memory, and then not cached.\<close>

definition refresh_child :: "'bs fenv \<Rightarrow> fid \<Rightarrow> dirent \<Rightarrow> ('bs, 'z) nst_scheme \<Rightarrow> ('bs, 'z) nst_scheme \<times> fid res" where
  "refresh_child fe i ent s =
     (case lookup_dirty (n_heap s i) (de_name ent) of
        Some j \<Rightarrow> (s, Inr j)
      | None \<Rightarrow>
          (case BlockRef_parse (de_blkref ent) of
             Inl e \<Rightarrow> (s, Inl e)
           | Inr ref \<Rightarrow>
               (case n_fcache s ref of
                  Some j \<Rightarrow> (s, Inr j)
                | None \<Rightarrow>
                    if m_bncache (n_ctxt s) ref \<noteq> None then (s, Inl NullDeref) else fnode_load fe ref s)))"

text \<open>
  \<^verbatim>\<open>rb_refresh\<close> of every class: \<open>Inl i\<close> enters a node, \<open>Inr (i, ents, n)\<close> continues the loop
  over the entries of a directory.
\<close>

partial_function (option) rb_refresh ::
    "'bs fenv \<Rightarrow> 64 word \<Rightarrow> fid + fid \<times> dirent list \<times> nat \<Rightarrow> ('bs, 'z) nst_scheme \<Rightarrow>
     (('bs, 'z) nst_scheme \<times> nat res) option" where
  "rb_refresh fe i_rid job s =
     (case job of
        Inl i \<Rightarrow>
          if is_dirnode (n_heap s i) then rb_refresh fe i_rid (Inr (i, o_dir (n_heap s i), 0)) s
          else Some (fnode_refresh fe i_rid i s)
      | Inr (i, ents, nblocks) \<Rightarrow>
          (case ents of
             [] \<Rightarrow>
               (case fnode_refresh fe i_rid i s of
                  (s1, Inl e) \<Rightarrow> Some (s1, Inl e)
                | (s1, Inr nb) \<Rightarrow> Some (s1, Inr (nblocks + nb)))
           | ent # rest \<Rightarrow>
               (case refresh_child fe i ent s of
                  (s1, Inl e) \<Rightarrow> Some (s1, Inl e)
                | (s1, Inr j) \<Rightarrow>
                    Option.bind (rb_refresh fe i_rid (Inl j) s1) (\<lambda>(s2, r).
                      case r of
                        Inl e \<Rightarrow> Some (s2, Inl e)
                      | Inr nb \<Rightarrow> rb_refresh fe i_rid (Inr (i, rest, nblocks + nb)) s2))))"

subsection \<open>Operations of a directory\<close>

definition DirNode_mknod ::
    "'bs fenv \<Rightarrow> fid \<Rightarrow> string \<Rightarrow> 32 word \<Rightarrow> string \<Rightarrow> string \<Rightarrow> ('bs, 'z) nst_scheme \<Rightarrow> ('bs, 'z) nst_scheme \<times> int res" where
  "DirNode_mknod fe i i_entry i_mode i_uname i_gname s =
     (case DirNode_lookup fe False i i_entry s of
        (s1, Inl e) \<Rightarrow> (s1, Inl e)
      | (s1, Inr (Some _)) \<Rightarrow> (s1, Inl (Errno EEXIST))
      | (s1, Inr None) \<Rightarrow>
          (let (s2, now) = T64_now fe s1;
               (s3, j) = alloc (plain_node CFile (FileNode_new i_mode i_uname i_gname now)) s2
           in (upd_fn set_dirty i (DirNode_update_ref i i_entry BlockRef_nil (add_dirty i i_entry j s3)), Inr 0)))"

definition DirNode_mkdir ::
    "'bs fenv \<Rightarrow> fid \<Rightarrow> string \<Rightarrow> 32 word \<Rightarrow> string \<Rightarrow> string \<Rightarrow> ('bs, 'z) nst_scheme \<Rightarrow> ('bs, 'z) nst_scheme \<times> int res" where
  "DirNode_mkdir fe i i_entry i_mode i_uname i_gname s =
     (case DirNode_lookup fe False i i_entry s of
        (s1, Inl e) \<Rightarrow> (s1, Inl e)
      | (s1, Inr (Some _)) \<Rightarrow> (s1, Inl (Errno EEXIST))
      | (s1, Inr None) \<Rightarrow>
          (let (s2, now) = T64_now fe s1;
               (s3, j) = alloc (DirNode_new i_mode i_uname i_gname now) s2;
               s4 = DirNode_update_ref i i_entry BlockRef_nil (add_dirty i i_entry j s3);
               s5 = upd_fn (\<lambda>fn. set_nlink (ino_nlink (m_inode fn) + 1) fn) i s4
           in (upd_fn set_dirty i s5, Inr 0)))"

definition DirNode_unlink ::
    "'bs fenv \<Rightarrow> fid \<Rightarrow> string \<Rightarrow> bool \<Rightarrow> ('bs, 'z) nst_scheme \<Rightarrow> ('bs, 'z) nst_scheme \<times> int res" where
  "DirNode_unlink fe i i_entry i_dirstoo s =
     (case DirNode_lookup fe False i i_entry s of
        (s1, Inl e) \<Rightarrow> (s1, Inl e)
      | (s1, Inr None) \<Rightarrow> (s1, Inl (Errno ENOENT))
      | (s1, Inr (Some j)) \<Rightarrow>
          if \<not> i_dirstoo \<and> S_ISDIR (ino_mode (m_inode (o_fn (n_heap s1 j)))) then (s1, Inl (Errno EISDIR))
          else (case DirNode_remove i i_entry s1 of (s2, Inl e) \<Rightarrow> (s2, Inl e) | (s2, Inr _) \<Rightarrow> (s2, Inr 0)))"

definition DirNode_rmdir ::
    "'bs fenv \<Rightarrow> fid \<Rightarrow> string \<Rightarrow> ('bs, 'z) nst_scheme \<Rightarrow> ('bs, 'z) nst_scheme \<times> int res" where
  "DirNode_rmdir fe i i_entry s =
     (case DirNode_lookup fe False i i_entry s of
        (s1, Inl e) \<Rightarrow> (s1, Inl e)
      | (s1, Inr None) \<Rightarrow> (s1, Inl (Errno ENOENT))
      | (s1, Inr (Some j)) \<Rightarrow>
          if \<not> S_ISDIR (ino_mode (m_inode (o_fn (n_heap s1 j)))) then (s1, Inl (Errno ENOTDIR))
          else if \<not> is_dirnode (n_heap s1 j) then (s1, Inl NullDeref)
          else if o_dir (n_heap s1 j) \<noteq> [] then (s1, Inl (Errno ENOTEMPTY))
          else (case DirNode_remove i i_entry s1 of (s2, Inl e) \<Rightarrow> (s2, Inl e) | (s2, Inr _) \<Rightarrow> (s2, Inr 0)))"

text \<open>\<^verbatim>\<open>symlink\<close>: \<^verbatim>\<open>SpecialDirNode\<close> overrides it, and returns a positive error number.\<close>

definition DirNode_symlink ::
    "'bs fenv \<Rightarrow> fid \<Rightarrow> string \<Rightarrow> string \<Rightarrow> ('bs, 'z) nst_scheme \<Rightarrow> ('bs, 'z) nst_scheme \<times> int res" where
  "DirNode_symlink fe i i_entry i_opath s =
     (case DirNode_lookup fe False i i_entry s of
        (s1, Inl e) \<Rightarrow> (s1, Inl e)
      | (s1, Inr (Some _)) \<Rightarrow> (s1, Inl (Errno EEXIST))
      | (s1, Inr None) \<Rightarrow>
          (let (s2, now) = T64_now fe s1 in
           case SymlinkNode_new i_opath now of
             Inl e \<Rightarrow> (s2, Inl e)
           | Inr ob \<Rightarrow>
               (let (s3, j) = alloc ob s2
                in (upd_fn set_dirty i (DirNode_update_ref i i_entry BlockRef_nil (add_dirty i i_entry j s3)), Inr 0))))"

definition SpecialDirNode_symlink ::
    "'bs fenv \<Rightarrow> fid \<Rightarrow> fid \<Rightarrow> string \<Rightarrow> string \<Rightarrow> ('bs, 'z) nst_scheme \<Rightarrow> ('bs, 'z) nst_scheme \<times> int res" where
  "SpecialDirNode_symlink fe i ver i_entry i_opath s =
     (if i_entry \<noteq> ''control'' then (s, Inr (errno_val ENOENT))
      else
        (let (s1, now) = T64_now fe s in
         case SymlinkNode_new i_opath now of
           Inl e \<Rightarrow> (s1, Inl e)
         | Inr ob \<Rightarrow>
             (let (s2, j) = alloc ob s1
              in (heap_set i ((n_heap s2 i)\<lparr>o_class := CSpecialDir ver (Some j)\<rparr>) s2, Inr 0))))"

text \<open>\<^verbatim>\<open>linksrc\<close>: a dirty node is flushed, and moves to the clean cache.\<close>

definition find_blkref ::
    "'bs fenv \<Rightarrow> fid \<Rightarrow> string \<Rightarrow> ('bs, 'z) nst_scheme \<Rightarrow> (('bs, 'z) nst_scheme \<times> blkref res) option" where
  "find_blkref fe i i_entry s =
     (case lookup_dirty (n_heap s i) i_entry of
        Some j \<Rightarrow>
          Option.bind (bn_flush fe True j s) (\<lambda>(s1, r).
            case r of
              Inl e \<Rightarrow> Some (s1, Inl e)
            | Inr ref \<Rightarrow>
                (let s2 = fcache_insert j s1; ob = n_heap s2 i;
                     ents = (if find_entry i_entry (o_dir ob) = None then o_dir ob
                             else ent_update i_entry ref (o_dir ob))
                 in Some (heap_set i (ob\<lparr>o_dirty := map_erase i_entry (o_dirty ob), o_dir := ents\<rparr>) s2, Inr ref)))
      | None \<Rightarrow>
          Some (s, case find_entry i_entry (o_dir (n_heap s i)) of
                     None \<Rightarrow> Inr BlockRef_nil
                   | Some ent \<Rightarrow> BlockRef_parse (de_blkref ent)))"

definition DirNode_linkdst ::
    "'bs fenv \<Rightarrow> fid \<Rightarrow> string \<Rightarrow> blkref \<Rightarrow> bool \<Rightarrow> ('bs, 'z) nst_scheme \<Rightarrow> ('bs, 'z) nst_scheme \<times> int res" where
  "DirNode_linkdst fe i i_entry i_blkref i_force s =
     (case DirNode_lookup fe False i i_entry s of
        (s1, Inl e) \<Rightarrow> (s1, Inl e)
      | (s1, Inr fnh) \<Rightarrow>
          (case (if fnh = None then (s1, Inr ())
                 else if i_force then DirNode_remove i i_entry s1
                 else (s1, Inl (Errno EEXIST))) of
             (s2, Inl e) \<Rightarrow> (s2, Inl e)
           | (s2, Inr _) \<Rightarrow>
               (let ob = n_heap s2 i;
                    s3 = heap_set i (ob\<lparr>o_dir := o_dir ob @ [\<lparr>de_name = i_entry, de_blkref = i_blkref\<rparr>]\<rparr>) s2
                in (upd_fn set_dirty i s3, Inr 0))))"

definition DirNode_open ::
    "'bs fenv \<Rightarrow> fid \<Rightarrow> string \<Rightarrow> ('bs, 'z) nst_scheme \<Rightarrow> ('bs, 'z) nst_scheme \<times> int res" where
  "DirNode_open fe i i_entry s =
     (case DirNode_lookup fe False i i_entry s of
        (s1, Inl e) \<Rightarrow> (s1, Inl e)
      | (s1, Inr None) \<Rightarrow> (s1, Inl (Errno ENOENT))
      | (s1, Inr (Some _)) \<Rightarrow> (s1, Inr 0))"

definition SpecialDirNode_open :: "string \<Rightarrow> 32 word \<Rightarrow> int" where
  "SpecialDirNode_open i_entry i_flags =
     (if i_entry = ''version'' then (if Bit_Operations.and i_flags 3 = 0 then 0 else errno_val EACCES)
      else if i_entry = ''control'' then 0 else errno_val ENOENT)"

text \<open>The names that \<^verbatim>\<open>readdir\<close> reports, in order.\<close>

definition SPECIALDIR :: string where "SPECIALDIR = ''.utopfs''"

definition DirNode_readdir :: "fnobj \<Rightarrow> string list" where
  "DirNode_readdir ob = map de_name (o_dir ob) @ [''.'', ''..'']"

definition SpecialDirNode_readdir :: "fid option \<Rightarrow> string list" where
  "SpecialDirNode_readdir ctl = [''.'', ''..'', ''version''] @ (if ctl = None then [] else [''control''])"

definition node_readdir :: "fnobj \<Rightarrow> string list" where
  "node_readdir ob =
     (case o_class ob of
        CRoot _ \<Rightarrow> DirNode_readdir ob @ [SPECIALDIR]
      | CSpecialDir _ ctl \<Rightarrow> SpecialDirNode_readdir ctl
      | _ \<Rightarrow> DirNode_readdir ob)"

subsection \<open>Operations of any node\<close>

definition RootDirNode_getattr :: "statbuf \<Rightarrow> statbuf" where
  "RootDirNode_getattr sb = sb\<lparr>st_nlink := st_nlink sb + 1\<rparr>"

definition SpecialDirNode_getattr :: "statbuf \<Rightarrow> statbuf" where
  "SpecialDirNode_getattr sb = sb\<lparr>st_mode := Bit_Operations.or S_IFDIR 0x1ED, st_nlink := 2\<rparr>"

definition SpecialFileNode_getattr :: "bytes \<Rightarrow> statbuf \<Rightarrow> statbuf" where
  "SpecialFileNode_getattr dat sb =
     sb\<lparr>st_mode := Bit_Operations.or S_IFREG 0x124, st_nlink := 1, st_size := length dat\<rparr>"

definition node_getattr :: "'bs fenv \<Rightarrow> fnobj \<Rightarrow> statbuf \<Rightarrow> statbuf" where
  "node_getattr fe ob sb =
     (case o_class ob of
        CRoot _ \<Rightarrow> RootDirNode_getattr (FileNode_getattr (fe_uid fe) (fe_gid fe) (o_fn ob))
      | CSpecialDir _ _ \<Rightarrow> SpecialDirNode_getattr sb
      | CSpecialFile dat \<Rightarrow> SpecialFileNode_getattr dat sb
      | _ \<Rightarrow> FileNode_getattr (fe_uid fe) (fe_gid fe) (o_fn ob))"

text \<open>
  \<^verbatim>\<open>readlink\<close> leaves room for the terminating octet; a buffer of size 0 makes that negative. The
  data is read from the inline buffer, whatever the size of the file says.
\<close>

definition SymlinkNode_readlink :: "bytes \<Rightarrow> nat \<Rightarrow> filenode \<Rightarrow> bytes \<times> int res" where
  "SymlinkNode_readlink o_obuf i_size fn =
     (let sz = (if i_size = 0 then fn_size fn else min (fn_size fn) (i_size - 1)) in
      if sz > INLSZ \<or> sz + 1 > length o_obuf then (o_obuf, Inl OutOfBounds)
      else (memcpy_at (memcpy_at o_obuf 0 (take sz (m_inl fn))) sz [0], Inr 0))"

definition node_readlink :: "bytes \<Rightarrow> nat \<Rightarrow> fnobj \<Rightarrow> bytes \<times> int res" where
  "node_readlink o_obuf i_size ob =
     (case o_class ob of
        CSymlink \<Rightarrow> SymlinkNode_readlink o_obuf i_size (o_fn ob)
      | _ \<Rightarrow> (o_obuf, FileNode_readlink))"

definition SpecialFileNode_read :: "bytes \<Rightarrow> bytes \<Rightarrow> nat \<Rightarrow> nat \<Rightarrow> bytes \<times> int" where
  "SpecialFileNode_read dat o_buf i_size i_off =
     (if i_off < length dat then
        (let n = (if i_off + i_size > length dat then length dat - i_off else i_size)
         in (memcpy_at o_buf 0 (subbuf dat i_off n), int n))
      else (o_buf, 0))"

definition node_read ::
    "'bs fenv \<Rightarrow> bytes \<Rightarrow> nat \<Rightarrow> nat \<Rightarrow> fid \<Rightarrow> ('bs, 'z) nst_scheme \<Rightarrow> ('bs, 'z) nst_scheme \<times> bytes \<times> int res" where
  "node_read fe o_buf i_size i_off i s =
     (case o_class (n_heap s i) of
        CSpecialFile dat \<Rightarrow> (let (buf, n) = SpecialFileNode_read dat o_buf i_size i_off in (s, buf, Inr n))
      | _ \<Rightarrow>
          (case FileNode_read (fe_env fe) o_buf i_size i_off 0 (o_fn (n_heap s i)) (n_ctxt s) of
             (fn1, c1, buf, r) \<Rightarrow> (upd_fn (\<lambda>_. fn1) i (s\<lparr>n_ctxt := c1\<rparr>), buf, r)))"

subsection \<open>Traversal of a path\<close>

text \<open>
  The functors derived from \<^verbatim>\<open>NodeTraverseFunc\<close> in \<^verbatim>\<open>UTFileSystem.cpp\<close>, with their arguments,
  and what they leave behind: the return value, which is not initialised, and the buffers
  of the caller.
\<close>

datatype ntf =
    GetAttrTF
  | ReadLinkTF nat
  | MknodTF "32 word" string string
  | MkdirTF "32 word" string string
  | UnlinkTF bool
  | RmdirTF
  | SymlinkTF string
  | LinkSrcTF
  | LinkDstTF blkref bool
  | ChmodTF "32 word"
  | ChownTF string string
  | TruncateTF nat
  | OpenTF "32 word"
  | ReadTF nat nat
  | WriteTF bytes nat
  | ReadDirTF
  | AccessTF
  | UtimeTF int int

record ntout =
  nt_retval :: "int option"
  out_stat :: statbuf
  out_buf :: bytes
  out_names :: "string list"
  out_ref :: blkref

definition set_retval :: "('s \<times> int res) \<Rightarrow> ntout \<Rightarrow> 's \<times> ntout \<times> unit res" where
  "set_retval sr out =
     (case sr of (s, Inl e) \<Rightarrow> (s, out, Inl e) | (s, Inr v) \<Rightarrow> (s, out\<lparr>nt_retval := Some v\<rparr>, Inr ()))"

fun nt_leaf :: "'bs fenv \<Rightarrow> ntf \<Rightarrow> fid \<Rightarrow> ('bs, 'z) nst_scheme \<Rightarrow> ntout \<Rightarrow> ('bs, 'z) nst_scheme \<times> ntout \<times> unit res" where
  "nt_leaf fe GetAttrTF i s out =
     (s, out\<lparr>nt_retval := Some 0, out_stat := node_getattr fe (n_heap s i) (out_stat out)\<rparr>, Inr ())"
| "nt_leaf fe (ReadLinkTF sz) i s out =
     (let (buf, r) = node_readlink (out_buf out) sz (n_heap s i) in set_retval (s, r) (out\<lparr>out_buf := buf\<rparr>))"
| "nt_leaf fe (ChmodTF md) i s out = set_retval (upd_fn (FileNode_chmod md) i s, Inr 0) out"
| "nt_leaf fe (ChownTF u g) i s out = set_retval (upd_fn (FileNode_chown u g) i s, Inr 0) out"
| "nt_leaf fe (TruncateTF n) i s out =
     (let (s1, now) = T64_now fe s in set_retval (run_fn (FileNode_truncate (fe_env fe) now n) i s1) out)"
| "nt_leaf fe (ReadTF sz off) i s out =
     (let (s1, buf, r) = node_read fe (out_buf out) sz off i s in set_retval (s1, r) (out\<lparr>out_buf := buf\<rparr>))"
| "nt_leaf fe (WriteTF dat off) i s out =
     set_retval (run_fn (FileNode_write (fe_env fe) dat (length dat) off) i s) out"
| "nt_leaf fe ReadDirTF i s out =
     (if is_dirnode (n_heap s i)
      then (s, out\<lparr>nt_retval := Some 0, out_names := out_names out @ node_readdir (n_heap s i)\<rparr>, Inr ())
      else (s, out, Inl (Errno ENOTDIR)))"
| "nt_leaf fe AccessTF i s out = set_retval (s, Inr FileNode_access) out"
| "nt_leaf fe (UtimeTF atm mtm) i s out = set_retval (upd_fn (set_mtime mtm \<circ> set_atime atm) i s, Inr 0) out"
| "nt_leaf fe f i s out = (s, out, Inr ())"

definition node_symlink ::
    "'bs fenv \<Rightarrow> fid \<Rightarrow> string \<Rightarrow> string \<Rightarrow> ('bs, 'z) nst_scheme \<Rightarrow> ('bs, 'z) nst_scheme \<times> int res" where
  "node_symlink fe i i_entry i_opath s =
     (case o_class (n_heap s i) of
        CSpecialDir ver ctl \<Rightarrow> SpecialDirNode_symlink fe i ver i_entry i_opath s
      | _ \<Rightarrow> DirNode_symlink fe i i_entry i_opath s)"

definition node_open ::
    "'bs fenv \<Rightarrow> fid \<Rightarrow> string \<Rightarrow> 32 word \<Rightarrow> ('bs, 'z) nst_scheme \<Rightarrow> ('bs, 'z) nst_scheme \<times> int res" where
  "node_open fe i i_entry i_flags s =
     (case o_class (n_heap s i) of
        CSpecialDir _ _ \<Rightarrow> (s, Inr (SpecialDirNode_open i_entry i_flags))
      | _ \<Rightarrow> DirNode_open fe i i_entry s)"

fun nt_parent ::
    "'bs fenv \<Rightarrow> ntf \<Rightarrow> fid \<Rightarrow> string \<Rightarrow> ('bs, 'z) nst_scheme \<Rightarrow> ntout \<Rightarrow> (('bs, 'z) nst_scheme \<times> ntout \<times> unit res) option" where
  "nt_parent fe (MknodTF md u g) i ent s out = Some (set_retval (DirNode_mknod fe i ent md u g s) out)"
| "nt_parent fe (MkdirTF md u g) i ent s out = Some (set_retval (DirNode_mkdir fe i ent md u g s) out)"
| "nt_parent fe (UnlinkTF d) i ent s out = Some (set_retval (DirNode_unlink fe i ent d s) out)"
| "nt_parent fe RmdirTF i ent s out = Some (set_retval (DirNode_rmdir fe i ent s) out)"
| "nt_parent fe (SymlinkTF p) i ent s out = Some (set_retval (node_symlink fe i ent p s) out)"
| "nt_parent fe LinkSrcTF i ent s out =
     Option.bind (find_blkref fe i ent s) (\<lambda>(s1, r).
       case r of Inl e \<Rightarrow> Some (s1, out, Inl e) | Inr ref \<Rightarrow> Some (s1, out\<lparr>out_ref := ref\<rparr>, Inr ()))"
| "nt_parent fe (LinkDstTF ref force) i ent s out = Some (set_retval (DirNode_linkdst fe i ent ref force s) out)"
| "nt_parent fe (OpenTF fl) i ent s out = Some (set_retval (node_open fe i ent fl s) out)"
| "nt_parent fe f i ent s out = Some (s, out, Inr ())"

definition NT_PARENT :: flags where "NT_PARENT = 1"
definition NT_UPDATE :: flags where "NT_UPDATE = 2"
definition NT_READONLY :: flags where "NT_READONLY = 4"

text \<open>Going on after a call unless it threw, and the update of the entry on the way back.\<close>

definition and_then ::
    "('s \<times> ntout \<times> unit res) option \<Rightarrow> ('s \<Rightarrow> ntout \<Rightarrow> ('s \<times> ntout \<times> unit res) option) \<Rightarrow> ('s \<times> ntout \<times> unit res) option" where
  "and_then r k =
     (case r of
        None \<Rightarrow> None
      | Some (s, out, Inl e) \<Rightarrow> Some (s, out, Inl e)
      | Some (s, out, Inr _) \<Rightarrow> k s out)"

definition upd_entry ::
    "'bs fenv \<Rightarrow> flags \<Rightarrow> fid \<Rightarrow> string \<Rightarrow> fid \<Rightarrow> ('bs, 'z) nst_scheme \<Rightarrow> ntout \<Rightarrow>
     (('bs, 'z) nst_scheme \<times> ntout \<times> unit res) option" where
  "upd_entry fe i_flags i i_entry j s out =
     Some (if has_flag i_flags NT_UPDATE then DirNode_update fe i i_entry (Some j) s else s, out, Inr ())"

text \<open>The end of a parent traversal: the entry is looked up again, since it may have changed.\<close>

definition upd_parent ::
    "'bs fenv \<Rightarrow> flags \<Rightarrow> fid \<Rightarrow> string \<Rightarrow> ('bs, 'z) nst_scheme \<Rightarrow> ntout \<Rightarrow>
     (('bs, 'z) nst_scheme \<times> ntout \<times> unit res) option" where
  "upd_parent fe i_flags i i_entry s out =
     (if has_flag i_flags NT_UPDATE then
        (case DirNode_lookup fe (has_flag i_flags NT_READONLY) i i_entry s of
           (s1, Inl e) \<Rightarrow> Some (s1, out, Inl e)
         | (s1, Inr fnh) \<Rightarrow> Some (DirNode_update fe i i_entry fnh s1, out, Inr ()))
      else Some (s, out, Inr ()))"

text \<open>\<^verbatim>\<open>SpecialDirNode::node_traverse\<close> calls both methods of the functor, whatever the flags.\<close>

definition special_traverse ::
    "'bs fenv \<Rightarrow> ntf \<Rightarrow> fid \<Rightarrow> fid \<Rightarrow> string \<Rightarrow> string \<Rightarrow> ('bs, 'z) nst_scheme \<Rightarrow> ntout \<Rightarrow>
     (('bs, 'z) nst_scheme \<times> ntout \<times> unit res) option" where
  "special_traverse fe f i ver i_entry i_rmndr s out =
     (if i_entry = ''version'' \<and> i_rmndr = [] then
        and_then (nt_parent fe f i i_entry s out) (\<lambda>s1 out1. Some (nt_leaf fe f ver s1 out1))
      else if i_entry = ''control'' \<and> i_rmndr = [] then
        and_then (nt_parent fe f i i_entry s out) (\<lambda>s1 out1.
          case o_class (n_heap s1 i) of
            CSpecialDir _ (Some c) \<Rightarrow> Some (nt_leaf fe f c s1 out1)
          | _ \<Rightarrow> Some (s1, out1, Inl (Errno ENOENT)))
      else Some (s, out, Inl (Errno ENOENT)))"

text \<open>\<^verbatim>\<open>DirNode::node_traverse\<close>, over the traversal of the next directory.\<close>

definition dir_traverse ::
    "'bs fenv \<Rightarrow> ntf \<Rightarrow> flags \<Rightarrow>
     (fid \<Rightarrow> ('bs, 'z) nst_scheme \<Rightarrow> ntout \<Rightarrow> (('bs, 'z) nst_scheme \<times> ntout \<times> unit res) option) \<Rightarrow>
     fid \<Rightarrow> string \<Rightarrow> string \<Rightarrow> ('bs, 'z) nst_scheme \<Rightarrow> ntout \<Rightarrow> (('bs, 'z) nst_scheme \<times> ntout \<times> unit res) option" where
  "dir_traverse fe f i_flags next i i_entry i_rmndr s out =
     (case DirNode_lookup fe (has_flag i_flags NT_READONLY) i i_entry s of
        (s1, Inl e) \<Rightarrow> Some (s1, out, Inl e)
      | (s1, Inr fnh) \<Rightarrow>
          if has_flag i_flags NT_PARENT \<and> i_rmndr = [] then
            and_then (nt_parent fe f i i_entry s1 out) (upd_parent fe i_flags i i_entry)
          else
            (case fnh of
               None \<Rightarrow> Some (s1, out, Inl (Errno ENOENT))
             | Some j \<Rightarrow>
                 if i_rmndr = [] then
                   and_then (Some (nt_leaf fe f j s1 out)) (upd_entry fe i_flags i i_entry j)
                 else if \<not> is_dirnode (n_heap s1 j) then Some (s1, out, Inl (Errno ENOTDIR))
                 else and_then (next j s1 out) (upd_entry fe i_flags i i_entry j)))"

function node_traverse ::
    "'bs fenv \<Rightarrow> ntf \<Rightarrow> flags \<Rightarrow> fid \<Rightarrow> string \<Rightarrow> string \<Rightarrow> ('bs, 'z) nst_scheme \<Rightarrow> ntout \<Rightarrow>
     (('bs, 'z) nst_scheme \<times> ntout \<times> unit res) option" where
  "node_traverse fe f i_flags i i_entry i_rmndr s out =
     (let next = (case pathsplit i_rmndr of
                    Inl e \<Rightarrow> (\<lambda>j s out. Some (s, out, Inl e))
                  | Inr (a, b) \<Rightarrow> (\<lambda>j. node_traverse fe f i_flags j a b)) in
      case o_class (n_heap s i) of
        CSpecialDir ver _ \<Rightarrow> special_traverse fe f i ver i_entry i_rmndr s out
      | CRoot sdh \<Rightarrow>
          if i_entry = [] then
            (if has_flag i_flags NT_PARENT then Some (s, out, Inl (Errno ENOENT))
             else Some (nt_leaf fe f i s out))
          else if i_entry = SPECIALDIR then
            (if i_rmndr = [] then Some (nt_leaf fe f sdh s out) else next sdh s out)
          else dir_traverse fe f i_flags next i i_entry i_rmndr s out
      | _ \<Rightarrow> dir_traverse fe f i_flags next i i_entry i_rmndr s out)"
  by pat_completeness auto
termination
  by (relation "measure (\<lambda>(fe, f, fl, i, a, b, s, out). length b)") (auto intro: pathsplit_shorter)

declare node_traverse.simps [simp del]

end
