(* ===== verification/UT_FileSystem.thy ===== *)
theory UT_FileSystem
  imports Dir_Node
begin

text \<open>
  The file system object (\<^verbatim>\<open>modules/UTFileSystem/UTFileSystem.cpp\<close>): making, mounting and
  unmounting, the operations on paths, and the root reference that the block store keeps as
  an encrypted head of its graph.

  \<^item> Every operation takes the read or the write lock of the object for the whole of its work,
    so an operation is one step of the model. A read operation that needs more than is in
    memory throws \<^verbatim>\<open>OperationError\<close> and is run again under the write lock.
  \<^item> An operation returns the state, what it left in the buffers of its caller, and its return
    value or exception. The methods declare the exceptions they throw; one that is not
    declared ends the process, and is the result here. \<open>None\<close> stands for not returning.
  \<^item> The block store is known by the fields of \<open>uenv\<close> and of the environments below it.
\<close>

subsection \<open>State\<close>

record 'bs uenv =
  ue_fe :: "'bs fenv"
  ue_ser_he :: "headedge \<Rightarrow> bytes"
  ue_fill :: "nat \<Rightarrow> nat \<Rightarrow> bytes option"
  ue_rid :: "nat \<Rightarrow> 64 word option"
  ue_head_insert :: "'bs \<Rightarrow> signedheadedge \<Rightarrow> 'bs \<times> unit res"
  ue_head_furthest :: "'bs \<Rightarrow> headnode \<Rightarrow> headnode list res"
  ue_refresh_start :: "'bs \<Rightarrow> 64 word \<Rightarrow> 'bs \<times> unit res"
  ue_refresh_finish :: "'bs \<Rightarrow> 64 word \<Rightarrow> 'bs \<times> unit res"
  ue_stat :: "'bs \<Rightarrow> (nat \<times> nat) res"

record 'bs utfs = "'bs nst" +
  u_fsiddig :: bytes
  u_bsh_set :: bool
  u_rdh :: "fid option"
  u_hn :: headnode
  u_rbr :: blkref
  u_nrdops :: nat
  u_nrdbytes :: nat
  u_nwrops :: nat
  u_nwrbytes :: nat

abbreviation ue_env :: "'bs uenv \<Rightarrow> 'bs env" where "ue_env ue \<equiv> fe_env (ue_fe ue)"

definition set_bsh :: "'bs \<Rightarrow> 'bs utfs \<Rightarrow> 'bs utfs" where
  "set_bsh bs s = s\<lparr>n_ctxt := (n_ctxt s)\<lparr>m_bsh := bs\<rparr>\<rparr>"

definition Random_fill :: "(nat \<Rightarrow> 'a option) \<Rightarrow> 'bs utfs \<Rightarrow> 'bs utfs \<times> 'a res" where
  "Random_fill src s =
     (s\<lparr>n_ctxt := (n_ctxt s)\<lparr>m_nrand := m_nrand (n_ctxt s) + 1\<rparr>\<rparr>,
      case src (m_nrand (n_ctxt s)) of None \<Rightarrow> Inl InternalError | Some x \<Rightarrow> Inr x)"

subsection \<open>The root reference\<close>

definition zero_iv :: bytes where "zero_iv = replicate 16 0"

definition head_edge :: "'bs uenv \<Rightarrow> bytes \<Rightarrow> int \<Rightarrow> 'bs utfs \<Rightarrow> headedge" where
  "head_edge ue enc now s =
     \<lparr>he_fstag = u_fsiddig s, he_rootref = enc, he_prevref = snd (u_hn s), he_tstamp = now\<rparr>"

definition rootref_set :: "'bs uenv \<Rightarrow> blkref \<Rightarrow> 'bs utfs \<Rightarrow> 'bs utfs \<times> unit res" where
  "rootref_set ue i_blkref s =
     (if i_blkref = u_rbr s then (s, Inr ())
      else
        (case BlockCipher_encrypt (e_aes (ue_env ue)) (m_cipher (n_ctxt s)) zero_iv i_blkref of
           Inl e \<Rightarrow> (s, Inl e)
         | Inr enc \<Rightarrow>
             (let (s1, now) = T64_now (ue_fe ue) s;
                  he = head_edge ue enc now s1;
                  (s2, r2) = Random_fill (\<lambda>n. ue_fill ue n 16) s1 in
              case r2 of
                Inl e \<Rightarrow> (s2, Inl e)
              | Inr keyid \<Rightarrow>
                  (let (s3, r3) = Random_fill (\<lambda>n. ue_fill ue n 256) s2 in
                   case r3 of
                     Inl e \<Rightarrow> (s3, Inl e)
                   | Inr sig \<Rightarrow>
                       (case ue_head_insert ue (m_bsh (n_ctxt s3))
                               \<lparr>she_headedge = ue_ser_he ue he, she_keyid = keyid, she_signature = sig\<rparr> of
                          (bs, Inl e) \<Rightarrow> (set_bsh bs s3, Inl e)
                        | (bs, Inr _) \<Rightarrow>
                            ((set_bsh bs s3)\<lparr>u_hn := (u_fsiddig s3, enc), u_rbr := i_blkref\<rparr>, Inr ()))))))"

definition rootref_get :: "'bs uenv \<Rightarrow> 'bs utfs \<Rightarrow> 'bs utfs \<times> blkref res" where
  "rootref_get ue s =
     (case ue_head_furthest ue (m_bsh (n_ctxt s)) (u_hn s) of
        Inl e \<Rightarrow> (s, Inl e)
      | Inr [] \<Rightarrow> (s, Inl NotFoundError)
      | Inr [hn] \<Rightarrow>
          (let s1 = s\<lparr>u_hn := hn\<rparr> in
           case BlockCipher_decrypt (e_aes (ue_env ue)) (m_cipher (n_ctxt s1)) zero_iv (snd hn) of
             Inl e \<Rightarrow> (s1, Inl e)
           | Inr refstr \<Rightarrow>
               (case BlockRef_parse refstr of
                  Inl e \<Rightarrow> (s1, Inl e)
                | Inr ref \<Rightarrow> (s1\<lparr>u_rbr := ref\<rparr>, Inr ref)))
      | Inr _ \<Rightarrow> (s, Inl InternalError))"

text \<open>\<^verbatim>\<open>rootref(m_rdh->bn_flush(m_ctxt))\<close>.\<close>

definition flush_root :: "'bs uenv \<Rightarrow> 'bs utfs \<Rightarrow> ('bs utfs \<times> unit res) option" where
  "flush_root ue s =
     (case u_rdh s of
        None \<Rightarrow> Some (s, Inl NullDeref)
      | Some i \<Rightarrow>
          Option.bind (bn_flush (ue_fe ue) True i s) (\<lambda>(s1, r).
            case r of Inl e \<Rightarrow> Some (s1, Inl e) | Inr ref \<Rightarrow> Some (rootref_set ue ref s1)))"

definition flush_if_dirty :: "'bs uenv \<Rightarrow> 'bs utfs \<Rightarrow> ('bs utfs \<times> unit res) option" where
  "flush_if_dirty ue s =
     (case u_rdh s of
        None \<Rightarrow> Some (s, Inl NullDeref)
      | Some i \<Rightarrow> if fn_dirty (o_fn (n_heap s i)) then flush_root ue s else Some (s, Inr ()))"

subsection \<open>Making, mounting and unmounting\<close>

definition utopfs_ver_str :: string where
  "utopfs_ver_str = ''utopfs version 0.3 [devel]'' @ [CHR 0x0A]"

text \<open>The pseudo directory with its version file.\<close>

definition SpecialDirNode_alloc :: "'bs fenv \<Rightarrow> 'bs utfs \<Rightarrow> 'bs utfs \<times> fid" where
  "SpecialDirNode_alloc fe s =
     (let (s1, now1) = T64_now fe s;
          (s2, now2) = T64_now fe s1;
          (s3, ver) = alloc (plain_node (CSpecialFile (map of_char utopfs_ver_str))
                               (FileNode_new 0x124 ''root'' ''root'' now2)) s2
      in alloc (plain_node (CSpecialDir ver None) (DirNode_fn 0x16D ''root'' ''root'' now1)) s3)"

definition fs_mkfs ::
    "'bs uenv \<Rightarrow> 'bs \<Rightarrow> string \<Rightarrow> string \<Rightarrow> string \<Rightarrow> string \<Rightarrow> 'bs utfs \<Rightarrow> ('bs utfs \<times> unit res) option" where
  "fs_mkfs ue i_bsh i_fsid i_passphrase i_uname i_gname s =
     (let s1 = s\<lparr>n_ctxt := ctxt_mkfs (ue_env ue) (map of_char i_passphrase) i_bsh (n_ctxt s), u_bsh_set := True,
                 u_fsiddig := Digest_of (e_sha256 (ue_env ue)) (map of_char i_fsid)\<rparr>;
          (s2, now) = T64_now (ue_fe ue) s1;
          (s3, sdh) = SpecialDirNode_alloc (ue_fe ue) s2;
          (s4, i) = alloc (plain_node (CRoot sdh) (DirNode_fn 0x1FF i_uname i_gname now)) s3
      in flush_root ue (s4\<lparr>u_rdh := Some i, u_rbr := BlockRef_clear (u_rbr s4)\<rparr>))"

definition RootDirNode_load :: "'bs uenv \<Rightarrow> blkref \<Rightarrow> 'bs utfs \<Rightarrow> 'bs utfs \<times> fid res" where
  "RootDirNode_load ue i_ref s =
     (case FileNode_load (ue_env ue) (fe_parse_ino (ue_fe ue)) i_ref (n_ctxt s) of
        (c1, Inl e) \<Rightarrow> (s\<lparr>n_ctxt := c1\<rparr>, Inl e)
      | (c1, Inr fn) \<Rightarrow>
          (case DirNode_deserialize (ue_fe ue) fn c1 of
             (c2, Inl e) \<Rightarrow> (s\<lparr>n_ctxt := c2\<rparr>, Inl e)
           | (c2, Inr ob) \<Rightarrow>
               (let (s1, sdh) = SpecialDirNode_alloc (ue_fe ue) (s\<lparr>n_ctxt := c2\<rparr>);
                    (s2, i) = alloc (ob\<lparr>o_class := CRoot sdh\<rparr>) s1
                in (s2, Inr i))))"

definition fs_mount :: "'bs uenv \<Rightarrow> 'bs \<Rightarrow> string \<Rightarrow> string \<Rightarrow> 'bs utfs \<Rightarrow> 'bs utfs \<times> unit res" where
  "fs_mount ue i_bsh i_fsid i_passphrase s =
     (let dig = Digest_of (e_sha256 (ue_env ue)) (map of_char i_fsid);
          s1 = s\<lparr>n_ctxt := ctxt_mount (ue_env ue) (map of_char i_passphrase) i_bsh (n_ctxt s), u_bsh_set := True,
                 u_fsiddig := dig, u_hn := (dig, [])\<rparr> in
      case rootref_get ue s1 of
        (s2, Inl e) \<Rightarrow> (s2, Inl e)
      | (s2, Inr ref) \<Rightarrow>
          (case RootDirNode_load ue ref s2 of
             (s3, Inl e) \<Rightarrow> (s3, Inl e)
           | (s3, Inr i) \<Rightarrow> (s3\<lparr>u_rdh := Some i\<rparr>, Inr ())))"

definition fs_umount :: "'bs uenv \<Rightarrow> 'bs utfs \<Rightarrow> ('bs utfs \<times> unit res) option" where
  "fs_umount ue s =
     Option.bind (flush_root ue s) (\<lambda>(s1, r).
       case r of
         Inl e \<Rightarrow> Some (s1, Inl e)
       | Inr _ \<Rightarrow>
           Some (s1\<lparr>u_rdh := None, u_bsh_set := False, u_fsiddig := Digest_nil,
                    n_ctxt := (n_ctxt s1)\<lparr>m_cipher := BlockCipher_unset_key\<rparr>\<rparr>, Inr ()))"

definition fs_sync :: "'bs uenv \<Rightarrow> 'bs utfs \<Rightarrow> ('bs utfs \<times> unit res) option" where
  "fs_sync ue s = flush_if_dirty ue s"

subsection \<open>Operations on paths\<close>

definition root_traverse :: "'bs uenv \<Rightarrow> ntf \<Rightarrow> flags \<Rightarrow> string \<Rightarrow> 'bs utfs \<Rightarrow> ntout \<Rightarrow> ('bs utfs \<times> ntout \<times> unit res) option" where
  "root_traverse ue f i_flags i_path s out =
     (case pathsplit i_path of
        Inl e \<Rightarrow> Some (s, out, Inl e)
      | Inr (a, b) \<Rightarrow>
          (case u_rdh s of
             None \<Rightarrow> Some (s, out, Inl NullDeref)
           | Some i \<Rightarrow> node_traverse (ue_fe ue) f i_flags i a b s out))"

definition op_result :: "'bs utfs \<times> ntout \<times> unit res \<Rightarrow> 'bs utfs \<times> ntout \<times> int res" where
  "op_result sor =
     (case sor of (s, out, r) \<Rightarrow>
        (s, out, case r of
                   Inl (Errno e) \<Rightarrow> Inr (- errno_val e)
                 | Inl e \<Rightarrow> Inl e
                 | Inr _ \<Rightarrow> (case nt_retval out of None \<Rightarrow> Inl Uninit | Some v \<Rightarrow> Inr v)))"

definition write_op :: "'bs uenv \<Rightarrow> ntf \<Rightarrow> flags \<Rightarrow> string \<Rightarrow> ntout \<Rightarrow> 'bs utfs \<Rightarrow> ('bs utfs \<times> ntout \<times> int res) option" where
  "write_op ue f i_flags i_path out s = map_option op_result (root_traverse ue f i_flags i_path s out)"

definition read_op :: "'bs uenv \<Rightarrow> ntf \<Rightarrow> flags \<Rightarrow> string \<Rightarrow> ntout \<Rightarrow> 'bs utfs \<Rightarrow> ('bs utfs \<times> ntout \<times> int res) option" where
  "read_op ue f i_flags i_path out s =
     (case root_traverse ue f (Bit_Operations.or i_flags NT_READONLY) i_path s out of
        Some (s1, out1, Inl OperationError) \<Rightarrow> write_op ue f i_flags i_path (out1\<lparr>nt_retval := None\<rparr>) s1
      | r \<Rightarrow> map_option op_result r)"

definition NT_DEFAULT :: flags where "NT_DEFAULT = 0"

definition out_new :: ntout where
  "out_new = \<lparr>nt_retval = None,
     out_stat = \<lparr>st_mode = 0, st_uid = 0, st_gid = 0, st_nlink = 0, st_size = 0, st_atime = 0, st_mtime = 0,
       st_ctime = 0, st_blocks = 0\<rparr>,
     out_buf = [], out_names = [], out_ref = BlockRef_nil\<rparr>"

abbreviation NT_PARENT_UPDATE :: flags where "NT_PARENT_UPDATE \<equiv> Bit_Operations.or NT_PARENT NT_UPDATE"

definition fs_getattr :: "'bs uenv \<Rightarrow> string \<Rightarrow> statbuf \<Rightarrow> 'bs utfs \<Rightarrow> ('bs utfs \<times> ntout \<times> int res) option" where
  "fs_getattr ue i_path o_stbuf = read_op ue GetAttrTF NT_DEFAULT i_path (out_new\<lparr>out_stat := o_stbuf\<rparr>)"

definition fs_readlink :: "'bs uenv \<Rightarrow> string \<Rightarrow> bytes \<Rightarrow> nat \<Rightarrow> 'bs utfs \<Rightarrow> ('bs utfs \<times> ntout \<times> int res) option" where
  "fs_readlink ue i_path o_obuf i_size =
     read_op ue (ReadLinkTF i_size) NT_DEFAULT i_path (out_new\<lparr>out_buf := o_obuf\<rparr>)"

definition fs_mknod :: "'bs uenv \<Rightarrow> string \<Rightarrow> 32 word \<Rightarrow> string \<Rightarrow> string \<Rightarrow> 'bs utfs \<Rightarrow> ('bs utfs \<times> ntout \<times> int res) option" where
  "fs_mknod ue i_path i_mode i_uname i_gname = write_op ue (MknodTF i_mode i_uname i_gname) NT_PARENT_UPDATE i_path out_new"

definition fs_mkdir :: "'bs uenv \<Rightarrow> string \<Rightarrow> 32 word \<Rightarrow> string \<Rightarrow> string \<Rightarrow> 'bs utfs \<Rightarrow> ('bs utfs \<times> ntout \<times> int res) option" where
  "fs_mkdir ue i_path i_mode i_uname i_gname = write_op ue (MkdirTF i_mode i_uname i_gname) NT_PARENT_UPDATE i_path out_new"

definition fs_unlink :: "'bs uenv \<Rightarrow> string \<Rightarrow> 'bs utfs \<Rightarrow> ('bs utfs \<times> ntout \<times> int res) option" where
  "fs_unlink ue i_path = write_op ue (UnlinkTF False) NT_PARENT_UPDATE i_path out_new"

definition fs_rmdir :: "'bs uenv \<Rightarrow> string \<Rightarrow> 'bs utfs \<Rightarrow> ('bs utfs \<times> ntout \<times> int res) option" where
  "fs_rmdir ue i_path = write_op ue RmdirTF NT_PARENT_UPDATE i_path out_new"

definition fs_symlink :: "'bs uenv \<Rightarrow> string \<Rightarrow> string \<Rightarrow> 'bs utfs \<Rightarrow> ('bs utfs \<times> ntout \<times> int res) option" where
  "fs_symlink ue i_opath i_npath = write_op ue (SymlinkTF i_opath) NT_PARENT_UPDATE i_npath out_new"

text \<open>
  A rename links the new name to the block of the old one and then unlinks the old name; a
  link does only the first. Both paths are split before anything is done.
\<close>

definition link_paths :: "'bs uenv \<Rightarrow> bool \<Rightarrow> string \<Rightarrow> string \<Rightarrow> 'bs utfs \<Rightarrow> ('bs utfs \<times> ntout \<times> unit res) option" where
  "link_paths ue force i_opath i_npath s =
     (case pathsplit i_opath of
        Inl e \<Rightarrow> Some (s, out_new, Inl e)
      | Inr _ \<Rightarrow>
          (case pathsplit i_npath of
             Inl e \<Rightarrow> Some (s, out_new, Inl e)
           | Inr _ \<Rightarrow>
               and_then (root_traverse ue LinkSrcTF NT_PARENT i_opath s out_new) (\<lambda>s1 out1.
                 root_traverse ue (LinkDstTF (out_ref out1) force) NT_PARENT_UPDATE i_npath s1 out_new)))"

definition fs_rename :: "'bs uenv \<Rightarrow> string \<Rightarrow> string \<Rightarrow> 'bs utfs \<Rightarrow> ('bs utfs \<times> ntout \<times> int res) option" where
  "fs_rename ue i_opath i_npath s =
     map_option op_result (and_then (link_paths ue True i_opath i_npath s) (\<lambda>s1 out1.
       root_traverse ue (UnlinkTF True) NT_PARENT_UPDATE i_opath s1 out_new))"

definition fs_link :: "'bs uenv \<Rightarrow> string \<Rightarrow> string \<Rightarrow> 'bs utfs \<Rightarrow> ('bs utfs \<times> ntout \<times> int res) option" where
  "fs_link ue i_opath i_npath s = map_option op_result (link_paths ue False i_opath i_npath s)"

definition fs_chmod :: "'bs uenv \<Rightarrow> string \<Rightarrow> 32 word \<Rightarrow> 'bs utfs \<Rightarrow> ('bs utfs \<times> ntout \<times> int res) option" where
  "fs_chmod ue i_path i_mode = write_op ue (ChmodTF i_mode) NT_UPDATE i_path out_new"

definition fs_chown :: "'bs uenv \<Rightarrow> string \<Rightarrow> string \<Rightarrow> string \<Rightarrow> 'bs utfs \<Rightarrow> ('bs utfs \<times> ntout \<times> int res) option" where
  "fs_chown ue i_path i_uname i_gname = write_op ue (ChownTF i_uname i_gname) NT_UPDATE i_path out_new"

definition fs_truncate :: "'bs uenv \<Rightarrow> string \<Rightarrow> nat \<Rightarrow> 'bs utfs \<Rightarrow> ('bs utfs \<times> ntout \<times> int res) option" where
  "fs_truncate ue i_path i_size = write_op ue (TruncateTF i_size) NT_UPDATE i_path out_new"

definition fs_open_path :: "'bs uenv \<Rightarrow> string \<Rightarrow> 32 word \<Rightarrow> 'bs utfs \<Rightarrow> ('bs utfs \<times> ntout \<times> int res) option" where
  "fs_open_path ue i_path i_flags = read_op ue (OpenTF i_flags) NT_PARENT i_path out_new"

text \<open>The counters of the operations that did not throw.\<close>

definition count_read :: "nat \<Rightarrow> 'bs utfs \<Rightarrow> 'bs utfs" where
  "count_read n s = s\<lparr>u_nrdops := u_nrdops s + 1, u_nrdbytes := u_nrdbytes s + n\<rparr>"

definition count_write :: "nat \<Rightarrow> 'bs utfs \<Rightarrow> 'bs utfs" where
  "count_write n s = s\<lparr>u_nwrops := u_nwrops s + 1, u_nwrbytes := u_nwrbytes s + n\<rparr>"

definition counted :: "('bs utfs \<Rightarrow> 'bs utfs) \<Rightarrow> 'bs utfs \<times> ntout \<times> unit res \<Rightarrow> 'bs utfs \<times> ntout \<times> unit res" where
  "counted g sor = (case sor of (s, out, Inr u) \<Rightarrow> (g s, out, Inr u) | _ \<Rightarrow> sor)"

definition fs_read :: "'bs uenv \<Rightarrow> string \<Rightarrow> bytes \<Rightarrow> nat \<Rightarrow> nat \<Rightarrow> 'bs utfs \<Rightarrow> ('bs utfs \<times> ntout \<times> int res) option" where
  "fs_read ue i_path o_buf i_size i_off s =
     (let f = ReadTF i_size i_off; out = out_new\<lparr>out_buf := o_buf\<rparr>;
          done = map_option (op_result \<circ> counted (count_read i_size)) in
      case root_traverse ue f (Bit_Operations.or NT_DEFAULT NT_READONLY) i_path s out of
        Some (s1, out1, Inl OperationError) \<Rightarrow>
          done (root_traverse ue f NT_DEFAULT i_path s1 (out1\<lparr>nt_retval := None\<rparr>))
      | r \<Rightarrow> done r)"

definition fs_write :: "'bs uenv \<Rightarrow> string \<Rightarrow> bytes \<Rightarrow> nat \<Rightarrow> 'bs utfs \<Rightarrow> ('bs utfs \<times> ntout \<times> int res) option" where
  "fs_write ue i_path i_data i_off s =
     map_option (op_result \<circ> counted (count_write (length i_data)))
       (root_traverse ue (WriteTF i_data i_off) NT_UPDATE i_path s out_new)"

definition fs_readdir :: "'bs uenv \<Rightarrow> string \<Rightarrow> 'bs utfs \<Rightarrow> ('bs utfs \<times> ntout \<times> int res) option" where
  "fs_readdir ue i_path = read_op ue ReadDirTF NT_DEFAULT i_path out_new"

definition fs_access :: "'bs uenv \<Rightarrow> string \<Rightarrow> 'bs utfs \<Rightarrow> ('bs utfs \<times> ntout \<times> int res) option" where
  "fs_access ue i_path = read_op ue AccessTF NT_DEFAULT i_path out_new"

definition fs_utime :: "'bs uenv \<Rightarrow> string \<Rightarrow> int \<Rightarrow> int \<Rightarrow> 'bs utfs \<Rightarrow> ('bs utfs \<times> ntout \<times> int res) option" where
  "fs_utime ue i_path i_atime i_mtime = write_op ue (UtimeTF i_atime i_mtime) NT_UPDATE i_path out_new"

text \<open>The numbers of 4096 octet blocks of \<^verbatim>\<open>statvfs\<close>: all, free, available.\<close>

definition fs_statfs :: "'bs uenv \<Rightarrow> 'bs utfs \<Rightarrow> (nat \<times> nat \<times> nat) res" where
  "fs_statfs ue s =
     (if \<not> u_bsh_set s then Inl NullDeref
      else case ue_stat ue (m_bsh (n_ctxt s)) of
        Inl e \<Rightarrow> Inl e
      | Inr (sz, fr) \<Rightarrow> Inr (sz div 4096, fr div 4096, fr div 4096))"

text \<open>
  A refresh cycle: sync first, where running out of space is no failure, tell the store every
  block of the tree, and sync again.
\<close>

definition refresh_cycle :: "'bs uenv \<Rightarrow> fid \<Rightarrow> 'bs utfs \<Rightarrow> ('bs utfs \<times> nat res) option" where
  "refresh_cycle ue i s =
     (let (s1, r1) = Random_fill (ue_rid ue) s in
      case r1 of
        Inl e \<Rightarrow> Some (s1, Inl e)
      | Inr rid \<Rightarrow>
          (case ue_refresh_start ue (m_bsh (n_ctxt s1)) rid of
             (bs, Inl e) \<Rightarrow> Some (set_bsh bs s1, Inl e)
           | (bs, Inr _) \<Rightarrow>
               Option.bind (rb_refresh (ue_fe ue) rid (Inl i) (set_bsh bs s1)) (\<lambda>(s2, r2).
                 case r2 of
                   Inl e \<Rightarrow> Some (s2, Inl e)
                 | Inr nb \<Rightarrow>
                     (case ue_refresh_finish ue (m_bsh (n_ctxt s2)) rid of
                        (bs, Inl e) \<Rightarrow> Some (set_bsh bs s2, Inl e)
                      | (bs, Inr _) \<Rightarrow> Some (set_bsh bs s2, Inr nb)))))"

definition fs_refresh :: "'bs uenv \<Rightarrow> 'bs utfs \<Rightarrow> ('bs utfs \<times> nat res) option" where
  "fs_refresh ue s =
     (case u_rdh s of
        None \<Rightarrow> Some (s, Inl NullDeref)
      | Some i \<Rightarrow>
          Option.bind (flush_if_dirty ue s) (\<lambda>(s1, r1).
            if r1 \<noteq> Inr () \<and> r1 \<noteq> Inl NoSpaceError
            then Some (s1, case r1 of Inl e \<Rightarrow> Inl e | Inr _ \<Rightarrow> Inr 0)
            else
              Option.bind (refresh_cycle ue i s1) (\<lambda>(s2, r2).
                case r2 of
                  Inl e \<Rightarrow> Some (s2, Inl e)
                | Inr nb \<Rightarrow>
                    Option.bind (flush_if_dirty ue s2) (\<lambda>(s3, r3).
                      Some (s3, case r3 of Inl e \<Rightarrow> Inl e | Inr _ \<Rightarrow> Inr nb)))))"

end
