(* ===== verification/Dir_Laws.thy ===== *)
theory Dir_Laws
  imports UT_FileSystem
begin

text \<open>
  What the directories promise: how paths are split, which names a directory holds after any
  sequence of operations on it, and what a lookup returns for nodes that are in memory.
\<close>

subsection \<open>Paths\<close>

text \<open>A name of an entry, and the path of a list of names.\<close>

definition plain_name :: "string \<Rightarrow> bool" where
  "plain_name n \<longleftrightarrow> n \<noteq> [] \<and> CHR ''/'' \<notin> set n"

fun path :: "string list \<Rightarrow> string" where
  "path [] = []"
| "path (n # ns) = CHR ''/'' # n @ path ns"

lemma takeWhile_plain:
  "CHR ''/'' \<notin> set n \<Longrightarrow> takeWhile (\<lambda>x. x \<noteq> CHR ''/'') (n @ CHR ''/'' # r) = n"
  "CHR ''/'' \<notin> set n \<Longrightarrow> takeWhile (\<lambda>x. x \<noteq> CHR ''/'') n = n"
  by (induction n) auto

lemma dropWhile_plain:
  "CHR ''/'' \<notin> set n \<Longrightarrow> dropWhile (\<lambda>x. x \<noteq> CHR ''/'') (n @ CHR ''/'' # r) = CHR ''/'' # r"
  "CHR ''/'' \<notin> set n \<Longrightarrow> dropWhile (\<lambda>x. x \<noteq> CHR ''/'') n = []"
  by (induction n) auto

lemma dropWhile_slashes:
  "plain_name m \<Longrightarrow> dropWhile (\<lambda>x. x = CHR ''/'') (replicate k (CHR ''/'') @ m @ r) = m @ r"
  by (induction k) (cases m; auto simp: plain_name_def)+

lemma pathsplit_last: "CHR ''/'' \<notin> set n \<Longrightarrow> pathsplit (CHR ''/'' # n) = Inr (n, [])"
  unfolding pathsplit_def Let_def list.case by (metis dropWhile_plain(2))

lemma pathsplit_trailing:
  assumes "CHR ''/'' \<notin> set n"
  shows "pathsplit (CHR ''/'' # n @ replicate (Suc k) (CHR ''/'')) = Inr (n @ ''/'', [])"
proof -
  have d: "dropWhile (\<lambda>x. x = CHR ''/'') (replicate k (CHR ''/'')) = []" by (simp add: dropWhile_eq_Nil_conv)
  show ?thesis using assms by (simp add: pathsplit_def Let_def takeWhile_plain dropWhile_plain d)
qed

lemma pathsplit_slashes:
  assumes "CHR ''/'' \<notin> set n" "plain_name m"
  shows "pathsplit (CHR ''/'' # n @ replicate (Suc k) (CHR ''/'') @ m @ r) = Inr (n, CHR ''/'' # m @ r)"
proof -
  have m: "m \<noteq> []" using assms(2) by (simp add: plain_name_def)
  have t: "takeWhile (\<lambda>x. x \<noteq> CHR ''/'') (n @ CHR ''/'' # replicate k (CHR ''/'') @ m @ r) = n"
    "dropWhile (\<lambda>x. x \<noteq> CHR ''/'') (n @ CHR ''/'' # replicate k (CHR ''/'') @ m @ r) =
     CHR ''/'' # replicate k (CHR ''/'') @ m @ r"
    by (rule takeWhile_plain(1) [OF assms(1)], rule dropWhile_plain(1) [OF assms(1)])
  have "dropWhile (\<lambda>x. x = CHR ''/'') (CHR ''/'' # replicate k (CHR ''/'') @ m @ r) = m @ r"
    by (simp add: dropWhile_slashes [OF assms(2)])
  then show ?thesis unfolding pathsplit_def Let_def by (simp add: t m)
qed

lemma pathsplit_path:
  assumes "plain_name n" "list_all plain_name ns"
  shows "pathsplit (path (n # ns)) = Inr (n, path ns)"
proof (cases ns)
  case Nil
  then show ?thesis using assms by (simp add: pathsplit_last plain_name_def)
next
  case (Cons m ms)
  then show ?thesis using pathsplit_slashes [of n m 0 "path ms"] assms by (simp add: plain_name_def)
qed

subsection \<open>The entry table\<close>

abbreviation names :: "fnobj \<Rightarrow> string list" where
  "names ob \<equiv> map de_name (o_dir ob)"

lemma names_ent_update:
  "map de_name (ent_update n r es) = (if n \<in> de_name ` set es then map de_name es else map de_name es @ [n])"
  by (induction es) auto

lemma ent_swap_absent:
  "n \<notin> de_name ` set es \<Longrightarrow> ent_swap n l es = (es, None)"
  by (induction es) auto

lemma names_ent_swap:
  "distinct (map de_name es) \<Longrightarrow>
   map de_name (fst (ent_swap n l es)) = map (\<lambda>x. if x = n then de_name l else x) (map de_name es)"
proof (induction es)
  case (Cons e es)
  have "map (\<lambda>x. if x = n then de_name l else x) (map de_name es) = map de_name es" if "de_name e = n"
    by (rule map_idI) (metis Cons.prems that distinct.simps(2) list.map(2))
  then show ?case using Cons by (simp add: case_prod_beta)
qed simp

lemma ent_swap_present:
  assumes "n \<in> de_name ` set es" "distinct (map de_name es)" "de_name l \<notin> de_name ` set es"
  shows "distinct (map de_name (fst (ent_swap n l es)))"
    and "de_name ` set (fst (ent_swap n l es)) = insert (de_name l) (de_name ` set es - {n})"
proof -
  let ?g = "\<lambda>x. if x = n then de_name l else x"
  have "inj_on ?g (de_name ` set es)" 
    by (rule inj_onI) (metis assms(3))
  then show "distinct (map de_name (fst (ent_swap n l es)))"
    unfolding names_ent_swap [OF assms(2)] distinct_map using assms(2) by (simp add: distinct_map)
  have "set (map de_name (fst (ent_swap n l es))) = ?g ` (de_name ` set es)"
    unfolding names_ent_swap [OF assms(2)] by (simp only: set_map)
  also have "\<dots> = insert (de_name l) (de_name ` set es - {n})" using assms(1) by auto
  finally show "de_name ` set (fst (ent_swap n l es)) = insert (de_name l) (de_name ` set es - {n})" by simp
qed

lemma ent_swap_found: "snd (ent_swap n l es) = Some r \<Longrightarrow> \<exists>e \<in> set es. de_name e = n \<and> de_blkref e = r"
  by (induction es) (auto split: prod.splits if_splits)

lemma ent_remove:
  assumes "es \<noteq> []" "n \<in> de_name ` set es" "distinct (map de_name es)"
  shows "distinct (map de_name (fst (ent_swap n (last es) (butlast es))))"
    and "de_name ` set (fst (ent_swap n (last es) (butlast es))) = de_name ` set es - {n}"
proof -
  obtain bs l where es: "es = bs @ [l]" using assms(1) by (metis append_butlast_last_id)
  have l: "de_name l \<notin> de_name ` set bs" "distinct (map de_name bs)" using assms(3) es by auto
  have "distinct (map de_name (fst (ent_swap n l bs))) \<and> de_name ` set (fst (ent_swap n l bs)) = de_name ` set es - {n}"
  proof (cases "n \<in> de_name ` set bs")
    case True
    then show ?thesis using ent_swap_present [OF True l(2,1)] es l(1) by auto
  next
    case False
    then have "de_name l = n" using assms(2) es by auto
    then show ?thesis using False l es by (auto simp: ent_swap_absent)
  qed
  then show "distinct (map de_name (fst (ent_swap n (last es) (butlast es))))"
    "de_name ` set (fst (ent_swap n (last es) (butlast es))) = de_name ` set es - {n}"
    using es by simp_all
qed

lemma find_entry_name: "find_entry n es = Some e \<Longrightarrow> e \<in> set es \<and> de_name e = n"
  unfolding find_entry_def by (auto simp: find_Some_iff)

lemma find_entry_None: "find_entry n es = None \<longleftrightarrow> n \<notin> de_name ` set es"
  unfolding find_entry_def by (auto simp: find_None_iff)

lemma fst_map_insert: "fst ` set (map_insert k v m) = insert k (fst ` set m)"
  by (induction k v m rule: map_insert.induct) auto

lemma sorted_map_insert: "sorted_wrt (<) (map fst m) \<Longrightarrow> sorted_wrt (<) (map fst (map_insert k v m))"
proof (induction k v m rule: map_insert.induct)
  case (2 k v k' v' m)
  have "k' < x" if "\<not> k < k'" "k \<noteq> k'" "x \<in> fst ` set (map_insert k v m)" for x
    using that 2(2) unfolding fst_map_insert by auto
  then show ?case using 2 by auto
qed simp

lemma sorted_map_erase: "sorted_wrt (<) (map fst m) \<Longrightarrow> sorted_wrt (<) (map fst (map_erase k m))"
  unfolding map_erase_def by (induction m) auto

lemma map_of_map_insert:
  "sorted_wrt (<) (map fst m) \<Longrightarrow>
   map_of (map_insert k v m) = (if map_of m k = None then (map_of m)(k \<mapsto> v) else map_of m)"
proof (induction k v m rule: map_insert.induct)
  case (2 k v k' v' m)
  have "map_of m k = None" if "k < k'"
  proof -
    have "k \<notin> fst ` set m" using 2(2) that by auto
    then show ?thesis by (simp add: map_of_eq_None_iff)
  qed
  then show ?case using 2 by (auto simp: fun_eq_iff)
qed (simp add: fun_eq_iff)

lemma map_of_map_erase [simp]: "map_of (map_erase k m) = (map_of m)(k := None)"
  by (induction m) (auto simp: map_erase_def)

text \<open>A directory names its entries once, and its dirty nodes are entries.\<close>

definition dir_wf :: "fnobj \<Rightarrow> bool" where
  "dir_wf ob \<longleftrightarrow> distinct (names ob) \<and> sorted_wrt (<) (map fst (o_dirty ob)) \<and>
     fst ` set (o_dirty ob) \<subseteq> set (names ob)"

subsection \<open>Frames\<close>

text \<open>The nodes that were in the heap are as they were; new ones may be.\<close>

definition heap_kept :: "('bs, 'z) nst_scheme \<Rightarrow> ('bs, 'z) nst_scheme \<Rightarrow> bool" where
  "heap_kept s s' \<longleftrightarrow> n_next s \<le> n_next s' \<and> (\<forall>k < n_next s. n_heap s' k = n_heap s k)"

lemma heap_kept_refl [simp]: "heap_kept s s"
  by (simp add: heap_kept_def)

lemma heap_kept_trans [trans]: "heap_kept s s' \<Longrightarrow> heap_kept s' s'' \<Longrightarrow> heap_kept s s''"
  by (auto simp: heap_kept_def)

lemma n_next_simps [simp]:
  "n_next (heap_set i ob s) = n_next s" "n_next (upd_fn g i s) = n_next s" "n_next (fcache_insert j s) = n_next s"
  "n_next (fcache_remove r s) = n_next s" "n_next (add_dirty i n j s) = n_next s"
  "n_next (DirNode_update_ref i n r s) = n_next s"
  by (simp_all add: heap_set_def upd_fn_def fcache_insert_def fcache_remove_def add_dirty_def
      DirNode_update_ref_def Let_def)

lemma n_heap_simps [simp]:
  "n_heap (heap_set i ob s) = (n_heap s)(i := ob)" "n_heap (fcache_insert j s) = n_heap s"
  "n_heap (fcache_remove r s) = n_heap s"
  "n_heap (upd_fn g i s) = (n_heap s)(i := (n_heap s i)\<lparr>o_fn := g (o_fn (n_heap s i))\<rparr>)"
  "n_heap (add_dirty i n j s) = (n_heap s)(i := (n_heap s i)\<lparr>o_dirty := map_insert n j (o_dirty (n_heap s i))\<rparr>)"
  "n_heap (DirNode_update_ref i n r s) = (n_heap s)(i := (n_heap s i)\<lparr>o_dir := ent_update n r (o_dir (n_heap s i))\<rparr>)"
  by (simp_all add: heap_set_def upd_fn_def fcache_insert_def fcache_remove_def add_dirty_def
      DirNode_update_ref_def Let_def)

lemma alloc_simps [simp]:
  "n_next (fst (alloc ob s)) = Suc (n_next s)" "n_heap (fst (alloc ob s)) = (n_heap s)(n_next s := ob)"
  "snd (alloc ob s) = n_next s" "n_fcache (fst (alloc ob s)) = n_fcache s" "n_ctxt (fst (alloc ob s)) = n_ctxt s"
  by (simp_all add: alloc_def heap_set_def)

lemma T64_now_simps [simp]:
  "n_next (fst (T64_now fe s)) = n_next s" "n_heap (fst (T64_now fe s)) = n_heap s"
  "n_fcache (fst (T64_now fe s)) = n_fcache s" "n_ctxt (fst (T64_now fe s)) = n_ctxt s"
  by (simp_all add: T64_now_def)

lemma fnode_load_kept: "heap_kept s (fst (fnode_load fe r s))"
  by (auto simp: fnode_load_def heap_kept_def Let_def alloc_def split: prod.splits sum.splits if_splits)

lemma DirNode_lookup_kept: "heap_kept s (fst (DirNode_lookup fe ro i n s))"
proof -
  have "heap_kept s s1" if "fnode_load fe r s = (s1, x)" for r s1 x
    using fnode_load_kept [of s fe r] that by simp
  then show ?thesis
    by (auto simp: DirNode_lookup_def heap_kept_def split: option.splits sum.splits prod.splits)
qed

lemma DirNode_lookup_found:
  assumes "DirNode_lookup fe ro i n s = (s', Inr (Some j))" "dir_wf (n_heap s i)"
  shows "n \<in> set (names (n_heap s i))"
proof (cases "lookup_dirty (n_heap s i) n")
  case None
  then obtain e where "find_entry n (o_dir (n_heap s i)) = Some e"
    using assms(1) by (auto simp: DirNode_lookup_def split: option.splits)
  then show ?thesis using find_entry_name by force
qed (use assms(2) in \<open>auto simp: lookup_dirty_def dir_wf_def dest!: map_of_mem_dom\<close>)

subsection \<open>The names of a directory\<close>

datatype dop =
    DMknod string "32 word" string string
  | DMkdir string "32 word" string string
  | DSymlink string string
  | DUnlink string bool
  | DRmdir string

fun dir_exec :: "'bs fenv \<Rightarrow> fid \<Rightarrow> dop \<Rightarrow> ('bs, 'z) nst_scheme \<Rightarrow> ('bs, 'z) nst_scheme \<times> int res" where
  "dir_exec fe i (DMknod n md u g) s = DirNode_mknod fe i n md u g s"
| "dir_exec fe i (DMkdir n md u g) s = DirNode_mkdir fe i n md u g s"
| "dir_exec fe i (DSymlink n p) s = DirNode_symlink fe i n p s"
| "dir_exec fe i (DUnlink n d) s = DirNode_unlink fe i n d s"
| "dir_exec fe i (DRmdir n) s = DirNode_rmdir fe i n s"

text \<open>What an operation with a given result does to the set of names.\<close>

fun dop_effect :: "dop \<times> int res \<Rightarrow> string set \<Rightarrow> string set" where
  "dop_effect (op, Inl e) N = N"
| "dop_effect (DMknod n md u g, Inr _) N = insert n N"
| "dop_effect (DMkdir n md u g, Inr _) N = insert n N"
| "dop_effect (DSymlink n p, Inr _) N = insert n N"
| "dop_effect (DUnlink n d, Inr _) N = N - {n}"
| "dop_effect (DRmdir n, Inr _) N = N - {n}"

fun dir_run :: "'bs fenv \<Rightarrow> fid \<Rightarrow> dop list \<Rightarrow> ('bs, 'z) nst_scheme \<Rightarrow> ('bs, 'z) nst_scheme \<times> int res list" where
  "dir_run fe i [] s = (s, [])"
| "dir_run fe i (op # ops) s =
     (let (s1, r) = dir_exec fe i op s; (s2, rs) = dir_run fe i ops s1 in (s2, r # rs))"

definition dir_ok :: "fid \<Rightarrow> ('bs, 'z) nst_scheme \<Rightarrow> bool" where
  "dir_ok i s \<longleftrightarrow> i < n_next s \<and> dir_wf (n_heap s i)"

definition same_names :: "fid \<Rightarrow> string set \<Rightarrow> ('bs, 'z) nst_scheme \<Rightarrow> bool" where
  "same_names i N s \<longleftrightarrow> dir_ok i s \<and> set (names (n_heap s i)) = N"

lemma same_names_kept: "same_names i N s \<Longrightarrow> heap_kept s s' \<Longrightarrow> same_names i N s'"
  by (auto simp: same_names_def dir_ok_def heap_kept_def)

lemma same_names_ticks [simp]: "same_names i N (s\<lparr>n_ticks := t\<rparr>) = same_names i N s"
  by (simp add: same_names_def dir_ok_def)

lemma same_names_lookup:
  "DirNode_lookup fe ro i n s = (s', r) \<Longrightarrow> same_names i N s \<Longrightarrow> same_names i N s'"
  using same_names_kept DirNode_lookup_kept by (metis fst_conv)

lemma dir_wf_add:
  assumes "dir_wf ob"
  shows "dir_wf (ob\<lparr>o_dirty := map_insert n j (o_dirty ob), o_dir := ent_update n r (o_dir ob)\<rparr>)"
  using assms by (auto simp: dir_wf_def names_ent_update sorted_map_insert fst_map_insert)

lemma same_names_add:
  assumes "same_names i N s" "n_heap s' i = (n_heap s i)\<lparr>o_dirty := map_insert n j (o_dirty (n_heap s i)),
      o_dir := ent_update n r (o_dir (n_heap s i)), o_fn := fn\<rparr>" "n_next s \<le> n_next s'"
  shows "same_names i (insert n N) s'"
proof -
  have w: "dir_wf (n_heap s i)" "i < n_next s" "set (names (n_heap s i)) = N"
    using assms(1) by (auto simp: same_names_def dir_ok_def)
  have "dir_wf (n_heap s' i)" using dir_wf_add [OF w(1), where n = n and j = j and r = r] unfolding assms(2) by (simp add: dir_wf_def)
  moreover have "set (names (n_heap s' i)) = insert n N"
    using w(3) unfolding assms(2) by (auto simp: names_ent_update)
  ultimately show ?thesis using w(2) assms(3) by (simp add: same_names_def dir_ok_def)
qed

lemma same_names_remove:
  assumes "same_names i N s" "n \<in> N" "DirNode_remove i n s = (s', r)"
  shows "same_names i (if r = Inr () then N - {n} else N) s'"
proof -
  let ?ob = "n_heap s i" and ?es = "o_dir (n_heap s i)"
  have w: "dir_wf ?ob" "i < n_next s" "set (names ?ob) = N" using assms(1) by (auto simp: same_names_def dir_ok_def)
  have ne: "?es \<noteq> []" using assms(2) w(3) by auto
  have rm: "distinct (map de_name (fst (ent_swap n (last ?es) (butlast ?es))))"
    "de_name ` set (fst (ent_swap n (last ?es) (butlast ?es))) = N - {n}"
    using ent_remove [OF ne, of n] w assms(2) by (auto simp: dir_wf_def)
  have d: "sorted_wrt (<) (map fst (map_erase n (o_dirty ?ob)))"
    "fst ` set (map_erase n (o_dirty ?ob)) \<subseteq> N - {n}"
    using w sorted_map_erase by (auto simp: dir_wf_def map_erase_def)
  show ?thesis
  proof (cases r)
    case (Inl e)
    then have "s' = s" using assms(3) ne
      by (auto simp: DirNode_remove_def Let_def split: prod.splits sum.splits)
    then show ?thesis using assms(1) Inl by simp
  next
    case (Inr u)
    then have "n_next s' = n_next s \<and> o_dir (n_heap s' i) = fst (ent_swap n (last ?es) (butlast ?es)) \<and>
        o_dirty (n_heap s' i) = map_erase n (o_dirty ?ob)"
      using assms(3) ne by (auto simp: DirNode_remove_def Let_def split: prod.splits sum.splits if_splits)
    then show ?thesis using rm d w(2) Inr by (simp add: same_names_def dir_ok_def dir_wf_def)
  qed
qed

lemma dir_exec_names:
  assumes "same_names i N s" "dir_exec fe i op s = (s', r)"
  shows "same_names i (dop_effect (op, r) N) s'"
proof -
  have ni: "i \<noteq> n_next s1" if "same_names i N s1" for s1 :: "('a, 'b) nst_scheme"
    using that by (auto simp: same_names_def dir_ok_def)
  obtain n where n: "n = (case op of DMknod n _ _ _ \<Rightarrow> n | DMkdir n _ _ _ \<Rightarrow> n | DSymlink n _ \<Rightarrow> n | DUnlink n _ \<Rightarrow> n | DRmdir n \<Rightarrow> n)"
    by simp
  obtain s1 r1 where l: "DirNode_lookup fe False i n s = (s1, r1)" by fastforce
  have s1: "same_names i N s1" by (rule same_names_lookup [OF l assms(1)])
  have inN: "n \<in> N" if "r1 = Inr (Some j)" for j
    using DirNode_lookup_found [OF l [unfolded that]] assms(1) by (auto simp: same_names_def dir_ok_def)
  have rm: "same_names i (if r2 = Inr () then N - {n} else N) s2" if "DirNode_remove i n s1 = (s2, r2)" "r1 = Inr (Some j)" for s2 r2 j
    by (rule same_names_remove [OF s1 inN [OF that(2)] that(1)])
  show ?thesis
  proof (cases op)
    case (DMknod m md u g)
    then show ?thesis using assms(2) l s1 ni [OF s1] n
      by (auto simp: DirNode_mknod_def Let_def T64_now_def alloc_def split: sum.splits option.splits
          intro!: same_names_add [OF s1])
  next
    case (DMkdir m md u g)
    then show ?thesis using assms(2) l s1 ni [OF s1] n
      by (auto simp: DirNode_mkdir_def Let_def T64_now_def alloc_def split: sum.splits option.splits
          intro!: same_names_add [OF s1])
  next
    case (DSymlink m p)
    then show ?thesis using assms(2) l s1 ni [OF s1] n
      by (auto simp: DirNode_symlink_def Let_def T64_now_def alloc_def split: sum.splits option.splits
          intro!: same_names_add [OF s1] intro: same_names_kept [OF s1])
  next
    case (DUnlink m d)
    then show ?thesis using assms(2) l s1 n rm
      by (fastforce simp: DirNode_unlink_def split: sum.splits option.splits prod.splits if_splits)
  next
    case (DRmdir m)
    then show ?thesis using assms(2) l s1 n rm
      by (fastforce simp: DirNode_rmdir_def split: sum.splits option.splits prod.splits if_splits)
  qed
qed

lemma dir_run_names:
  "same_names i N s \<Longrightarrow> dir_run fe i ops s = (s', rs) \<Longrightarrow> same_names i (fold dop_effect (zip ops rs) N) s'"
  by (induction ops arbitrary: s s' rs N) (auto split: prod.splits dest: dir_exec_names)

subsection \<open>Properties\<close>



text \<open>
  A slash at the end of a path stays in the name of the entry, so no entry is found for a
  path that names a directory with a slash at its end.
\<close>

theorem pathsplit_trailing_slash:
  assumes "plain_name n"
  shows "pathsplit (path [n] @ ''/'') = Inr (n @ ''/'', []) \<and> \<not> plain_name (n @ ''/'')"
  using pathsplit_trailing [of n 0] assms by (simp add: plain_name_def)

theorem pathsplit_trailing_slash_witness: "pathsplit ''/usr/'' = Inr (''usr/'', [])"
  using pathsplit_trailing_slash [of "''usr''"] by (simp add: plain_name_def)


definition wit_fe :: "unit fenv" where
  "wit_fe = \<lparr>fe_env = wit_env, fe_ser_ino = (\<lambda>_ _. None), fe_parse_ino = (\<lambda>_. None), fe_ser_dir = (\<lambda>_. None),
     fe_parse_dir = (\<lambda>_. None), fe_clock = int, fe_uid = (\<lambda>_. None), fe_gid = (\<lambda>_. None)\<rparr>"

definition wit_nst :: "unit nst" where
  "wit_nst = \<lparr>n_ctxt = ctxt_mkfs wit_env [] () (ctxt_new ()),
     n_heap = (\<lambda>_. DirNode_new 0x1ED ''u'' ''g'' 0), n_next = 1, n_fcache = Map.empty, n_ticks = 0\<rparr>"


end
