(* ===== verification/Path_Laws.thy ===== *)
theory Path_Laws
  imports Dir_Laws
begin

text \<open>
  Operations on paths whose directories are in memory: what a traversal visits, what the
  updates on the way back change, and the operations of the file system on top of it.
\<close>

subsection \<open>Nodes in memory\<close>

text \<open>The node that a name of a directory leads to without asking the block store.\<close>

definition in_memory :: "('bs, 'z) nst_scheme \<Rightarrow> fid \<Rightarrow> string \<Rightarrow> fid option" where
  "in_memory s i n =
     (case lookup_dirty (n_heap s i) n of
        Some j \<Rightarrow> Some j
      | None \<Rightarrow>
          (case find_entry n (o_dir (n_heap s i)) of
             None \<Rightarrow> None
           | Some ent \<Rightarrow> if length (de_blkref ent) = 32 then n_fcache s (de_blkref ent) else None))"

definition absent :: "('bs, 'z) nst_scheme \<Rightarrow> fid \<Rightarrow> string \<Rightarrow> bool" where
  "absent s i n \<longleftrightarrow> lookup_dirty (n_heap s i) n = None \<and> find_entry n (o_dir (n_heap s i)) = None"

lemma lookup_in_memory: "in_memory s i n = Some j \<Longrightarrow> DirNode_lookup fe ro i n s = (s, Inr (Some j))"
  by (auto simp: in_memory_def DirNode_lookup_def BlockRef_parse_def split: option.splits if_splits)

lemma lookup_absent: "absent s i n \<Longrightarrow> DirNode_lookup fe ro i n s = (s, Inr None)"
  by (auto simp: absent_def DirNode_lookup_def)

text \<open>Following names from a directory; every node before the last is a directory.\<close>

fun walk :: "('bs, 'z) nst_scheme \<Rightarrow> fid \<Rightarrow> string list \<Rightarrow> fid option" where
  "walk s i [] = Some i"
| "walk s i (n # ns) =
     (case in_memory s i n of
        None \<Rightarrow> None
      | Some j \<Rightarrow> if ns = [] \<or> o_class (n_heap s j) = CDir then walk s j ns else None)"

definition enters :: "('bs, 'z) nst_scheme \<Rightarrow> fid \<Rightarrow> string \<Rightarrow> bool" where
  "enters s i n \<longleftrightarrow> o_class (n_heap s i) = CDir \<or> ((\<exists>d. o_class (n_heap s i) = CRoot d) \<and> n \<noteq> SPECIALDIR)"

text \<open>The updates that a traversal makes on its way back, with the nodes it found in \<open>s0\<close>.\<close>

fun touched :: "'bs fenv \<Rightarrow> ('bs, 'z) nst_scheme \<Rightarrow> fid \<Rightarrow> string list \<Rightarrow> ('bs, 'z) nst_scheme \<Rightarrow> ('bs, 'z) nst_scheme" where
  "touched fe s0 i [] s = s"
| "touched fe s0 i (n # ns) s =
     (case in_memory s0 i n of None \<Rightarrow> s | Some j \<Rightarrow> DirNode_update fe i n (Some j) (touched fe s0 j ns s))"

lemma and_then_simps [simp]:
  "and_then None k = None" "and_then (Some (s, out, Inl e)) k = Some (s, out, Inl e)"
  "and_then (Some (s, out, Inr u)) k = k s out"
  by (simp_all add: and_then_def)

lemma and_then_assoc: "and_then (and_then r k) k' = and_then r (\<lambda>s out. and_then (k s out) k')"
  by (cases r) (auto simp: and_then_def split: prod.splits sum.splits)

lemma and_then_ident [simp]: "and_then r (\<lambda>s out. Some (s, out, Inr ())) = r"
  by (cases r) (auto simp: and_then_def split: prod.splits sum.splits)

lemma node_traverse_dir:
  assumes "enters s i n" "plain_name n"
  shows "node_traverse fe f fl i n r s out =
    dir_traverse fe f fl (case pathsplit r of
        Inl e \<Rightarrow> (\<lambda>j s out. Some (s, out, Inl e))
      | Inr (a, b) \<Rightarrow> (\<lambda>j. node_traverse fe f fl j a b)) i n r s out"
  using assms by (auto simp: enters_def plain_name_def node_traverse.simps [of fe f fl i n r s out])

lemma upd_entry_touched:
  "in_memory s i n = Some j \<Longrightarrow> upd_entry fe fl i n j =
     (\<lambda>s1 out1. Some (if has_flag fl NT_UPDATE then touched fe s i [n] s1 else s1, out1, Inr ()))"
  by (intro ext) (simp add: upd_entry_def)

lemma leaf_traverse:
  assumes "walk s i (n # ns) = Some j" "enters s i n" "list_all plain_name (n # ns)" "\<not> has_flag fl NT_PARENT"
  shows "node_traverse fe f fl i n (path ns) s out =
    and_then (Some (nt_leaf fe f j s out))
      (\<lambda>s1 out1. Some (if has_flag fl NT_UPDATE then touched fe s i (n # ns) s1 else s1, out1, Inr ()))"
  using assms
proof (induction ns arbitrary: i n)
  case Nil
  have "in_memory s i n = Some j" using Nil by (auto split: option.splits if_splits)
  then show ?case using Nil lookup_in_memory [of s i n j]
    by (simp add: node_traverse_dir dir_traverse_def upd_entry_touched del: touched.simps)
next
  case (Cons m ns)
  then obtain k where k: "in_memory s i n = Some k" "o_class (n_heap s k) = CDir" "walk s k (m # ns) = Some j"
    by (auto split: option.splits if_splits)
  have e: "enters s k m" using k(2) by (simp add: enters_def)
  have IH: "node_traverse fe f fl k m (path ns) s out = and_then (Some (nt_leaf fe f j s out))
      (\<lambda>s1 out1. Some (if has_flag fl NT_UPDATE then touched fe s k (m # ns) s1 else s1, out1, Inr ()))"
    by (rule Cons.IH [OF k(3) e]) (use Cons.prems in simp_all)
  have p: "pathsplit (path (m # ns)) = Inr (m, path ns)" "path (m # ns) \<noteq> []"
    using Cons.prems(3) pathsplit_path by simp_all
  have pn: "plain_name n" using Cons.prems(3) by simp
  have d: "is_dirnode (n_heap s k)" using k(2) by (simp add: is_dirnode_def)
  have "node_traverse fe f fl i n (path (m # ns)) s out =
      and_then (node_traverse fe f fl k m (path ns) s out) (upd_entry fe fl i n k)"
    using Cons.prems p(2) lookup_in_memory [OF k(1)] d
    unfolding node_traverse_dir [OF Cons.prems(2) pn] dir_traverse_def p(1)
    by simp
  then show ?case unfolding IH and_then_assoc using k(1)
    by (cases "has_flag fl NT_UPDATE") (simp_all add: upd_entry_def)
qed

lemma parent_traverse:
  assumes "walk s i ns = Some d" "ns = [] \<or> o_class (n_heap s d) = CDir" "enters s i (hd (ns @ [n]))"
    "list_all plain_name (ns @ [n])" "has_flag fl NT_PARENT"
    "DirNode_lookup fe (has_flag fl NT_READONLY) d n s = (s, Inr x)"
  shows "node_traverse fe f fl i (hd (ns @ [n])) (path (tl (ns @ [n]))) s out =
    and_then (and_then (nt_parent fe f d n s out) (upd_parent fe fl d n))
      (\<lambda>s1 out1. Some (if has_flag fl NT_UPDATE then touched fe s i ns s1 else s1, out1, Inr ()))"
  using assms
proof (induction ns arbitrary: i)
  case Nil
  then have "node_traverse fe f fl i n [] s out = and_then (nt_parent fe f d n s out) (upd_parent fe fl d n)"
    by (simp add: node_traverse_dir dir_traverse_def)
  then show ?case by (cases "has_flag fl NT_UPDATE") simp_all
next
  case (Cons m ns)
  then obtain k where k: "in_memory s i m = Some k" "o_class (n_heap s k) = CDir" "walk s k ns = Some d"
    by (auto split: option.splits if_splits)
  have e: "enters s k (hd (ns @ [n]))" using k(2) by (simp add: enters_def)
  have IH: "node_traverse fe f fl k (hd (ns @ [n])) (path (tl (ns @ [n]))) s out =
      and_then (and_then (nt_parent fe f d n s out) (upd_parent fe fl d n))
        (\<lambda>s1 out1. Some (if has_flag fl NT_UPDATE then touched fe s k ns s1 else s1, out1, Inr ()))"
    by (rule Cons.IH [OF k(3) _ e]) (use Cons.prems in auto)
  obtain a as where a: "ns @ [n] = a # as" by (cases "ns @ [n]") auto
  then have pl: "list_all plain_name (a # as)" "plain_name m" using Cons.prems(4) by (simp_all flip: a)
  then have p: "pathsplit (path (ns @ [n])) = Inr (hd (ns @ [n]), path (tl (ns @ [n])))" "path (ns @ [n]) \<noteq> []"
    unfolding a using pathsplit_path [of a as] by simp_all
  have em: "enters s i m" using Cons.prems(3) by simp
  have "node_traverse fe f fl i m (path (ns @ [n])) s out =
      and_then (node_traverse fe f fl k (hd (ns @ [n])) (path (tl (ns @ [n]))) s out) (upd_entry fe fl i m k)"
    unfolding node_traverse_dir [OF em pl(2)] dir_traverse_def lookup_in_memory [OF k(1)] p(1)
    using p(2) k(2) by (simp add: is_dirnode_def)
  then show ?case unfolding IH and_then_assoc using k(1)
    by (cases "has_flag fl NT_UPDATE") (simp_all add: upd_entry_def)
qed

subsection \<open>What the updates keep\<close>

definition same_view :: "('bs, 'z) nst_scheme \<Rightarrow> ('bs, 'z) nst_scheme \<Rightarrow> bool" where
  "same_view s s' \<longleftrightarrow> (\<forall>i n. in_memory s' i n = in_memory s i n) \<and> (\<forall>i. o_class (n_heap s' i) = o_class (n_heap s i))"

lemma same_view_refl [simp]: "same_view s s"
  by (simp add: same_view_def)

lemma same_view_trans: "same_view s s' \<Longrightarrow> same_view s' s'' \<Longrightarrow> same_view s s''"
  by (simp add: same_view_def)

lemma walk_same_view: "same_view s s' \<Longrightarrow> walk s' i ns = walk s i ns"
  by (induction ns arbitrary: i) (auto simp: same_view_def split: option.splits)

lemma enters_same_view: "same_view s s' \<Longrightarrow> enters s' i n = enters s i n"
  by (simp add: same_view_def enters_def)

lemma in_memory_cong_lookup:
  "lookup_dirty (n_heap s' i) n = lookup_dirty (n_heap s i) n \<Longrightarrow>
   find_entry n (o_dir (n_heap s' i)) = find_entry n (o_dir (n_heap s i)) \<Longrightarrow>
   n_fcache s' = n_fcache s \<Longrightarrow> in_memory s' i n = in_memory s i n"
  unfolding in_memory_def by presburger

lemma in_memory_cong:
  "o_dirty (n_heap s' i) = o_dirty (n_heap s i) \<Longrightarrow> o_dir (n_heap s' i) = o_dir (n_heap s i) \<Longrightarrow>
   n_fcache s' = n_fcache s \<Longrightarrow> in_memory s' i n = in_memory s i n"
  unfolding in_memory_def lookup_dirty_def by presburger

lemma n_fcache_simps [simp]:
  "n_fcache (heap_set i ob s) = n_fcache s" "n_fcache (upd_fn g i s) = n_fcache s"
  "n_fcache (add_dirty i n j s) = n_fcache s" "n_fcache (DirNode_update_ref i n r s) = n_fcache s"
  by (simp_all add: heap_set_def upd_fn_def add_dirty_def DirNode_update_ref_def)

lemma same_view_upd_fn: "same_view s (upd_fn g i (s\<lparr>n_ctxt := c\<rparr>))"
  unfolding same_view_def by (auto intro!: in_memory_cong)

lemma map_of_map_insert_same:
  "map_of m k = None \<or> map_of m k = Some v \<Longrightarrow> map_of (map_insert k v m) = (map_of m)(k \<mapsto> v)"
  by (induction k v m rule: map_insert.induct) (auto simp: fun_eq_iff split: if_splits)

lemma DirNode_update_simps [simp]:
  "n_ctxt (DirNode_update fe i n x s) = n_ctxt s" "n_fcache (DirNode_update fe i n x s) = n_fcache s"
  "n_next (DirNode_update fe i n x s) = n_next s"
  "o_class (n_heap (DirNode_update fe i n x s) k) = o_class (n_heap s k)"
  "o_dir (n_heap (DirNode_update fe i n x s) k) = o_dir (n_heap s k)"
  "k \<noteq> i \<Longrightarrow> n_heap (DirNode_update fe i n x s) k = n_heap s k"
  by (auto simp: DirNode_update_def T64_now_def upd_fn_def heap_set_def Let_def split: option.splits)

lemma DirNode_update_dirty:
  "o_dirty (n_heap (DirNode_update fe i n (Some j) s) i) = map_insert n j (o_dirty (n_heap s i))"
  by (simp add: DirNode_update_def T64_now_def upd_fn_def heap_set_def Let_def)

lemma same_view_update:
  assumes "in_memory s i n = Some j"
  shows "same_view s (DirNode_update fe i n (Some j) s)"
proof -
  let ?s = "DirNode_update fe i n (Some j) s"
  have "in_memory ?s k m = in_memory s k m" for k m
  proof (cases "k = i")
    case True
    have "map_of (o_dirty (n_heap s i)) n = None \<or> map_of (o_dirty (n_heap s i)) n = Some j"
      using assms by (auto simp: in_memory_def lookup_dirty_def split: option.splits)
    from map_of_map_insert_same [OF this] have
      "lookup_dirty (n_heap ?s i) m = (if m = n then Some j else lookup_dirty (n_heap s i) m)"
      by (simp add: lookup_dirty_def DirNode_update_dirty)
    then have l: "lookup_dirty (n_heap ?s i) m = (if m = n then Some j else lookup_dirty (n_heap s i) m)" .
    show ?thesis
    proof (cases "m = n")
      case True
      then show ?thesis using \<open>k = i\<close> assms l by (simp add: in_memory_def [of ?s])
    qed (use True l in \<open>auto intro!: in_memory_cong_lookup\<close>)
  qed (auto intro!: in_memory_cong)
  then show ?thesis by (simp add: same_view_def)
qed

lemma touched_same_view:
  "same_view s0 s \<Longrightarrow> same_view s0 (touched fe s0 i ns s)"
proof (induction ns arbitrary: i)
  case (Cons n ns)
  then have v: "same_view s0 (touched fe s0 j ns s)" for j by blast
  show ?case
  proof (cases "in_memory s0 i n")
    case (Some j)
    then have "in_memory (touched fe s0 j ns s) i n = Some j" using v [of j] by (simp add: same_view_def)
    then show ?thesis using same_view_trans [OF v same_view_update] Some by simp
  qed (use Cons.prems in simp)
qed simp

lemma touched_ctxt [simp]: "n_ctxt (touched fe s0 i ns s) = n_ctxt s"
  by (induction ns arbitrary: i) (auto split: option.splits)

lemma touched_next [simp]: "n_next (touched fe s0 i ns s) = n_next s"
  by (induction ns arbitrary: i) (auto split: option.splits)

lemma touched_rdh [simp]: "u_rdh (touched fe s0 i ns s) = u_rdh (s :: 'bs utfs)"
  by (induction ns arbitrary: i)
    (auto simp: DirNode_update_def T64_now_def upd_fn_def heap_set_def Let_def split: option.splits)

text \<open>The updates leave alone the nodes that are not directories of the path.\<close>

lemma touched_other:
  assumes "walk s0 i ns = Some d" "ns \<noteq> [] \<Longrightarrow> i \<noteq> k" "o_class (n_heap s0 k) \<noteq> CDir"
  shows "n_heap (touched fe s0 i ns s) k = n_heap s k"
  using assms
proof (induction ns arbitrary: i)
  case (Cons n ns)
  then obtain j where j: "in_memory s0 i n = Some j" "ns = [] \<or> o_class (n_heap s0 j) = CDir" "walk s0 j ns = Some d"
    by (auto split: option.splits if_splits)
  have "n_heap (touched fe s0 j ns s) k = n_heap s k"
    by (rule Cons.IH [OF j(3)]) (use j(2) Cons.prems(3) in auto)
  then show ?case using j(1) Cons.prems(2) by simp
qed simp

subsection \<open>Reading and writing through a path\<close>

lemma root_leaf:
  assumes "u_rdh s = Some r" "walk s r (n # ns) = Some j" "enters s r n" "list_all plain_name (n # ns)"
    "\<not> has_flag fl NT_PARENT"
  shows "root_traverse ue f fl (path (n # ns)) s out =
    and_then (Some (nt_leaf (ue_fe ue) f j s out))
      (\<lambda>s1 out1. Some (if has_flag fl NT_UPDATE then touched (ue_fe ue) s r (n # ns) s1 else s1, out1, Inr ()))"
proof -
  have "pathsplit (path (n # ns)) = Inr (n, path ns)" by (rule pathsplit_path) (use assms(4) in simp_all)
  then show ?thesis unfolding root_traverse_def leaf_traverse [OF assms(2-5), symmetric] using assms(1) by simp
qed

lemma nt_flags [simp]:
  "\<not> has_flag NT_UPDATE NT_PARENT" "has_flag NT_UPDATE NT_UPDATE" "\<not> has_flag NT_DEFAULT NT_PARENT"
  "\<not> has_flag NT_DEFAULT NT_UPDATE" "\<not> has_flag NT_UPDATE NT_READONLY"
  "\<not> has_flag (or NT_DEFAULT NT_READONLY) NT_PARENT" "\<not> has_flag (or NT_DEFAULT NT_READONLY) NT_UPDATE"
  "has_flag (or NT_PARENT NT_UPDATE) NT_PARENT" "has_flag (or NT_PARENT NT_UPDATE) NT_UPDATE"
  "\<not> has_flag (or NT_PARENT NT_UPDATE) NT_READONLY" "has_flag NT_PARENT NT_PARENT" "\<not> has_flag NT_PARENT NT_UPDATE"
  "\<not> has_flag NT_PARENT NT_READONLY"
  by (simp_all add: has_flag_def NT_UPDATE_def NT_PARENT_def NT_DEFAULT_def NT_READONLY_def)

text \<open>A path in memory that ends at a plain file.\<close>

definition at_file :: "'bs utfs \<Rightarrow> string list \<Rightarrow> fid \<Rightarrow> bool" where
  "at_file s ns j \<longleftrightarrow> ns \<noteq> [] \<and> list_all plain_name ns \<and> o_class (n_heap s j) = CFile \<and>
     (\<exists>r. u_rdh s = Some r \<and> enters s r (hd ns) \<and> walk s r ns = Some j)"

lemma at_fileE:
  assumes "at_file s ns j"
  obtains r m ms where "ns = m # ms" "list_all plain_name (m # ms)" "o_class (n_heap s j) = CFile" "u_rdh s = Some r"
    "enters s r m" "walk s r (m # ms) = Some j" "r \<noteq> j"
proof -
  obtain r where r: "u_rdh s = Some r" "enters s r (hd ns)" "walk s r ns = Some j" using assms by (auto simp: at_file_def)
  have "r \<noteq> j" using r(2) assms by (auto simp: at_file_def enters_def)
  then show ?thesis using that r assms by (cases ns) (auto simp: at_file_def)
qed

text \<open>An operation on the file at a path, under the write lock: the file and the context change, and the path is touched.\<close>

lemma file_op_at:
  assumes "at_file s ns j" "nt_leaf (ue_fe ue) f j s out_new = (upd_fn (\<lambda>_. fn') j (s\<lparr>n_ctxt := c'\<rparr>), out', Inr ())"
  obtains s' where "root_traverse ue f NT_UPDATE (path ns) s out_new = Some (s', out', Inr ())"
    "at_file s' ns j" "o_fn (n_heap s' j) = fn'" "n_ctxt s' = c'"
    "\<And>k. k \<noteq> j \<Longrightarrow> o_class (n_heap s k) = CFile \<Longrightarrow> n_heap s' k = n_heap s k" "same_view s s'"
proof -
  obtain r m ms where r: "ns = m # ms" "list_all plain_name (m # ms)" "o_class (n_heap s j) = CFile" "u_rdh s = Some r"
    "enters s r m" "walk s r (m # ms) = Some j" "r \<noteq> j" using at_fileE [OF assms(1)] .
  let ?s1 = "upd_fn (\<lambda>_. fn') j (s\<lparr>n_ctxt := c'\<rparr>)"
  let ?s' = "touched (ue_fe ue) s r ns ?s1"
  have rdh: "u_rdh ?s1 = Some r" using r(4) by (simp add: upd_fn_def heap_set_def)
  have v: "same_view s ?s'" by (rule touched_same_view [OF same_view_upd_fn])
  have k: "n_heap ?s' k = n_heap ?s1 k" if "o_class (n_heap s k) = CFile" for k
  proof (rule touched_other)
    show "walk s r ns = Some j" using r(1,6) by simp
    show "r \<noteq> k" using that r(5) by (auto simp: enters_def)
  qed (use that in simp)
  show ?thesis
  proof
    show "root_traverse ue f NT_UPDATE (path ns) s out_new = Some (?s', out', Inr ())"
      unfolding r(1) using root_leaf [OF r(4,6,5,2)] assms(2) by (simp del: touched.simps)
    show "at_file ?s' ns j" unfolding at_file_def
      using v r walk_same_view [OF v] enters_same_view [OF v] rdh by (auto simp: same_view_def simp del: touched.simps walk.simps)
    show "o_fn (n_heap ?s' j) = fn'" using k [OF r(3)] by simp
    show "n_ctxt ?s' = c'" by (simp add: upd_fn_def heap_set_def)
    show "n_heap ?s' i = n_heap s i" if "i \<noteq> j" "o_class (n_heap s i) = CFile" for i using k [OF that(2)] that(1) by simp
    show "same_view s ?s'" by (rule v)
  qed
qed

lemma count_write_simps [simp]:
  "n_heap (count_write n s) = n_heap s" "n_ctxt (count_write n s) = n_ctxt s" "u_rdh (count_write n s) = u_rdh s"
  "n_fcache (count_write n s) = n_fcache s"
  by (simp_all add: count_write_def)

lemma at_file_count_write [simp]: "at_file (count_write n s) ns j = at_file s ns j"
proof -
  have "same_view s (count_write n s)" by (auto simp: same_view_def intro!: in_memory_cong)
  then show ?thesis by (simp add: at_file_def walk_same_view enters_same_view)
qed

lemma fs_write_at:
  assumes "at_file s ns j" "FileNode_write (ue_env ue) d (length d) off (o_fn (n_heap s j)) (n_ctxt s) = (fn', c', Inr v)"
  obtains s' out where "fs_write ue (path ns) d off s = Some (s', out, Inr v)" "at_file s' ns j" "o_fn (n_heap s' j) = fn'"
    "n_ctxt s' = c'" "\<And>k. k \<noteq> j \<Longrightarrow> o_class (n_heap s k) = CFile \<Longrightarrow> n_heap s' k = n_heap s k"
proof -
  have "nt_leaf (ue_fe ue) (WriteTF d off) j s out_new =
      (upd_fn (\<lambda>_. fn') j (s\<lparr>n_ctxt := c'\<rparr>), out_new\<lparr>nt_retval := Some v\<rparr>, Inr ())"
    using assms(2) by (simp add: run_fn_def set_retval_def)
  from file_op_at [OF assms(1) this] obtain s' where s':
    "root_traverse ue (WriteTF d off) NT_UPDATE (path ns) s out_new = Some (s', out_new\<lparr>nt_retval := Some v\<rparr>, Inr ())"
    "at_file s' ns j" "o_fn (n_heap s' j) = fn'" "n_ctxt s' = c'"
    "\<And>k. k \<noteq> j \<Longrightarrow> o_class (n_heap s k) = CFile \<Longrightarrow> n_heap s' k = n_heap s k" by metis
  have "fs_write ue (path ns) d off s =
      Some (count_write (length d) s', out_new\<lparr>nt_retval := Some v\<rparr>, Inr v)"
    unfolding fs_write_def s'(1) by (simp add: counted_def op_result_def)
  then show ?thesis by (rule that) (use s' in simp_all)
qed

lemma fs_read_at:
  assumes "at_file s ns j" "FileNode_read (ue_env ue) buf sz off 0 (o_fn (n_heap s j)) (n_ctxt s) = (fn', c', b, Inr v)"
  obtains s' out where "fs_read ue (path ns) buf sz off s = Some (s', out, Inr v)" "out_buf out = b"
proof -
  obtain r m ms where r: "ns = m # ms" "list_all plain_name (m # ms)" "o_class (n_heap s j) = CFile" "u_rdh s = Some r"
    "enters s r m" "walk s r (m # ms) = Some j" "r \<noteq> j" using at_fileE [OF assms(1)] .
  let ?out = "out_new\<lparr>out_buf := buf\<rparr>" and ?s' = "upd_fn (\<lambda>_. fn') j (s\<lparr>n_ctxt := c'\<rparr>)"
  let ?o' = "?out\<lparr>out_buf := b, nt_retval := Some v\<rparr>"
  have "root_traverse ue (ReadTF sz off) (or NT_DEFAULT NT_READONLY) (path ns) s ?out = Some (?s', ?o', Inr ())"
    unfolding r(1) using root_leaf [OF r(4,6,5,2)] assms(2) r(3)
    by (simp add: node_read_def set_retval_def del: touched.simps)
  then have "fs_read ue (path ns) buf sz off s = Some (count_read sz ?s', ?o', Inr v)"
    by (simp add: fs_read_def Let_def counted_def op_result_def)
  then show ?thesis by (rule that) simp
qed

subsection \<open>Creating and removing through a path\<close>

lemma root_parent:
  assumes "u_rdh s = Some r" "walk s r ns = Some d" "ns = [] \<or> o_class (n_heap s d) = CDir" "enters s r (hd (ns @ [n]))"
    "list_all plain_name (ns @ [n])" "has_flag fl NT_PARENT"
    "DirNode_lookup (ue_fe ue) (has_flag fl NT_READONLY) d n s = (s, Inr x)"
  shows "root_traverse ue f fl (path (ns @ [n])) s out =
    and_then (and_then (nt_parent (ue_fe ue) f d n s out) (upd_parent (ue_fe ue) fl d n))
      (\<lambda>s1 out1. Some (if has_flag fl NT_UPDATE then touched (ue_fe ue) s r ns s1 else s1, out1, Inr ()))"
proof -
  obtain a as where a: "ns @ [n] = a # as" by (cases "ns @ [n]") auto
  have "pathsplit (path (ns @ [n])) = Inr (hd (ns @ [n]), path (tl (ns @ [n])))"
    unfolding a using pathsplit_path [of a as] assms(5) a by simp
  then show ?thesis unfolding root_traverse_def parent_traverse [OF assms(2-7), symmetric] using assms(1) by simp
qed

text \<open>Handles lead to nodes of the heap.\<close>

definition closed :: "('bs, 'z) nst_scheme \<Rightarrow> bool" where
  "closed s \<longleftrightarrow> (\<forall>i n j. i < n_next s \<longrightarrow> in_memory s i n = Some j \<longrightarrow> j < n_next s)"

definition keeps_entries :: "('bs, 'z) nst_scheme \<Rightarrow> ('bs, 'z) nst_scheme \<Rightarrow> bool" where
  "keeps_entries s0 s \<longleftrightarrow> (\<forall>i n j. i < n_next s0 \<longrightarrow> in_memory s0 i n = Some j \<longrightarrow> in_memory s i n = Some j) \<and>
     (\<forall>i < n_next s0. o_class (n_heap s i) = o_class (n_heap s0 i))"

lemma touched_view:
  assumes "closed s0" "keeps_entries s0 s" "i < n_next s0"
  shows "same_view s (touched fe s0 i ns s)"
  using assms(3)
proof (induction ns arbitrary: i)
  case (Cons n ns)
  show ?case
  proof (cases "in_memory s0 i n")
    case (Some j)
    then have j: "j < n_next s0" "in_memory s i n = Some j"
      using assms(1,2) Cons.prems by (auto simp: closed_def keeps_entries_def)
    have v: "same_view s (touched fe s0 j ns s)" by (rule Cons.IH [OF j(1)])
    then have "in_memory (touched fe s0 j ns s) i n = Some j" using j(2) by (simp add: same_view_def)
    then show ?thesis using same_view_trans [OF v same_view_update] Some by simp
  qed simp
qed simp

lemma walk_keeps:
  assumes "closed s0" "keeps_entries s0 s" "i < n_next s0" "walk s0 i ns = Some d"
  shows "walk s i ns = Some d \<and> d < n_next s0"
  using assms(3,4)
proof (induction ns arbitrary: i)
  case (Cons n ns)
  then obtain j where j: "in_memory s0 i n = Some j" "ns = [] \<or> o_class (n_heap s0 j) = CDir" "walk s0 j ns = Some d"
    by (auto split: option.splits if_splits)
  have k: "j < n_next s0" "in_memory s i n = Some j" using assms(1,2) j(1) Cons.prems(1) by (auto simp: closed_def keeps_entries_def)
  then have "o_class (n_heap s j) = o_class (n_heap s0 j)" using assms(2) by (simp add: keeps_entries_def)
  then show ?case using Cons.IH [OF k(1) j(3)] k(2) j(2) by auto
qed simp

lemma walk_append:
  assumes "walk s i ns = Some d" "ns = [] \<or> o_class (n_heap s d) = CDir" "in_memory s d n = Some j"
  shows "walk s i (ns @ [n]) = Some j"
  using assms by (induction ns arbitrary: i) (auto split: option.splits if_splits)

text \<open>A path in memory that ends at a directory, and a name to use there.\<close>

definition at_dir :: "'bs utfs \<Rightarrow> string list \<Rightarrow> fid \<Rightarrow> string \<Rightarrow> bool" where
  "at_dir s ns d n \<longleftrightarrow> list_all plain_name (ns @ [n]) \<and> (ns = [] \<or> o_class (n_heap s d) = CDir) \<and> closed s \<and>
     (\<exists>r. u_rdh s = Some r \<and> r < n_next s \<and> enters s r (hd (ns @ [n])) \<and> walk s r ns = Some d)"

lemma at_dirE:
  assumes "at_dir s ns d n"
  obtains r where "list_all plain_name (ns @ [n])" "ns = [] \<or> o_class (n_heap s d) = CDir" "closed s"
    "u_rdh s = Some r" "r < n_next s" "enters s r (hd (ns @ [n]))" "walk s r ns = Some d" "d < n_next s"
    "o_class (n_heap s d) \<noteq> CFile"
proof -
  obtain r where r: "list_all plain_name (ns @ [n])" "ns = [] \<or> o_class (n_heap s d) = CDir" "closed s"
    "u_rdh s = Some r" "r < n_next s" "enters s r (hd (ns @ [n]))" "walk s r ns = Some d"
    using assms by (auto simp: at_dir_def)
  have k: "keeps_entries s s" by (simp add: keeps_entries_def)
  have "d < n_next s" using walk_keeps [OF r(3) k r(5,7)] by blast
  moreover have "o_class (n_heap s d) \<noteq> CFile" using r(2,6,7) by (cases "ns = []") (auto simp: enters_def)
  ultimately show ?thesis using that r by blast
qed

definition created :: "fid \<Rightarrow> string \<Rightarrow> fnobj \<Rightarrow> ('bs, 'z) nst_scheme \<Rightarrow> ('bs, 'z) nst_scheme" where
  "created d n ob s =
     upd_fn set_dirty d (DirNode_update_ref d n BlockRef_nil (add_dirty d n (n_next s) (fst (alloc ob s))))"

lemma created_view:
  assumes "absent s d n" "d < n_next s"
  shows "in_memory (created d n (plain_node cl fn) s) i m =
    (if i = d \<and> m = n then Some (n_next s) else if i = n_next s then None else in_memory s i m)"
proof -
  let ?s = "created d n (plain_node cl fn) s"
  have ne: "d \<noteq> n_next s" using assms(2) by simp
  have fc: "n_fcache ?s = n_fcache s" by (simp add: created_def)
  have a: "map_of (o_dirty (n_heap s d)) n = None" using assms(1) by (simp add: absent_def lookup_dirty_def)
  have h: "o_dirty (n_heap ?s d) = map_insert n (n_next s) (o_dirty (n_heap s d))"
    "o_dir (n_heap ?s d) = ent_update n BlockRef_nil (o_dir (n_heap s d))"
    "n_heap ?s (n_next s) = plain_node cl fn" "\<And>k. k \<noteq> d \<Longrightarrow> k \<noteq> n_next s \<Longrightarrow> n_heap ?s k = n_heap s k"
    using ne by (simp_all add: created_def)
  have f: "find_entry m (ent_update n BlockRef_nil (o_dir (n_heap s d))) = find_entry m (o_dir (n_heap s d))" if "m \<noteq> n"
  proof -
    have "find (\<lambda>e. de_name e = m) (ent_update n BlockRef_nil es) = find (\<lambda>e. de_name e = m) es" for es
      using that by (induction es) auto
    then show ?thesis by (simp add: find_entry_def)
  qed
  have l: "lookup_dirty (n_heap ?s d) m = (if m = n then Some (n_next s) else lookup_dirty (n_heap s d) m)"
    unfolding lookup_dirty_def h(1) using map_of_map_insert_same [of _ n "n_next s"] a by simp
  consider "i = d" | "i = n_next s" "i \<noteq> d" | "i \<noteq> d" "i \<noteq> n_next s" by blast
  then show ?thesis
  proof cases
    case 1
    then have "in_memory ?s i m = in_memory s i m" if "m \<noteq> n"
      by (intro in_memory_cong_lookup) (use l f h(2) fc that in simp_all)
    moreover have "in_memory ?s d n = Some (n_next s)" if "m = n" using l that by (simp add: in_memory_def [of ?s])
    ultimately show ?thesis using 1 ne by auto
  next
    case 2
    then show ?thesis using h(3) by (simp add: in_memory_def lookup_dirty_def plain_node_def find_entry_def)
  next
    case 3
    then show ?thesis using in_memory_cong [of ?s i s m] h(4) fc by simp
  qed
qed

lemma touched_fresh:
  assumes "closed s0" "i < n_next s0" "n_next s0 \<le> k"
  shows "n_heap (touched fe s0 i ns s) k = n_heap s k"
  using assms(2)
proof (induction ns arbitrary: i)
  case (Cons n ns)
  show ?case
  proof (cases "in_memory s0 i n")
    case (Some j)
    then have "j < n_next s0" using assms(1) Cons.prems by (auto simp: closed_def)
    from Cons.IH [OF this] show ?thesis using Some Cons.prems assms(3) by simp
  qed simp
qed simp

lemma in_memory_now [simp]: "in_memory (fst (T64_now fe s)) i n = in_memory s i n"
  by (rule in_memory_cong) simp_all

lemma absent_now [simp]: "absent (fst (T64_now fe s)) i n = absent s i n"
  by (simp add: absent_def)

lemma created_simps [simp]:
  "n_next (created d n ob s) = Suc (n_next s)" "n_ctxt (created d n ob s) = n_ctxt s"
  "d \<noteq> n_next s \<Longrightarrow> n_heap (created d n ob s) (n_next s) = ob"
  "k \<noteq> d \<Longrightarrow> k \<noteq> n_next s \<Longrightarrow> n_heap (created d n ob s) k = n_heap s k"
  "d \<noteq> n_next s \<Longrightarrow> o_class (n_heap (created d n ob s) d) = o_class (n_heap s d)"
  by (simp_all add: created_def upd_fn_def heap_set_def DirNode_update_ref_def add_dirty_def alloc_def)

lemma touched_fcache [simp]: "n_fcache (touched fe s0 i ns s) = n_fcache s"
  by (induction ns arbitrary: i) (auto split: option.splits)

lemma created_rdh [simp]: "u_rdh (created d n ob (s :: 'bs utfs)) = u_rdh s" "u_rdh (fst (T64_now fe (s :: 'bs utfs))) = u_rdh s"
  "u_rdh (DirNode_update fe i n x (s :: 'bs utfs)) = u_rdh s"
  by (auto simp: created_def T64_now_def upd_fn_def heap_set_def DirNode_update_ref_def add_dirty_def alloc_def
      DirNode_update_def Let_def split: option.splits)

text \<open>An operation that makes a new node under a name that is not in use.\<close>

lemma create_at:
  assumes dir: "at_dir s ns d n" and abs: "absent s d n"
    and op: "nt_parent (ue_fe ue) f d n s out_new =
      Some (created d n (plain_node CFile fn) (fst (T64_now (ue_fe ue) s)), out', Inr ())"
  obtains s' where "root_traverse ue f NT_PARENT_UPDATE (path (ns @ [n])) s out_new = Some (s', out', Inr ())"
    "at_file s' (ns @ [n]) (n_next s)" "o_fn (n_heap s' (n_next s)) = fn" "n_ctxt s' = n_ctxt s"
    "\<And>i m. i < n_next s \<Longrightarrow> (i, m) \<noteq> (d, n) \<Longrightarrow> in_memory s' i m = in_memory s i m"
    "\<And>k. k < n_next s \<Longrightarrow> o_class (n_heap s k) = CFile \<Longrightarrow> n_heap s' k = n_heap s k"
proof -
  let ?fe = "ue_fe ue" and ?N = "n_next s"
  obtain r where r: "list_all plain_name (ns @ [n])" "ns = [] \<or> o_class (n_heap s d) = CDir" "closed s"
    "u_rdh s = Some r" "r < ?N" "enters s r (hd (ns @ [n]))" "walk s r ns = Some d" "d < ?N"
    "o_class (n_heap s d) \<noteq> CFile" by (rule at_dirE [OF dir])
  define t where "t = fst (T64_now ?fe s)"
  have t: "n_next t = ?N" "n_heap t = n_heap s" "n_ctxt t = n_ctxt s" "absent t d n" "\<And>i m. in_memory t i m = in_memory s i m"
    using abs by (simp_all add: t_def)
  define c where "c = created d n (plain_node CFile fn) t"
  define u where "u = DirNode_update ?fe d n (Some ?N) c"
  define s' where "s' = touched ?fe s r ns u"
  have dN: "d \<noteq> ?N" using r(8) by simp
  have vc: "in_memory c i m = (if i = d \<and> m = n then Some ?N else if i = ?N then None else in_memory s i m)" for i m
    using created_view [of t d n CFile fn i m] t r(8) by (simp add: c_def)
  have vu: "same_view c u" unfolding u_def by (rule same_view_update) (simp add: vc)
  have none: "in_memory s d n = None" using abs by (simp add: in_memory_def absent_def)
  have k: "keeps_entries s u" unfolding keeps_entries_def
  proof (intro conjI allI impI)
    fix i m j assume "i < ?N" "in_memory s i m = Some j"
    then show "in_memory u i m = Some j" using vu vc none by (auto simp: same_view_def)
  next
    fix i assume i: "i < ?N"
    have "o_class (n_heap c i) = o_class (n_heap s i)" using i dN t by (cases "i = d") (auto simp: c_def)
    then show "o_class (n_heap u i) = o_class (n_heap s i)" using vu by (simp add: same_view_def)
  qed
  have vs: "same_view u s'" unfolding s'_def by (rule touched_view [OF r(3) k r(5)])
  have view: "in_memory s' i m = in_memory c i m" "o_class (n_heap s' i) = o_class (n_heap u i)" for i m
    using vs vu by (simp_all add: same_view_def)
  have k': "keeps_entries s s'" using k vs by (auto simp: keeps_entries_def same_view_def)
  have N: "n_heap s' ?N = plain_node CFile fn"
    unfolding s'_def touched_fresh [OF r(3,5) order_refl] u_def using dN created_simps(3) [of d t] t by (simp add: c_def)
  show ?thesis
  proof
    have "DirNode_lookup ?fe False d n c = (c, Inr (Some ?N))" by (rule lookup_in_memory) (simp add: vc)
    then show "root_traverse ue f NT_PARENT_UPDATE (path (ns @ [n])) s out_new = Some (s', out', Inr ())"
      using root_parent [OF r(4,7,2,6,1), of NT_PARENT_UPDATE ue None f out_new] op lookup_absent [OF abs]
      by (simp add: upd_parent_def s'_def u_def c_def t_def)
    have "walk s' r (ns @ [n]) = Some ?N"
    proof (rule walk_append)
      show "walk s' r ns = Some d" using walk_keeps [OF r(3) k' r(5,7)] by blast
      show "ns = [] \<or> o_class (n_heap s' d) = CDir" using r(2,8) k' by (auto simp: keeps_entries_def)
      show "in_memory s' d n = Some ?N" by (simp add: view vc)
    qed
    moreover have "enters s' r (hd (ns @ [n]))" using r(5,6) k' by (auto simp: enters_def keeps_entries_def)
    moreover have "u_rdh s' = Some r" using r(4) by (simp add: s'_def u_def c_def t_def)
    ultimately show "at_file s' (ns @ [n]) ?N" using r(1) N by (simp add: at_file_def plain_node_def)
    show "o_fn (n_heap s' ?N) = fn" using N by (simp add: plain_node_def)
    show "n_ctxt s' = n_ctxt s" by (simp add: s'_def u_def c_def t(3))
    show "in_memory s' i m = in_memory s i m" if "i < ?N" "(i, m) \<noteq> (d, n)" for i m
      using that by (auto simp: view vc)
    show "n_heap s' k = n_heap s k" if "k < ?N" "o_class (n_heap s k) = CFile" for k
    proof -
      have "r \<noteq> k" "d \<noteq> k" using that(2) r(6,9) by (auto simp: enters_def)
      then show ?thesis using touched_other [OF r(7)] that t by (simp add: s'_def u_def c_def)
    qed
  qed
qed

subsection \<open>Removing\<close>

text \<open>The directories that a walk passes through.\<close>

fun passed :: "('bs, 'z) nst_scheme \<Rightarrow> fid \<Rightarrow> string list \<Rightarrow> fid list" where
  "passed s i [] = []"
| "passed s i (n # ns) = i # (case in_memory s i n of None \<Rightarrow> [] | Some j \<Rightarrow> passed s j ns)"

lemma touched_off: "k \<notin> set (passed s0 i ns) \<Longrightarrow> n_heap (touched fe s0 i ns s) k = n_heap s k"
  by (induction ns arbitrary: i) (auto split: option.splits)

lemma absent_cong:
  "o_dirty (n_heap s' i) = o_dirty (n_heap s i) \<Longrightarrow> o_dir (n_heap s' i) = o_dir (n_heap s i) \<Longrightarrow> absent s' i n = absent s i n"
  by (simp add: absent_def lookup_dirty_def)

lemma DirNode_update_None [simp]:
  "o_dirty (n_heap (DirNode_update fe i n None s) k) = o_dirty (n_heap s k)"
  by (simp add: DirNode_update_def T64_now_def upd_fn_def heap_set_def Let_def)

lemma DirNode_remove_ok:
  assumes "dir_wf (n_heap s d)" "n \<in> set (names (n_heap s d))" "\<forall>e \<in> set (o_dir (n_heap s d)). length (de_blkref e) = 32"
  obtains s' where "DirNode_remove d n s = (s', Inr ())" "n_next s' = n_next s"
    "\<And>k. k \<noteq> d \<Longrightarrow> n_heap s' k = n_heap s k" "o_class (n_heap s' d) = o_class (n_heap s d)"
    "set (names (n_heap s' d)) = set (names (n_heap s d)) - {n}" "distinct (names (n_heap s' d))"
    "o_dirty (n_heap s' d) = map_erase n (o_dirty (n_heap s d))" "absent s' d n"
    "n_fcache s' \<subseteq>\<^sub>m n_fcache s" "m_bncache (n_ctxt s') \<subseteq>\<^sub>m m_bncache (n_ctxt s)" "m_bsh (n_ctxt s') = m_bsh (n_ctxt s)"
proof -
  let ?es = "o_dir (n_heap s d)"
  obtain es found where sw: "ent_swap n (last ?es) (butlast ?es) = (es, found)" by fastforce
  have ne: "?es \<noteq> []" using assms(2) by auto
  have rm: "distinct (map de_name es)" "de_name ` set es = de_name ` set ?es - {n}"
    using ent_remove [OF ne, of n] assms(1,2) sw by (auto simp: dir_wf_def)
  obtain ref where ref: "(case found of None \<Rightarrow> Inr BlockRef_nil | Some r \<Rightarrow> BlockRef_parse r) = Inr ref"
  proof (cases found)
    case (Some r)
    then obtain e where "e \<in> set (butlast ?es)" "de_blkref e = r" using ent_swap_found [of n "last ?es" "butlast ?es" r] sw by auto
    then show ?thesis using that assms(3) Some by (auto simp: BlockRef_parse_def dest: in_set_butlastD)
  qed (use that in simp)
  let ?s1 = "heap_set d ((n_heap s d)\<lparr>o_dir := es, o_dirty := map_erase n (o_dirty (n_heap s d))\<rparr>) s"
  let ?s2 = "if ref_set ref then fcache_remove ref ?s1 else ?s1"
  let ?s' = "upd_fn set_dirty d ?s2"
  have h: "o_dir (n_heap ?s' d) = es" "o_dirty (n_heap ?s' d) = map_erase n (o_dirty (n_heap s d))" by auto
  have find: "find_entry n es = None" using rm(2) by (simp add: find_entry_None)
  show ?thesis
  proof
    show "DirNode_remove d n s = (?s', Inr ())" unfolding DirNode_remove_def Let_def sw using ne ref by simp
    show "o_dirty (n_heap ?s' d) = map_erase n (o_dirty (n_heap s d))" by (rule h(2))
    show "absent ?s' d n" unfolding absent_def lookup_dirty_def h using find by simp
    show "set (names (n_heap ?s' d)) = set (names (n_heap s d)) - {n}" "distinct (names (n_heap ?s' d))"
      using rm h(1) by simp_all
    show "n_fcache ?s' \<subseteq>\<^sub>m n_fcache s" "m_bncache (n_ctxt ?s') \<subseteq>\<^sub>m m_bncache (n_ctxt s)" "m_bsh (n_ctxt ?s') = m_bsh (n_ctxt s)"
      by (auto simp: map_le_def fcache_remove_def cache_remove_def upd_fn_def heap_set_def)
  qed (auto simp: fcache_remove_def)
qed

lemma find_entry_append: "find_entry n es = None \<Longrightarrow> find_entry n (es @ [e]) = (if de_name e = n then Some e else None)"
  by (induction es) (auto simp: find_entry_def split: if_splits)

lemma in_memory_name:
  assumes "in_memory s d n = Some j" "dir_wf (n_heap s d)"
  shows "n \<in> set (names (n_heap s d))"
  using DirNode_lookup_found [OF lookup_in_memory [OF assms(1)] assms(2)] .

subsection \<open>Properties\<close>


text \<open>
  C24. Making a file under a name that is not in use gives an empty file at that path and
  changes no other entry and no other file; under a name in use it fails and changes nothing.
\<close>

theorem path_mknod:
  assumes "at_dir s ns d n" "absent s d n \<or> in_memory s d n \<noteq> None"
  shows "if absent s d n
    then \<exists>s' out now. fs_mknod ue (path (ns @ [n])) md u g s = Some (s', out, Inr 0) \<and>
      at_file s' (ns @ [n]) (n_next s) \<and> o_fn (n_heap s' (n_next s)) = FileNode_new md u g now \<and>
      (\<forall>i < n_next s. \<forall>m. (i, m) \<noteq> (d, n) \<longrightarrow> in_memory s' i m = in_memory s i m) \<and>
      (\<forall>k < n_next s. o_class (n_heap s k) = CFile \<longrightarrow> n_heap s' k = n_heap s k)
    else \<exists>out. fs_mknod ue (path (ns @ [n])) md u g s = Some (s, out, Inr (- errno_val EEXIST))"
proof (cases "absent s d n")
  case True
  let ?now = "snd (T64_now (ue_fe ue) s)" and ?out = "out_new\<lparr>nt_retval := Some 0\<rparr>"
  have "nt_parent (ue_fe ue) (MknodTF md u g) d n s out_new =
      Some (created d n (plain_node CFile (FileNode_new md u g ?now)) (fst (T64_now (ue_fe ue) s)), ?out, Inr ())"
    by (simp add: DirNode_mknod_def lookup_absent [OF True] created_def set_retval_def case_prod_beta Let_def)
  from create_at [OF assms(1) True this] obtain s' where s':
    "root_traverse ue (MknodTF md u g) NT_PARENT_UPDATE (path (ns @ [n])) s out_new = Some (s', ?out, Inr ())"
    "at_file s' (ns @ [n]) (n_next s)" "o_fn (n_heap s' (n_next s)) = FileNode_new md u g ?now"
    "\<And>i m. i < n_next s \<Longrightarrow> (i, m) \<noteq> (d, n) \<Longrightarrow> in_memory s' i m = in_memory s i m"
    "\<And>k. k < n_next s \<Longrightarrow> o_class (n_heap s k) = CFile \<Longrightarrow> n_heap s' k = n_heap s k" by metis
  have "fs_mknod ue (path (ns @ [n])) md u g s = Some (s', ?out, Inr 0)"
    by (simp add: fs_mknod_def write_op_def s'(1) op_result_def)
  with s' True show ?thesis by auto
next
  case False
  then obtain j where j: "in_memory s d n = Some j" using assms(2) by auto
  obtain r where r: "list_all plain_name (ns @ [n])" "ns = [] \<or> o_class (n_heap s d) = CDir" "u_rdh s = Some r"
    "enters s r (hd (ns @ [n]))" "walk s r ns = Some d" by (rule at_dirE [OF assms(1)]) blast
  have "root_traverse ue (MknodTF md u g) NT_PARENT_UPDATE (path (ns @ [n])) s out_new = Some (s, out_new, Inl (Errno EEXIST))"
    using root_parent [OF r(3,5,2,4,1), of NT_PARENT_UPDATE ue "Some j"] lookup_in_memory [OF j]
    by (simp add: DirNode_mknod_def set_retval_def)
  then show ?thesis using False by (simp add: fs_mknod_def write_op_def op_result_def)
qed


definition wit_ue :: "unit uenv" where
  "wit_ue = \<lparr>ue_fe = wit_fe, ue_ser_he = (\<lambda>_. []), ue_fill = (\<lambda>_ _. None), ue_rid = (\<lambda>_. None),
     ue_head_insert = (\<lambda>s _. (s, Inl InternalError)), ue_head_furthest = (\<lambda>_ _. Inr []),
     ue_refresh_start = (\<lambda>s _. (s, Inl InternalError)), ue_refresh_finish = (\<lambda>s _. (s, Inl InternalError)),
     ue_stat = (\<lambda>_. Inr (0, 0))\<rparr>"

definition wit_root :: fnobj where
  "wit_root = (plain_node (CRoot 9) (DirNode_fn 0x1FF ''u'' ''g'' 0))
     \<lparr>o_dir := [\<lparr>de_name = ''f'', de_blkref = BlockRef_nil\<rparr>], o_dirty := [(''f'', 1)]\<rparr>"

definition wit_utfs :: "unit utfs" where
  "wit_utfs = \<lparr>n_ctxt = wit_ctxt, n_heap = (\<lambda>_. plain_node CFile wit_file)(0 := wit_root), n_next = 2,
     n_fcache = Map.empty, n_ticks = 0, u_fsiddig = [], u_bsh_set = True, u_rdh = Some 0, u_hn = ([], []),
     u_rbr = BlockRef_nil, u_nrdops = 0, u_nrdbytes = 0, u_nwrops = 0, u_nwrbytes = 0\<rparr>"

lemma wit_utfs_simps [simp]:
  "n_ctxt wit_utfs = wit_ctxt" "n_heap wit_utfs 0 = wit_root" "k \<noteq> 0 \<Longrightarrow> n_heap wit_utfs k = plain_node CFile wit_file"
  "n_next wit_utfs = 2" "n_fcache wit_utfs = Map.empty" "u_rdh wit_utfs = Some 0" "ue_env wit_ue = wit_env"
  by (simp_all add: wit_utfs_def wit_ue_def wit_fe_def)

lemma wit_in_memory: "in_memory wit_utfs 0 n = (if n = ''f'' then Some 1 else None)" "i \<noteq> 0 \<Longrightarrow> in_memory wit_utfs i n = None"
  by (auto simp: in_memory_def lookup_dirty_def find_entry_def wit_root_def plain_node_def)

lemma wit_enters: "n \<noteq> SPECIALDIR \<Longrightarrow> enters wit_utfs 0 n"
  by (simp add: enters_def wit_root_def plain_node_def)

lemma wit_at_file: "at_file wit_utfs [''f''] 1"
  by (simp add: at_file_def wit_in_memory wit_enters plain_name_def plain_node_def SPECIALDIR_def)

lemma wit_closed: "closed wit_utfs"
  unfolding closed_def
proof (intro allI impI)
  fix i n j assume "in_memory wit_utfs i n = Some j"
  then show "j < n_next wit_utfs" by (cases "i = 0") (auto simp: wit_in_memory split: if_splits)
qed

lemma wit_at_dir: "plain_name n \<Longrightarrow> n \<noteq> SPECIALDIR \<Longrightarrow> at_dir wit_utfs [] 0 n"
  using wit_closed by (simp add: at_dir_def wit_enters)

lemma wit_dir_wf: "dir_wf (n_heap wit_utfs 0)" "\<forall>e \<in> set (o_dir (n_heap wit_utfs 0)). length (de_blkref e) = 32"
  by (simp_all add: dir_wf_def wit_root_def plain_node_def)


theorem path_mknod_witness:
  "\<exists>s' out. fs_mknod wit_ue ''/h'' 0x1A4 ''u'' ''g'' wit_utfs = Some (s', out, Inr 0) \<and> at_file s' [''h''] 2"
proof -
  have a: "absent wit_utfs 0 ''h''" by (simp add: absent_def lookup_dirty_def find_entry_def wit_root_def plain_node_def)
  have "at_dir wit_utfs [] 0 ''h''" by (rule wit_at_dir) (simp_all add: plain_name_def SPECIALDIR_def)
  from path_mknod [OF this disjI1 [OF a], of wit_ue "0x1A4" "''u''" "''g''"] a show ?thesis by auto
qed


text \<open>
  C36. Renaming a name that does not exist onto one that does throws, and the file of the
  existing name is lost: its entry holds a nil reference afterwards. The hypotheses on the nil
  reference are that no block is cached or stored under it.
\<close>

theorem rename_missing_destroys:
  assumes "at_dir s ns d a" "absent s d a" "at_dir s ms e b" "in_memory s e b = Some j" "dir_wf (n_heap s e)"
    "\<forall>x \<in> set (o_dir (n_heap s e)). length (de_blkref x) = 32"
    "n_fcache s BlockRef_nil = None" "m_bncache (n_ctxt s) BlockRef_nil = None"
    "e_get (ue_env ue) (m_bsh (n_ctxt s)) BlockRef_nil BLKSZ = Inl NotFoundError"
  shows "\<exists>s' out. fs_rename ue (path (ns @ [a])) (path (ms @ [b])) s = Some (s', out, Inl NotFoundError) \<and>
    in_memory s' e b = None \<and> find_entry b (o_dir (n_heap s' e)) = Some \<lparr>de_name = b, de_blkref = BlockRef_nil\<rparr>"
proof -
  obtain r where r: "list_all plain_name (ns @ [a])" "ns = [] \<or> o_class (n_heap s d) = CDir" "u_rdh s = Some r"
    "enters s r (hd (ns @ [a]))" "walk s r ns = Some d" by (rule at_dirE [OF assms(1)]) blast
  obtain q where q: "list_all plain_name (ms @ [b])" "ms = [] \<or> o_class (n_heap s e) = CDir" "u_rdh s = Some q"
    "enters s q (hd (ms @ [b]))" "walk s q ms = Some e" by (rule at_dirE [OF assms(3)]) blast
  have ps: "\<exists>x. pathsplit (path (us @ [v])) = Inr x" if "list_all plain_name (us @ [v])" for us v
    using that pathsplit_path by (cases "us @ [v]") auto
  have src: "root_traverse ue LinkSrcTF NT_PARENT (path (ns @ [a])) s out_new = Some (s, out_new, Inr ())"
    using root_parent [OF r(3,5,2,4,1), of NT_PARENT ue None LinkSrcTF out_new] lookup_absent [OF assms(2)] assms(2)
    by (simp add: find_blkref_def absent_def upd_parent_def out_new_def)
  obtain s1 where s1: "DirNode_remove e b s = (s1, Inr ())" "absent s1 e b" "n_fcache s1 \<subseteq>\<^sub>m n_fcache s"
    "m_bncache (n_ctxt s1) \<subseteq>\<^sub>m m_bncache (n_ctxt s)" "m_bsh (n_ctxt s1) = m_bsh (n_ctxt s)"
    using DirNode_remove_ok [OF assms(5) in_memory_name [OF assms(4,5)] assms(6)] by metis
  let ?ent = "\<lparr>de_name = b, de_blkref = BlockRef_nil\<rparr>"
  let ?s2 = "upd_fn set_dirty e (heap_set e ((n_heap s1 e)\<lparr>o_dir := o_dir (n_heap s1 e) @ [?ent]\<rparr>) s1)"
  have h: "lookup_dirty (n_heap ?s2 e) b = None" "find_entry b (o_dir (n_heap ?s2 e)) = Some ?ent"
    using s1(2) find_entry_append [of b "o_dir (n_heap s1 e)" ?ent] by (simp_all add: absent_def lookup_dirty_def)
  have nil: "n_fcache ?s2 BlockRef_nil = None" "m_bncache (n_ctxt ?s2) BlockRef_nil = None"
    "m_bsh (n_ctxt ?s2) = m_bsh (n_ctxt s)"
    using s1(3-5) assms(7,8) by (auto simp: upd_fn_def heap_set_def map_le_def dom_def)
  have load: "fnode_load (ue_fe ue) BlockRef_nil ?s2 = (?s2, Inl NotFoundError)"
    using assms(9) nil(3) by (simp add: fnode_load_def FileNode_load_def load_block_def)
  have lk: "DirNode_lookup (ue_fe ue) False e b ?s2 = (?s2, Inl NotFoundError)"
    unfolding DirNode_lookup_def h(1) option.case using h(2) nil(1,2) load by (simp add: BlockRef_parse_def)
  have "root_traverse ue (LinkDstTF BlockRef_nil True) NT_PARENT_UPDATE (path (ms @ [b])) s out_new =
      Some (?s2, out_new\<lparr>nt_retval := Some 0\<rparr>, Inl NotFoundError)"
    using root_parent [OF q(3,5,2,4,1), of NT_PARENT_UPDATE ue "Some j"] lookup_in_memory [OF assms(4)] s1(1) lk
    by (simp add: DirNode_linkdst_def set_retval_def upd_parent_def Let_def)
  then have "fs_rename ue (path (ns @ [a])) (path (ms @ [b])) s =
      Some (?s2, out_new\<lparr>nt_retval := Some 0\<rparr>, Inl NotFoundError)"
    using ps [OF r(1)] ps [OF q(1)] src by (auto simp: fs_rename_def link_paths_def op_result_def out_new_def)
  moreover have "in_memory ?s2 e b = None" unfolding in_memory_def h(1) option.case using h(2) nil(1) by simp
  ultimately show ?thesis using h(2) by blast
qed

theorem rename_missing_destroys_witness:
  "\<exists>s' out. fs_rename wit_ue ''/h'' ''/f'' wit_utfs = Some (s', out, Inl NotFoundError) \<and> in_memory s' 0 ''f'' = None"
proof -
  have a: "absent wit_utfs 0 ''h''" by (simp add: absent_def lookup_dirty_def find_entry_def wit_root_def plain_node_def)
  have d: "at_dir wit_utfs [] 0 ''h''" "at_dir wit_utfs [] 0 ''f''"
    by (rule wit_at_dir; simp add: plain_name_def SPECIALDIR_def)+
  have "n_fcache wit_utfs BlockRef_nil = None" "m_bncache (n_ctxt wit_utfs) BlockRef_nil = None"
    "e_get (ue_env wit_ue) (m_bsh (n_ctxt wit_utfs)) BlockRef_nil BLKSZ = Inl NotFoundError"
    by (simp_all add: ctxt_mkfs_def ctxt_new_def wit_env_def Let_def)
  from rename_missing_destroys [OF d(1) a d(2) _ wit_dir_wf this] show ?thesis by (auto simp: wit_in_memory)
qed

text \<open>
  Setting the times of a file that is clean is not written out: the operation succeeds,
  but the node stays clean, so a flush of it returns its old reference and stores nothing.
\<close>

theorem utime_not_flushed:
  assumes "at_file s ns j" "\<not> fn_dirty (o_fn (n_heap s j))"
  shows "\<exists>s' out. fs_utime ue (path ns) at mt s = Some (s', out, Inr 0) \<and>
    ino_mtime (m_inode (o_fn (n_heap s' j))) = mt \<and>
    bn_flush (ue_fe ue) True j s' = Some (s', Inr (fn_ref (o_fn (n_heap s j))))"
proof -
  let ?fn = "set_mtime mt (set_atime at (o_fn (n_heap s j)))" and ?out = "out_new\<lparr>nt_retval := Some 0\<rparr>"
  have "nt_leaf (ue_fe ue) (UtimeTF at mt) j s out_new = (upd_fn (\<lambda>_. ?fn) j (s\<lparr>n_ctxt := n_ctxt s\<rparr>), ?out, Inr ())"
    by (simp add: set_retval_def upd_fn_def)
  from file_op_at [OF assms(1) this] obtain s' where s':
    "root_traverse ue (UtimeTF at mt) NT_UPDATE (path ns) s out_new = Some (s', ?out, Inr ())"
    "at_file s' ns j" "o_fn (n_heap s' j) = ?fn" by metis
  have cl: "o_class (n_heap s' j) = CFile" using s'(2) by (simp add: at_file_def)
  have "fs_utime ue (path ns) at mt s = Some (s', ?out, Inr 0)" by (simp add: fs_utime_def write_op_def s'(1) op_result_def)
  moreover have "upd_fn (\<lambda>_. o_fn (n_heap s' j)) j (s'\<lparr>n_ctxt := n_ctxt s'\<rparr>) = s'" by (simp add: upd_fn_def heap_set_def)
  then have "bn_flush (ue_fe ue) True j s' = Some (s', Inr (fn_ref (o_fn (n_heap s j))))"
    using s'(3) assms(2) cl
    by (simp add: bn_flush.simps is_dirnode_def fnode_flush_def run_fn_def FileNode_flush_def set_mtime_def set_atime_def)
  moreover have "ino_mtime (m_inode (o_fn (n_heap s' j))) = mt" using s'(3) by (simp add: set_mtime_def)
  ultimately show ?thesis by blast
qed

theorem utime_not_flushed_witness:
  "\<exists>s' out. fs_utime wit_ue ''/f'' 1 2 (upd_fn (\<lambda>fn. fn\<lparr>fn_dirty := False\<rparr>) 1 wit_utfs) = Some (s', out, Inr 0) \<and>
     bn_flush (ue_fe wit_ue) True 1 s' = Some (s', Inr BlockRef_nil)"
proof -
  let ?s = "upd_fn (\<lambda>fn. fn\<lparr>fn_dirty := False\<rparr>) 1 wit_utfs"
  have v: "same_view wit_utfs ?s" unfolding same_view_def by (auto intro!: in_memory_cong)
  have "at_file ?s [''f''] 1" using wit_at_file unfolding at_file_def walk_same_view [OF v] enters_same_view [OF v]
    by (simp add: upd_fn_def heap_set_def)
  from utime_not_flushed [OF this, of wit_ue 1 2] show ?thesis by (auto simp: plain_node_def FileNode_new_def)
qed

end
