(* ===== verification/Persist.thy ===== *)
theory Persist
  imports FS_Store_Laws File_Ops
begin

text \<open>
  What a flush stores is what a later load finds. The blocks of a tree are encrypted, named by
  their digest and put; loading gets, validates and decrypts them. The interface to the block
  store is the locale \<open>roomy_store\<close>: a store with room for the blocks takes them and drops
  none. \<^verbatim>\<open>FSBlockStore\<close> provides it while its counters leave room.
\<close>

subsection \<open>A store with room\<close>

locale roomy_store =
  fixes bs_get :: "'bs \<Rightarrow> key \<Rightarrow> nat \<Rightarrow> bytes res"
    and bs_put :: "'bs \<Rightarrow> key \<Rightarrow> bytes \<Rightarrow> 'bs \<times> unit res"
    and room :: "'bs \<Rightarrow> nat \<Rightarrow> bool"
    and unseen :: "'bs \<Rightarrow> key \<Rightarrow> bool"
  assumes room_put: "room s (Suc n) \<Longrightarrow> length d = BLKSZ \<Longrightarrow> k \<noteq> [] \<Longrightarrow> unseen s k \<Longrightarrow>
      \<exists>s'. bs_put s k d = (s', Inr ()) \<and> room s' n \<and> bs_get s' k BLKSZ = Inr d \<and>
        (\<forall>k'. k' \<noteq> k \<longrightarrow> bs_get s' k' BLKSZ = bs_get s k' BLKSZ \<and> (unseen s k' \<longrightarrow> unseen s' k'))"
    and unseen_get: "room s n \<Longrightarrow> unseen s k \<Longrightarrow> bs_get s k BLKSZ \<noteq> Inr d"

definition fs_room :: "fsbs \<Rightarrow> nat \<Rightarrow> bool" where
  "fs_room s n \<longleftrightarrow> fs_inv BLKSZ s \<and> fs_acct s \<and> 0 \<le> f_uncommitted s \<and> lru_bytes s + int (n * BLKSZ) \<le> f_size s"

definition fs_unseen :: "fsbs \<Rightarrow> key \<Rightarrow> bool" where
  "fs_unseen s k \<longleftrightarrow> f_entries s (entryname k) = None"

lemma fs_unseen_file: "fs_inv B s \<Longrightarrow> fs_unseen s k \<Longrightarrow> f_files s (entryname k) = None"
  using fs_inv_entry [of B s "entryname k"] unfolding fs_unseen_def by fastforce

lemma fs_put_room:
  assumes s: "fs_room s (Suc n)" "fs_unseen s k" and d: "length d = BLKSZ"
  obtains s' where "fs_block_put (os_sound now) k d s = (s', Inr ())" "fs_room s' n"
    "f_files s' = (f_files s)(entryname k \<mapsto> (d, now))"
    "\<And>k'. k' \<noteq> k \<Longrightarrow> f_entries s' (entryname k') = f_entries s (entryname k')"
proof -
  let ?e = "entryname k"
  note fine = os_sound_fine [of BLKSZ now, unfolded BLKSZ_def, simplified]
  have inv: "fs_inv BLKSZ s" "fs_acct s" using s(1) by (simp_all add: fs_room_def)
  have none: "f_files s ?e = None" "f_entries s ?e = None"
    using fs_unseen_file [OF inv(1) s(2)] s(2) by (simp_all add: fs_unseen_def)
  have "f_committed s + f_uncommitted s = lru_bytes s" "0 \<le> f_uncommitted s" "lru_bytes s + int (Suc n * BLKSZ) \<le> f_size s"
    using s(1) by (simp_all add: fs_room_def fs_acct_def)
  moreover have "int BLKSZ \<le> int (Suc n * BLKSZ)" by simp
  ultimately have lim: "f_committed s + f_uncommitted s + int BLKSZ \<le> f_size s" "int BLKSZ \<le> f_size s - f_committed s"
    by linarith+
  then have "fs_block_put (os_sound now) k d s = fs_write_block (os_sound now) ?e d 0 True s"
    using d none by (simp add: fs_block_put_def put_prev_def purge_loop.simps Let_def)
  moreover obtain s' where w: "fs_write_block (os_sound now) ?e d 0 True s = (s', Inr ())"
    "\<And>k'. k' \<noteq> k \<Longrightarrow> f_entries s' (entryname k') = f_entries s (entryname k')"
    "f_uncommitted s' = f_uncommitted s"
    using none d by (simp add: fs_write_block_def os_sound_def touch_entry_def Let_def BLKSZ_def entryname_inj put_account_def)
  moreover note ok = fs_write_block_ok [OF inv(1) _ d entryname_not_meta w(1)]
  have "fs_room s' n \<and> f_files s' = (f_files s)(?e \<mapsto> (d, now))"
    using ok os_sound_fine [of BLKSZ now] none s(1) w(3)
    by (auto simp: fs_room_def fs_acct_def BLKSZ_def os_sound_def algebra_simps)
  ultimately show ?thesis using that by metis
qed

interpretation fsr: roomy_store "\<lambda>s k n. snd (fs_block_get (os_sound now) k n s)"
  "\<lambda>s k d. fs_block_put (os_sound now) k d s" fs_room fs_unseen for now
proof unfold_locales
  fix s n and d :: bytes and k
  assume a: "fs_room s (Suc n)" "length d = BLKSZ" "k \<noteq> []" "fs_unseen s k"
  from fs_put_room [OF a(1,4,2)] obtain s' where s': "fs_block_put (os_sound now) k d s = (s', Inr ())" "fs_room s' n"
    "f_files s' = (f_files s)(entryname k \<mapsto> (d, now))"
    "\<And>k'. k' \<noteq> k \<Longrightarrow> f_entries s' (entryname k') = f_entries s (entryname k')" by blast
  have "snd (fs_block_get (os_sound now) k BLKSZ s') = Inr d"
    using a(2,3) s'(3) by (simp add: fs_block_get_def os_sound_def BLKSZ_def)
  moreover have "snd (fs_block_get (os_sound now) k' BLKSZ s') = snd (fs_block_get (os_sound now) k' BLKSZ s)"
    if "k' \<noteq> k" for k'
    using that s'(3) by (simp add: fs_block_get_def entryname_inj split: option.split prod.split)
  ultimately show "\<exists>s'. fs_block_put (os_sound now) k d s = (s', Inr ()) \<and> fs_room s' n \<and>
      snd (fs_block_get (os_sound now) k BLKSZ s') = Inr d \<and>
      (\<forall>k'. k' \<noteq> k \<longrightarrow> snd (fs_block_get (os_sound now) k' BLKSZ s') = snd (fs_block_get (os_sound now) k' BLKSZ s) \<and>
        (fs_unseen s k' \<longrightarrow> fs_unseen s' k'))"
    using s'(1,2,4) by (auto simp: fs_unseen_def)
next
  fix s n k d assume "fs_room s n" "fs_unseen s k"
  then have "f_files s (entryname k) = None" using fs_unseen_file by (auto simp: fs_room_def)
  then show "snd (fs_block_get (os_sound now) k BLKSZ s) \<noteq> Inr d" by (simp add: fs_block_get_def)
qed

subsection \<open>Persisting a block\<close>

text \<open>Decryption undoes encryption, and neither changes the length.\<close>

definition aes_ok :: "aes \<Rightarrow> bool" where
  "aes_ok aes \<longleftrightarrow> (\<forall>k iv d. length d mod 16 = 0 \<longrightarrow> aes False k iv (aes True k iv d) = d \<and> length (aes True k iv d) = length d)"

lemma aes_okD: "aes_ok aes \<Longrightarrow> length d = BLKSZ \<Longrightarrow> aes False k iv (aes True k iv d) = d \<and> length (aes True k iv d) = BLKSZ"
  by (simp add: aes_ok_def BLKSZ_def)

text \<open>The next \<open>n\<close> initialisation vectors are new: no block is named by any of them.\<close>

definition fresh_ivs :: "('bs \<Rightarrow> key \<Rightarrow> bool) \<Rightarrow> 'bs env \<Rightarrow> 'bs ctxt \<Rightarrow> nat \<Rightarrow> bool" where
  "fresh_ivs unseen env c n \<longleftrightarrow>
     (\<forall>i < n. \<exists>iv. e_rand env (m_nrand c + i) = Some iv \<and> length iv = 16 \<and> ref_set iv \<and>
        (\<forall>dig. length dig = 32 \<longrightarrow> unseen (m_bsh c) (BlockRef_make dig iv)) \<and>
        (\<forall>j < i. e_rand env (m_nrand c + j) \<noteq> Some iv))"

context roomy_store
begin

definition penv :: "'bs env \<Rightarrow> bool" where
  "penv env \<longleftrightarrow> e_get env = bs_get \<and> e_put env = bs_put \<and> aes_ok (e_aes env) \<and>
     (\<forall>d. length (e_sha256 env d) = 32) \<and> length (e_junk env) \<le> BLKSZ"

abbreviation fresh :: "'bs env \<Rightarrow> 'bs ctxt \<Rightarrow> nat \<Rightarrow> bool" where
  "fresh \<equiv> fresh_ivs unseen"

text \<open>The store holds what it held, and the levels of these blocks are as they were.\<close>

definition grown :: "(blkref \<Rightarrow> nat) \<Rightarrow> 'bs ctxt \<Rightarrow> (blkref \<Rightarrow> nat) \<Rightarrow> 'bs ctxt \<Rightarrow> bool" where
  "grown T c T' c' \<longleftrightarrow> m_cipher c' = m_cipher c \<and>
     (\<forall>k d. bs_get (m_bsh c) k BLKSZ = Inr d \<longrightarrow> bs_get (m_bsh c') k BLKSZ = Inr d \<and> T' k = T k)"

lemma grown_refl [simp]: "grown T c T c"
  by (simp add: grown_def)

lemma grown_trans: "grown T c T1 c1 \<Longrightarrow> grown T1 c1 T2 c2 \<Longrightarrow> grown T c T2 c2"
  by (simp add: grown_def)

lemma fresh_mono: "fresh env c n \<Longrightarrow> m \<le> n \<Longrightarrow> fresh env c m"
  by (simp add: fresh_ivs_def)

lemma fresh_step:
  assumes f: "fresh env c (Suc n)" and iv: "e_rand env (m_nrand c) = Some iv" "length iv = 16"
    and dig: "length dig = 32" and c': "m_nrand c' = Suc (m_nrand c)"
    and keep: "\<And>k. k \<noteq> BlockRef_make dig iv \<Longrightarrow> unseen (m_bsh c) k \<Longrightarrow> unseen (m_bsh c') k"
  shows "fresh env c' n"
  unfolding fresh_ivs_def
proof (intro allI impI)
  fix i assume "i < n"
  then obtain iv' where iv': "e_rand env (m_nrand c + Suc i) = Some iv'" "length iv' = 16" "ref_set iv'"
    "\<forall>dig. length dig = 32 \<longrightarrow> unseen (m_bsh c) (BlockRef_make dig iv')"
    "\<forall>j < Suc i. e_rand env (m_nrand c + j) \<noteq> Some iv'" using f unfolding fresh_ivs_def by (metis Suc_less_eq)
  have ne: "iv' \<noteq> iv" using iv'(5) iv(1) by (metis add_0_right zero_less_Suc)
  have "BlockRef_make dig' iv' \<noteq> BlockRef_make dig iv" if "length dig' = 32" for dig'
    using that dig ne iv(2) iv'(2) by (metis BlockRef_iv_make)
  then have "\<forall>dig. length dig = 32 \<longrightarrow> unseen (m_bsh c') (BlockRef_make dig iv')" using iv'(4) keep by blast
  moreover have "\<forall>j < i. e_rand env (m_nrand c' + j) \<noteq> Some iv'" using iv'(5) c' by (metis Suc_less_eq add_Suc add_Suc_right)
  ultimately show "\<exists>iv. e_rand env (m_nrand c' + i) = Some iv \<and> length iv = 16 \<and> ref_set iv \<and>
      (\<forall>dig. length dig = 32 \<longrightarrow> unseen (m_bsh c') (BlockRef_make dig iv)) \<and>
      (\<forall>j < i. e_rand env (m_nrand c' + j) \<noteq> Some iv)" using iv' c' by auto
qed

lemma persist_buf_ok:
  assumes env: "penv env" and buf: "length buf = BLKSZ" and c: "room (m_bsh c) (Suc n)" "fresh env c (Suc n)"
  obtains c' ref where "persist_buf env buf c = (c', Some ref, Inr ref)" "room (m_bsh c') n" "fresh env c' n"
    "length ref = 32" "ref_set ref" "\<And>T l. grown T c (T(ref := l)) c'" "m_cipher c' = m_cipher c"
    "\<And>ini c2. length ini \<le> BLKSZ \<Longrightarrow> m_bsh c2 = m_bsh c' \<Longrightarrow> m_cipher c2 = m_cipher c \<Longrightarrow>
       snd (load_block env ini ref c2) = Inr buf"
proof -
  obtain iv where iv: "e_rand env (m_nrand c) = Some iv" "length iv = 16" "ref_set iv"
    "\<And>dig. length dig = 32 \<Longrightarrow> unseen (m_bsh c) (BlockRef_make dig iv)"
    using c(2) unfolding fresh_ivs_def by (metis add_0_right zero_less_Suc)
  let ?key = "c_key (m_cipher c)"
  define enc where "enc = e_aes env True ?key iv buf"
  define ref where "ref = BlockRef_make (e_sha256 env enc) iv"
  have sha: "length (e_sha256 env d) = 32" for d using env by (simp add: penv_def)
  have enc: "length enc = BLKSZ" "e_aes env False ?key iv enc = buf"
    using aes_okD [OF _ buf] env unfolding penv_def enc_def by blast+
  have ref: "length ref = 32" "BlockRef_iv ref = iv" "ref_set ref"
    using sha iv(2,3) by (auto simp: ref_def BlockRef_not_iff BlockRef_make_def BlockRef_iv_def)
  have ne: "ref \<noteq> []" using ref(1) by auto
  obtain bs where bs: "bs_put (m_bsh c) ref enc = (bs, Inr ())" "room bs n" "bs_get bs ref BLKSZ = Inr enc"
    "\<And>k. k \<noteq> ref \<Longrightarrow> bs_get bs k BLKSZ = bs_get (m_bsh c) k BLKSZ \<and> (unseen (m_bsh c) k \<longrightarrow> unseen bs k)"
    using room_put [OF c(1) enc(1) ne] iv(4) [OF sha] unfolding ref_def by blast
  let ?c' = "c\<lparr>m_nrand := m_nrand c + 1, m_bsh := bs, m_npops := m_npops c + 1, m_npbytes := m_npbytes c + BLKSZ\<rparr>"
  have "BlockCipher_encrypt (e_aes env) (m_cipher c) iv buf = Inr enc"
    using buf iv(2) by (simp add: BlockCipher_encrypt_def AES_BLOCK_SIZE_def BLKSZ_def enc_def)
  then have "persist_buf env buf c = (?c', Some ref, Inr ref)"
    using iv(1) bs(1) env by (simp add: persist_buf_def Let_def Digest_of_def ref_def penv_def)
  moreover have "fresh env ?c' n"
    by (rule fresh_step [OF c(2) iv(1,2) sha, of _ enc]) (use bs(4) in \<open>auto simp: ref_def\<close>)
  moreover have "grown T c (T(ref := l)) ?c'" for T l
    using bs(4) unseen_get [OF c(1) iv(4) [OF sha]] by (auto simp: grown_def ref_def)
  moreover have "snd (load_block env ini ref c2) = Inr buf"
    if "length ini \<le> BLKSZ" "m_bsh c2 = m_bsh ?c'" "m_cipher c2 = m_cipher c" for ini c2
  proof -
    have g: "e_get env (m_bsh c2) ref BLKSZ = Inr enc" using env bs(3) that(2) by (simp add: penv_def)
    have d: "drop (length enc) ini = []" using that(1) enc(1) by simp
    have v: "BlockRef_validate (e_sha256 env) ref enc = Inr ()"
      unfolding ref_def using BlockRef_validate_make [of "e_sha256 env" enc iv] sha by (simp add: Digest_of_def)
    have "BlockCipher_decrypt (e_aes env) (m_cipher c) (BlockRef_iv ref) enc = Inr buf"
      using enc iv(2) unfolding ref(2) by (simp add: BlockCipher_decrypt_def AES_BLOCK_SIZE_def BLKSZ_def)
    then show ?thesis by (simp add: load_block_def g d v that(3) Let_def)
  qed
  ultimately show ?thesis using that [of ?c' ref] ref(1,3) bs(2) by simp
qed

end

subsection \<open>Trees over a store that grows\<close>

lemma wfs_mono_step:
  assumes mono: "\<And>l r k. L l r = Inr k \<Longrightarrow> L' l r = Inr k \<and> T' r = T r"
    and node: "\<And>k. wfn L T Z l k \<Longrightarrow> wfn L' T' Z l k \<and> (\<forall>p < span l. ncont L' l k p = ncont L l k p)"
    and wf: "wfs L T Z l ref obj"
  shows "wfs L' T' Z l ref obj \<and> (\<forall>p < span l. cont L' l ref obj p = cont L l ref obj p)"
proof (cases obj)
  case (Some k)
  then show ?thesis using node [of k] wf by (simp add: cont_def slot_cont_def)
next
  case None
  show ?thesis
  proof (cases "ref_set ref")
    case True
    then obtain k where k: "L l ref = Inr k" "wfn L T Z l k" "T ref = l" using wf None by (auto simp: slot_wf_def)
    then show ?thesis using mono [OF k(1)] node [OF k(2)] None True by (auto simp: slot_wf_def cont_def slot_cont_def)
  qed (simp add: None slot_wf_def cont_def slot_cont_def)
qed

lemma wfn_mono:
  assumes mono: "\<And>l r k. L l r = Inr k \<Longrightarrow> L' l r = Inr k \<and> T' r = T r"
  shows "wfn L T Z l n \<Longrightarrow> wfn L' T' Z l n \<and> (\<forall>p < span l. ncont L' l n p = ncont L l n p)"
proof (induction l arbitrary: n)
  case (Suc l)
  then obtain r d refs objs where n: "n = IndNode (Suc l) r d Z refs objs"
    and len: "length refs = NUMREF" "length objs = NUMREF" "\<forall>ref \<in> set refs. length ref = 32" "Z \<or> slots_dirty d objs"
    and sl: "\<And>i. i < NUMREF \<Longrightarrow> wfs L T Z l (refs ! i) (objs ! i)" by (simp only: wfn.simps) blast
  have sl': "wfs L' T' Z l (refs ! i) (objs ! i) \<and> (\<forall>p < span l. cont L' l (refs ! i) (objs ! i) p = cont L l (refs ! i) (objs ! i) p)"
    if "i < NUMREF" for i by (rule wfs_mono_step [OF mono Suc.IH sl [OF that]])
  have "ncont L' (Suc l) n p = ncont L (Suc l) n p" if "p < span (Suc l)" for p
  proof -
    have "p div span l < NUMREF" using that by (simp add: less_mult_imp_div_less)
    moreover have "p mod span l < span l" by simp
    ultimately show ?thesis unfolding ncont_Suc n bnode.sel using sl' by blast
  qed
  then show ?case using len sl' unfolding n wfn_Ind by blast
qed auto

context roomy_store
begin

lemma load_block_grown:
  assumes "penv env" "grown T c T' c'" "snd (load_block env ini r c) = Inr b"
  shows "snd (load_block env ini r c') = Inr b \<and> T' r = T r"
proof (cases "bs_get (m_bsh c) r BLKSZ")
  case (Inr got)
  then have "bs_get (m_bsh c') r BLKSZ = Inr got" "T' r = T r" "m_cipher c' = m_cipher c"
    using assms(2) by (simp_all add: grown_def)
  then show ?thesis using assms(1,3) Inr by (simp add: load_block_def penv_def Let_def split: sum.splits)
qed (use assms(1,3) in \<open>simp add: load_block_def penv_def\<close>)

lemma loads_grown:
  assumes "penv env" "grown T c T' c'" "loads env c l r = Inr k"
  shows "loads env c' l r = Inr k \<and> T' r = T r"
  using assms(3) load_block_grown [OF assms(1,2)]
  by (auto simp: loads_def load_node_def DataBlockNode_load_def IndirectBlockNode_load_def
      split: if_splits prod.splits sum.splits) (metis snd_conv sum.distinct(1) sum.inject(2))+

lemma wfn_grown:
  assumes "penv env" "grown T c T' c'" "wfn (loads env c) T Z l n"
  shows "wfn (loads env c') T' Z l n \<and> (\<forall>p < span l. ncont (loads env c') l n p = ncont (loads env c) l n p)"
  by (rule wfn_mono [OF loads_grown [OF assms(1,2)] assms(3)])

lemma wfs_grown:
  assumes "penv env" "grown T c T' c'" "wfs (loads env c) T Z l ref obj"
  shows "wfs (loads env c') T' Z l ref obj \<and> (\<forall>p < span l. cont (loads env c') l ref obj p = cont (loads env c) l ref obj p)"
  by (rule wfs_mono_step [OF loads_grown [OF assms(1,2)] wfn_grown [OF assms(1,2)] assms(3)])

end

subsection \<open>Flushing a tree\<close>

text \<open>The number of blocks a flush stores: the node and the objects below it.\<close>

fun weight :: "nat \<Rightarrow> bnode \<Rightarrow> nat" where
  "weight 0 n = 1"
| "weight (Suc l) n = Suc (\<Sum>obj \<leftarrow> m_blkobj n. case obj of None \<Rightarrow> 0 | Some k \<Rightarrow> weight l k)"

definition slot_weight :: "nat \<Rightarrow> bnode option \<Rightarrow> nat" where
  "slot_weight l obj = (case obj of None \<Rightarrow> 0 | Some k \<Rightarrow> weight l k)"

lemma concat_refs:
  assumes "length refs = n" "\<forall>r \<in> set refs. length r = 32"
  shows "length (concat refs) = 32 * n" "\<And>i. i < n \<Longrightarrow> subbuf (concat refs) (32 * i) 32 = refs ! i"
proof -
  show l: "length (concat refs) = 32 * n" using assms by (induction refs arbitrary: n) auto
  show "subbuf (concat refs) (32 * i) 32 = refs ! i" if "i < n" for i
    using assms that
  proof (induction refs arbitrary: n i)
    case (Cons r refs)
    then show ?case by (cases i) (auto simp: subbuf_def)
  qed simp
qed

lemma loads_cong: "m_bsh c' = m_bsh c \<Longrightarrow> m_cipher c' = m_cipher c \<Longrightarrow> loads env c' = loads env c"
  unfolding loads_def fun_eq_iff using load_node_cong by blast

lemma cache_insert_base [simp]:
  "m_bsh (cache_insert n c) = m_bsh c" "m_cipher (cache_insert n c) = m_cipher c" "m_nrand (cache_insert n c) = m_nrand c"
  by (simp_all add: cache_insert_def)

lemma loads_cache_insert [simp]: "loads env (cache_insert n c) = loads env c"
  by (rule loads_cong) simp_all

context roomy_store
begin

lemma grown_cache_insert [simp]: "grown T c T' (cache_insert n c') = grown T c T' c'"
  by (simp add: grown_def)

lemma fresh_cache_insert [simp]: "fresh env (cache_insert n c) m = fresh env c m"
  by (simp add: fresh_ivs_def)

definition flushed :: "'bs env \<Rightarrow> nat \<Rightarrow> (blkref \<Rightarrow> nat) \<Rightarrow> 'bs ctxt \<Rightarrow> bnode \<Rightarrow> nat \<Rightarrow> bnode \<Rightarrow> 'bs ctxt \<Rightarrow> blkref \<Rightarrow> bool" where
  "flushed env l T c n m n' c' ref \<longleftrightarrow>
     room (m_bsh c') m \<and> fresh env c' m \<and> ref_set ref \<and> length ref = 32 \<and> loads env c' l ref = Inr n' \<and>
     (\<exists>T'. grown T c T' c' \<and> T' ref = l \<and> wfn (loads env c') T' False l n') \<and>
     (\<forall>p < span l. ncont (loads env c') l n' p = ncont (loads env c) l n p)"

definition flushes :: "'bs env \<Rightarrow> nat \<Rightarrow> 'bs flush \<Rightarrow> bool" where
  "flushes env l f \<longleftrightarrow>
     (\<forall>n c T m. wfn (loads env c) T False l n \<longrightarrow> bn_isdirty n \<longrightarrow>
        room (m_bsh c) (weight l n + m) \<longrightarrow> fresh env c (weight l n + m) \<longrightarrow>
        (\<exists>n' c' ref. f n c = (n', c', Inr ref) \<and> flushed env l T c n m n' c' ref))"

lemma flushesE:
  assumes "flushes env l f" "wfn (loads env c) T False l n" "bn_isdirty n"
    "room (m_bsh c) (weight l n + m)" "fresh env c (weight l n + m)"
  obtains n' c' ref where "f n c = (n', c', Inr ref)" "flushed env l T c n m n' c' ref"
  using assms unfolding flushes_def by blast

lemma DataBlockNode_flush_ok:
  assumes "penv env"
  shows "flushes env 0 (DataBlockNode_flush env)"
  unfolding flushes_def
proof (intro allI impI)
  fix n c T m
  assume n: "wfn (loads env c) T False 0 n" and d: "bn_isdirty n"
    and c: "room (m_bsh c) (weight 0 n + m)" "fresh env c (weight 0 n + m)"
  obtain r dt dat where nd: "n = DataNode r dt False dat" "length dat = BLKSZ" using n by auto
  have c': "room (m_bsh c) (Suc m)" "fresh env c (Suc m)" using c by simp_all
  obtain c1 ref where p: "persist_buf env dat c = (c1, Some ref, Inr ref)" "room (m_bsh c1) m" "fresh env c1 m"
    "length ref = 32" "ref_set ref" "grown T c (T(ref := 0)) c1"
    "snd (load_block env (e_junk env) ref c1) = Inr dat"
    using persist_buf_ok [OF assms nd(2) c'] assms unfolding penv_def by metis
  have "loads env c1 0 ref = Inr (DataNode ref False False dat)"
    using p(7) by (auto simp: loads_def load_node_def DataBlockNode_load_def split: prod.split)
  moreover have "DataBlockNode_flush env n c = (DataNode ref False False dat, c1, Inr ref)"
    using p(1) by (simp add: DataBlockNode_flush_def DataBlockNode_persist_def node_persist_def nd)
  moreover have "wfn (loads env c1) (T(ref := 0)) False 0 (DataNode ref False False dat)" using nd by (simp del: wfn.simps)
  moreover have "(T(ref := 0)) ref = 0" by simp
  ultimately have "flushed env 0 T c n m (DataNode ref False False dat) c1 ref"
    using p(2-6) nd unfolding flushed_def by (auto simp del: wfn.simps intro!: exI [of _ "T(ref := 0)"])
  with \<open>DataBlockNode_flush env n c = _\<close>
  show "\<exists>n' c' ref. DataBlockNode_flush env n c = (n', c', Inr ref) \<and> flushed env 0 T c n m n' c' ref" by blast
qed

lemma slot_upd:
  assumes env: "penv env" and n: "wfn (loads env c) T False (Suc l) n" and i: "i < NUMREF" and g: "grown T c T' c'"
    and new: "wfs (loads env c') T' False l ref None" "length ref = 32"
      "\<forall>p < span l. cont (loads env c') l ref None p = cont (loads env c) l (m_blkref n ! i) (m_blkobj n ! i) p"
  shows "wfn (loads env c') T' False (Suc l) (set_refslot i ref None n) \<and>
    (\<forall>p < span (Suc l). ncont (loads env c') (Suc l) (set_refslot i ref None n) p = ncont (loads env c) (Suc l) n p)"
proof -
  obtain r d refs objs where nd: "n = IndNode (Suc l) r d False refs objs"
    and len: "length refs = NUMREF" "length objs = NUMREF" "\<forall>ref \<in> set refs. length ref = 32" "slots_dirty d objs"
    and sl: "\<And>i. i < NUMREF \<Longrightarrow> wfs (loads env c) T False l (refs ! i) (objs ! i)"
    using n by (simp only: wfn.simps) blast
  have each: "wfs (loads env c') T' False l (refs[i := ref] ! j) (objs[i := None] ! j) \<and>
      (\<forall>p < span l. cont (loads env c') l (refs[i := ref] ! j) (objs[i := None] ! j) p = cont (loads env c) l (refs ! j) (objs ! j) p)"
    if "j < NUMREF" for j
    using new i len wfs_grown [OF env g sl [OF that]] unfolding nd bnode.sel by (cases "j = i") simp_all
  have "\<forall>x \<in> set (refs[i := ref]). length x = 32"
    using len(3) new(2) set_update_subset_insert [of refs i ref] by blast
  then have "wfn (loads env c') T' False (Suc l) (set_refslot i ref None n)"
    using each len slots_dirty_clear [OF len(4)] unfolding nd set_refslot.simps wfn_Ind by simp
  moreover have "ncont (loads env c') (Suc l) (set_refslot i ref None n) p = ncont (loads env c) (Suc l) n p"
    if "p < span (Suc l)" for p
  proof -
    have "p div span l < NUMREF" "p mod span l < span l" using that by (simp_all add: less_mult_imp_div_less)
    then show ?thesis using each unfolding ncont_Suc nd set_refslot.simps bnode.sel by blast
  qed
  ultimately show ?thesis by blast
qed

lemma flush_loop_ok:
  assumes env: "penv env" and f: "flushes env l f"
  shows "distinct is \<Longrightarrow> set is \<subseteq> {..<NUMREF} \<Longrightarrow> wfn (loads env c) T False (Suc l) n \<Longrightarrow> bn_isdirty n \<Longrightarrow>
    room (m_bsh c) ((\<Sum>i \<leftarrow> is. slot_weight l (m_blkobj n ! i)) + m) \<Longrightarrow>
    fresh env c ((\<Sum>i \<leftarrow> is. slot_weight l (m_blkobj n ! i)) + m) \<Longrightarrow>
    \<exists>n' c' T'. flush_loop f is n c = (n', c', Inr ()) \<and> grown T c T' c' \<and> room (m_bsh c') m \<and> fresh env c' m \<and>
      wfn (loads env c') T' False (Suc l) n' \<and> bn_isdirty n' \<and>
      (\<forall>i < NUMREF. m_blkobj n' ! i = (if i \<in> set is then None else m_blkobj n ! i)) \<and>
      (\<forall>p < span (Suc l). ncont (loads env c') (Suc l) n' p = ncont (loads env c) (Suc l) n p)"
proof (induction "is" arbitrary: n c T)
  case (Cons i "is")
  have i: "i < NUMREF" "i \<notin> set is" and dis: "distinct is" "set is \<subseteq> {..<NUMREF}" using Cons.prems(1,2) by auto
  show ?case
  proof (cases "m_blkobj n ! i")
    case None
    obtain n' c' T' where n': "flush_loop f is n c = (n', c', Inr ())" "grown T c T' c'" "room (m_bsh c') m" "fresh env c' m"
      "wfn (loads env c') T' False (Suc l) n'" "bn_isdirty n'"
      "\<forall>i < NUMREF. m_blkobj n' ! i = (if i \<in> set is then None else m_blkobj n ! i)"
      "\<forall>p < span (Suc l). ncont (loads env c') (Suc l) n' p = ncont (loads env c) (Suc l) n p"
      using Cons.IH [OF dis Cons.prems(3,4)] Cons.prems(5,6) None by (auto simp: slot_weight_def simp del: wfn.simps ncont.simps span.simps)
    have "flush_loop f (i # is) n c = (n', c', Inr ())" using None n'(1) by simp
    moreover have "\<forall>j < NUMREF. m_blkobj n' ! j = (if j \<in> set (i # is) then None else m_blkobj n ! j)" using n'(7) None by simp
    ultimately show ?thesis using n'(2-6,8) by blast
  next
    case (Some k)
    let ?m = "(\<Sum>i \<leftarrow> is. slot_weight l (m_blkobj n ! i)) + m"
    obtain r d refs objs where nd: "n = IndNode (Suc l) r d False refs objs"
      and len: "length refs = NUMREF" "length objs = NUMREF" "slots_dirty d objs"
      and sl: "\<And>i. i < NUMREF \<Longrightarrow> wfs (loads env c) T False l (refs ! i) (objs ! i)"
      using Cons.prems(3) by (simp only: wfn.simps) blast
    have k: "wfn (loads env c) T False l k" using sl [OF i(1)] Some unfolding nd bnode.sel by simp
    have kd: "bn_isdirty k" using len i(1) Some nth_mem [of i objs] unfolding nd bnode.sel slots_dirty_def by metis
    have w: "room (m_bsh c) (weight l k + ?m)" "fresh env c (weight l k + ?m)"
      using Cons.prems(5,6) Some by (simp_all add: slot_weight_def add.assoc)
    obtain n1 c1 ref where f1: "f k c = (n1, c1, Inr ref)" "flushed env l T c k ?m n1 c1 ref"
      by (rule flushesE [OF f k kd w])
    then obtain T1 where T1: "grown T c T1 c1" "T1 ref = l" "wfn (loads env c1) T1 False l n1" unfolding flushed_def by blast
    have r1: "room (m_bsh c1) ?m" "fresh env c1 ?m" "ref_set ref" "length ref = 32" "loads env c1 l ref = Inr n1"
      "\<forall>p < span l. ncont (loads env c1) l n1 p = ncont (loads env c) l k p" using f1(2) by (simp_all add: flushed_def)
    let ?n2 = "set_refslot i ref None n" and ?c2 = "cache_insert n1 c1"
    have "wfs (loads env c1) T1 False l ref None" using r1(5) T1 by (simp add: slot_wf_def)
    moreover have "\<forall>p < span l. cont (loads env c1) l ref None p = cont (loads env c) l (m_blkref n ! i) (m_blkobj n ! i) p"
      using r1 Some by (simp add: cont_def slot_cont_def)
    ultimately have n2: "wfn (loads env ?c2) T1 False (Suc l) ?n2"
      "\<forall>p < span (Suc l). ncont (loads env ?c2) (Suc l) ?n2 p = ncont (loads env c) (Suc l) n p"
      using slot_upd [OF env Cons.prems(3) i(1) T1(1) _ r1(4)] by (simp_all del: ncont.simps wfn.simps span.simps)
    have objs: "m_blkobj ?n2 ! j = (if j = i then None else m_blkobj n ! j)" if "j < NUMREF" for j
      using that len unfolding nd by simp
    have sw: "(\<Sum>j \<leftarrow> is. slot_weight l (m_blkobj ?n2 ! j)) = (\<Sum>j \<leftarrow> is. slot_weight l (m_blkobj n ! j))"
      by (rule arg_cong [where f = sum_list], rule map_cong) (use objs dis(2) i(2) in auto)
    have dn2: "bn_isdirty ?n2" using Cons.prems(4) unfolding nd by simp
    obtain n' c' T' where n': "flush_loop f is ?n2 ?c2 = (n', c', Inr ())" "grown T1 ?c2 T' c'" "room (m_bsh c') m" "fresh env c' m"
      "wfn (loads env c') T' False (Suc l) n'" "bn_isdirty n'"
      "\<forall>i < NUMREF. m_blkobj n' ! i = (if i \<in> set is then None else m_blkobj ?n2 ! i)"
      "\<forall>p < span (Suc l). ncont (loads env c') (Suc l) n' p = ncont (loads env ?c2) (Suc l) ?n2 p"
      using Cons.IH [OF dis n2(1) dn2, unfolded sw cache_insert_base fresh_cache_insert, OF r1(1,2)] by blast
    have "grown T1 c1 T' c'" using n'(2) by (simp add: grown_def)
    from grown_trans [OF T1(1) this] have "grown T c T' c'" .
    moreover have "flush_loop f (i # is) n c = (n', c', Inr ())" using Some f1(1) n'(1) by simp
    moreover have "\<forall>j < NUMREF. m_blkobj n' ! j = (if j \<in> set (i # is) then None else m_blkobj n ! j)" using n'(7) objs by simp
    moreover have "\<forall>p < span (Suc l). ncont (loads env c') (Suc l) n' p = ncont (loads env c) (Suc l) n p" using n'(8) n2(2) by metis
    ultimately show ?thesis using n'(3-6) by blast
  qed
qed (auto simp del: wfn.simps ncont.simps span.simps intro: exI [of _ T] grown_refl)

lemma ref_flush_ok:
  assumes env: "penv env" and f: "flushes env l f"
  shows "flushes env (Suc l) (ref_flush env f)"
  unfolding flushes_def
proof (intro allI impI)
  fix n c T m
  assume n: "wfn (loads env c) T False (Suc l) n" and d: "bn_isdirty n"
    and c: "room (m_bsh c) (weight (Suc l) n + m)" "fresh env c (weight (Suc l) n + m)"
  have len: "length (m_blkobj n) = NUMREF" using n by auto
  have "(\<Sum>i \<leftarrow> [0..<NUMREF]. slot_weight l (m_blkobj n ! i)) = (\<Sum>obj \<leftarrow> m_blkobj n. slot_weight l obj)"
    using map_nth [of "m_blkobj n"] len by (metis (no_types, lifting) list.map_comp map_eq_conv comp_apply)
  then have "weight (Suc l) n + m = (\<Sum>i \<leftarrow> [0..<NUMREF]. slot_weight l (m_blkobj n ! i)) + Suc m"
    by (simp add: slot_weight_def)
  note c' = c [unfolded this]
  have sub: "set [0..<NUMREF] \<subseteq> {..<NUMREF}" by auto
  obtain n1 c1 T1 where l: "flush_loop f [0..<NUMREF] n c = (n1, c1, Inr ())" "grown T c T1 c1"
    "room (m_bsh c1) (Suc m)" "fresh env c1 (Suc m)" "wfn (loads env c1) T1 False (Suc l) n1" "bn_isdirty n1"
    "\<forall>i < NUMREF. m_blkobj n1 ! i = None"
    "\<forall>p < span (Suc l). ncont (loads env c1) (Suc l) n1 p = ncont (loads env c) (Suc l) n p"
    using flush_loop_ok [OF env f distinct_upt sub n d c'] by (auto simp del: wfn.simps ncont.simps span.simps)
  obtain r refs objs where n1: "n1 = IndNode (Suc l) r True False refs objs" "length refs = NUMREF" "length objs = NUMREF"
    "\<forall>r \<in> set refs. length r = 32" using l(5,6) by auto
  have objs: "objs = replicate NUMREF None" using l(7) n1 by (intro replicate_eqI) (auto simp: in_set_conv_nth)
  have buf: "length (concat refs) = BLKSZ" using concat_refs(1) [OF n1(2,4)] by (simp add: NUMREF_def BLKSZ_def)
  have unp: "unpack_refs (concat refs) = refs"
    unfolding unpack_refs_def by (rule nth_equalityI) (use concat_refs [OF n1(2,4)] n1(2) in auto)
  have z: "length (concat (replicate NUMREF BlockRef_nil)) \<le> BLKSZ"
    using concat_refs(1) [of "replicate NUMREF BlockRef_nil" NUMREF] by (simp add: NUMREF_def BLKSZ_def)
  obtain c2 ref where p: "persist_buf env (concat refs) c1 = (c2, Some ref, Inr ref)" "room (m_bsh c2) m" "fresh env c2 m"
    "length ref = 32" "ref_set ref" "grown T1 c1 (T1(ref := Suc l)) c2"
    "snd (load_block env (concat (replicate NUMREF BlockRef_nil)) ref c2) = Inr (concat refs)"
    using persist_buf_ok [OF env buf l(3,4)] z by metis
  let ?n2 = "IndNode (Suc l) ref False False refs objs"
  have "IndirectBlockNode_persist env n1 c1 = (?n2, c2, Inr ref)"
    using p(1) buf by (simp add: IndirectBlockNode_persist_def node_persist_def n1)
  then have "ref_flush env f n c = (?n2, c2, Inr ref)" using d l(1) by (simp add: ref_flush_def)
  moreover have "loads env c2 (Suc l) ref = Inr ?n2"
    using p(7) unp objs by (auto simp: loads_def load_node_def IndirectBlockNode_load_def split: prod.split)
  moreover have g: "wfn (loads env c2) (T1(ref := Suc l)) False (Suc l) n1"
    "\<forall>p < span (Suc l). ncont (loads env c2) (Suc l) n1 p = ncont (loads env c1) (Suc l) n1 p"
    using wfn_grown [OF env p(6) l(5)] by blast+
  have "wfn (loads env c2) (T1(ref := Suc l)) False (Suc l) ?n2"
    using g(1) n1 objs unfolding n1(1) wfn_Ind by simp
  moreover have "ncont (loads env c2) (Suc l) ?n2 p = ncont (loads env c2) (Suc l) n1 p" for p by (simp add: n1)
  ultimately have "flushed env (Suc l) T c n m ?n2 c2 ref"
    using p(2-5) grown_trans [OF l(2) p(6)] g(2) l(8) unfolding flushed_def
    by (auto simp del: wfn.simps ncont.simps span.simps intro!: exI [of _ "T1(ref := Suc l)"])
  with \<open>ref_flush env f n c = _\<close>
  show "\<exists>n' c' ref. ref_flush env f n c = (n', c', Inr ref) \<and> flushed env (Suc l) T c n m n' c' ref" by blast
qed

lemma tree_flush_ok:
  assumes "penv env"
  shows "flushes env 1 (ind_flush env)" "flushes env 2 (dbl_flush env)" "flushes env 3 (tri_flush env)"
proof -
  show 1: "flushes env 1 (ind_flush env)"
    using ref_flush_ok [OF assms DataBlockNode_flush_ok [OF assms]] by (simp add: ind_flush_def)
  show 2: "flushes env 2 (dbl_flush env)"
    using ref_flush_ok [OF assms 1] by (simp add: dbl_flush_def numeral_2_eq_2)
  show "flushes env 3 (tri_flush env)"
    using ref_flush_ok [OF assms 2] by (simp add: tri_flush_def numeral_3_eq_3)
qed

lemma flush_slot_ok:
  assumes env: "penv env" and f: "flushes env l f" and sl: "wfs (loads env c) T False l ref obj" "length ref = 32"
    "\<And>k. obj = Some k \<Longrightarrow> bn_isdirty k"
    and c: "room (m_bsh c) (slot_weight l obj + m)" "fresh env c (slot_weight l obj + m)"
  obtains ref' c' T' where "flush_slot f ref obj c = (ref', None, c', Inr ())" "grown T c T' c'"
    "room (m_bsh c') m" "fresh env c' m" "wfs (loads env c') T' False l ref' None" "length ref' = 32"
    "\<forall>p < span l. cont (loads env c') l ref' None p = cont (loads env c') l ref obj p"
proof (cases obj)
  case None
  show ?thesis by (rule that [of ref c T]) (use None sl c in \<open>simp_all add: flush_slot_def slot_weight_def\<close>)
next
  case (Some k)
  have k: "wfn (loads env c) T False l k" "bn_isdirty k" "room (m_bsh c) (weight l k + m)" "fresh env c (weight l k + m)"
    using Some sl c by (simp_all add: slot_weight_def)
  obtain n1 c1 ref1 where f1: "f k c = (n1, c1, Inr ref1)" "flushed env l T c k m n1 c1 ref1" by (rule flushesE [OF f k])
  obtain T1 where T1: "grown T c T1 c1" "T1 ref1 = l" "wfn (loads env c1) T1 False l n1" using f1(2) unfolding flushed_def by blast
  have r1: "room (m_bsh c1) m" "fresh env c1 m" "ref_set ref1" "length ref1 = 32" "loads env c1 l ref1 = Inr n1"
    "\<forall>p < span l. ncont (loads env c1) l n1 p = ncont (loads env c) l k p" using f1(2) by (simp_all add: flushed_def)
  have "\<forall>p < span l. ncont (loads env c1) l n1 p = ncont (loads env c1) l k p" using wfn_grown [OF env T1(1) k(1)] r1(6) by simp
  then show ?thesis using that [of ref1 "cache_insert n1 c1" T1] f1(1) T1 r1 Some
    by (simp add: flush_slot_def slot_wf_def cont_def slot_cont_def)
qed

lemma fn_grown:
  assumes env: "penv env" and g: "grown T c T' c'" and fn: "fn_wf (loads env c) T fn"
  shows "fn_wf (loads env c') T' fn" "\<forall>p < end_off. fcont (loads env c') fn p = fcont (loads env c) fn p"
proof -
  note w = wfs_grown [OF env g]
  have d: "wfs (loads env c) T False 0 (m_dirref fn ! i) (m_dirobj fn ! i)" if "i < NDIRECT" for i using fn that by (simp add: fn_wf_def)
  have t: "wfs (loads env c) T False 1 (m_sinref fn) (m_sinobj fn)" "wfs (loads env c) T False 2 (m_dinref fn) (m_dinobj fn)"
    "wfs (loads env c) T False 3 (m_tinref fn) (m_tinobj fn)" using fn by (simp_all add: fn_wf_def)
  show "fn_wf (loads env c') T' fn" using fn w [OF d] w [OF t(1)] w [OF t(2)] w [OF t(3)] unfolding fn_wf_def by blast
  show "\<forall>p < end_off. fcont (loads env c') fn p = fcont (loads env c) fn p"
  proof (intro allI impI)
    fix p assume p: "p < end_off"
    consider (inl) "p < INLSZ" | (dir) "INLSZ \<le> p" "p < sin_off" | (sin) "sin_off \<le> p" "p < din_off"
      | (din) "din_off \<le> p" "p < tin_off" | (tin) "tin_off \<le> p" by linarith
    then show "fcont (loads env c') fn p = fcont (loads env c) fn p"
    proof cases
      case dir
      let ?i = "(p - INLSZ) div BLKSZ"
      have i: "?i < NDIRECT" using dir by (simp add: sin_off_def less_mult_imp_div_less)
      have "(p - INLSZ) mod BLKSZ < span 0" by simp
      then show ?thesis using dir conjunct2 [OF w [OF d [OF i]]] by (simp add: fcont_def Let_def del: span.simps)
    next
      case sin
      then have "p - sin_off < span 1" using off_spans by linarith
      then show ?thesis using sin conjunct2 [OF w [OF t(1)]] by (simp add: fcont_tree del: span.simps)
    next
      case din
      then have "p - din_off < span 2" using off_spans by linarith
      then show ?thesis using din conjunct2 [OF w [OF t(2)]] by (simp add: fcont_tree del: span.simps)
    next
      case tin
      then have "p - tin_off < span 3" using p off_spans by linarith
      then show ?thesis using tin p conjunct2 [OF w [OF t(3)]] by (simp add: fcont_tree del: span.simps)
    qed (simp add: fcont_def)
  qed
qed

end

text \<open>Replacing a slot by one of the same octets changes no octet of the file.\<close>

lemma fn_dir_upd:
  assumes fn: "fn_wf L T fn" and i: "i < NDIRECT"
    and new: "wfs L T False 0 ref None" "length ref = 32" "\<forall>p < span 0. cont L 0 ref None p = cont L 0 (m_dirref fn ! i) (m_dirobj fn ! i) p"
  shows "fn_wf L T (fn\<lparr>m_dirref := (m_dirref fn)[i := ref], m_dirobj := (m_dirobj fn)[i := None]\<rparr>) \<and>
    fcont L (fn\<lparr>m_dirref := (m_dirref fn)[i := ref], m_dirobj := (m_dirobj fn)[i := None]\<rparr>) = fcont L fn"
proof
  have len: "length (m_dirref fn) = NDIRECT" "length (m_dirobj fn) = NDIRECT" using fn by (simp_all add: fn_wf_def)
  have s: "slots_dirty (fn_dirty fn) (m_tinobj fn # m_dinobj fn # m_sinobj fn # (m_dirobj fn)[i := None])"
    using slots_dirty_clear [of "fn_dirty fn" "m_tinobj fn # m_dinobj fn # m_sinobj fn # m_dirobj fn" "Suc (Suc (Suc i))"] fn
    by (simp add: fn_wf_def)
  have r: "\<forall>x \<in> set ((m_dirref fn)[i := ref]). length x = 32"
    using fn new(2) set_update_subset_insert [of "m_dirref fn" i ref] unfolding fn_wf_def by auto
  have "wfs L T False 0 ((m_dirref fn)[i := ref] ! j) ((m_dirobj fn)[i := None] ! j)" if "j < NDIRECT" for j
    using fn new(1) that len unfolding fn_wf_def by (cases "j = i") simp_all
  then show "fn_wf L T (fn\<lparr>m_dirref := (m_dirref fn)[i := ref], m_dirobj := (m_dirobj fn)[i := None]\<rparr>)"
    using fn s r unfolding fn_wf_def by simp
  show "fcont L (fn\<lparr>m_dirref := (m_dirref fn)[i := ref], m_dirobj := (m_dirobj fn)[i := None]\<rparr>) = fcont L fn"
  proof
    fix p
    have "cont L 0 ((m_dirref fn)[i := ref] ! j) ((m_dirobj fn)[i := None] ! j) (q mod BLKSZ) =
        cont L 0 (m_dirref fn ! j) (m_dirobj fn ! j) (q mod BLKSZ)" for j q
      using new(3) i len by (cases "j = i") simp_all
    then show "fcont L (fn\<lparr>m_dirref := (m_dirref fn)[i := ref], m_dirobj := (m_dirobj fn)[i := None]\<rparr>) p = fcont L fn p"
      by (simp add: fcont_def Let_def)
  qed
qed

lemma slots_dirty_Cons: "slots_dirty d (obj # objs) \<longleftrightarrow> (\<forall>k. obj = Some k \<longrightarrow> d \<and> bn_isdirty k) \<and> slots_dirty d objs"
  by (auto simp: slots_dirty_def)

lemma fn_tree_upd:
  assumes fn: "fn_wf L T fn" and r: "length ref = 32"
  shows "wfs L T False 1 ref None \<Longrightarrow> \<forall>p < span 1. cont L 1 ref None p = cont L 1 (m_sinref fn) (m_sinobj fn) p \<Longrightarrow>
      fn_wf L T (fn\<lparr>m_sinref := ref, m_sinobj := None\<rparr>) \<and> (\<forall>p < end_off. fcont L (fn\<lparr>m_sinref := ref, m_sinobj := None\<rparr>) p = fcont L fn p)"
    and "wfs L T False 2 ref None \<Longrightarrow> \<forall>p < span 2. cont L 2 ref None p = cont L 2 (m_dinref fn) (m_dinobj fn) p \<Longrightarrow>
      fn_wf L T (fn\<lparr>m_dinref := ref, m_dinobj := None\<rparr>) \<and> (\<forall>p < end_off. fcont L (fn\<lparr>m_dinref := ref, m_dinobj := None\<rparr>) p = fcont L fn p)"
    and "wfs L T False 3 ref None \<Longrightarrow> \<forall>p < span 3. cont L 3 ref None p = cont L 3 (m_tinref fn) (m_tinobj fn) p \<Longrightarrow>
      fn_wf L T (fn\<lparr>m_tinref := ref, m_tinobj := None\<rparr>) \<and> (\<forall>p < end_off. fcont L (fn\<lparr>m_tinref := ref, m_tinobj := None\<rparr>) p = fcont L fn p)"
proof -
  have o: "p < din_off \<Longrightarrow> sin_off \<le> p \<Longrightarrow> p - sin_off < span 1" "p < tin_off \<Longrightarrow> din_off \<le> p \<Longrightarrow> p - din_off < span 2"
    "p < end_off \<Longrightarrow> tin_off \<le> p \<Longrightarrow> p - tin_off < span 3" for p using off_spans by linarith+
  note d = fn_wf_def slots_dirty_Cons fcont_def Let_def not_less
  show "wfs L T False 1 ref None \<Longrightarrow> \<forall>p < span 1. cont L 1 ref None p = cont L 1 (m_sinref fn) (m_sinobj fn) p \<Longrightarrow>
      fn_wf L T (fn\<lparr>m_sinref := ref, m_sinobj := None\<rparr>) \<and> (\<forall>p < end_off. fcont L (fn\<lparr>m_sinref := ref, m_sinobj := None\<rparr>) p = fcont L fn p)"
    using fn r o(1) by (auto simp: d simp del: span.simps)
  show "wfs L T False 2 ref None \<Longrightarrow> \<forall>p < span 2. cont L 2 ref None p = cont L 2 (m_dinref fn) (m_dinobj fn) p \<Longrightarrow>
      fn_wf L T (fn\<lparr>m_dinref := ref, m_dinobj := None\<rparr>) \<and> (\<forall>p < end_off. fcont L (fn\<lparr>m_dinref := ref, m_dinobj := None\<rparr>) p = fcont L fn p)"
    using fn r o(2) by (auto simp: d simp del: span.simps)
  show "wfs L T False 3 ref None \<Longrightarrow> \<forall>p < span 3. cont L 3 ref None p = cont L 3 (m_tinref fn) (m_tinobj fn) p \<Longrightarrow>
      fn_wf L T (fn\<lparr>m_tinref := ref, m_tinobj := None\<rparr>) \<and> (\<forall>p < end_off. fcont L (fn\<lparr>m_tinref := ref, m_tinobj := None\<rparr>) p = fcont L fn p)"
    using fn r o(3) by (auto simp: d simp del: span.simps)
qed

lemma fn_flush_direct_Cons:
  assumes "i < length (m_dirref fn)"
  shows "fn_flush_direct env (i # is) fn c =
    (case flush_slot (DataBlockNode_flush env) (m_dirref fn ! i) (m_dirobj fn ! i) c of
       (ref, obj, c1, Inl e) \<Rightarrow> (fn\<lparr>m_dirobj := (m_dirobj fn)[i := obj]\<rparr>, c1, Inl e)
     | (ref, obj, c1, Inr _) \<Rightarrow>
         fn_flush_direct env is (fn\<lparr>m_dirref := (m_dirref fn)[i := ref], m_dirobj := (m_dirobj fn)[i := obj]\<rparr>) c1)"
proof (cases "m_dirobj fn ! i")
  case None
  have "(m_dirref fn)[i := m_dirref fn ! i] = m_dirref fn" "(m_dirobj fn)[i := None] = m_dirobj fn"
    using None by (metis list_update_id)+
  then show ?thesis using None by (simp add: flush_slot_def)
qed (auto simp: flush_slot_def split: prod.split sum.split)

text \<open>The number of blocks a flush of the file stores.\<close>

definition fn_weight :: "filenode \<Rightarrow> nat" where
  "fn_weight fn = (\<Sum>obj \<leftarrow> m_dirobj fn. slot_weight 0 obj) + slot_weight 1 (m_sinobj fn) +
     slot_weight 2 (m_dinobj fn) + slot_weight 3 (m_tinobj fn) + 1"

subsection \<open>The inode as a block\<close>

text \<open>
  The message is written at the start of the block and read back with the zeros that follow it
  there.
\<close>

definition ino_codec :: "(inode \<Rightarrow> nat \<Rightarrow> bytes option) \<Rightarrow> (bytes \<Rightarrow> inode option) \<Rightarrow> inode \<Rightarrow> bool" where
  "ino_codec ser parse ino \<longleftrightarrow>
     (let sz = BLKSZ - fixed_field_size in
      \<exists>msg. ser ino sz = Some msg \<and> length msg \<le> sz \<and> parse (msg @ replicate (sz - length msg) 0) = Some ino)"

lemma memcpy_at_append: "memcpy_at (a @ r) (length a) src = a @ src @ drop (length src) r"
  by (simp add: memcpy_at_def)

lemma take_append_eq: "length a = n \<Longrightarrow> take n (a @ b) = a"
  by simp

lemma subbuf_append: "length a = k \<Longrightarrow> length b = n \<Longrightarrow> subbuf (a @ b @ d) k n = b"
  by (simp add: subbuf_def)

lemma subbuf_inside: "off + n \<le> length b \<Longrightarrow> length a = k \<Longrightarrow> subbuf (a @ b @ d) (k + off) n = subbuf b off n"
  by (simp add: subbuf_def)

lemma fn_buffer_fields:
  assumes fn: "fn_wf L T fn" and ser: "ser (m_inode fn) (BLKSZ - fixed_field_size) = Some msg"
    and len: "length msg \<le> BLKSZ - fixed_field_size"
  shows "fn_buffer ser fn = Some ((msg @ replicate (BLKSZ - fixed_field_size - length msg) 0) @ m_inl fn @ concat (m_dirref fn) @
    m_sinref fn @ m_dinref fn @ m_tinref fn @ m_qinref fn)"
proof -
  let ?sz = "BLKSZ - fixed_field_size"
  have c: "fixed_field_size = 4864" "BLKSZ = 8192" "INLSZ = 4096" "NDIRECT = 20"
    by (simp_all add: fixed_field_size_def BLKSZ_def INLSZ_def NDIRECT_def)
  define a where "a = msg @ replicate (?sz - length msg) (0 :: byte)"
  have la: "length a = 3328" using len by (simp add: a_def c)
  have l: "length (m_inl fn) = 4096" "length (m_sinref fn) = 32" "length (m_dinref fn) = 32" "length (m_tinref fn) = 32"
    "length (m_qinref fn) = 32" "length (concat (m_dirref fn)) = 640"
    using fn concat_refs(1) [of "m_dirref fn" 20] by (simp_all add: fn_wf_def c)
  have "memcpy_at (replicate BLKSZ 0) 0 msg = a @ replicate 4864 0"
    using len by (simp add: memcpy_at_def a_def c replicate_add [symmetric])
  then have 1: "memcpy_at (memcpy_at (replicate BLKSZ 0) 0 msg) 3328 (m_inl fn) = (a @ m_inl fn) @ replicate 768 0"
    using memcpy_at_append [of a "replicate 4864 0" "m_inl fn"] la l(1) by simp
  have 2: "memcpy_at ((a @ m_inl fn) @ replicate 768 0) 7424 (concat (m_dirref fn)) = (a @ m_inl fn @ concat (m_dirref fn)) @ replicate 128 0"
    using memcpy_at_append [of "a @ m_inl fn" "replicate 768 0" "concat (m_dirref fn)"] la l by simp
  have 3: "memcpy_at ((a @ m_inl fn @ concat (m_dirref fn)) @ replicate 128 0) 8064 (m_sinref fn) =
      (a @ m_inl fn @ concat (m_dirref fn) @ m_sinref fn) @ replicate 96 0"
    using memcpy_at_append [of "a @ m_inl fn @ concat (m_dirref fn)" "replicate 128 0" "m_sinref fn"] la l by simp
  have 4: "memcpy_at ((a @ m_inl fn @ concat (m_dirref fn) @ m_sinref fn) @ replicate 96 0) 8096 (m_dinref fn) =
      (a @ m_inl fn @ concat (m_dirref fn) @ m_sinref fn @ m_dinref fn) @ replicate 64 0"
    using memcpy_at_append [of "a @ m_inl fn @ concat (m_dirref fn) @ m_sinref fn" "replicate 96 0" "m_dinref fn"] la l by simp
  have 5: "memcpy_at ((a @ m_inl fn @ concat (m_dirref fn) @ m_sinref fn @ m_dinref fn) @ replicate 64 0) 8128 (m_tinref fn) =
      (a @ m_inl fn @ concat (m_dirref fn) @ m_sinref fn @ m_dinref fn @ m_tinref fn) @ replicate 32 0"
    using memcpy_at_append [of "a @ m_inl fn @ concat (m_dirref fn) @ m_sinref fn @ m_dinref fn" "replicate 64 0" "m_tinref fn"] la l by simp
  have 6: "memcpy_at ((a @ m_inl fn @ concat (m_dirref fn) @ m_sinref fn @ m_dinref fn @ m_tinref fn) @ replicate 32 0) 8160 (m_qinref fn) =
      a @ m_inl fn @ concat (m_dirref fn) @ m_sinref fn @ m_dinref fn @ m_tinref fn @ m_qinref fn"
    using memcpy_at_append [of "a @ m_inl fn @ concat (m_dirref fn) @ m_sinref fn @ m_dinref fn @ m_tinref fn" "replicate 32 0" "m_qinref fn"] la l by simp
  have "fn_buffer ser fn = Some (memcpy_at (memcpy_at (memcpy_at (memcpy_at (memcpy_at (memcpy_at (memcpy_at (replicate BLKSZ 0) 0 msg)
      3328 (m_inl fn)) 7424 (concat (m_dirref fn))) 8064 (m_sinref fn)) 8096 (m_dinref fn)) 8128 (m_tinref fn)) 8160 (m_qinref fn))"
    using ser by (simp add: fn_buffer_def Let_def c)
  then have "fn_buffer ser fn = Some (a @ m_inl fn @ concat (m_dirref fn) @ m_sinref fn @ m_dinref fn @ m_tinref fn @ m_qinref fn)"
    by (simp only: 1 2 3 4 5 6)
  then show ?thesis unfolding a_def .
qed

context roomy_store
begin

lemma fn_flush_direct_ok:
  assumes env: "penv env"
  shows "distinct is \<Longrightarrow> set is \<subseteq> {..<NDIRECT} \<Longrightarrow> fn_wf (loads env c) T fn \<Longrightarrow>
    room (m_bsh c) ((\<Sum>i \<leftarrow> is. slot_weight 0 (m_dirobj fn ! i)) + m) \<Longrightarrow>
    fresh env c ((\<Sum>i \<leftarrow> is. slot_weight 0 (m_dirobj fn ! i)) + m) \<Longrightarrow>
    \<exists>rs os c' T'. fn_flush_direct env is fn c = (fn\<lparr>m_dirref := rs, m_dirobj := os\<rparr>, c', Inr ()) \<and> grown T c T' c' \<and>
      room (m_bsh c') m \<and> fresh env c' m \<and> fn_wf (loads env c') T' (fn\<lparr>m_dirref := rs, m_dirobj := os\<rparr>) \<and>
      (\<forall>i < NDIRECT. os ! i = (if i \<in> set is then None else m_dirobj fn ! i)) \<and>
      (\<forall>p < end_off. fcont (loads env c') (fn\<lparr>m_dirref := rs, m_dirobj := os\<rparr>) p = fcont (loads env c) fn p)"
proof (induction "is" arbitrary: fn c T)
  case Nil
  have "fn\<lparr>m_dirref := m_dirref fn, m_dirobj := m_dirobj fn\<rparr> = fn" by simp
  then show ?case using Nil grown_refl [of T c] by (intro exI [of _ "m_dirref fn"] exI [of _ "m_dirobj fn"] exI [of _ c] exI [of _ T]) simp
next
  case (Cons i "is")
  have i: "i < NDIRECT" "i \<notin> set is" and dis: "distinct is" "set is \<subseteq> {..<NDIRECT}" using Cons.prems(1,2) by auto
  have len: "length (m_dirref fn) = NDIRECT" "length (m_dirobj fn) = NDIRECT" using Cons.prems(3) by (simp_all add: fn_wf_def)
  let ?m = "(\<Sum>i \<leftarrow> is. slot_weight 0 (m_dirobj fn ! i)) + m"
  have sl: "wfs (loads env c) T False 0 (m_dirref fn ! i) (m_dirobj fn ! i)" "length (m_dirref fn ! i) = 32"
    using Cons.prems(3) i(1) by (simp_all add: fn_wf_def)
  have dirty: "bn_isdirty k" if "m_dirobj fn ! i = Some k" for k
    using Cons.prems(3) that i(1) len(2) nth_mem [of i "m_dirobj fn"] by (auto simp: fn_wf_def slots_dirty_def)
  have w: "room (m_bsh c) (slot_weight 0 (m_dirobj fn ! i) + ?m)" "fresh env c (slot_weight 0 (m_dirobj fn ! i) + ?m)"
    using Cons.prems(4,5) by (simp_all add: add.assoc)
  obtain ref c1 T1 where f1: "flush_slot (DataBlockNode_flush env) (m_dirref fn ! i) (m_dirobj fn ! i) c = (ref, None, c1, Inr ())"
    "grown T c T1 c1" "room (m_bsh c1) ?m" "fresh env c1 ?m" "wfs (loads env c1) T1 False 0 ref None" "length ref = 32"
    "\<forall>p < span 0. cont (loads env c1) 0 ref None p = cont (loads env c1) 0 (m_dirref fn ! i) (m_dirobj fn ! i) p"
    by (rule flush_slot_ok [OF env DataBlockNode_flush_ok [OF env] sl dirty w])
  let ?fn = "fn\<lparr>m_dirref := (m_dirref fn)[i := ref], m_dirobj := (m_dirobj fn)[i := None]\<rparr>"
  note g = fn_grown [OF env f1(2) Cons.prems(3)]
  have fn1: "fn_wf (loads env c1) T1 ?fn" "fcont (loads env c1) ?fn = fcont (loads env c1) fn"
    using fn_dir_upd [OF g(1) i(1) f1(5,6,7)] by blast+
  have nj: "m_dirobj ?fn ! j = m_dirobj fn ! j" if "j \<in> set is" for j using that i(2) by (cases "j = i") simp_all
  have sw: "(\<Sum>j \<leftarrow> is. slot_weight 0 (m_dirobj ?fn ! j)) = (\<Sum>j \<leftarrow> is. slot_weight 0 (m_dirobj fn ! j))"
    by (rule arg_cong [where f = sum_list], rule map_cong) (use nj in simp_all)
  obtain rs os c' T' where n': "fn_flush_direct env is ?fn c1 = (?fn\<lparr>m_dirref := rs, m_dirobj := os\<rparr>, c', Inr ())" "grown T1 c1 T' c'"
      "room (m_bsh c') m" "fresh env c' m" "fn_wf (loads env c') T' (?fn\<lparr>m_dirref := rs, m_dirobj := os\<rparr>)"
      "\<forall>i < NDIRECT. os ! i = (if i \<in> set is then None else m_dirobj ?fn ! i)"
      "\<forall>p < end_off. fcont (loads env c') (?fn\<lparr>m_dirref := rs, m_dirobj := os\<rparr>) p = fcont (loads env c1) ?fn p"
    using Cons.IH [OF dis fn1(1), unfolded sw, OF f1(3,4)] by blast
  have eq: "?fn\<lparr>m_dirref := rs, m_dirobj := os\<rparr> = fn\<lparr>m_dirref := rs, m_dirobj := os\<rparr>" by simp
  have "fn_flush_direct env (i # is) fn c = (fn\<lparr>m_dirref := rs, m_dirobj := os\<rparr>, c', Inr ())"
    using fn_flush_direct_Cons [of i fn env "is" c] i(1) len(1) f1(1) n'(1) by simp
  moreover have "\<forall>j < NDIRECT. os ! j = (if j \<in> set (i # is) then None else m_dirobj fn ! j)" using n'(6) len(2) by simp
  moreover have "\<forall>p < end_off. fcont (loads env c') (fn\<lparr>m_dirref := rs, m_dirobj := os\<rparr>) p = fcont (loads env c) fn p"
    using n'(7) fn1(2) g(2) unfolding eq by simp
  ultimately show ?case using n'(3,4,5) grown_trans [OF f1(2) n'(2)] unfolding eq by blast
qed

lemma FileNode_persist_ok:
  assumes env: "penv env" and fn: "fn_wf (loads env c) T fn" and codec: "ino_codec ser parse (m_inode fn)"
    and c: "room (m_bsh c) 1" "fresh env c 1"
  obtains ref c' where "FileNode_persist env ser fn c = (fn\<lparr>fn_ref := ref, fn_dirty := False\<rparr>, c', Inr ref)"
    "\<And>T. \<exists>T'. grown T c T' c'"
    "\<And>c2. m_bsh c2 = m_bsh c' \<Longrightarrow> m_cipher c2 = m_cipher c \<Longrightarrow>
       snd (FileNode_load env parse ref c2) =
         Inr (fn\<lparr>fn_ref := ref, fn_dirty := False, m_dirobj := replicate NDIRECT None, m_sinobj := None, m_dinobj := None, m_tinobj := None\<rparr>)"
proof -
  have n: "BLKSZ - fixed_field_size = 3328" "BLKSZ = 8192" "INLSZ = 4096" "NDIRECT = 20"
    by (simp_all add: fixed_field_size_def BLKSZ_def INLSZ_def NDIRECT_def)
  obtain msg where msg: "ser (m_inode fn) (BLKSZ - fixed_field_size) = Some msg" "length msg \<le> BLKSZ - fixed_field_size"
    "parse (msg @ replicate (BLKSZ - fixed_field_size - length msg) 0) = Some (m_inode fn)"
    using codec by (auto simp: ino_codec_def Let_def)
  define a where "a = msg @ replicate (BLKSZ - fixed_field_size - length msg) (0 :: byte)"
  define buf where "buf = a @ m_inl fn @ concat (m_dirref fn) @ m_sinref fn @ m_dinref fn @ m_tinref fn @ m_qinref fn"
  have b: "fn_buffer ser fn = Some buf" unfolding buf_def a_def
    using fn_buffer_fields [OF fn, where ser = ser and msg = msg] msg(1,2) by blast
  have la: "length a = 3328" using msg(2) by (simp add: a_def n(1))
  have dr: "length (m_dirref fn) = 20" "\<forall>r \<in> set (m_dirref fn). length r = 32" using fn by (simp_all add: fn_wf_def n)
  note dc = concat_refs [OF dr]
  have l: "length (m_inl fn) = 4096" "length (m_sinref fn) = 32" "length (m_dinref fn) = 32" "length (m_tinref fn) = 32"
    "length (m_qinref fn) = 32" "length (concat (m_dirref fn)) = 640"
    using fn dc(1) by (simp_all add: fn_wf_def n)
  have lb: "length buf = BLKSZ" by (simp only: buf_def length_append la l n)
  have c1: "room (m_bsh c) (Suc 0)" "fresh env c (Suc 0)" using c by simp_all
  obtain c' ref where p: "persist_buf env buf c = (c', Some ref, Inr ref)" "\<And>T l. grown T c (T(ref := l)) c'"
    "\<And>ini c2. length ini \<le> BLKSZ \<Longrightarrow> m_bsh c2 = m_bsh c' \<Longrightarrow> m_cipher c2 = m_cipher c \<Longrightarrow> snd (load_block env ini ref c2) = Inr buf"
    by (rule persist_buf_ok [OF env lb c1]) blast
  have f: "take 3328 buf = a" "subbuf buf 3328 4096 = m_inl fn"
    "subbuf buf 8064 32 = m_sinref fn" "subbuf buf 8096 32 = m_dinref fn" "subbuf buf 8128 32 = m_tinref fn" "subbuf buf 8160 32 = m_qinref fn"
    unfolding buf_def
    subgoal by (simp add: la)
    subgoal by (rule subbuf_append [OF la l(1)])
    subgoal using subbuf_append [of "a @ m_inl fn @ concat (m_dirref fn)" 8064 "m_sinref fn" 32] la l by simp
    subgoal using subbuf_append [of "a @ m_inl fn @ concat (m_dirref fn) @ m_sinref fn" 8096 "m_dinref fn" 32] la l by simp
    subgoal using subbuf_append [of "a @ m_inl fn @ concat (m_dirref fn) @ m_sinref fn @ m_dinref fn" 8128 "m_tinref fn" 32] la l by simp
    subgoal using subbuf_append [of "a @ m_inl fn @ concat (m_dirref fn) @ m_sinref fn @ m_dinref fn @ m_tinref fn" 8160 "m_qinref fn" 32 "[]"] la l
      by simp
    done
  have d: "map (\<lambda>i. subbuf buf (7424 + 32 * i) 32) [0..<20] = m_dirref fn"
  proof (rule nth_equalityI)
    fix i assume "i < length (map (\<lambda>i. subbuf buf (7424 + 32 * i) 32) [0..<20])"
    then have i: "i < 20" by simp
    have "subbuf buf (7424 + 32 * i) 32 = subbuf (concat (m_dirref fn)) (32 * i) 32"
      using subbuf_inside [of "32 * i" 32 "concat (m_dirref fn)" "a @ m_inl fn" 7424 "m_sinref fn @ m_dinref fn @ m_tinref fn @ m_qinref fn"] la l i
      by (simp add: buf_def)
    then show "map (\<lambda>i. subbuf buf (7424 + 32 * i) 32) [0..<20] ! i = m_dirref fn ! i" using dc(2) i by simp
  qed (simp add: dr)
  have "FileNode_persist env ser fn c = (fn\<lparr>fn_ref := ref, fn_dirty := False\<rparr>, c', Inr ref)"
    by (simp add: FileNode_persist_def b p(1))
  moreover have "snd (FileNode_load env parse ref c2) =
      Inr (fn\<lparr>fn_ref := ref, fn_dirty := False, m_dirobj := replicate NDIRECT None, m_sinobj := None, m_dinobj := None, m_tinobj := None\<rparr>)"
    if t: "m_bsh c2 = m_bsh c'" "m_cipher c2 = m_cipher c" for c2
  proof -
    obtain c3 where "load_block env (replicate BLKSZ 0) ref c2 = (c3, Inr buf)"
      using p(3) [OF _ t, of "replicate BLKSZ 0"] by (metis length_replicate order_refl prod.collapse)
    moreover have "parse (take (BLKSZ - fixed_field_size) buf) = Some (m_inode fn)" using f(1) msg(3) by (simp only: n(1) a_def)
    ultimately have "snd (FileNode_load env parse ref c2) =
        Inr \<lparr>fn_ref = ref, fn_dirty = False, m_inode = m_inode fn, m_inl = subbuf buf 3328 4096,
          m_dirref = map (\<lambda>i. subbuf buf (7424 + 32 * i) 32) [0..<20], m_sinref = subbuf buf 8064 32, m_dinref = subbuf buf 8096 32,
          m_tinref = subbuf buf 8128 32, m_qinref = subbuf buf 8160 32, m_dirobj = replicate NDIRECT None, m_sinobj = None,
          m_dinobj = None, m_tinobj = None\<rparr>"
      by (simp add: FileNode_load_def Let_def n(1,3,4) del: upt_rec_numeral)
    then show ?thesis unfolding f d by simp
  qed
  ultimately show ?thesis using that [of ref c'] p(2) by blast
qed

text \<open>Flushing the object of one indirect slot of an inode.\<close>

lemma fn_wf_slots:
  assumes "fn_wf L T fn"
  shows "wfs L T False 1 (m_sinref fn) (m_sinobj fn)" "wfs L T False 2 (m_dinref fn) (m_dinobj fn)"
    "wfs L T False 3 (m_tinref fn) (m_tinobj fn)" "length (m_sinref fn) = 32" "length (m_dinref fn) = 32" "length (m_tinref fn) = 32"
    "\<And>k. m_sinobj fn = Some k \<Longrightarrow> bn_isdirty k" "\<And>k. m_dinobj fn = Some k \<Longrightarrow> bn_isdirty k" "\<And>k. m_tinobj fn = Some k \<Longrightarrow> bn_isdirty k"
  using assms by (auto simp: fn_wf_def slots_dirty_Cons)

lemma FileNode_flush_ok:
  assumes env: "penv env" and fn: "fn_wf (loads env c) T fn" "fn_dirty fn" and codec: "ino_codec ser parse (m_inode fn)"
    and c: "room (m_bsh c) (fn_weight fn)" "fresh env c (fn_weight fn)"
  obtains fn' c' ref where "FileNode_flush env ser fn c = (fn', c', Inr ref)"
    "\<And>c2. m_bsh c2 = m_bsh c' \<Longrightarrow> m_cipher c2 = m_cipher c \<Longrightarrow>
       \<exists>fn2 T2. snd (FileNode_load env parse ref c2) = Inr fn2 \<and> m_inode fn2 = m_inode fn \<and> fn_wf (loads env c2) T2 fn2 \<and>
         (\<forall>p < end_off. fcont (loads env c2) fn2 p = fcont (loads env c) fn p)"
proof -
  let ?w1 = "slot_weight 1 (m_sinobj fn)" and ?w2 = "slot_weight 2 (m_dinobj fn)" and ?w3 = "slot_weight 3 (m_tinobj fn)"
  have len: "length (m_dirobj fn) = NDIRECT" using fn(1) by (simp add: fn_wf_def)
  have "(\<Sum>i \<leftarrow> [0..<NDIRECT]. slot_weight 0 (m_dirobj fn ! i)) = (\<Sum>obj \<leftarrow> m_dirobj fn. slot_weight 0 obj)"
    using map_nth [of "m_dirobj fn"] len by (metis (no_types, lifting) list.map_comp map_eq_conv comp_apply)
  then have w: "fn_weight fn = (\<Sum>i \<leftarrow> [0..<NDIRECT]. slot_weight 0 (m_dirobj fn ! i)) + (?w1 + (?w2 + (?w3 + 1)))"
    by (simp add: fn_weight_def)
  have sub: "set [0..<NDIRECT] \<subseteq> {..<NDIRECT}" by auto
  obtain rs os c0 T0 where d: "fn_flush_direct env [0..<NDIRECT] fn c = (fn\<lparr>m_dirref := rs, m_dirobj := os\<rparr>, c0, Inr ())"
    "grown T c T0 c0" "room (m_bsh c0) (?w1 + (?w2 + (?w3 + 1)))" "fresh env c0 (?w1 + (?w2 + (?w3 + 1)))"
    "fn_wf (loads env c0) T0 (fn\<lparr>m_dirref := rs, m_dirobj := os\<rparr>)" "\<forall>i < NDIRECT. os ! i = None"
    "\<forall>p < end_off. fcont (loads env c0) (fn\<lparr>m_dirref := rs, m_dirobj := os\<rparr>) p = fcont (loads env c) fn p"
    using fn_flush_direct_ok [OF env distinct_upt sub fn(1) c [unfolded w]] by auto
  define fn0 where "fn0 = fn\<lparr>m_dirref := rs, m_dirobj := os\<rparr>"
  note s0 = fn_wf_slots [OF d(5) [folded fn0_def]]
  have o: "m_sinobj fn0 = m_sinobj fn" "m_dinobj fn0 = m_dinobj fn" "m_tinobj fn0 = m_tinobj fn" "m_inode fn0 = m_inode fn"
    by (simp_all add: fn0_def)
  obtain r1 c1 T1 where f1: "flush_slot (ind_flush env) (m_sinref fn0) (m_sinobj fn0) c0 = (r1, None, c1, Inr ())" "grown T0 c0 T1 c1"
    "room (m_bsh c1) (?w2 + (?w3 + 1))" "fresh env c1 (?w2 + (?w3 + 1))" "wfs (loads env c1) T1 False 1 r1 None" "length r1 = 32"
    "\<forall>p < span 1. cont (loads env c1) 1 r1 None p = cont (loads env c1) 1 (m_sinref fn0) (m_sinobj fn0) p"
    using flush_slot_ok [OF env tree_flush_ok(1) [OF env] s0(1,4,7), unfolded o, OF _ d(3,4)] by (metis o(1))
  define fn1 where "fn1 = fn0\<lparr>m_sinref := r1, m_sinobj := None\<rparr>"
  note g0 = fn_grown [OF env f1(2) d(5) [folded fn0_def]]
  have 1: "fn_wf (loads env c1) T1 fn1" "\<forall>p < end_off. fcont (loads env c1) fn1 p = fcont (loads env c0) fn0 p"
    using fn_tree_upd(1) [OF g0(1) f1(6,5,7)] g0(2) by (simp_all add: fn1_def)
  note s1 = fn_wf_slots [OF 1(1)]
  have o1: "m_dinobj fn1 = m_dinobj fn" "m_tinobj fn1 = m_tinobj fn" "m_inode fn1 = m_inode fn" by (simp_all add: fn1_def o)
  obtain r2 c2 T2 where f2: "flush_slot (dbl_flush env) (m_dinref fn1) (m_dinobj fn1) c1 = (r2, None, c2, Inr ())" "grown T1 c1 T2 c2"
    "room (m_bsh c2) (?w3 + 1)" "fresh env c2 (?w3 + 1)" "wfs (loads env c2) T2 False 2 r2 None" "length r2 = 32"
    "\<forall>p < span 2. cont (loads env c2) 2 r2 None p = cont (loads env c2) 2 (m_dinref fn1) (m_dinobj fn1) p"
    using flush_slot_ok [OF env tree_flush_ok(2) [OF env] s1(2,5,8), unfolded o1, OF _ f1(3,4)] by (metis o1(1))
  define fn2 where "fn2 = fn1\<lparr>m_dinref := r2, m_dinobj := None\<rparr>"
  note g1 = fn_grown [OF env f2(2) 1(1)]
  have 2: "fn_wf (loads env c2) T2 fn2" "\<forall>p < end_off. fcont (loads env c2) fn2 p = fcont (loads env c1) fn1 p"
    using fn_tree_upd(2) [OF g1(1) f2(6,5,7)] g1(2) by (simp_all add: fn2_def)
  note s2 = fn_wf_slots [OF 2(1)]
  have o2: "m_tinobj fn2 = m_tinobj fn" "m_inode fn2 = m_inode fn" by (simp_all add: fn2_def o1)
  obtain r3 c3 T3 where f3: "flush_slot (tri_flush env) (m_tinref fn2) (m_tinobj fn2) c2 = (r3, None, c3, Inr ())" "grown T2 c2 T3 c3"
    "room (m_bsh c3) 1" "fresh env c3 1" "wfs (loads env c3) T3 False 3 r3 None" "length r3 = 32"
    "\<forall>p < span 3. cont (loads env c3) 3 r3 None p = cont (loads env c3) 3 (m_tinref fn2) (m_tinobj fn2) p"
    using flush_slot_ok [OF env tree_flush_ok(3) [OF env] s2(3,6,9), unfolded o2, OF _ f2(3,4)] by (metis o2(1))
  define fn3 where "fn3 = fn2\<lparr>m_tinref := r3, m_tinobj := None\<rparr>"
  note g2 = fn_grown [OF env f3(2) 2(1)]
  have 3: "fn_wf (loads env c3) T3 fn3" "\<forall>p < end_off. fcont (loads env c3) fn3 p = fcont (loads env c2) fn2 p"
    using fn_tree_upd(3) [OF g2(1) f3(6,5,7)] g2(2) by (simp_all add: fn3_def)
  have ino: "m_inode fn3 = m_inode fn" by (simp add: fn3_def o2)
  obtain ref c4 where p: "FileNode_persist env ser fn3 c3 = (fn3\<lparr>fn_ref := ref, fn_dirty := False\<rparr>, c4, Inr ref)" "\<And>T. \<exists>T'. grown T c3 T' c4"
    "\<And>c2. m_bsh c2 = m_bsh c4 \<Longrightarrow> m_cipher c2 = m_cipher c3 \<Longrightarrow> snd (FileNode_load env parse ref c2) =
      Inr (fn3\<lparr>fn_ref := ref, fn_dirty := False, m_dirobj := replicate NDIRECT None, m_sinobj := None, m_dinobj := None, m_tinobj := None\<rparr>)"
    using FileNode_persist_ok [OF env 3(1) codec [folded ino] f3(3,4)] by metis
  obtain T4 where T4: "grown T3 c3 T4 c4" using p(2) by blast
  have ci: "m_cipher c3 = m_cipher c" "m_cipher c4 = m_cipher c3" using d(2) f1(2) f2(2) f3(2) T4 by (simp_all add: grown_def)
  note g3 = fn_grown [OF env T4 3(1)]
  have none: "m_dirobj fn3 = replicate NDIRECT None" "m_sinobj fn3 = None" "m_dinobj fn3 = None" "m_tinobj fn3 = None"
    using d(6) 3(1) by (auto simp: fn3_def fn2_def fn1_def fn0_def fn_wf_def in_set_conv_nth intro!: replicate_eqI)
  let ?fn4 = "fn3\<lparr>fn_ref := ref, fn_dirty := False, m_dirobj := replicate NDIRECT None, m_sinobj := None, m_dinobj := None, m_tinobj := None\<rparr>"
  have 4: "fn_wf (loads env c4) T4 ?fn4" "fcont (loads env c4) ?fn4 = fcont (loads env c4) fn3"
    using g3(1) none by (simp_all add: fn_wf_def slots_dirty_Cons fcont_def fun_eq_iff)
  have "FileNode_flush env ser fn c = (fn3\<lparr>fn_ref := ref, fn_dirty := False\<rparr>, c4, Inr ref)"
    using fn(2) d(1) f1(1) f2(1) f3(1) p(1)
    by (simp add: FileNode_flush_def fn0_def [symmetric] fn1_def [symmetric] fn2_def [symmetric] fn3_def [symmetric])
  moreover have "snd (FileNode_load env parse ref c5) = Inr ?fn4 \<and> m_inode ?fn4 = m_inode fn \<and> fn_wf (loads env c5) T4 ?fn4 \<and>
      (\<forall>p < end_off. fcont (loads env c5) ?fn4 p = fcont (loads env c) fn p)"
    if "m_bsh c5 = m_bsh c4" "m_cipher c5 = m_cipher c" for c5
  proof -
    have "loads env c5 = loads env c4" by (rule loads_cong) (use that ci in simp_all)
    then show ?thesis using p(3) [OF that(1)] that(2) ci(1) 4 g3(2) 3(2) 2(2) 1(2) d(7) ino by (simp add: fn0_def [symmetric])
  qed
  ultimately show ?thesis using that by blast
qed

end

subsection \<open>The property\<close>

text \<open>
  C2. A flush of a dirty file into a store with room for its blocks succeeds, and loading the
  reference it returns, in any context on the same store with the same key, gives the file
  back: its metadata, and every octet, whether it was in a dirty, a cached or a stored block.
  The hypotheses on the environment are that decryption undoes encryption, that digests have
  32 octets, that the inode message can be read back, and that the initialisation vectors
  drawn are new.
\<close>

theorem flush_load_roundtrip:
  assumes env: "e_get env = (\<lambda>s k n. snd (fs_block_get (os_sound now) k n s))"
      "e_put env = (\<lambda>s k d. fs_block_put (os_sound now) k d s)" "aes_ok (e_aes env)"
      "\<And>d. length (e_sha256 env d) = 32" "length (e_junk env) \<le> BLKSZ"
    and fn: "fn_wf (loads env c) T fn" "fn_dirty fn" "ino_codec ser parse (m_inode fn)"
    and c: "fs_room (m_bsh c) (fn_weight fn)" "fresh_ivs fs_unseen env c (fn_weight fn)"
  shows "\<exists>fn' c' ref. FileNode_flush env ser fn c = (fn', c', Inr ref) \<and>
    (\<forall>c2. m_bsh c2 = m_bsh c' \<longrightarrow> m_cipher c2 = m_cipher c \<longrightarrow>
      (\<exists>fn2 T2. snd (FileNode_load env parse ref c2) = Inr fn2 \<and> m_inode fn2 = m_inode fn \<and> fn_wf (loads env c2) T2 fn2 \<and>
         (\<forall>p < end_off. fcont (loads env c2) fn2 p = fcont (loads env c) fn p)))"
proof -
  have "fsr.penv now env" using env by (simp add: fsr.penv_def)
  from fsr.FileNode_flush_ok [OF this fn c] show ?thesis by metis
qed

text \<open>A file of one dirty block in a new store.\<close>

definition wit_penv :: "fsbs env" where
  "wit_penv = \<lparr>e_sha256 = (\<lambda>_. replicate 32 0), e_aes = (\<lambda>_ _ _ b. b),
     e_rand = (\<lambda>n. Some (replicate 15 1 @ [word_of_nat n])),
     e_get = (\<lambda>s k n. snd (fs_block_get (os_sound 0) k n s)), e_put = (\<lambda>s k d. fs_block_put (os_sound 0) k d s),
     e_refresh = (\<lambda>bs _ _. (bs, Inl NotFoundError)), e_junk = []\<rparr>"

definition wit_pctxt :: "fsbs ctxt" where
  "wit_pctxt = ctxt_mkfs wit_penv [] (fs_new 20000) (ctxt_new (fs_new 20000))"

definition wit_pfile :: filenode where
  "wit_pfile = (FileNode_new 0 [] [] 0)\<lparr>m_dirobj := (replicate NDIRECT None)[0 := Some (DataNode BlockRef_nil True False (replicate BLKSZ 7))]\<rparr>"

definition wit_ser_ino :: "inode \<Rightarrow> nat \<Rightarrow> bytes option" where
  "wit_ser_ino ino n = Some []"

definition wit_parse_ino :: "bytes \<Rightarrow> inode option" where
  "wit_parse_ino b = Some (m_inode (FileNode_new 0 [] [] 0))"

lemma wit_pfile_simps [simp]:
  "m_inl wit_pfile = replicate INLSZ 0" "m_dirref wit_pfile = replicate NDIRECT BlockRef_nil" "fn_dirty wit_pfile"
  "m_dirobj wit_pfile = (replicate NDIRECT None)[0 := Some (DataNode BlockRef_nil True False (replicate BLKSZ 7))]"
  "m_sinref wit_pfile = BlockRef_nil" "m_dinref wit_pfile = BlockRef_nil" "m_tinref wit_pfile = BlockRef_nil" "m_qinref wit_pfile = BlockRef_nil"
  "m_sinobj wit_pfile = None" "m_dinobj wit_pfile = None" "m_tinobj wit_pfile = None"
  "m_inode wit_pfile = m_inode (FileNode_new 0 [] [] 0)"
  by (simp_all add: wit_pfile_def FileNode_new_def)

lemma wit_pfile_wf: "fn_wf L T wit_pfile"
proof -
  have "slots_dirty True (replicate NDIRECT None)" by simp
  from slots_dirty_upd [OF this, of "DataNode BlockRef_nil True False (replicate BLKSZ 7)" 0]
  have "slots_dirty True (m_dirobj wit_pfile)" by simp
  moreover have "wfs L T False 0 (m_dirref wit_pfile ! i) (m_dirobj wit_pfile ! i)" if "i < NDIRECT" for i
    using that by (cases "i = 0") (simp_all add: slot_wf_def del: wfn.simps)
  ultimately show ?thesis by (simp add: fn_wf_def slots_dirty_Cons slot_wf_def)
qed

lemma wit_pfile_weight: "fn_weight wit_pfile = 2"
  by (simp add: fn_weight_def slot_weight_def NDIRECT_def numeral_eq_Suc)

lemma fs_new_simps: "f_entries (fs_new n) = Map.empty" "f_lru (fs_new n) = []" "f_uncommitted (fs_new n) = 0" "f_size (fs_new n) = n"
  by (simp_all add: fs_new_def fs_create_def fs_ctor_def)

lemma wit_fresh: "fresh_ivs fs_unseen wit_penv wit_pctxt 2"
proof -
  have "m_nrand wit_pctxt = 0" "m_bsh wit_pctxt = fs_new 20000" by (simp_all add: wit_pctxt_def ctxt_mkfs_def ctxt_new_def Let_def)
  moreover have "(1 :: nat) = 0 \<or> (word_of_nat 1 :: byte) \<noteq> word_of_nat 0" by simp
  ultimately show ?thesis
    by (auto simp: fresh_ivs_def wit_penv_def BlockRef_not_iff fs_unseen_def fs_new_simps numeral_2_eq_2 less_Suc_eq)
qed

lemma wit_room: "fs_room (m_bsh wit_pctxt) 2"
proof -
  have "m_bsh wit_pctxt = fs_new 20000" by (simp add: wit_pctxt_def ctxt_mkfs_def Let_def)
  then show ?thesis using fs_new_inv [of 20000 BLKSZ] by (simp add: fs_room_def fs_new_simps lru_bytes_def BLKSZ_def)
qed

theorem flush_load_roundtrip_witness:
  "\<exists>fn' c' ref fn2. FileNode_flush wit_penv wit_ser_ino wit_pfile wit_pctxt = (fn', c', Inr ref) \<and>
     snd (FileNode_load wit_penv wit_parse_ino ref (ctxt_mkfs wit_penv [] (m_bsh c') (ctxt_new (m_bsh c')))) = Inr fn2 \<and>
     fcont (loads wit_penv (ctxt_mkfs wit_penv [] (m_bsh c') (ctxt_new (m_bsh c')))) fn2 5000 = 7"
proof -
  have "ino_codec wit_ser_ino wit_parse_ino (m_inode wit_pfile)"
    by (simp add: ino_codec_def Let_def wit_ser_ino_def wit_parse_ino_def)
  moreover have env: "e_get wit_penv = (\<lambda>s k n. snd (fs_block_get (os_sound 0) k n s))"
    "e_put wit_penv = (\<lambda>s k d. fs_block_put (os_sound 0) k d s)" "aes_ok (e_aes wit_penv)"
    "\<And>d. length (e_sha256 wit_penv d) = 32" "length (e_junk wit_penv) \<le> BLKSZ"
    by (simp_all add: wit_penv_def aes_ok_def)
  ultimately obtain fn' c' ref where r: "FileNode_flush wit_penv wit_ser_ino wit_pfile wit_pctxt = (fn', c', Inr ref)"
    "\<forall>c2. m_bsh c2 = m_bsh c' \<longrightarrow> m_cipher c2 = m_cipher wit_pctxt \<longrightarrow>
      (\<exists>fn2 T2. snd (FileNode_load wit_penv wit_parse_ino ref c2) = Inr fn2 \<and> m_inode fn2 = m_inode wit_pfile \<and> fn_wf (loads wit_penv c2) T2 fn2 \<and>
         (\<forall>p < end_off. fcont (loads wit_penv c2) fn2 p = fcont (loads wit_penv wit_pctxt) wit_pfile p))"
    using flush_load_roundtrip [OF env wit_pfile_wf, of wit_ser_ino wit_parse_ino wit_pctxt] wit_room wit_fresh wit_pfile_weight by auto
  have p: "5000 < end_off" by (simp add: end_off_def tin_off_def din_off_def sin_off_def INLSZ_def NDIRECT_def NUMREF_def BLKSZ_def)
  have "fcont (loads wit_penv wit_pctxt) wit_pfile 5000 = 7"
    by (simp add: fcont_def sin_off_def INLSZ_def NDIRECT_def BLKSZ_def cont_def slot_cont_def)
  moreover have "m_bsh (ctxt_mkfs wit_penv [] (m_bsh c') (ctxt_new (m_bsh c'))) = m_bsh c'"
    "m_cipher (ctxt_mkfs wit_penv [] (m_bsh c') (ctxt_new (m_bsh c'))) = m_cipher wit_pctxt"
    by (simp_all add: ctxt_mkfs_def wit_pctxt_def Let_def)
  ultimately show ?thesis using r p by metis
qed

end
