(* ===== verification/Root_Heads.thy ===== *)
theory Root_Heads
  imports Persist Path_Laws
begin

text \<open>
  The root references of a file system and the heads of its block store: every sync adds an
  encrypted root reference to the graph of heads, a mount asks the graph for the furthest one.
  The interface between the two is the locale \<open>head_log\<close>; \<^verbatim>\<open>FSBlockStore\<close> with its
  \<^verbatim>\<open>LameHeadNodeGraph\<close> provides it.
\<close>

subsection \<open>Chains of heads\<close>

text \<open>The edges of a graph in which each head succeeds the one before it.\<close>

fun chain :: "bytes \<Rightarrow> bytes \<Rightarrow> bytes list \<Rightarrow> (headnode \<times> headnode) set" where
  "chain tag p [] = {}"
| "chain tag p (r # rs) = insert ((tag, p), (tag, r)) (chain tag r rs)"

lemma chain_snoc: "chain tag p (rs @ [r]) = insert ((tag, last (p # rs)), (tag, r)) (chain tag p rs)"
  by (induction rs arbitrary: p) auto

lemma Domain_chain: "Domain (chain tag p rs) = Pair tag ` set (butlast (p # rs))"
  by (induction rs arbitrary: p) auto

lemma Range_chain: "Range (chain tag p rs) = Pair tag ` set rs"
  by (induction rs arbitrary: p) auto

lemma last_not_butlast: "distinct xs \<Longrightarrow> xs \<noteq> [] \<Longrightarrow> last xs \<notin> set (butlast xs)"
  by (metis append_butlast_last_id distinct_append disjoint_iff list.set_intros(1))

lemma last_not_Domain: "distinct (p # rs) \<Longrightarrow> (tag, last (p # rs)) \<notin> Domain (chain tag p rs)"
  using last_not_butlast [of "p # rs"] unfolding Domain_chain by auto

lemma acyclic_chain: "distinct (p # rs) \<Longrightarrow> acyclic (chain tag p rs)"
proof (induction rs rule: rev_induct)
  case (snoc r rs)
  have "((tag, r), (tag, last (p # rs))) \<notin> (chain tag p rs)\<^sup>*"
  proof
    assume "((tag, r), (tag, last (p # rs))) \<in> (chain tag p rs)\<^sup>*"
    then have "(tag, r) = (tag, last (p # rs)) \<or> (tag, r) \<in> Domain (chain tag p rs)"
      by (metis converse_rtranclE Domain.DomainI)
    moreover have "r \<notin> set (p # rs)" using snoc.prems by auto
    ultimately show False 
      unfolding Domain_chain using in_set_butlastD [of r "p # rs"] last_in_set [of "p # rs"] by blast
  qed
  moreover have "distinct (p # rs)" using snoc.prems by simp
  then have "acyclic (chain tag p rs)" by (rule snoc.IH)
  ultimately show ?case unfolding chain_snoc acyclic_insert by blast
qed (simp add: wf_acyclic)

lemma chain_reaches: "((tag, p), (tag, last (p # rs))) \<in> (chain tag p rs)\<^sup>*"
proof (induction rs rule: rev_induct)
  case (snoc r rs)
  have "(chain tag p rs)\<^sup>* \<subseteq> (chain tag p (rs @ [r]))\<^sup>*" unfolding chain_snoc by (intro rtrancl_mono) auto
  moreover have "((tag, last (p # rs)), (tag, r)) \<in> chain tag p (rs @ [r])" unfolding chain_snoc by blast
  ultimately show ?case using snoc.IH by (auto intro: rtrancl_into_rtrancl)
qed simp

lemma chain_furthest:
  assumes "lhng_inv g" "hg_rel g = chain tag [] rs" "distinct ([] # rs)" "rs \<noteq> []"
  shows "head_furthest g (tag, []) = Some (Inr [(tag, last rs)])"
proof -
  have dom: "Domain (hg_rel g) = Pair tag ` set (butlast ([] # rs))" "Range (hg_rel g) = Pair tag ` set rs"
    unfolding assms(2) Domain_chain Range_chain by simp_all
  obtain r0 rs' where rs: "rs = r0 # rs'" using assms(4) by (cases rs) auto
  have start: "start_nodes g (tag, []) = {(tag, [])}"
    unfolding start_nodes_def dom using assms(3) rs by (auto dest: in_set_butlastD)
  have lst: "last ([] # rs) = last rs" using assms(4) by simp
  have "leaves g {(tag, [])} = {(tag, last rs)}"
  proof (rule set_eqI, rule iffI)
    fix n assume "n \<in> leaves g {(tag, [])}"
    then have n: "((tag, []), n) \<in> (hg_rel g)\<^sup>*" "n \<notin> Domain (hg_rel g)" by (auto simp: leaves_def)
    have "(tag, []) \<in> Domain (hg_rel g)" unfolding dom rs by simp
    then have "n \<in> Range (hg_rel g)" using n by (metis rtranclE Range.RangeI)
    then obtain r where r: "n = (tag, r)" "r \<in> set ([] # rs)" unfolding dom(2) by auto
    then have "r \<notin> set (butlast ([] # rs))" using n(2) unfolding dom by blast
    moreover have "set ([] # rs) = insert (last ([] # rs)) (set (butlast ([] # rs)))"
      using append_butlast_last_id [of "[] # rs"] by (metis list.distinct(1) list.set(2) rotate1.simps(2) set_rotate1)
    ultimately have "r = last ([] # rs)" using r(2) by blast
    then show "n \<in> {(tag, last rs)}" using r(1) lst by simp
  next
    fix n assume n: "n \<in> {(tag, last rs)}"
    show "n \<in> leaves g {(tag, [])}"
      using n chain_reaches [of tag "[]" rs] last_not_Domain [OF assms(3), of tag] unfolding leaves_def lst assms(2) by simp
  qed
  moreover have "acyclic (hg_rel g)" using acyclic_chain [OF assms(3)] assms(2) by simp
  ultimately obtain ns where ns: "head_furthest g (tag, []) = Some (Inr ns)" "distinct ns" "set ns = {(tag, last rs)}"
    using head_furthest_leaves [OF assms(1), of "(tag, [])"] start by auto
  then have "ns = [(tag, last rs)]" by (cases ns; cases "tl ns") auto
  with ns(1) show ?thesis by simp
qed

subsection \<open>The interface of the heads\<close>

text \<open>
  What the file system relies on: \<open>heads bs rs\<close> says that the heads of the tag are the roots
  \<open>rs\<close>, one after the other.
\<close>

locale head_log =
  fixes ins :: "'bs \<Rightarrow> signedheadedge \<Rightarrow> 'bs \<times> unit res"
    and fur :: "'bs \<Rightarrow> headnode \<Rightarrow> headnode list res"
    and parse :: he_parser
    and tag :: bytes
    and heads :: "'bs \<Rightarrow> bytes list \<Rightarrow> bool"
  assumes ins_next: "heads bs rs \<Longrightarrow> parse (she_headedge she) = Some he \<Longrightarrow> he_fstag he = tag \<Longrightarrow>
      he_prevref he = last ([] # rs) \<Longrightarrow> he_rootref he \<notin> set ([] # rs) \<Longrightarrow>
      \<exists>bs'. ins bs she = (bs', Inr ()) \<and> heads bs' (rs @ [he_rootref he])"
    and fur_last: "heads bs rs \<Longrightarrow> rs \<noteq> [] \<Longrightarrow> fur bs (tag, []) = Inr [(tag, last rs)]"

definition fs_fur :: "fsbs \<Rightarrow> headnode \<Rightarrow> headnode list res" where
  "fs_fur bs hn = (case fs_head_furthest hn bs of None \<Rightarrow> Inl InternalError | Some r \<Rightarrow> r)"

definition fs_heads :: "bytes \<Rightarrow> fsbs \<Rightarrow> bytes list \<Rightarrow> bool" where
  "fs_heads tag bs rs \<longleftrightarrow> lhng_inv (f_lhng bs) \<and> hg_rel (f_lhng bs) = chain tag [] rs \<and> distinct ([] # rs)"

interpretation fsh: head_log "\<lambda>bs she. fs_head_insert serialize parse she bs" fs_fur parse tag "fs_heads tag"
proof unfold_locales
  fix bs rs and she :: signedheadedge and he :: headedge
  assume a: "fs_heads tag bs rs" "parse (she_headedge she) = Some he" "he_fstag he = tag"
    "he_prevref he = last ([] # rs)" "he_rootref he \<notin> set ([] # rs)"
  have inv: "lhng_inv (f_lhng bs)" "hg_rel (f_lhng bs) = chain tag [] rs" "distinct ([] # rs)"
    using a(1) by (simp_all add: fs_heads_def)
  have "he_prevref he \<noteq> he_rootref he" using a(4,5) last_in_set [of "[] # rs"] by auto
  from insert_head_step [where parse = parse and she = she, OF inv(1) a(2) this] obtain g' where
    g': "insert_head parse she (f_lhng bs) = Inr g'" "lhng_inv g'" "hg_rel g' = chain tag [] (rs @ [he_rootref he])"
    using last_not_Domain [OF inv(3), of tag] unfolding a(3,4) inv(2) chain_snoc by (auto simp del: last.simps)
  then have "fs_head_insert serialize parse she bs = ((write_head serialize she bs)\<lparr>f_lhng := g'\<rparr>, Inr ())"
    by (simp add: fs_head_insert_def write_head_def)
  moreover have "fs_heads tag ((write_head serialize she bs)\<lparr>f_lhng := g'\<rparr>) (rs @ [he_rootref he])"
    using g' inv(3) a(5) by (auto simp: fs_heads_def)
  ultimately show "\<exists>bs'. fs_head_insert serialize parse she bs = (bs', Inr ()) \<and> fs_heads tag bs' (rs @ [he_rootref he])"
    by blast
next
  fix bs rs assume "fs_heads tag bs rs" "rs \<noteq> []"
  then show "fs_fur bs (tag, []) = Inr [(tag, last rs)]"
    using chain_furthest [of "f_lhng bs" tag rs] by (simp add: fs_heads_def fs_fur_def fs_head_furthest_def)
qed

subsection \<open>Syncs and mounts\<close>

text \<open>The root references of successive syncs.\<close>

fun rootref_sets :: "'bs uenv \<Rightarrow> blkref list \<Rightarrow> 'bs utfs \<Rightarrow> 'bs utfs \<times> unit res" where
  "rootref_sets ue [] s = (s, Inr ())"
| "rootref_sets ue (r # rs) s =
     (case rootref_set ue r s of (s1, Inl e) \<Rightarrow> (s1, Inl e) | (s1, Inr _) \<Rightarrow> rootref_sets ue rs s1)"

definition enc_ref :: "'bs uenv \<Rightarrow> 'bs utfs \<Rightarrow> blkref \<Rightarrow> bytes" where
  "enc_ref ue s r = e_aes (ue_env ue) True (c_key (m_cipher (n_ctxt s))) zero_iv r"

definition enc_all :: "'bs uenv \<Rightarrow> 'bs utfs \<Rightarrow> blkref list \<Rightarrow> bytes list" where
  "enc_all ue s rs = map (enc_ref ue s) rs"

lemma enc_ref_inj:
  assumes "aes_ok (e_aes (ue_env ue))" "length r = 32" "length r' = 32" "enc_ref ue s r = enc_ref ue s r'"
  shows "r = r'"
proof -
  have "e_aes (ue_env ue) False (c_key (m_cipher (n_ctxt s))) zero_iv (enc_ref ue s x) = x" if "length x = 32" for x
    using assms(1) that by (simp add: aes_ok_def enc_ref_def)
  then show ?thesis using assms(2-4) by metis
qed

context head_log
begin

text \<open>The file system is where its syncs left it, and its head is the last of the chain.\<close>

definition synced :: "'bs uenv \<Rightarrow> blkref list \<Rightarrow> 'bs utfs \<Rightarrow> bool" where
  "synced ue rs s \<longleftrightarrow> heads (m_bsh (n_ctxt s)) (enc_all ue s rs) \<and> u_fsiddig s = tag \<and>
     snd (u_hn s) = last ([] # enc_all ue s rs) \<and> u_rbr s = last (BlockRef_nil # rs)"

lemma rootref_set_synced:
  assumes ue: "ue_head_insert ue = ins" "\<And>he. he_tstamp he \<in> range (fe_clock (ue_fe ue)) \<Longrightarrow> parse (ue_ser_he ue he) = Some he" "\<And>n k. ue_fill ue n k \<noteq> None"
    "aes_ok (e_aes (ue_env ue))"
    and s: "synced ue rs s" "r \<notin> set (BlockRef_nil # rs)" "\<forall>x \<in> set (r # rs). length x = 32"
  obtains s' where "rootref_set ue r s = (s', Inr ())" "synced ue (rs @ [r]) s'" "m_cipher (n_ctxt s') = m_cipher (n_ctxt s)"
proof -
  let ?E = "enc_ref ue s"
  have "u_rbr s \<in> set (BlockRef_nil # rs)"
    using s(1) last_in_set [of "BlockRef_nil # rs"] unfolding synced_def by (metis list.distinct(1))
  then have ne: "r \<noteq> u_rbr s" using s(2) by metis
  have len: "length (?E x) = 32" if "x \<in> set (r # rs)" for x
    using that s(3) ue(4) unfolding aes_ok_def enc_ref_def by fastforce
  have enc: "BlockCipher_encrypt (e_aes (ue_env ue)) (m_cipher (n_ctxt s)) zero_iv r = Inr (?E r)"
    using s(3) by (simp add: BlockCipher_encrypt_def AES_BLOCK_SIZE_def enc_ref_def zero_iv_def)
  have new: "?E r \<notin> set ([] # enc_all ue s rs)"
  proof
    assume "?E r \<in> set ([] # enc_all ue s rs)"
    moreover have "?E r \<noteq> []" using len [of r] by auto
    ultimately obtain x where "x \<in> set rs" "?E r = ?E x" by (auto simp: enc_all_def)
    then show False using enc_ref_inj [OF ue(4), of r x s] s(2,3) by auto
  qed
  define kid where "kid n = the (ue_fill ue n 16)" for n
  define sig where "sig n = the (ue_fill ue n 256)" for n
  have kid: "ue_fill ue n 16 = Some (kid n)" and sig: "ue_fill ue n 256 = Some (sig n)" for n
    using ue(3) unfolding kid_def sig_def by simp_all
  let ?now = "fe_clock (ue_fe ue) (n_ticks s)" and ?n = "m_nrand (n_ctxt s)"
  let ?he = "\<lparr>he_fstag = tag, he_rootref = ?E r, he_prevref = snd (u_hn s), he_tstamp = ?now\<rparr>"
  let ?she = "\<lparr>she_headedge = ue_ser_he ue ?he, she_keyid = kid ?n, she_signature = sig (?n + 1)\<rparr>"
  obtain bs where bs: "ins (m_bsh (n_ctxt s)) ?she = (bs, Inr ())" "heads bs (enc_all ue s rs @ [?E r])"
    using ins_next [of "m_bsh (n_ctxt s)" "enc_all ue s rs" ?she ?he] s(1) ue(2) new by (auto simp: synced_def)
  have tag: "u_fsiddig s = tag" using s(1) by (simp add: synced_def)
  let ?s' = "s\<lparr>n_ticks := Suc (n_ticks s), n_ctxt := (n_ctxt s)\<lparr>m_nrand := ?n + 1 + 1, m_bsh := bs\<rparr>, u_hn := (tag, ?E r), u_rbr := r\<rparr>"
  have "rootref_set ue r s = (?s', Inr ())"
    using ne bs(1) tag by (simp add: rootref_set_def enc T64_now_def Random_fill_def head_edge_def kid sig ue(1) set_bsh_def)
  moreover have "synced ue (rs @ [r]) ?s'"
    using bs(2) tag by (simp add: synced_def enc_all_def enc_ref_def [abs_def])
  ultimately show ?thesis using that by simp
qed

lemma rootref_sets_synced:
  assumes ue: "ue_head_insert ue = ins" "\<And>he. he_tstamp he \<in> range (fe_clock (ue_fe ue)) \<Longrightarrow> parse (ue_ser_he ue he) = Some he" "\<And>n k. ue_fill ue n k \<noteq> None"
    "aes_ok (e_aes (ue_env ue))"
  shows "synced ue rs s \<Longrightarrow> distinct (BlockRef_nil # rs @ qs) \<Longrightarrow> \<forall>x \<in> set (rs @ qs). length x = 32 \<Longrightarrow>
    \<exists>s'. rootref_sets ue qs s = (s', Inr ()) \<and> synced ue (rs @ qs) s'"
proof (induction qs arbitrary: rs s)
  case (Cons q qs)
  have q: "q \<notin> set (BlockRef_nil # rs)" "\<forall>x \<in> set (q # rs). length x = 32" using Cons.prems by auto
  obtain s1 where s1: "rootref_set ue q s = (s1, Inr ())" "synced ue (rs @ [q]) s1"
    using rootref_set_synced [OF ue Cons.prems(1) q] by blast
  have "\<exists>s'. rootref_sets ue qs s1 = (s', Inr ()) \<and> synced ue ((rs @ [q]) @ qs) s'"
    by (rule Cons.IH [OF s1(2)]) (use Cons.prems in auto)
  then show ?case using s1(1) by simp
qed simp

lemma rootref_get_synced:
  assumes ue: "ue_head_furthest ue = fur" "aes_ok (e_aes (ue_env ue))"
    and s: "synced ue rs s" "rs \<noteq> []" "length (last rs) = 32"
    and s0: "m_bsh (n_ctxt s0) = m_bsh (n_ctxt s)" "m_cipher (n_ctxt s0) = m_cipher (n_ctxt s)" "u_hn s0 = (tag, [])"
  shows "snd (rootref_get ue s0) = Inr (last rs)"
proof -
  let ?E = "enc_ref ue s"
  have l: "length (?E (last rs)) = 32"
    "e_aes (ue_env ue) False (c_key (m_cipher (n_ctxt s))) zero_iv (?E (last rs)) = last rs"
    using ue(2) s(3) by (simp_all add: aes_ok_def enc_ref_def)
  have "fur (m_bsh (n_ctxt s)) (tag, []) = Inr [(tag, ?E (last rs))]"
    using fur_last [of "m_bsh (n_ctxt s)" "enc_all ue s rs"] s(1,2) by (simp add: synced_def enc_all_def last_map)
  then show ?thesis using l s(3) s0
    by (simp add: rootref_get_def ue(1) BlockCipher_decrypt_def AES_BLOCK_SIZE_def BlockRef_parse_def zero_iv_def)
qed

end


subsection \<open>The property\<close>

text \<open>The graph before the first sync.\<close>

lemma fsh_synced_nil:
  assumes "lhng_inv (f_lhng (m_bsh (n_ctxt s)))" "hg_rel (f_lhng (m_bsh (n_ctxt s))) = {}"
    "snd (u_hn s) = []" "u_rbr s = BlockRef_nil"
  shows "fsh.synced (u_fsiddig s) ue [] s"
  using assms by (simp add: fsh.synced_def fs_heads_def enc_all_def)

text \<open>
  C8. Root references given one after the other to the block store, each different from the
  ones before it, are all accepted, and a mount with the same key then finds the last of them:
  \<^verbatim>\<open>rootref()\<close> started from the empty head of the file system's tag returns it.
\<close>

theorem mount_finds_last_root:
  assumes ue: "ue_head_insert ue = (\<lambda>bs she. fs_head_insert serialize parse she bs)" "ue_head_furthest ue = fs_fur"
      "\<And>he. he_tstamp he \<in> range (fe_clock (ue_fe ue)) \<Longrightarrow> parse (ue_ser_he ue he) = Some he"
      "\<And>n k. ue_fill ue n k \<noteq> None" "aes_ok (e_aes (ue_env ue))"
    and s: "lhng_inv (f_lhng (m_bsh (n_ctxt s)))" "hg_rel (f_lhng (m_bsh (n_ctxt s))) = {}"
      "snd (u_hn s) = []" "u_rbr s = BlockRef_nil"
    and rs: "rs \<noteq> []" "distinct (BlockRef_nil # rs)" "\<forall>r \<in> set rs. length r = 32"
  shows "\<exists>s'. rootref_sets ue rs s = (s', Inr ()) \<and>
    (\<forall>s0. m_bsh (n_ctxt s0) = m_bsh (n_ctxt s') \<longrightarrow> m_cipher (n_ctxt s0) = m_cipher (n_ctxt s') \<longrightarrow>
      u_hn s0 = (u_fsiddig s, []) \<longrightarrow> snd (rootref_get ue s0) = Inr (last rs))"
proof -
  obtain s' where s': "rootref_sets ue rs s = (s', Inr ())" "fsh.synced (u_fsiddig s) ue ([] @ rs) s'"
    using fsh.rootref_sets_synced [OF ue(1,3,4,5) fsh_synced_nil [OF s], of rs] rs(2,3) by auto
  have "length (last rs) = 32" using rs(1,3) by simp
  then show ?thesis
    using s' fsh.rootref_get_synced [OF ue(2,5) s'(2)] rs(1) by simp
qed

text \<open>A serialiser of head edges that can be read back, for the witness.\<close>

fun wit_enc :: "bytes \<Rightarrow> bytes" where
  "wit_enc [] = [0]"
| "wit_enc (b # bs) = 1 # b # wit_enc bs"

fun wit_dec :: "bytes \<Rightarrow> bytes \<times> bytes" where
  "wit_dec (a # b # r) = (if a = 0 then ([], b # r) else (case wit_dec r of (x, y) \<Rightarrow> (b # x, y)))"
| "wit_dec _ = ([], [])"

definition wit_ser :: "headedge \<Rightarrow> bytes" where
  "wit_ser he = wit_enc (he_fstag he) @ wit_enc (he_rootref he) @ wit_enc (he_prevref he) @
     wit_enc (replicate (nat (he_tstamp he)) 0) @ [0]"

definition wit_parse_he :: he_parser where
  "wit_parse_he b =
     (let (t, b1) = wit_dec b; (r, b2) = wit_dec b1; (p, b3) = wit_dec b2; (n, _) = wit_dec b3
      in Some \<lparr>he_fstag = t, he_rootref = r, he_prevref = p, he_tstamp = int (length n)\<rparr>)"

lemma wit_enc_ne: "wit_enc x \<noteq> []"
  by (cases x) auto

lemma wit_dec_enc: "r \<noteq> [] \<Longrightarrow> wit_dec (wit_enc x @ r) = (x, r)"
  by (induction x) (auto simp: neq_Nil_conv)

lemma wit_parse_ser: "0 \<le> he_tstamp he \<Longrightarrow> wit_parse_he (wit_ser he) = Some he"
  by (simp add: wit_parse_he_def wit_ser_def wit_dec_enc wit_enc_ne)

definition wit_fenv :: "fsbs fenv" where
  "wit_fenv = \<lparr>fe_env = \<lparr>e_sha256 = (\<lambda>_. replicate 32 0), e_aes = (\<lambda>_ _ _ b. b), e_rand = (\<lambda>_. None),
     e_get = (\<lambda>_ _ _. Inl NotFoundError), e_put = (\<lambda>bs _ _. (bs, Inl NoSpaceError)),
     e_refresh = (\<lambda>bs _ _. (bs, Inl NotFoundError)), e_junk = []\<rparr>,
     fe_ser_ino = (\<lambda>_ _. None), fe_parse_ino = (\<lambda>_. None), fe_ser_dir = (\<lambda>_. None),
     fe_parse_dir = (\<lambda>_. None), fe_clock = int, fe_uid = (\<lambda>_. None), fe_gid = (\<lambda>_. None)\<rparr>"

definition wit_uenv :: "fsbs uenv" where
  "wit_uenv = \<lparr>ue_fe = wit_fenv, ue_ser_he = wit_ser, ue_fill = (\<lambda>_ n. Some (replicate n 0)), ue_rid = (\<lambda>_. None),
     ue_head_insert = (\<lambda>bs she. fs_head_insert she_headedge wit_parse_he she bs), ue_head_furthest = fs_fur,
     ue_refresh_start = (\<lambda>s _. (s, Inl InternalError)), ue_refresh_finish = (\<lambda>s _. (s, Inl InternalError)),
     ue_stat = (\<lambda>_. Inr (0, 0))\<rparr>"

definition wit_mkfs :: "fsbs utfs" where
  "wit_mkfs = \<lparr>n_ctxt = ctxt_mkfs (fe_env wit_fenv) [] fs_ctor (ctxt_new fs_ctor), n_heap = (\<lambda>_. wit_root), n_next = 1,
     n_fcache = Map.empty, n_ticks = 0, u_fsiddig = [7], u_bsh_set = True, u_rdh = Some 0, u_hn = ([], []),
     u_rbr = BlockRef_nil, u_nrdops = 0, u_nrdbytes = 0, u_nwrops = 0, u_nwrbytes = 0\<rparr>"

theorem mount_finds_last_root_witness:
  "\<exists>s'. rootref_sets wit_uenv [replicate 32 1, replicate 32 2, replicate 32 3] wit_mkfs = (s', Inr ()) \<and>
     snd (rootref_get wit_uenv (s'\<lparr>u_hn := ([7], [])\<rparr>)) = Inr (replicate 32 3)"
proof -
  have ue: "ue_head_insert wit_uenv = (\<lambda>bs she. fs_head_insert she_headedge wit_parse_he she bs)"
    "ue_head_furthest wit_uenv = fs_fur" "\<And>n k. ue_fill wit_uenv n k \<noteq> None" "aes_ok (e_aes (ue_env wit_uenv))"
    by (simp_all add: wit_uenv_def wit_fenv_def aes_ok_def)
  have parse: "wit_parse_he (ue_ser_he wit_uenv he) = Some he" if "he_tstamp he \<in> range (fe_clock (ue_fe wit_uenv))" for he
    using that wit_parse_ser [of he] by (auto simp: wit_uenv_def wit_fenv_def)
  have bs: "m_bsh (n_ctxt wit_mkfs) = fs_ctor"
    by (simp add: wit_mkfs_def ctxt_mkfs_def Let_def)
  have s: "lhng_inv (f_lhng (m_bsh (n_ctxt wit_mkfs)))" "hg_rel (f_lhng (m_bsh (n_ctxt wit_mkfs))) = {}"
    "snd (u_hn wit_mkfs) = []" "u_rbr wit_mkfs = BlockRef_nil" "u_fsiddig wit_mkfs = [7]"
    unfolding bs by (simp_all add: wit_mkfs_def fs_ctor_def lhng_empty_def lhng_inv_def hg_rel_def)
  show ?thesis
    using mount_finds_last_root [OF ue(1,2) parse ue(3,4) s(1-4), of "[replicate 32 1, replicate 32 2, replicate 32 3]"] s(5)
    by (auto simp: BlockRef_nil_def)
qed

end
