(* ===== verification/VBS_State.thy ===== *)
theory VBS_State
  imports Head_Graph "HOL-Library.Char_ord"
begin

text \<open>
  The state of a virtual block store (\<^verbatim>\<open>modules/VBlockStore\<close>), a store that sends each request
  to all of its child stores, and the operations of a child (\<^verbatim>\<open>VBSChild.cpp\<close>) and of the store's
  list of requests (\<^verbatim>\<open>VBlockStore.cpp\<close>) that the requests use.

  \<^item> A request object is reached by its address, a number; \<open>v_heap\<close> keeps what each object holds.
    The subclasses of \<^verbatim>\<open>VBSRequest\<close> are the constructors of \<open>vsub\<close>. A reference counted handle
    to a request is in the list of requests, in a queue of a child, or in the member
    \<^verbatim>\<open>m_subfurther\<close> of a request; without any of them the object is destroyed (\<open>alive\<close>).
  \<^item> The calls to the child stores that are not yet answered are \<open>v_flying\<close>; what the client is
    told is \<open>v_log\<close>, each entry with the request that made the call. \<open>v_reactor\<close> holds the
    notifications given to the reactor, \<open>v_loops\<close> the running calls of \<^verbatim>\<open>initiate_requests\<close>.
  \<^item> The critical sections are short, and a callback of the code is one step here. Maps whose
    keys are the addresses of children are iterated in the order of the children's names.
\<close>

subsection \<open>Requests\<close>

type_synonym rid = nat
type_synonym cname = string

text \<open>Where a request reports to: nobody, the client, or another request, with the argument.\<close>

datatype vcmpl = NoCmpl | Client nat | Inner rid nat

record vget =
  g_key :: key
  g_hasbuf :: bool
  g_buffsize :: nat
  g_blk :: bytes
  g_retsize :: nat
  g_needy :: "cname list"

record vfill =
  f_hn :: headnode
  f_targcp :: cname
  f_travdone :: bool
  f_fillsout :: int

record vfsub =
  b_hn :: headnode
  b_cnsm :: "cname \<Rightarrow> headnode list option"
  b_cmnnodes :: "headnode list"
  b_unqnodes :: "(cname \<times> headnode list) list"

record vftop =
  t_hn :: headnode
  t_subfurther :: "rid option"
  t_lasttry :: bool
  t_ffout :: int

datatype vsub =
    VGet vget
  | VPut key bytes
  | VRefreshStart "64 word"
  | VRefreshBlock "64 word" key
  | VRefreshFinish "64 word"
  | VHeadInsert signedheadedge
  | VHeadFollow headnode "lameedge list"
  | VFollowFill vfill
  | VFurthestSub vfsub
  | VFurthestTop vftop

record vreq =
  r_succeeded :: bool
  r_outstanding :: int
  r_cmpl :: vcmpl
  r_sub :: vsub

text \<open>The calls made to the client.\<close>

datatype upcall =
    Bg_complete nat key bytes
  | Bg_error nat key exn
  | Bp_complete nat key
  | Bp_error nat key exn
  | Rs_complete nat "64 word"
  | Rs_error nat "64 word" exn
  | Rb_complete nat key
  | Rb_missing nat key
  | Rf_complete nat "64 word"
  | Rf_error nat "64 word" exn
  | Hei_complete nat signedheadedge
  | Hei_error nat signedheadedge exn
  | Het_edge nat signedheadedge
  | Het_complete nat
  | Het_error nat exn
  | Hnt_node nat headnode
  | Hnt_complete nat
  | Hnt_error nat exn

subsection \<open>Children and the store\<close>

record vchild =
  c_notified :: bool
  c_getreqs :: "rid list"
  c_putreqs :: "rid list"
  c_refreqs :: "rid list"
  c_shereqs :: "rid list"
  c_neededkeys :: "key list"
  c_getcount :: "64 word"
  c_getbytes :: "64 word"
  c_putcount :: "64 word"
  c_putbytes :: "64 word"

record vbs =
  v_children :: "(cname \<times> vchild) list"
  v_requests :: "rid set"
  v_waiting :: bool
  v_heap :: "rid \<Rightarrow> vreq option"
  v_next :: rid
  v_flying :: "(rid \<times> cname) list"
  v_reactor :: "cname list"
  v_loops :: "cname list"
  v_log :: "(rid \<times> upcall) list"

definition vbs_ctor :: vbs where
  "vbs_ctor = \<lparr>v_children = [], v_requests = {}, v_waiting = False, v_heap = (\<lambda>_. None), v_next = 0,
     v_flying = [], v_reactor = [], v_loops = [], v_log = []\<rparr>"

definition VBSChild_ctor :: vchild where
  "VBSChild_ctor = \<lparr>c_notified = False, c_getreqs = [], c_putreqs = [], c_refreqs = [], c_shereqs = [],
     c_neededkeys = [], c_getcount = 0, c_getbytes = 0, c_putcount = 0, c_putbytes = 0\<rparr>"

definition vnames :: "vbs \<Rightarrow> cname list" where
  "vnames s = map fst (v_children s)"

definition upd_child :: "cname \<Rightarrow> (vchild \<Rightarrow> vchild) \<Rightarrow> vbs \<Rightarrow> vbs" where
  "upd_child c f s = s\<lparr>v_children := map (\<lambda>(n, ch). (n, if n = c then f ch else ch)) (v_children s)\<rparr>"

definition child_of :: "vbs \<Rightarrow> cname \<Rightarrow> vchild" where
  "child_of s c = (case map_of (v_children s) c of None \<Rightarrow> VBSChild_ctor | Some ch \<Rightarrow> ch)"

definition new_req :: "nat \<Rightarrow> vcmpl \<Rightarrow> vsub \<Rightarrow> vbs \<Rightarrow> vbs" where
  "new_req i_outstanding cm sub s =
     s\<lparr>v_heap := (v_heap s)(v_next s \<mapsto>
          \<lparr>r_succeeded = False, r_outstanding = int i_outstanding, r_cmpl = cm, r_sub = sub\<rparr>),
       v_next := Suc (v_next s)\<rparr>"

definition set_req :: "rid \<Rightarrow> vreq \<Rightarrow> vbs \<Rightarrow> vbs" where
  "set_req r q s = s\<lparr>v_heap := (v_heap s)(r \<mapsto> q)\<rparr>"

definition vlog :: "rid \<Rightarrow> upcall \<Rightarrow> vbs \<Rightarrow> vbs" where
  "vlog r u s = s\<lparr>v_log := v_log s @ [(r, u)]\<rparr>"

text \<open>A call through \<^verbatim>\<open>m_cmpl\<close> when the request has one and it is the client's.\<close>

definition tell :: "rid \<Rightarrow> vcmpl \<Rightarrow> (nat \<Rightarrow> upcall) \<Rightarrow> vbs \<Rightarrow> vbs" where
  "tell r cm f s = (case cm of Client a \<Rightarrow> vlog r (f a) s | _ \<Rightarrow> s)"

definition c_queued :: "vchild \<Rightarrow> rid list" where
  "c_queued ch = c_refreqs ch @ c_shereqs ch @ c_getreqs ch @ c_putreqs ch"

definition sub_held :: "vbs \<Rightarrow> rid \<Rightarrow> rid \<Rightarrow> bool" where
  "sub_held s r t = (case v_heap s t of
      Some q \<Rightarrow> (case r_sub q of VFurthestTop ft \<Rightarrow> t_subfurther ft = Some r | _ \<Rightarrow> False)
    | None \<Rightarrow> False)"

definition alive :: "vbs \<Rightarrow> rid \<Rightarrow> bool" where
  "alive s r = (r \<in> v_requests s \<or> (\<exists>(n, ch) \<in> set (v_children s). r \<in> set (c_queued ch))
     \<or> (\<exists>t \<in> v_requests s. sub_held s r t))"

subsection \<open>Sequencing callbacks that may throw\<close>

definition vthen :: "'s \<times> unit res \<Rightarrow> ('s \<Rightarrow> 's \<times> unit res) \<Rightarrow> 's \<times> unit res" where
  "vthen x f = (case x of (s, Inl e) \<Rightarrow> (s, Inl e) | (s, Inr _) \<Rightarrow> f s)"

fun veach :: "('a \<Rightarrow> 's \<Rightarrow> 's \<times> unit res) \<Rightarrow> 'a list \<Rightarrow> 's \<Rightarrow> 's \<times> unit res" where
  "veach f [] s = (s, Inr ())"
| "veach f (x # xs) s = vthen (f x s) (veach f xs)"

lemma vthen_simps [simp]:
  "vthen (s, Inl e) f = (s, Inl e)" "vthen (s, Inr u) f = f s"
  by (simp_all add: vthen_def)

lemma vthen_InrE:
  assumes "vthen x f = (s', Inr u)"
  obtains s1 v where "x = (s1, Inr v)" "f s1 = (s', Inr u)"
  using assms by (auto simp: vthen_def split: prod.splits sum.splits)

subsection \<open>VBSChild\<close>

definition reactor_notify :: "cname \<Rightarrow> vbs \<Rightarrow> vbs" where
  "reactor_notify c s = s\<lparr>v_reactor := v_reactor s @ [c]\<rparr>"

definition notify_child :: "cname \<Rightarrow> vbs \<Rightarrow> vbs" where
  "notify_child c s =
     (if \<not> c_notified (child_of s c)
      then upd_child c (\<lambda>ch. ch\<lparr>c_notified := True\<rparr>) (reactor_notify c s) else s)"

definition enqueue_get :: "rid \<Rightarrow> cname \<Rightarrow> vbs \<Rightarrow> vbs" where
  "enqueue_get r c s =
     notify_child c (upd_child c (\<lambda>ch. ch\<lparr>c_getreqs := c_getreqs ch @ [r]\<rparr>) s)"

definition enqueue_put :: "rid \<Rightarrow> cname \<Rightarrow> vbs \<Rightarrow> vbs" where
  "enqueue_put r c s =
     notify_child c (upd_child c (\<lambda>ch. ch\<lparr>c_putreqs := c_putreqs ch @ [r]\<rparr>) s)"

definition enqueue_refresh :: "rid \<Rightarrow> cname \<Rightarrow> vbs \<Rightarrow> vbs" where
  "enqueue_refresh r c s =
     notify_child c (upd_child c (\<lambda>ch. ch\<lparr>c_refreqs := c_refreqs ch @ [r]\<rparr>) s)"

definition enqueue_headnode :: "rid \<Rightarrow> cname \<Rightarrow> vbs \<Rightarrow> vbs" where
  "enqueue_headnode r c s =
     notify_child c (upd_child c (\<lambda>ch. ch\<lparr>c_shereqs := c_shereqs ch @ [r]\<rparr>) s)"

definition get_key :: "vbs \<Rightarrow> rid \<Rightarrow> key option" where
  "get_key s r = (case v_heap s r of
      Some q \<Rightarrow> (case r_sub q of VGet g \<Rightarrow> Some (g_key g) | _ \<Rightarrow> None) | None \<Rightarrow> None)"

definition VBSChild_cancel_get :: "cname \<Rightarrow> key \<Rightarrow> vbs \<Rightarrow> vbs \<times> rid option" where
  "VBSChild_cancel_get c i_key s =
     (case find (\<lambda>r. get_key s r = Some i_key) (c_getreqs (child_of s c)) of
        None \<Rightarrow> (s, None)
      | Some r \<Rightarrow> (upd_child c (\<lambda>ch. ch\<lparr>c_getreqs := remove1 r (c_getreqs ch)\<rparr>) s, Some r))"

definition report_get :: "cname \<Rightarrow> nat \<Rightarrow> vbs \<Rightarrow> vbs" where
  "report_get c i_nbytes = upd_child c (\<lambda>ch. ch\<lparr>c_getcount := c_getcount ch + 1,
     c_getbytes := c_getbytes ch + of_nat i_nbytes\<rparr>)"

definition report_put :: "cname \<Rightarrow> nat \<Rightarrow> vbs \<Rightarrow> vbs" where
  "report_put c i_nbytes = upd_child c (\<lambda>ch. ch\<lparr>c_putcount := c_putcount ch + 1,
     c_putbytes := c_putbytes ch + of_nat i_nbytes\<rparr>)"

definition needed_keys_append :: "cname \<Rightarrow> key \<Rightarrow> vbs \<Rightarrow> vbs" where
  "needed_keys_append c k = upd_child c (\<lambda>ch. ch\<lparr>c_neededkeys := c_neededkeys ch @ [k]\<rparr>)"

subsection \<open>The list of requests\<close>

definition insert_req :: "rid \<Rightarrow> vbs \<Rightarrow> vbs" where
  "insert_req r s = s\<lparr>v_requests := insert r (v_requests s)\<rparr>"

definition remove_req :: "rid \<Rightarrow> vbs \<Rightarrow> vbs \<times> unit res" where
  "remove_req r s =
     (if r \<notin> v_requests s then (s, Inl InternalError)
      else (let s1 = s\<lparr>v_requests := v_requests s - {r}\<rparr> in
            (if v_requests s1 = {} \<and> v_waiting s1 then s1\<lparr>v_waiting := False\<rparr> else s1, Inr ())))"

definition enqueue_needy_get :: "rid \<Rightarrow> cname \<Rightarrow> vbs \<Rightarrow> vbs" where
  "enqueue_needy_get r i_nh s =
     (let others = filter (\<lambda>c. c \<noteq> i_nh) (vnames s) in
      if others = [] then s else fold (enqueue_get r) others (insert_req r s))"

end
