(* ===== verification/VBS_Requests.thy ===== *)
theory VBS_Requests
  imports VBS_State
begin

text \<open>
  The requests of a virtual block store and their callbacks, one group per subclass of
  \<^verbatim>\<open>VBSRequest\<close>. A method is called with the address of its request, the child that answers,
  and the state. Requests that report to other requests use plain pointers, so such a call
  first looks whether the object is still there.
\<close>

subsection \<open>The guarded blocks\<close>

text \<open>
  The block under the request's mutex: for a success in a request that needs one, for a
  failure there, and for an answer in a request that waits for all children. The flags are
  \<^verbatim>\<open>do_complete\<close> and \<^verbatim>\<open>do_done\<close>.
\<close>

definition first_good :: "vreq \<Rightarrow> vreq \<times> bool \<times> bool" where
  "first_good q =
     (let q1 = q\<lparr>r_succeeded := True, r_outstanding := r_outstanding q - 1\<rparr> in
      (q1, \<not> r_succeeded q, r_outstanding q1 = 0))"

definition last_bad :: "vreq \<Rightarrow> vreq \<times> bool \<times> bool" where
  "last_bad q =
     (let q1 = q\<lparr>r_outstanding := r_outstanding q - 1\<rparr>; do_done = (r_outstanding q1 = 0) in
      (q1, do_done \<and> \<not> r_succeeded q, do_done))"

definition last_any :: "bool \<Rightarrow> vreq \<Rightarrow> vreq \<times> bool" where
  "last_any good q =
     (let q1 = q\<lparr>r_succeeded := (good \<or> r_succeeded q), r_outstanding := r_outstanding q - 1\<rparr> in
      (q1, r_outstanding q1 = 0))"

definition done_if :: "bool \<Rightarrow> rid \<Rightarrow> vbs \<Rightarrow> vbs \<times> unit res" where
  "done_if do_done r s = (if do_done then remove_req r s else (s, Inr ()))"

subsection \<open>VBSPutRequest\<close>

definition bp_complete :: "rid \<Rightarrow> cname \<Rightarrow> vbs \<Rightarrow> vbs \<times> unit res" where
  "bp_complete r c s =
     (case v_heap s r of
        Some q \<Rightarrow> (case r_sub q of
            VPut k blk \<Rightarrow>
              (let s1 = report_put c (length blk) s;
                   (q1, do_complete, do_done) = first_good q;
                   s2 = set_req r q1 s1;
                   s3 = (if do_complete then tell r (r_cmpl q) (\<lambda>a. Bp_complete a k) s2 else s2)
               in done_if do_done r s3)
          | _ \<Rightarrow> (s, Inl UseAfterFree))
      | None \<Rightarrow> (s, Inl UseAfterFree))"

definition bp_error :: "rid \<Rightarrow> exn \<Rightarrow> vbs \<Rightarrow> vbs \<times> unit res" where
  "bp_error r e s =
     (case v_heap s r of
        Some q \<Rightarrow> (case r_sub q of
            VPut k blk \<Rightarrow>
              (let (q1, do_complete, do_done) = last_bad q;
                   s2 = set_req r q1 s;
                   s3 = (if do_complete then tell r (r_cmpl q) (\<lambda>a. Bp_error a k e) s2 else s2)
               in done_if do_done r s3)
          | _ \<Rightarrow> (s, Inl UseAfterFree))
      | None \<Rightarrow> (s, Inl UseAfterFree))"

subsection \<open>VBSGetRequest\<close>

definition bg_error :: "rid \<Rightarrow> cname \<Rightarrow> exn \<Rightarrow> vbs \<Rightarrow> vbs \<times> unit res" where
  "bg_error r c e s =
     (case v_heap s r of
        Some q \<Rightarrow> (case r_sub q of
            VGet g \<Rightarrow>
              (let (q1, do_complete, do_done) = last_bad q;
                   s2 = set_req r q1 s;
                   s3 = (if do_complete then tell r (r_cmpl q) (\<lambda>a. Bg_error a (g_key g) e) s2 else s2);
                   s4 = (if e = NotFoundError then needed_keys_append c (g_key g) s3 else s3)
               in done_if do_done r s4)
          | _ \<Rightarrow> (s, Inl UseAfterFree))
      | None \<Rightarrow> (s, Inl UseAfterFree))"

text \<open>\<^verbatim>\<open>VBlockStore::cancel_get\<close>: the first queued get of the key at every other child is told an error.\<close>

fun cancel_scan :: "cname \<Rightarrow> key \<Rightarrow> cname list \<Rightarrow> vbs \<Rightarrow> vbs \<times> (cname \<times> rid) list" where
  "cancel_scan i_hadit i_key [] s = (s, [])"
| "cancel_scan i_hadit i_key (c # cs) s =
     (if c = i_hadit then cancel_scan i_hadit i_key cs s
      else (let (s1, grh) = VBSChild_cancel_get c i_key s;
                (s2, reqs) = cancel_scan i_hadit i_key cs s1
            in (s2, case grh of None \<Rightarrow> reqs | Some r \<Rightarrow> (c, r) # reqs)))"

definition VBlockStore_cancel_get :: "cname \<Rightarrow> key \<Rightarrow> vbs \<Rightarrow> vbs \<times> unit res" where
  "VBlockStore_cancel_get i_hadit i_key s =
     (let (s1, reqs) = cancel_scan i_hadit i_key (vnames s) s
      in veach (\<lambda>(c, r). bg_error r c InternalError) reqs s1)"

definition needy_put :: "cname list \<Rightarrow> key \<Rightarrow> bytes \<Rightarrow> vbs \<Rightarrow> vbs" where
  "needy_put needy k blk s =
     (if needy = [] then s
      else (let r = v_next s; s1 = insert_req r (new_req (length needy) NoCmpl (VPut k blk) s)
            in fold (enqueue_put r) needy s1))"

definition bg_complete :: "rid \<Rightarrow> cname \<Rightarrow> nat \<Rightarrow> vbs \<Rightarrow> vbs \<times> unit res" where
  "bg_complete r c i_blksize s =
     (case v_heap s r of
        Some q \<Rightarrow> (case r_sub q of
            VGet g \<Rightarrow>
              (let s1 = report_get c i_blksize s in
               if \<not> r_succeeded q \<and> length (g_blk g) < i_blksize then (s1, Inl InternalError)
               else
                 (let (q1, do_complete, do_done) = first_good q;
                      needy = (if do_complete then g_needy g else []);
                      g1 = (if do_complete then g\<lparr>g_retsize := i_blksize, g_needy := []\<rparr> else g);
                      s2 = set_req r (q1\<lparr>r_sub := VGet g1\<rparr>) s1;
                      data = (if g_hasbuf g then take i_blksize (g_blk g) else [])
                  in vthen (if do_complete \<and> r_cmpl q \<noteq> NoCmpl
                            then VBlockStore_cancel_get c (g_key g)
                                   (tell r (r_cmpl q) (\<lambda>a. Bg_complete a (g_key g) data) s2)
                            else (s2, Inr ()))
                     (\<lambda>s3. done_if do_done r
                        (needy_put needy (g_key g) (take (g_retsize g1) (g_blk g1)) s3))))
          | _ \<Rightarrow> (s, Inl UseAfterFree))
      | None \<Rightarrow> (s, Inl UseAfterFree))"

subsection \<open>VBSRefreshStartRequest, VBSRefreshBlockRequest, VBSRefreshFinishRequest\<close>

definition rs_complete :: "rid \<Rightarrow> vbs \<Rightarrow> vbs \<times> unit res" where
  "rs_complete r s =
     (case v_heap s r of
        Some q \<Rightarrow> (case r_sub q of
            VRefreshStart rid \<Rightarrow>
              (let (q1, do_done) = last_any True q;
                   s2 = set_req r q1 s;
                   s3 = (if do_done then tell r (r_cmpl q) (\<lambda>a. Rs_complete a rid) s2 else s2)
               in done_if do_done r s3)
          | _ \<Rightarrow> (s, Inl UseAfterFree))
      | None \<Rightarrow> (s, Inl UseAfterFree))"

definition rs_error :: "rid \<Rightarrow> exn \<Rightarrow> vbs \<Rightarrow> vbs \<times> unit res" where
  "rs_error r e s =
     (case v_heap s r of
        Some q \<Rightarrow> (case r_sub q of
            VRefreshStart rid \<Rightarrow>
              (let (q1, do_complete, do_done) = last_bad q;
                   s2 = set_req r q1 s;
                   s3 = (if do_complete then tell r (r_cmpl q) (\<lambda>a. Rs_error a rid e) s2 else s2)
               in done_if do_done r s3)
          | _ \<Rightarrow> (s, Inl UseAfterFree))
      | None \<Rightarrow> (s, Inl UseAfterFree))"

definition rb_complete :: "rid \<Rightarrow> vbs \<Rightarrow> vbs \<times> unit res" where
  "rb_complete r s =
     (case v_heap s r of
        Some q \<Rightarrow> (case r_sub q of
            VRefreshBlock rid k \<Rightarrow>
              (let (q1, do_complete, do_done) = first_good q;
                   s2 = set_req r q1 s;
                   s3 = (if do_complete then tell r (r_cmpl q) (\<lambda>a. Rb_complete a k) s2 else s2)
               in done_if do_done r s3)
          | _ \<Rightarrow> (s, Inl UseAfterFree))
      | None \<Rightarrow> (s, Inl UseAfterFree))"

definition rb_missing :: "rid \<Rightarrow> cname \<Rightarrow> vbs \<Rightarrow> vbs \<times> unit res" where
  "rb_missing r c s =
     (case v_heap s r of
        Some q \<Rightarrow> (case r_sub q of
            VRefreshBlock rid k \<Rightarrow>
              (let (q1, do_complete, do_done) = last_bad q;
                   s2 = set_req r q1 s;
                   s3 = (if do_complete then tell r (r_cmpl q) (\<lambda>a. Rb_missing a k) s2 else s2)
               in done_if do_done r (needed_keys_append c k s3))
          | _ \<Rightarrow> (s, Inl UseAfterFree))
      | None \<Rightarrow> (s, Inl UseAfterFree))"

definition rf_complete :: "rid \<Rightarrow> vbs \<Rightarrow> vbs \<times> unit res" where
  "rf_complete r s =
     (case v_heap s r of
        Some q \<Rightarrow> (case r_sub q of
            VRefreshFinish rid \<Rightarrow>
              (let (q1, do_complete, do_done) = first_good q;
                   s2 = set_req r q1 s;
                   s3 = (if do_complete then tell r (r_cmpl q) (\<lambda>a. Rf_complete a rid) s2 else s2)
               in done_if do_done r s3)
          | _ \<Rightarrow> (s, Inl UseAfterFree))
      | None \<Rightarrow> (s, Inl UseAfterFree))"

definition rf_error :: "rid \<Rightarrow> exn \<Rightarrow> vbs \<Rightarrow> vbs \<times> unit res" where
  "rf_error r e s =
     (case v_heap s r of
        Some q \<Rightarrow> (case r_sub q of
            VRefreshFinish rid \<Rightarrow>
              (let (q1, do_complete, do_done) = last_bad q;
                   s2 = set_req r q1 s;
                   s3 = (if do_complete then tell r (r_cmpl q) (\<lambda>a. Rf_error a rid e) s2 else s2)
               in done_if do_done r s3)
          | _ \<Rightarrow> (s, Inl UseAfterFree))
      | None \<Rightarrow> (s, Inl UseAfterFree))"

subsection \<open>VBSHeadFollowRequest\<close>

definition edge_less :: "lameedge \<Rightarrow> lameedge \<Rightarrow> bool" where
  "edge_less e e' = (if le_root e \<noteq> le_root e' then le_root e < le_root e' else le_prev e < le_prev e')"

fun edge_insert :: "lameedge \<Rightarrow> lameedge list \<Rightarrow> lameedge list" where
  "edge_insert e [] = [e]"
| "edge_insert e (x # xs) =
     (if edge_less e x then e # x # xs else if edge_less x e then x # edge_insert e xs else x # xs)"

definition follow_edge :: "he_parser \<Rightarrow> rid \<Rightarrow> signedheadedge \<Rightarrow> vbs \<Rightarrow> vbs \<times> unit res" where
  "follow_edge parse r i_she s =
     (case v_heap s r of
        Some q \<Rightarrow> (case r_sub q of
            VHeadFollow hn es \<Rightarrow>
              (case LameEdge parse i_she of
                 Inl e \<Rightarrow> (s, Inl e)
               | Inr leh \<Rightarrow> (set_req r (q\<lparr>r_sub := VHeadFollow hn (edge_insert leh es)\<rparr>) s, Inr ()))
          | _ \<Rightarrow> (s, Inl UseAfterFree))
      | None \<Rightarrow> (s, Inl UseAfterFree))"

definition follow_complete :: "rid \<Rightarrow> vbs \<Rightarrow> vbs \<times> unit res" where
  "follow_complete r s =
     (case v_heap s r of
        Some q \<Rightarrow> (case r_sub q of
            VHeadFollow hn es \<Rightarrow>
              remove_req r
                (if \<not> r_succeeded q then tell r (r_cmpl q) (\<lambda>a. Het_error a NotFoundError) s
                 else tell r (r_cmpl q) Het_complete
                        (fold (\<lambda>leh. tell r (r_cmpl q) (\<lambda>a. Het_edge a (le_she leh))) es s))
          | _ \<Rightarrow> (s, Inl UseAfterFree))
      | None \<Rightarrow> (s, Inl UseAfterFree))"

text \<open>\<^verbatim>\<open>het_complete\<close> (with the flag) and \<^verbatim>\<open>het_error\<close> (without it).\<close>

definition follow_answer :: "bool \<Rightarrow> rid \<Rightarrow> vbs \<Rightarrow> vbs \<times> unit res" where
  "follow_answer good r s =
     (case v_heap s r of
        Some q \<Rightarrow>
          (let (q1, do_complete) = last_any good q; s1 = set_req r q1 s
           in if do_complete then follow_complete r s1 else (s1, Inr ()))
      | None \<Rightarrow> (s, Inl UseAfterFree))"

end
