(* ===== verification/VBS_Furthest.thy ===== *)
theory VBS_Furthest
  imports VBS_Requests
begin

text \<open>
  The search for the furthest heads over all children (\<^verbatim>\<open>VBSHeadFurthestTopReq.cpp\<close>). The top
  request asks every child (\<^verbatim>\<open>VBSHeadFurthestSubReq.cpp\<close>); when the children disagree it copies
  edges to those that are behind (\<^verbatim>\<open>VBSHeadFollowFillReq.cpp\<close>, each edge with a
  \<^verbatim>\<open>VBSHeadInsertRequest\<close>) and asks again, then copies all edges and asks a last time.
\<close>

subsection \<open>VBSHeadFurthestTopReq\<close>

definition upd_top :: "rid \<Rightarrow> (vftop \<Rightarrow> vftop) \<Rightarrow> vbs \<Rightarrow> vbs" where
  "upd_top t f s = (case v_heap s t of
      Some q \<Rightarrow> (case r_sub q of VFurthestTop ft \<Rightarrow> set_req t (q\<lparr>r_sub := VFurthestTop (f ft)\<rparr>) s | _ \<Rightarrow> s)
    | None \<Rightarrow> s)"

definition top_hn :: "rid \<Rightarrow> vbs \<Rightarrow> headnode" where
  "top_hn t s = (case v_heap s t of
      Some q \<Rightarrow> (case r_sub q of VFurthestTop ft \<Rightarrow> t_hn ft | _ \<Rightarrow> ([], [])) | None \<Rightarrow> ([], []))"

text \<open>A survey of all children: \<^verbatim>\<open>init\<close>, \<^verbatim>\<open>second_check\<close> and \<^verbatim>\<open>last_check\<close> differ in the argument only.\<close>

definition survey :: "rid \<Rightarrow> nat \<Rightarrow> vbs \<Rightarrow> vbs" where
  "survey t argp s =
     (let u = v_next s;
          s1 = new_req (length (v_children s)) (Inner t argp)
                 (VFurthestSub \<lparr>b_hn = top_hn t s, b_cnsm = (\<lambda>_. None), b_cmnnodes = [], b_unqnodes = []\<rparr>) s;
          s2 = upd_top t (\<lambda>ft. ft\<lparr>t_subfurther := Some u\<rparr>) s1
      in fold (enqueue_headnode u) (vnames s) (insert_req u s2))"

definition top_init :: "rid \<Rightarrow> vbs \<Rightarrow> vbs" where "top_init t = survey t 0"
definition second_check :: "rid \<Rightarrow> vbs \<Rightarrow> vbs" where "second_check t = survey t 1"
definition last_check :: "rid \<Rightarrow> vbs \<Rightarrow> vbs" where "last_check t = survey t 2"

text \<open>One follow-fill: the other children are asked for the edges that child \<open>cp\<close> is to get.\<close>

definition issue_fill :: "rid \<Rightarrow> cname \<times> headnode \<Rightarrow> vbs \<Rightarrow> vbs" where
  "issue_fill t = (\<lambda>(cp, hn) s.
     (let f = v_next s;
          s1 = new_req (length (v_children s) - 1) (Inner t 0)
                 (VFollowFill \<lparr>f_hn = hn, f_targcp = cp, f_travdone = False, f_fillsout = 0\<rparr>) s
      in fold (enqueue_headnode f) (filter (\<lambda>c. c \<noteq> cp) (vnames s)) (insert_req f s1)))"

definition directed_follow_fill :: "rid \<Rightarrow> (cname \<times> headnode list) list \<Rightarrow> vbs \<Rightarrow> vbs" where
  "directed_follow_fill t unq s =
     (let s1 = upd_top t (\<lambda>ft. ft\<lparr>t_ffout := int (sum_list (map (length \<circ> snd) unq))\<rparr>) s
      in fold (issue_fill t) (concat (map (\<lambda>(cp, hns). map (Pair cp) hns) unq)) s1)"

definition full_follow_fill :: "rid \<Rightarrow> vbs \<Rightarrow> vbs" where
  "full_follow_fill t s =
     (let s1 = upd_top t (\<lambda>ft. ft\<lparr>t_lasttry := True, t_ffout := int (length (v_children s))\<rparr>) s
      in fold (issue_fill t) (map (\<lambda>c. (c, (fst (top_hn t s), []))) (vnames s)) s1)"

definition top_answer :: "bool \<Rightarrow> rid \<Rightarrow> vbs \<Rightarrow> vbs \<times> unit res" where
  "top_answer good t s =
     (if \<not> alive s t then (s, Inl UseAfterFree) else
      case v_heap s t of
        Some q \<Rightarrow> (case r_sub q of
            VFurthestTop ft \<Rightarrow>
              (let s1 = set_req t (q\<lparr>r_succeeded := (good \<or> r_succeeded q),
                                   r_sub := VFurthestTop (ft\<lparr>t_ffout := t_ffout ft - 1\<rparr>)\<rparr>) s
               in (if t_ffout ft - 1 = 0
                   then (if \<not> t_lasttry ft then second_check t s1 else last_check t s1) else s1, Inr ()))
          | _ \<Rightarrow> (s, Inl UseAfterFree))
      | None \<Rightarrow> (s, Inl UseAfterFree))"

definition top_nodes :: "rid \<Rightarrow> vcmpl \<Rightarrow> headnode list \<Rightarrow> vbs \<Rightarrow> vbs" where
  "top_nodes t cm hns s =
     tell t cm Hnt_complete (fold (\<lambda>hn. tell t cm (\<lambda>a. Hnt_node a hn)) hns s)"

definition top_hnt_complete :: "rid \<Rightarrow> nat \<Rightarrow> vbs \<Rightarrow> vbs \<times> unit res" where
  "top_hnt_complete t val s =
     (if \<not> alive s t then (s, Inl UseAfterFree) else
      case v_heap s t of
        Some q \<Rightarrow> (case r_sub q of
            VFurthestTop ft \<Rightarrow>
              (let s1 = upd_top t (\<lambda>ft. ft\<lparr>t_subfurther := None\<rparr>) s in
               case Option.bind (t_subfurther ft) (v_heap s) of
                 None \<Rightarrow> (s1, Inl NullDeref)
               | Some uq \<Rightarrow> (case r_sub uq of
                   VFurthestSub b \<Rightarrow>
                     (if 2 < val then (s1, Inr ())
                      else if b_unqnodes b = [] then remove_req t (top_nodes t (r_cmpl q) (b_cmnnodes b) s1)
                      else if val = 0 then (directed_follow_fill t (b_unqnodes b) s1, Inr ())
                      else if val = 1 then (full_follow_fill t s1, Inr ())
                      else (s1, Inl InternalError))
                 | _ \<Rightarrow> (s1, Inl UseAfterFree)))
          | _ \<Rightarrow> (s, Inl UseAfterFree))
      | None \<Rightarrow> (s, Inl UseAfterFree))"

definition top_hnt_error :: "rid \<Rightarrow> exn \<Rightarrow> vbs \<Rightarrow> vbs \<times> unit res" where
  "top_hnt_error t e s =
     (if \<not> alive s t then (s, Inl UseAfterFree) else
      case v_heap s t of
        Some q \<Rightarrow> remove_req t (tell t (r_cmpl q) (\<lambda>a. Hnt_error a e) s)
      | None \<Rightarrow> (s, Inl UseAfterFree))"

subsection \<open>VBSHeadFurthestSubReq\<close>

definition set_intersection :: "'a list \<Rightarrow> 'a list \<Rightarrow> 'a list" where
  "set_intersection xs ys = filter (\<lambda>x. x \<in> set ys) xs"

definition set_difference :: "'a list \<Rightarrow> 'a list \<Rightarrow> 'a list" where
  "set_difference xs ys = filter (\<lambda>x. x \<notin> set ys) xs"

definition cnsm_list :: "cname list \<Rightarrow> (cname \<Rightarrow> headnode list option) \<Rightarrow> (cname \<times> headnode list) list" where
  "cnsm_list ns m = concat (map (\<lambda>c. case m c of None \<Rightarrow> [] | Some hns \<Rightarrow> [(c, hns)]) ns)"

fun common_nodes :: "headnode list list \<Rightarrow> headnode list" where
  "common_nodes [] = []"
| "common_nodes (h # hs) = fold set_intersection hs h"

definition unique_nodes :: "headnode list \<Rightarrow> (cname \<times> headnode list) list \<Rightarrow> (cname \<times> headnode list) list" where
  "unique_nodes cmn cs =
     filter (\<lambda>(c, d). d \<noteq> []) (map (\<lambda>(c, hns). (c, set_difference hns cmn)) cs)"

definition sub_node :: "rid \<Rightarrow> cname \<Rightarrow> headnode \<Rightarrow> vbs \<Rightarrow> vbs \<times> unit res" where
  "sub_node u c i_hn s =
     (case v_heap s u of
        Some q \<Rightarrow> (case r_sub q of
            VFurthestSub b \<Rightarrow>
              (let hns = (case b_cnsm b c of None \<Rightarrow> [] | Some hns \<Rightarrow> hns)
               in (set_req u (q\<lparr>r_sub := VFurthestSub (b\<lparr>b_cnsm := (b_cnsm b)(c \<mapsto> set_insert i_hn hns)\<rparr>)\<rparr>) s, Inr ()))
          | _ \<Rightarrow> (s, Inl UseAfterFree))
      | None \<Rightarrow> (s, Inl UseAfterFree))"

definition inner_hnt :: "vcmpl \<Rightarrow> (rid \<Rightarrow> nat \<Rightarrow> vbs \<Rightarrow> vbs \<times> unit res) \<Rightarrow> vbs \<Rightarrow> vbs \<times> unit res" where
  "inner_hnt cm f s = (case cm of Inner p a \<Rightarrow> f p a s | _ \<Rightarrow> (s, Inr ()))"

definition sub_complete :: "rid \<Rightarrow> vbs \<Rightarrow> vbs \<times> unit res" where
  "sub_complete u s =
     (case v_heap s u of
        Some q \<Rightarrow> (case r_sub q of
            VFurthestSub b \<Rightarrow>
              (let cs = cnsm_list (vnames s) (b_cnsm b) in
               vthen (if cs = [] then inner_hnt (r_cmpl q) (\<lambda>p a. top_hnt_error p NotFoundError) s
                      else (let cmn = common_nodes (map snd cs);
                                s1 = set_req u (q\<lparr>r_sub := VFurthestSub (b\<lparr>b_cmnnodes := cmn,
                                       b_unqnodes := unique_nodes cmn cs\<rparr>)\<rparr>) s
                            in inner_hnt (r_cmpl q) top_hnt_complete s1))
                 (remove_req u))
          | _ \<Rightarrow> (s, Inl UseAfterFree))
      | None \<Rightarrow> (s, Inl UseAfterFree))"

text \<open>\<^verbatim>\<open>hnt_complete\<close>, which gives every child that answers at least an empty set, and \<^verbatim>\<open>hnt_error\<close>.\<close>

definition sub_answer :: "bool \<Rightarrow> rid \<Rightarrow> cname \<Rightarrow> vbs \<Rightarrow> vbs \<times> unit res" where
  "sub_answer good u c s =
     (case v_heap s u of
        Some q \<Rightarrow> (case r_sub q of
            VFurthestSub b \<Rightarrow>
              (let b1 = (if good \<and> b_cnsm b c = None then b\<lparr>b_cnsm := (b_cnsm b)(c \<mapsto> [])\<rparr> else b);
                   (q1, do_complete) = last_any False (q\<lparr>r_sub := VFurthestSub b1\<rparr>);
                   s1 = set_req u q1 s
               in if do_complete then sub_complete u s1 else (s1, Inr ()))
          | _ \<Rightarrow> (s, Inl UseAfterFree))
      | None \<Rightarrow> (s, Inl UseAfterFree))"

subsection \<open>VBSHeadFollowFillReq\<close>

definition fill_edge :: "rid \<Rightarrow> signedheadedge \<Rightarrow> vbs \<Rightarrow> vbs \<times> unit res" where
  "fill_edge f i_she s =
     (case v_heap s f of
        Some q \<Rightarrow> (case r_sub q of
            VFollowFill ff \<Rightarrow>
              (let s1 = set_req f (q\<lparr>r_sub := VFollowFill (ff\<lparr>f_fillsout := f_fillsout ff + 1\<rparr>)\<rparr>) s;
                   r = v_next s1;
                   s2 = insert_req r (new_req 1 (Inner f 0) (VHeadInsert i_she) s1)
               in (enqueue_headnode r (f_targcp ff) s2, Inr ()))
          | _ \<Rightarrow> (s, Inl UseAfterFree))
      | None \<Rightarrow> (s, Inl UseAfterFree))"

definition fill_complete :: "rid \<Rightarrow> vbs \<Rightarrow> vbs \<times> unit res" where
  "fill_complete f s =
     (case v_heap s f of
        Some q \<Rightarrow> vthen (inner_hnt (r_cmpl q) (\<lambda>p a. top_answer (r_succeeded q) p) s) (remove_req f)
      | None \<Rightarrow> (s, Inl UseAfterFree))"

text \<open>\<^verbatim>\<open>het_complete\<close> (with the flag) and \<^verbatim>\<open>het_error\<close> (without it).\<close>

definition fill_answer :: "bool \<Rightarrow> rid \<Rightarrow> vbs \<Rightarrow> vbs \<times> unit res" where
  "fill_answer good f s =
     (case v_heap s f of
        Some q \<Rightarrow> (case r_sub q of
            VFollowFill ff \<Rightarrow>
              (let (q1, travdone) = last_any good q;
                   s1 = set_req f (if travdone then q1\<lparr>r_sub := VFollowFill (ff\<lparr>f_travdone := True\<rparr>)\<rparr> else q1) s
               in if travdone \<and> f_fillsout ff = 0 then fill_complete f s1 else (s1, Inr ()))
          | _ \<Rightarrow> (s, Inl UseAfterFree))
      | None \<Rightarrow> (s, Inl UseAfterFree))"

text \<open>\<^verbatim>\<open>hei_complete\<close> and \<^verbatim>\<open>hei_error\<close>, which do the same: one fill less is outstanding.\<close>

definition fill_hei :: "rid \<Rightarrow> vbs \<Rightarrow> vbs \<times> unit res" where
  "fill_hei f s =
     (if \<not> alive s f then (s, Inl UseAfterFree) else
      case v_heap s f of
        Some q \<Rightarrow> (case r_sub q of
            VFollowFill ff \<Rightarrow>
              (let s1 = set_req f (q\<lparr>r_sub := VFollowFill (ff\<lparr>f_fillsout := f_fillsout ff - 1\<rparr>)\<rparr>) s
               in if f_travdone ff \<and> f_fillsout ff - 1 = 0 then fill_complete f s1 else (s1, Inr ()))
          | _ \<Rightarrow> (s, Inl UseAfterFree))
      | None \<Rightarrow> (s, Inl UseAfterFree))"

subsection \<open>VBSHeadInsertRequest\<close>

definition hei_upcall :: "rid \<Rightarrow> vcmpl \<Rightarrow> (nat \<Rightarrow> upcall) \<Rightarrow> vbs \<Rightarrow> vbs \<times> unit res" where
  "hei_upcall r cm f s = (case cm of Inner p a \<Rightarrow> fill_hei p s | _ \<Rightarrow> (tell r cm f s, Inr ()))"

definition hei_complete :: "rid \<Rightarrow> vbs \<Rightarrow> vbs \<times> unit res" where
  "hei_complete r s =
     (case v_heap s r of
        Some q \<Rightarrow> (case r_sub q of
            VHeadInsert she \<Rightarrow>
              (let (q1, do_complete, do_done) = first_good q;
                   s2 = set_req r q1 s
               in vthen (if do_complete then hei_upcall r (r_cmpl q) (\<lambda>a. Hei_complete a she) s2 else (s2, Inr ()))
                    (done_if do_done r))
          | _ \<Rightarrow> (s, Inl UseAfterFree))
      | None \<Rightarrow> (s, Inl UseAfterFree))"

definition hei_error :: "rid \<Rightarrow> exn \<Rightarrow> vbs \<Rightarrow> vbs \<times> unit res" where
  "hei_error r e s =
     (case v_heap s r of
        Some q \<Rightarrow> (case r_sub q of
            VHeadInsert she \<Rightarrow>
              (let (q1, do_complete, do_done) = last_bad q;
                   s2 = set_req r q1 s
               in vthen (if do_complete then hei_upcall r (r_cmpl q) (\<lambda>a. Hei_error a she e) s2 else (s2, Inr ()))
                    (done_if do_done r))
          | _ \<Rightarrow> (s, Inl UseAfterFree))
      | None \<Rightarrow> (s, Inl UseAfterFree))"

end
