(* ===== verification/V_BlockStore.thy ===== *)
theory V_BlockStore
  imports VBS_Furthest
begin

text \<open>
  The virtual block store itself (\<^verbatim>\<open>modules/VBlockStore/VBlockStore.cpp\<close>): opening, the
  asynchronous operations, and how it runs. A run is a sequence of steps: calls of the client,
  passes of the loop of \<^verbatim>\<open>VBSChild::initiate_requests\<close>, and answers of child stores, in any
  order. A child store answers each call once, after the data, edges or nodes it delivers.
\<close>

subsection \<open>Opening, statistics of space, waiting\<close>

fun bs_open :: "(cname \<Rightarrow> bool) \<Rightarrow> cname list \<Rightarrow> vbs \<Rightarrow> vbs \<times> unit res" where
  "bs_open registered [] s = (s, Inr ())"
| "bs_open registered (instname # args) s =
     (if \<not> registered instname then (s, Inl NotFoundError)
      else bs_open registered args
             (if instname \<in> set (vnames s) then s
              else s\<lparr>v_children := insort_key fst (instname, VBSChild_ctor) (v_children s)\<rparr>))"

definition bs_create :: "vbs \<Rightarrow> vbs \<times> unit res" where
  "bs_create s = (s, Inl InternalError)"

definition bs_stat :: "(cname \<Rightarrow> nat \<times> nat) \<Rightarrow> vbs \<Rightarrow> nat \<times> nat" where
  "bs_stat child_stat s =
     fold (\<lambda>c (bss_size, bss_free).
            if bss_size < fst (child_stat c) then child_stat c else (bss_size, bss_free)) (vnames s) (0, 0)"

text \<open>
  One pass of the loop of \<^verbatim>\<open>bs_sync\<close> after the children are synced: the flag is \<^verbatim>\<open>clean\<close>, with
  which the loop ends; without it the caller waits to be woken.
\<close>

definition bs_sync_pass :: "vbs \<Rightarrow> vbs \<times> bool" where
  "bs_sync_pass s = (if v_requests s = {} then (s, True) else (s\<lparr>v_waiting := True\<rparr>, False))"

subsection \<open>Asynchronous operations\<close>

datatype vop =
    OpGet nat key nat
  | OpPut nat key bytes
  | OpRefreshStart nat "64 word"
  | OpRefreshBlock nat "64 word" key
  | OpRefreshFinish nat "64 word"
  | OpHeadInsert nat signedheadedge
  | OpHeadFollow nat headnode
  | OpHeadFurthest nat headnode

definition issue :: "(rid \<Rightarrow> cname \<Rightarrow> vbs \<Rightarrow> vbs) \<Rightarrow> nat \<Rightarrow> vsub \<Rightarrow> vbs \<Rightarrow> vbs" where
  "issue enqueue argp sub s =
     (let r = v_next s
      in fold (enqueue r) (vnames s) (insert_req r (new_req (length (v_children s)) (Client argp) sub s)))"

definition bs_block_get_async :: "nat \<Rightarrow> key \<Rightarrow> nat \<Rightarrow> vbs \<Rightarrow> vbs" where
  "bs_block_get_async argp k i_buffsize =
     issue enqueue_get argp (VGet \<lparr>g_key = k, g_hasbuf = True, g_buffsize = i_buffsize, g_blk = [],
       g_retsize = 0, g_needy = []\<rparr>)"

definition bs_block_put_async :: "nat \<Rightarrow> key \<Rightarrow> bytes \<Rightarrow> vbs \<Rightarrow> vbs" where
  "bs_block_put_async argp k blk = issue enqueue_put argp (VPut k blk)"

definition bs_refresh_start_async :: "nat \<Rightarrow> 64 word \<Rightarrow> vbs \<Rightarrow> vbs" where
  "bs_refresh_start_async argp rid = issue enqueue_refresh argp (VRefreshStart rid)"

definition bs_refresh_block_async :: "nat \<Rightarrow> 64 word \<Rightarrow> key \<Rightarrow> vbs \<Rightarrow> vbs" where
  "bs_refresh_block_async argp rid k = issue enqueue_refresh argp (VRefreshBlock rid k)"

definition bs_refresh_finish_async :: "nat \<Rightarrow> 64 word \<Rightarrow> vbs \<Rightarrow> vbs" where
  "bs_refresh_finish_async argp rid = issue enqueue_refresh argp (VRefreshFinish rid)"

definition bs_head_insert_async :: "nat \<Rightarrow> signedheadedge \<Rightarrow> vbs \<Rightarrow> vbs" where
  "bs_head_insert_async argp she = issue enqueue_headnode argp (VHeadInsert she)"

definition bs_head_follow_async :: "nat \<Rightarrow> headnode \<Rightarrow> vbs \<Rightarrow> vbs" where
  "bs_head_follow_async argp hn = issue enqueue_headnode argp (VHeadFollow hn [])"

definition bs_head_furthest_async :: "nat \<Rightarrow> headnode \<Rightarrow> vbs \<Rightarrow> vbs" where
  "bs_head_furthest_async argp hn s =
     (let t = v_next s
      in top_init t (insert_req t (new_req (length (v_children s)) (Client argp)
           (VFurthestTop \<lparr>t_hn = hn, t_subfurther = None, t_lasttry = False, t_ffout = 0\<rparr>) s)))"

fun vcall :: "vop \<Rightarrow> vbs \<Rightarrow> vbs" where
  "vcall (OpGet a k n) = bs_block_get_async a k n"
| "vcall (OpPut a k blk) = bs_block_put_async a k blk"
| "vcall (OpRefreshStart a rid) = bs_refresh_start_async a rid"
| "vcall (OpRefreshBlock a rid k) = bs_refresh_block_async a rid k"
| "vcall (OpRefreshFinish a rid) = bs_refresh_finish_async a rid"
| "vcall (OpHeadInsert a she) = bs_head_insert_async a she"
| "vcall (OpHeadFollow a hn) = bs_head_follow_async a hn"
| "vcall (OpHeadFurthest a hn) = bs_head_furthest_async a hn"

subsection \<open>The loop of a child\<close>

definition resize :: "nat \<Rightarrow> bytes \<Rightarrow> bytes" where
  "resize n xs = take n xs @ replicate (n - length xs) 0"

text \<open>\<^verbatim>\<open>initiate\<close>: a get makes room for the block first; then the child store is called.\<close>

definition initiate :: "rid \<Rightarrow> cname \<Rightarrow> vbs \<Rightarrow> vbs" where
  "initiate r c s =
     (let s1 = (case v_heap s r of
            Some q \<Rightarrow> (case r_sub q of
                VGet g \<Rightarrow> set_req r (q\<lparr>r_sub := VGet (g\<lparr>g_blk := resize (g_buffsize g) (g_blk g)\<rparr>)\<rparr>) s
              | _ \<Rightarrow> s)
          | None \<Rightarrow> s)
      in s1\<lparr>v_flying := v_flying s1 @ [(r, c)]\<rparr>)"

definition initiate_needed :: "cname \<Rightarrow> key \<Rightarrow> vbs \<Rightarrow> vbs" where
  "initiate_needed c nk s =
     enqueue_needy_get (v_next s) c
       (new_req 1 NoCmpl (VGet \<lparr>g_key = nk, g_hasbuf = False, g_buffsize = 32 * 1024, g_blk = [],
          g_retsize = 0, g_needy = [c]\<rparr>) s)"

text \<open>One pass of the loop of \<^verbatim>\<open>initiate_requests\<close>; the flag tells whether it goes on.\<close>

definition initiate_pass :: "bool \<Rightarrow> cname \<Rightarrow> vbs \<Rightarrow> vbs \<times> bool" where
  "initiate_pass saturated c s =
     (if saturated then (upd_child c (\<lambda>ch. ch\<lparr>c_notified := False\<rparr>) s, False)
      else (case c_refreqs (child_of s c) of
        r # rs \<Rightarrow> (initiate r c (upd_child c (\<lambda>ch. ch\<lparr>c_refreqs := rs\<rparr>) s), True)
      | [] \<Rightarrow> (case c_shereqs (child_of s c) of
        r # rs \<Rightarrow> (initiate r c (upd_child c (\<lambda>ch. ch\<lparr>c_shereqs := rs\<rparr>) s), True)
      | [] \<Rightarrow> (case c_getreqs (child_of s c) of
        r # rs \<Rightarrow> (initiate r c (upd_child c (\<lambda>ch. ch\<lparr>c_getreqs := rs\<rparr>) s), True)
      | [] \<Rightarrow> (case c_putreqs (child_of s c) of
        r # rs \<Rightarrow> (initiate r c (upd_child c (\<lambda>ch. ch\<lparr>c_putreqs := rs\<rparr>) s), True)
      | [] \<Rightarrow> (case c_neededkeys (child_of s c) of
        nk # nks \<Rightarrow>
          (let s1 = upd_child c (\<lambda>ch. ch\<lparr>c_neededkeys := nks\<rparr>) s
           in if nk = [] then (s1, False) else (initiate_needed c nk s1, True))
      | [] \<Rightarrow> (upd_child c (\<lambda>ch. ch\<lparr>c_notified := False\<rparr>) s, False)))))))"

subsection \<open>Answers of the children\<close>

datatype answer =
    AData bytes
  | AEdge signedheadedge
  | ANode headnode
  | AOk nat
  | AErr exn

definition is_final :: "answer \<Rightarrow> bool" where
  "is_final a = (case a of AOk _ \<Rightarrow> True | AErr _ \<Rightarrow> True | _ \<Rightarrow> False)"

text \<open>
  The answers that fit a request. A child store writes a block into the buffer it was given
  (\<open>AData\<close>) and tells its size; a refreshed block that is missing is told as \<open>NotFoundError\<close>.
\<close>

fun fits :: "vsub \<Rightarrow> answer \<Rightarrow> bool" where
  "fits (VGet g) (AData d) = (length d \<le> g_buffsize g)"
| "fits (VGet g) (AOk n) = (n \<le> g_buffsize g)"
| "fits (VFurthestSub b) (ANode hn) = True"
| "fits (VHeadFollow hn es) (AEdge she) = True"
| "fits (VFollowFill ff) (AEdge she) = True"
| "fits (VFurthestTop ft) a = False"
| "fits (VRefreshBlock rid k) (AErr e) = (e = NotFoundError)"
| "fits sub a = is_final a"

definition get_data :: "rid \<Rightarrow> bytes \<Rightarrow> vbs \<Rightarrow> vbs \<times> unit res" where
  "get_data r d s =
     (case v_heap s r of
        Some q \<Rightarrow> (case r_sub q of
            VGet g \<Rightarrow> (set_req r (q\<lparr>r_sub := VGet (g\<lparr>g_blk := memcpy_at (g_blk g) 0 d\<rparr>)\<rparr>) s, Inr ())
          | _ \<Rightarrow> (s, Inl UseAfterFree))
      | None \<Rightarrow> (s, Inl UseAfterFree))"

fun dispatch :: "he_parser \<Rightarrow> rid \<Rightarrow> cname \<Rightarrow> vsub \<Rightarrow> answer \<Rightarrow> vbs \<Rightarrow> vbs \<times> unit res" where
  "dispatch parse r c (VGet g) (AData d) s = get_data r d s"
| "dispatch parse r c (VGet g) (AOk n) s = bg_complete r c n s"
| "dispatch parse r c (VGet g) (AErr e) s = bg_error r c e s"
| "dispatch parse r c (VPut k b) (AOk n) s = bp_complete r c s"
| "dispatch parse r c (VPut k b) (AErr e) s = bp_error r e s"
| "dispatch parse r c (VRefreshStart i) (AOk n) s = rs_complete r s"
| "dispatch parse r c (VRefreshStart i) (AErr e) s = rs_error r e s"
| "dispatch parse r c (VRefreshBlock i k) (AOk n) s = rb_complete r s"
| "dispatch parse r c (VRefreshBlock i k) (AErr e) s = rb_missing r c s"
| "dispatch parse r c (VRefreshFinish i) (AOk n) s = rf_complete r s"
| "dispatch parse r c (VRefreshFinish i) (AErr e) s = rf_error r e s"
| "dispatch parse r c (VHeadInsert she) (AOk n) s = hei_complete r s"
| "dispatch parse r c (VHeadInsert she) (AErr e) s = hei_error r e s"
| "dispatch parse r c (VHeadFollow hn es) (AEdge she) s = follow_edge parse r she s"
| "dispatch parse r c (VHeadFollow hn es) (AOk n) s = follow_answer True r s"
| "dispatch parse r c (VHeadFollow hn es) (AErr e) s = follow_answer False r s"
| "dispatch parse r c (VFollowFill ff) (AEdge she) s = fill_edge r she s"
| "dispatch parse r c (VFollowFill ff) (AOk n) s = fill_answer True r s"
| "dispatch parse r c (VFollowFill ff) (AErr e) s = fill_answer False r s"
| "dispatch parse r c (VFurthestSub b) (ANode hn) s = sub_node r c hn s"
| "dispatch parse r c (VFurthestSub b) (AOk n) s = sub_answer True r c s"
| "dispatch parse r c (VFurthestSub b) (AErr e) s = sub_answer False r c s"
| "dispatch parse r c sub a s = (s, Inr ())"

definition deliver :: "he_parser \<Rightarrow> rid \<Rightarrow> cname \<Rightarrow> answer \<Rightarrow> vbs \<Rightarrow> vbs \<times> unit res" where
  "deliver parse r c a s =
     (let s1 = (if is_final a then s\<lparr>v_flying := remove1 (r, c) (v_flying s)\<rparr> else s) in
      if \<not> alive s r then (s1, Inl UseAfterFree)
      else case v_heap s r of
        None \<Rightarrow> (s1, Inl UseAfterFree)
      | Some q \<Rightarrow> dispatch parse r c (r_sub q) a s1)"

subsection \<open>Steps\<close>

datatype vlabel =
    LCall vop
  | LDispatch cname
  | LUnsaturated cname
  | LPass cname bool
  | LAnswer rid cname answer

definition enabled :: "vlabel \<Rightarrow> vbs \<Rightarrow> bool" where
  "enabled l s = (case l of
      LCall op \<Rightarrow> True
    | LDispatch c \<Rightarrow> c \<in> set (v_reactor s)
    | LUnsaturated c \<Rightarrow> c \<in> set (vnames s)
    | LPass c sat \<Rightarrow> c \<in> set (v_loops s)
    | LAnswer r c a \<Rightarrow> (r, c) \<in> set (v_flying s) \<and>
        (case v_heap s r of None \<Rightarrow> False | Some q \<Rightarrow> fits (r_sub q) a))"

definition handle_exception :: "cname \<Rightarrow> vbs \<Rightarrow> vbs" where
  "handle_exception c s = s\<lparr>v_reactor := remove1 c (v_reactor s), v_loops := c # v_loops s\<rparr>"

definition uh_unsaturated :: "cname \<Rightarrow> vbs \<Rightarrow> vbs" where
  "uh_unsaturated c s = s\<lparr>v_loops := c # v_loops s\<rparr>"

definition pass :: "cname \<Rightarrow> bool \<Rightarrow> vbs \<Rightarrow> vbs" where
  "pass c sat s =
     (case initiate_pass sat c s of
        (s1, True) \<Rightarrow> s1
      | (s1, False) \<Rightarrow> s1\<lparr>v_loops := remove1 c (v_loops s1)\<rparr>)"

definition vdo :: "he_parser \<Rightarrow> vlabel \<Rightarrow> vbs \<Rightarrow> vbs \<times> unit res" where
  "vdo parse l s = (case l of
      LCall op \<Rightarrow> (vcall op s, Inr ())
    | LDispatch c \<Rightarrow> (handle_exception c s, Inr ())
    | LUnsaturated c \<Rightarrow> (uh_unsaturated c s, Inr ())
    | LPass c sat \<Rightarrow> (pass c sat s, Inr ())
    | LAnswer r c a \<Rightarrow> deliver parse r c a s)"

inductive vrun :: "he_parser \<Rightarrow> vbs \<Rightarrow> vlabel list \<Rightarrow> vbs \<Rightarrow> bool" for parse where
  vrun_nil: "vrun parse s [] s"
| vrun_snoc: "vrun parse s ls s1 \<Longrightarrow> enabled l s1 \<Longrightarrow> vdo parse l s1 = (s2, Inr u) \<Longrightarrow>
    vrun parse s (ls @ [l]) s2"

fun exec :: "he_parser \<Rightarrow> vlabel list \<Rightarrow> vbs \<Rightarrow> vbs option" where
  "exec parse [] s = Some s"
| "exec parse (l # ls) s =
     (if enabled l s then (case vdo parse l s of (s1, Inr _) \<Rightarrow> exec parse ls s1 | (_, Inl _) \<Rightarrow> None) else None)"

end
