(* ===== verification/VBS_Invariant.thy ===== *)
theory VBS_Invariant
  imports V_BlockStore
begin

text \<open>
  The invariant of a virtual block store, and that every primitive operation keeps it. For a
  request it relates the number of answers still to come with the entries in the queues and
  the calls in flight, says when the request is in the list of requests, what was reported to
  the client, and, for a request with inner requests, how many of those are still open.

  Inside a callback these relations hold up to what the callback has still to do. The
  invariant has three parameters for that: \<open>X\<close> counts answers taken out of a queue and not yet
  counted, \<open>D\<close> the requests that are finished and not yet removed from the list, \<open>E\<close> the
  reports to a request that are announced and not yet made.
\<close>

subsection \<open>Views of the state\<close>

datatype vkind = KGet | KPut | KStart | KBlock | KFinish | KInsert | KFollow | KFill | KSub | KTop

fun vk :: "vsub \<Rightarrow> vkind" where
  "vk (VGet g) = KGet"
| "vk (VPut k b) = KPut"
| "vk (VRefreshStart i) = KStart"
| "vk (VRefreshBlock i k) = KBlock"
| "vk (VRefreshFinish i) = KFinish"
| "vk (VHeadInsert she) = KInsert"
| "vk (VHeadFollow hn es) = KFollow"
| "vk (VFollowFill ff) = KFill"
| "vk (VFurthestSub b) = KSub"
| "vk (VFurthestTop ft) = KTop"

definition kind_at :: "vbs \<Rightarrow> rid \<Rightarrow> vkind option" where
  "kind_at s r = map_option (vk \<circ> r_sub) (v_heap s r)"

definition queued_n :: "vbs \<Rightarrow> rid \<Rightarrow> nat" where
  "queued_n s r = sum_list (map (\<lambda>(n, ch). count_list (c_queued ch) r) (v_children s))"

definition flying_n :: "vbs \<Rightarrow> rid \<Rightarrow> nat" where
  "flying_n s r = count_list (map fst (v_flying s)) r"

definition occ :: "vbs \<Rightarrow> rid \<Rightarrow> nat" where
  "occ s r = queued_n s r + flying_n s r"

definition good_up :: "upcall \<Rightarrow> bool" where
  "good_up u = (case u of Bg_complete _ _ _ \<Rightarrow> True | Bp_complete _ _ \<Rightarrow> True | Rs_complete _ _ \<Rightarrow> True
     | Rb_complete _ _ \<Rightarrow> True | Rf_complete _ _ \<Rightarrow> True | Hei_complete _ _ \<Rightarrow> True
     | Het_complete _ \<Rightarrow> True | Hnt_complete _ \<Rightarrow> True | _ \<Rightarrow> False)"

definition bad_up :: "upcall \<Rightarrow> bool" where
  "bad_up u = (case u of Bg_error _ _ _ \<Rightarrow> True | Bp_error _ _ _ \<Rightarrow> True | Rs_error _ _ _ \<Rightarrow> True
     | Rb_missing _ _ \<Rightarrow> True | Rf_error _ _ _ \<Rightarrow> True | Hei_error _ _ _ \<Rightarrow> True
     | Het_error _ _ \<Rightarrow> True | Hnt_error _ _ \<Rightarrow> True | _ \<Rightarrow> False)"

definition goods :: "vbs \<Rightarrow> rid \<Rightarrow> nat" where
  "goods s r = length (filter (\<lambda>(x, u). x = r \<and> good_up u) (v_log s))"

definition bads :: "vbs \<Rightarrow> rid \<Rightarrow> nat" where
  "bads s r = length (filter (\<lambda>(x, u). x = r \<and> bad_up u) (v_log s))"

text \<open>A request is open while answers or reports of inner requests are to come.\<close>

definition open_q :: "vreq \<Rightarrow> bool" where
  "open_q q = (case r_sub q of
      VFurthestTop ft \<Rightarrow> t_subfurther ft \<noteq> None \<or> 0 < t_ffout ft
    | VFollowFill ff \<Rightarrow> 0 < r_outstanding q \<or> 0 < f_fillsout ff
    | _ \<Rightarrow> 0 < r_outstanding q)"

definition needy_q :: "vreq \<Rightarrow> bool" where
  "needy_q q = (vk (r_sub q) = KGet \<and> r_cmpl q = NoCmpl)"

definition child_open :: "rid \<Rightarrow> vreq \<Rightarrow> bool" where
  "child_open p q = ((\<exists>a. r_cmpl q = Inner p a) \<and> vk (r_sub q) \<in> {KInsert, KFill} \<and> open_q q)"

definition kids :: "vbs \<Rightarrow> rid \<Rightarrow> nat" where
  "kids s p = card {r. \<exists>q. v_heap s r = Some q \<and> child_open p q}"

subsection \<open>The invariant\<close>

definition rep_first :: "vreq \<Rightarrow> nat \<Rightarrow> nat \<Rightarrow> bool" where
  "rep_first q lg lb = (lg = of_bool (r_succeeded q) \<and>
     lb = of_bool (\<not> r_succeeded q \<and> r_outstanding q = 0))"

definition rep_all :: "vreq \<Rightarrow> nat \<Rightarrow> nat \<Rightarrow> bool" where
  "rep_all q lg lb = (lg = of_bool (r_succeeded q \<and> r_outstanding q = 0) \<and>
     lb = of_bool (\<not> r_succeeded q \<and> r_outstanding q = 0))"

definition rep_start :: "vreq \<Rightarrow> nat \<Rightarrow> nat \<Rightarrow> bool" where
  "rep_start q lg lb = (lg \<le> of_bool (r_succeeded q \<and> r_outstanding q = 0) \<and>
     lb = of_bool (\<not> r_succeeded q \<and> r_outstanding q = 0))"

definition rep_client :: "vreq \<Rightarrow> nat \<Rightarrow> nat \<Rightarrow> bool" where
  "rep_client q lg lb = (case r_sub q of
       VGet g \<Rightarrow> rep_first q lg lb \<and> g_needy g = []
     | VPut _ _ \<Rightarrow> rep_first q lg lb
     | VRefreshBlock _ _ \<Rightarrow> rep_first q lg lb
     | VRefreshFinish _ \<Rightarrow> rep_first q lg lb
     | VHeadInsert _ \<Rightarrow> rep_first q lg lb
     | VRefreshStart _ \<Rightarrow> rep_start q lg lb
     | VHeadFollow _ _ \<Rightarrow> rep_all q lg lb
     | _ \<Rightarrow> False)"

text \<open>
  What holds of one request: \<open>n\<close> children, \<open>ob\<close> answers to come, \<open>m\<close> in the list, \<open>d\<close> about to
  leave it, \<open>lg\<close> and \<open>lb\<close> good and bad reports made, \<open>k\<close> reports of inner requests to come.
\<close>

definition rok :: "nat \<Rightarrow> nat \<Rightarrow> bool \<Rightarrow> bool \<Rightarrow> nat \<Rightarrow> nat \<Rightarrow> nat \<Rightarrow> vreq \<Rightarrow> bool" where
  "rok n ob m d lg lb k q =
     ((m \<longleftrightarrow> (open_q q \<and> (needy_q q \<longrightarrow> 2 \<le> n) \<and> (vk (r_sub q) = KTop \<longrightarrow> lb = 0)) \<or> d) \<and>
      (d \<longrightarrow> \<not> (open_q q \<and> (vk (r_sub q) = KTop \<longrightarrow> lb = 0))) \<and>
      (vk (r_sub q) \<notin> {KFill, KTop} \<longrightarrow> k = 0) \<and>
      (vk (r_sub q) \<noteq> KTop \<longrightarrow> \<not> needy_q q \<longrightarrow> int ob = r_outstanding q) \<and>
      (case r_cmpl q of
         NoCmpl \<Rightarrow> lg = 0 \<and> lb = 0 \<and> vk (r_sub q) \<in> {KGet, KPut} \<and>
           (vk (r_sub q) = KGet \<longrightarrow> int ob = r_outstanding q + int n - 2 \<and> r_outstanding q \<le> 1)
       | Client a \<Rightarrow> (case r_sub q of
             VFurthestTop ft \<Rightarrow> ob = 0 \<and> (\<not> d \<longrightarrow> lg + lb = of_bool (\<not> (open_q q \<and> lb = 0))) \<and>
               t_ffout ft = int k \<and> (t_subfurther ft = None \<and> lb = 0 \<or> k = 0)
           | _ \<Rightarrow> rep_client q lg lb)
       | Inner p a \<Rightarrow> lg = 0 \<and> lb = 0 \<and> (case r_sub q of
             VHeadInsert _ \<Rightarrow> r_outstanding q \<le> 1 \<and> (r_succeeded q \<longrightarrow> r_outstanding q = 0)
           | VFollowFill ff \<Rightarrow> f_fillsout ff = int k \<and> (f_travdone ff \<longleftrightarrow> r_outstanding q = 0)
           | VFurthestSub _ \<Rightarrow> a \<le> 2
           | _ \<Rightarrow> False)))"

definition queue_kind :: "vchild \<Rightarrow> vbs \<Rightarrow> bool" where
  "queue_kind ch s =
     ((\<forall>r \<in> set (c_getreqs ch). kind_at s r = Some KGet) \<and>
      (\<forall>r \<in> set (c_putreqs ch). kind_at s r = Some KPut) \<and>
      (\<forall>r \<in> set (c_refreqs ch). kind_at s r \<in> {Some KStart, Some KBlock, Some KFinish}) \<and>
      (\<forall>r \<in> set (c_shereqs ch). kind_at s r \<in> {Some KInsert, Some KFollow, Some KFill, Some KSub}))"

definition vtyped :: "vbs \<Rightarrow> bool" where
  "vtyped s = (\<forall>(n, ch) \<in> set (v_children s). queue_kind ch s)"

text \<open>Links between requests: inner requests and the requests they report to.\<close>

definition parent_kind :: "vkind \<Rightarrow> vkind option" where
  "parent_kind k = (case k of KInsert \<Rightarrow> Some KFill | KFill \<Rightarrow> Some KTop | KSub \<Rightarrow> Some KTop | _ \<Rightarrow> None)"

definition up_ok :: "vbs \<Rightarrow> rid \<Rightarrow> vreq \<Rightarrow> bool" where
  "up_ok s r q = (\<forall>p a. r_cmpl q = Inner p a \<longrightarrow>
     (\<exists>k. parent_kind (vk (r_sub q)) = Some k \<and> kind_at s p = Some k) \<and>
     (vk (r_sub q) = KSub \<longrightarrow> open_q q \<longrightarrow> sub_held s r p \<and> p \<in> v_requests s))"

definition down_ok :: "rid set \<Rightarrow> vbs \<Rightarrow> rid \<Rightarrow> bool" where
  "down_ok D s r = (\<forall>u. r \<in> v_requests s \<longrightarrow> sub_held s u r \<longrightarrow>
     (\<exists>uq a. v_heap s u = Some uq \<and> vk (r_sub uq) = KSub \<and> r_cmpl uq = Inner r a \<and> (open_q uq \<or> u \<in> D)))"

definition data_ok :: "vbs \<Rightarrow> rid \<Rightarrow> vreq \<Rightarrow> bool" where
  "data_ok s r q = (case r_sub q of
       VFollowFill ff \<Rightarrow> f_targcp ff \<in> set (vnames s)
     | VGet g \<Rightarrow> set (g_needy g) \<subseteq> set (vnames s) \<and> (r \<in> fst ` set (v_flying s) \<longrightarrow> length (g_blk g) = g_buffsize g)
     | _ \<Rightarrow> True)"

definition links :: "rid set \<Rightarrow> vbs \<Rightarrow> bool" where
  "links D s = ((\<forall>r q. v_heap s r = Some q \<longrightarrow> up_ok s r q) \<and> (\<forall>r. down_ok D s r))"

definition vinv :: "(rid \<Rightarrow> nat) \<Rightarrow> rid set \<Rightarrow> (rid \<Rightarrow> nat) \<Rightarrow> vbs \<Rightarrow> bool" where
  "vinv X D E s =
     (distinct (vnames s) \<and> v_children s \<noteq> [] \<and> vtyped s \<and> dom (v_heap s) = {..<v_next s} \<and>
      snd ` set (v_flying s) \<subseteq> set (vnames s) \<and>
      (\<forall>r. v_next s \<le> r \<longrightarrow> occ s r + X r = 0 \<and> r \<notin> v_requests s \<and> r \<notin> D \<and> goods s r = 0 \<and> bads s r = 0 \<and> E r = 0) \<and>
      links D s \<and>
      (\<forall>r q. v_heap s r = Some q \<longrightarrow> data_ok s r q \<and>
         rok (length (v_children s)) (occ s r + X r) (r \<in> v_requests s) (r \<in> D) (goods s r) (bads s r) (kids s r + E r) q))"

subsection \<open>Effects of the primitive operations\<close>

lemma upd_child_fields [simp]:
  "v_requests (upd_child c f s) = v_requests s" "v_heap (upd_child c f s) = v_heap s"
  "v_next (upd_child c f s) = v_next s" "v_flying (upd_child c f s) = v_flying s"
  "v_reactor (upd_child c f s) = v_reactor s" "v_loops (upd_child c f s) = v_loops s"
  "v_log (upd_child c f s) = v_log s" "v_waiting (upd_child c f s) = v_waiting s"
  by (simp_all add: upd_child_def)

lemma vnames_upd [simp]: "vnames (upd_child c f s) = vnames s"
  by (simp add: vnames_def upd_child_def case_prod_beta comp_def)

lemma length_upd [simp]: "length (v_children (upd_child c f s)) = length (v_children s)"
  by (simp add: upd_child_def)

lemma length_vnames [simp]: "length (vnames s) = length (v_children s)"
  by (simp add: vnames_def)

lemma map_of_upd:
  "map_of (v_children (upd_child c f s)) n =
     map_option (\<lambda>ch. if n = c then f ch else ch) (map_of (v_children s) n)"
proof -
  have "map_of (map (\<lambda>(m, ch). (m, if m = c then f ch else ch)) xs) n =
      map_option (\<lambda>ch. if n = c then f ch else ch) (map_of xs n)" for xs :: "(cname \<times> vchild) list"
    by (induction xs) auto
  then show ?thesis by (simp add: upd_child_def)
qed

lemma child_in: "c \<in> set (vnames s) \<Longrightarrow> map_of (v_children s) c = Some (child_of s c)"
  by (metis child_of_def list.set_map map_of_eq_None_iff not_None_eq option.simps(5) vnames_def)

lemma child_of_upd: "c \<in> set (vnames s) \<Longrightarrow> child_of (upd_child c f s) n = (if n = c then f (child_of s c) else child_of s n)"
  using child_in [of c s] by (cases "map_of (v_children s) n") (auto simp: child_of_def map_of_upd)

lemma queued_upd:
  assumes "distinct (vnames s)" "c \<in> set (vnames s)"
  shows "queued_n (upd_child c f s) r + count_list (c_queued (child_of s c)) r =
         queued_n s r + count_list (c_queued (f (child_of s c))) r"
proof -
  have gen: "sum_list (map (\<lambda>(n, ch). count_list (c_queued ch) r) (map (\<lambda>(m, ch). (m, if m = c then f ch else ch)) xs))
        + count_list (c_queued ch0) r
      = sum_list (map (\<lambda>(n, ch). count_list (c_queued ch) r) xs) + count_list (c_queued (f ch0)) r"
    if "distinct (map fst xs)" "map_of xs c = Some ch0" for xs :: "(cname \<times> vchild) list" and ch0
    using that
  proof (induction xs)
    case (Cons x xs)
    obtain m ch where x: "x = (m, ch)" by fastforce
    show ?case
    proof (cases "m = c")
      case True
      with Cons.prems x have nin: "c \<notin> fst ` set xs" and ch: "ch0 = ch" by auto
      have "map (\<lambda>(m, ch). (m, if m = c then f ch else ch)) xs = xs"
        using nin by (intro map_idI) (force split: prod.splits)
      with True x ch show ?thesis by simp
    next
      case False
      with Cons x show ?thesis by simp
    qed
  qed simp
  show ?thesis
    using gen [of "v_children s" "child_of s c"] assms child_in [OF assms(2)]
    by (simp add: queued_n_def upd_child_def vnames_def)
qed

lemma occ_upd:
  assumes "distinct (vnames s)" "c \<in> set (vnames s)"
  shows "occ (upd_child c f s) r + count_list (c_queued (child_of s c)) r =
         occ s r + count_list (c_queued (f (child_of s c))) r"
  using queued_upd [OF assms, of f r] by (simp add: occ_def flying_n_def)

lemma kind_at_cong: "v_heap s' = v_heap s \<Longrightarrow> kind_at s' = kind_at s"
  by (simp add: kind_at_def fun_eq_iff)

lemma vtyped_upd:
  assumes "vtyped s" "queue_kind (child_of s c) s \<Longrightarrow> queue_kind (f (child_of s c)) s" "distinct (vnames s)"
  shows "vtyped (upd_child c f s)"
proof -
  have k: "queue_kind ch (upd_child c f s) = queue_kind ch s" for ch
    by (simp add: queue_kind_def kind_at_def)
  have "queue_kind (f ch) s" if "(c, ch) \<in> set (v_children s)" for ch
  proof -
    have "child_of s c = ch" using that assms(3) by (simp add: child_of_def vnames_def)
    with assms(1,2) that show ?thesis by (auto simp: vtyped_def)
  qed
  moreover have "set (v_children (upd_child c f s)) = (\<lambda>(n, ch). (n, if n = c then f ch else ch)) ` set (v_children s)"
    by (simp add: upd_child_def)
  ultimately show ?thesis using assms(1) by (auto simp: vtyped_def k)
qed

text \<open>Changes that leave heap, list of requests and log alone: queues and calls in flight.\<close>

definition same_core :: "vbs \<Rightarrow> vbs \<Rightarrow> bool" where
  "same_core s s' = (v_heap s' = v_heap s \<and> v_requests s' = v_requests s \<and> v_log s' = v_log s \<and>
     v_next s' = v_next s \<and> vnames s' = vnames s)"

lemma same_core_trans: "same_core s s1 \<Longrightarrow> same_core s1 s2 \<Longrightarrow> same_core s s2"
  by (simp add: same_core_def)

lemma vinv_queues:
  assumes "vinv X D E s" "same_core s s'" "vtyped s'"
    and o: "\<And>x. occ s' x + X' x = occ s x + X x"
    and f: "snd ` set (v_flying s') \<subseteq> set (vnames s)"
    and b: "\<And>r q g. v_heap s r = Some q \<Longrightarrow> r_sub q = VGet g \<Longrightarrow> r \<in> fst ` set (v_flying s') \<Longrightarrow>
       r \<notin> fst ` set (v_flying s) \<Longrightarrow> length (g_blk g) = g_buffsize g"
  shows "vinv X' D E s'"
proof -
  note c = assms(2) [unfolded same_core_def]
  have len: "length (v_children s') = length (v_children s)" using c by (metis length_vnames)
  have k: "kids s' = kids s" "goods s' = goods s" "bads s' = bads s"
    using c by (simp_all add: kids_def goods_def bads_def fun_eq_iff)
  have l: "links D s' = links D s"
    using c by (simp add: links_def up_ok_def down_ok_def kind_at_def sub_held_def)
  have p: "data_ok s' r q" if "data_ok s r q" "v_heap s r = Some q" for r q
    using that b [of r q] c by (auto simp: data_ok_def split: vsub.splits)
  note v = assms(1) [unfolded vinv_def]
  have ne: "v_children s' \<noteq> []" using v len by (metis length_0_conv)
  have "\<forall>r q. v_heap s' r = Some q \<longrightarrow> data_ok s' r q \<and>
     rok (length (v_children s')) (occ s' r + X' r) (r \<in> v_requests s') (r \<in> D) (goods s' r) (bads s' r) (kids s' r + E r) q"
    using v p unfolding o len k using c by metis
  then show ?thesis
    using v c f ne assms(3) unfolding vinv_def o k l by simp
qed

lemma count_queued [simp]:
  "count_list (c_queued (ch\<lparr>c_getreqs := c_getreqs ch @ [r]\<rparr>)) x = count_list (c_queued ch) x + of_bool (x = r)"
  "count_list (c_queued (ch\<lparr>c_putreqs := c_putreqs ch @ [r]\<rparr>)) x = count_list (c_queued ch) x + of_bool (x = r)"
  "count_list (c_queued (ch\<lparr>c_refreqs := c_refreqs ch @ [r]\<rparr>)) x = count_list (c_queued ch) x + of_bool (x = r)"
  "count_list (c_queued (ch\<lparr>c_shereqs := c_shereqs ch @ [r]\<rparr>)) x = count_list (c_queued ch) x + of_bool (x = r)"
  by (simp_all add: c_queued_def)

lemma c_queued_other [simp]:
  "c_queued (ch\<lparr>c_notified := b\<rparr>) = c_queued ch" "c_queued (ch\<lparr>c_neededkeys := ks\<rparr>) = c_queued ch"
  "c_queued (ch\<lparr>c_getcount := w1, c_getbytes := w2\<rparr>) = c_queued ch"
  "c_queued (ch\<lparr>c_putcount := w1, c_putbytes := w2\<rparr>) = c_queued ch"
  by (simp_all add: c_queued_def)

lemma queue_kind_other [simp]:
  "queue_kind (ch\<lparr>c_notified := b\<rparr>) s = queue_kind ch s" "queue_kind (ch\<lparr>c_neededkeys := ks\<rparr>) s = queue_kind ch s"
  "queue_kind (ch\<lparr>c_getcount := w1, c_getbytes := w2\<rparr>) s = queue_kind ch s"
  "queue_kind (ch\<lparr>c_putcount := w1, c_putbytes := w2\<rparr>) s = queue_kind ch s"
  by (simp_all add: queue_kind_def)

lemma upd_child_absent: "c \<notin> set (vnames s) \<Longrightarrow> upd_child c f s = s"
proof -
  assume a: "c \<notin> set (vnames s)"
  have "map (\<lambda>(n, ch). (n, if n = c then f ch else ch)) (v_children s) = v_children s"
    using a by (intro map_idI) (force simp: vnames_def split: prod.splits)
  then show ?thesis by (simp add: upd_child_def)
qed

text \<open>An update of a child that keeps its queues.\<close>

lemma vinv_upd_quiet:
  assumes "vinv X D E s" "\<And>ch. c_queued (f ch) = c_queued ch" "\<And>ch. queue_kind (f ch) s = queue_kind ch s"
  shows "vinv X D E (upd_child c f s)"
proof (cases "c \<in> set (vnames s)")
  case True
  have d: "distinct (vnames s)" "vtyped s" "snd ` set (v_flying s) \<subseteq> set (vnames s)"
    using assms(1) by (simp_all add: vinv_def)
  show ?thesis
  proof (rule vinv_queues [OF assms(1)])
    show "same_core s (upd_child c f s)" by (simp add: same_core_def)
    show "vtyped (upd_child c f s)" using d assms(3) by (intro vtyped_upd) auto
    show "occ (upd_child c f s) x + X x = occ s x + X x" for x
      using occ_upd [OF d(1) True, of f x] assms(2) by simp
  qed (use d in simp_all)
qed (use assms(1) in \<open>simp add: upd_child_absent\<close>)

lemma vinv_control:
  assumes "vinv X D E s"
  shows "vinv X D E (s\<lparr>v_reactor := rs\<rparr>)" "vinv X D E (s\<lparr>v_loops := ls\<rparr>)" "vinv X D E (s\<lparr>v_waiting := b\<rparr>)"
proof -
  have k: "queue_kind ch (s\<lparr>v_reactor := rs\<rparr>) = queue_kind ch s" "queue_kind ch (s\<lparr>v_loops := ls\<rparr>) = queue_kind ch s"
    "queue_kind ch (s\<lparr>v_waiting := b\<rparr>) = queue_kind ch s" for ch
    by (simp_all add: queue_kind_def kind_at_def)
  have d: "vtyped s" "snd ` set (v_flying s) \<subseteq> set (vnames s)" using assms by (simp_all add: vinv_def)
  show "vinv X D E (s\<lparr>v_reactor := rs\<rparr>)"
    using d by (intro vinv_queues [OF assms]) (simp_all add: same_core_def vnames_def vtyped_def k occ_def queued_n_def flying_n_def)
  show "vinv X D E (s\<lparr>v_loops := ls\<rparr>)"
    using d by (intro vinv_queues [OF assms]) (simp_all add: same_core_def vnames_def vtyped_def k occ_def queued_n_def flying_n_def)
  show "vinv X D E (s\<lparr>v_waiting := b\<rparr>)"
    using d by (intro vinv_queues [OF assms]) (simp_all add: same_core_def vnames_def vtyped_def k occ_def queued_n_def flying_n_def)
qed

lemma vinv_notify: "vinv X D E s \<Longrightarrow> vinv X D E (notify_child c s)"
  unfolding notify_child_def reactor_notify_def by (auto intro: vinv_upd_quiet vinv_control)

lemma vinv_report: "vinv X D E s \<Longrightarrow> vinv X D E (report_get c n s)" "vinv X D E s \<Longrightarrow> vinv X D E (report_put c n s)"
  unfolding report_get_def report_put_def by (auto intro: vinv_upd_quiet)

lemma vinv_needed: "vinv X D E s \<Longrightarrow> vinv X D E (needed_keys_append c k s)"
  unfolding needed_keys_append_def by (auto intro: vinv_upd_quiet)

lemma notify_core [simp]:
  "v_heap (notify_child c s) = v_heap s" "v_requests (notify_child c s) = v_requests s"
  "v_log (notify_child c s) = v_log s" "v_next (notify_child c s) = v_next s"
  "v_flying (notify_child c s) = v_flying s" "v_loops (notify_child c s) = v_loops s"
  "vnames (notify_child c s) = vnames s"
  by (auto simp: notify_child_def reactor_notify_def) (simp add: vnames_def)

text \<open>An entry put into a queue.\<close>

lemma vinv_enqueue1:
  assumes "vinv (X(r := Suc (X r))) D E s" "c \<in> set (vnames s)"
    and "\<And>x. count_list (c_queued (f (child_of s c))) x = count_list (c_queued (child_of s c)) x + of_bool (x = r)"
    and "queue_kind (child_of s c) s \<Longrightarrow> queue_kind (f (child_of s c)) s"
  shows "vinv X D E (upd_child c f s)"
proof -
  have d: "distinct (vnames s)" "vtyped s" "snd ` set (v_flying s) \<subseteq> set (vnames s)"
    using assms(1) by (simp_all add: vinv_def)
  show ?thesis
  proof (rule vinv_queues [OF assms(1)])
    show "same_core s (upd_child c f s)" by (simp add: same_core_def)
    show "vtyped (upd_child c f s)" using d assms(4) by (intro vtyped_upd) auto
    show "occ (upd_child c f s) x + X x = occ s x + (X(r := Suc (X r))) x" for x
      using occ_upd [OF d(1) assms(2), of f x] assms(3) [of x] by simp
  qed (use d in simp_all)
qed

lemma vinv_enqueue:
  assumes "vinv (X(r := Suc (X r))) D E s" "c \<in> set (vnames s)"
  shows "kind_at s r = Some KGet \<Longrightarrow> vinv X D E (enqueue_get r c s)"
    and "kind_at s r = Some KPut \<Longrightarrow> vinv X D E (enqueue_put r c s)"
    and "kind_at s r \<in> {Some KStart, Some KBlock, Some KFinish} \<Longrightarrow> vinv X D E (enqueue_refresh r c s)"
    and "kind_at s r \<in> {Some KInsert, Some KFollow, Some KFill, Some KSub} \<Longrightarrow> vinv X D E (enqueue_headnode r c s)"
  unfolding enqueue_get_def enqueue_put_def enqueue_refresh_def enqueue_headnode_def
  by (rule vinv_notify, rule vinv_enqueue1 [OF assms], simp, simp add: queue_kind_def)+

lemmas enqueue_defs = enqueue_get_def enqueue_put_def enqueue_refresh_def enqueue_headnode_def

text \<open>The same entry put into queues of several children.\<close>

locale enqueuer =
  fixes enq :: "rid \<Rightarrow> cname \<Rightarrow> vbs \<Rightarrow> vbs" and ks :: "vkind set"
  assumes enq_heap: "v_heap (enq r c s) = v_heap s"
    and enq_names: "vnames (enq r c s) = vnames s"
    and enq_rest: "v_requests (enq r c s) = v_requests s" "v_log (enq r c s) = v_log s"
      "v_next (enq r c s) = v_next s" "v_flying (enq r c s) = v_flying s" "v_loops (enq r c s) = v_loops s"
    and enq_inv: "vinv (X(r := Suc (X r))) D E s \<Longrightarrow> c \<in> set (vnames s) \<Longrightarrow> kind_at s r \<in> Some ` ks \<Longrightarrow>
      vinv X D E (enq r c s)"
begin

lemma fold_core:
  "v_heap (fold (enq r) cs s) = v_heap s" "vnames (fold (enq r) cs s) = vnames s"
  "v_requests (fold (enq r) cs s) = v_requests s" "v_log (fold (enq r) cs s) = v_log s"
  "v_next (fold (enq r) cs s) = v_next s" "v_flying (fold (enq r) cs s) = v_flying s"
  "v_loops (fold (enq r) cs s) = v_loops s"
  by (induction cs arbitrary: s) (simp_all add: enq_heap enq_names enq_rest)

lemma fold_inv:
  assumes "vinv (X(r := X r + length cs)) D E s" "set cs \<subseteq> set (vnames s)" "kind_at s r \<in> Some ` ks"
  shows "vinv X D E (fold (enq r) cs s)"
  using assms
proof (induction cs arbitrary: s)
  case (Cons c cs)
  have e: "(X(r := X r + length cs))(r := Suc ((X(r := X r + length cs)) r)) = X(r := X r + length (c # cs))"
    by simp
  have "vinv (X(r := X r + length cs)) D E (enq r c s)"
    using Cons.prems by (intro enq_inv) (simp_all only: e, simp_all)
  moreover have "kind_at (enq r c s) r \<in> Some ` ks"
    using Cons.prems(3) by (simp add: kind_at_def enq_heap)
  ultimately have "vinv X D E (fold (enq r) cs (enq r c s))"
    using Cons.IH [of "enq r c s"] Cons.prems(2) unfolding enq_names by (metis insert_subset list.simps(15))
  then show ?case by simp
qed simp

end

interpretation eq_get: enqueuer enqueue_get "{KGet}"
  by unfold_locales (simp_all add: enqueue_get_def vinv_enqueue(1) [unfolded enqueue_get_def])

interpretation eq_put: enqueuer enqueue_put "{KPut}"
  by unfold_locales (simp_all add: enqueue_put_def vinv_enqueue(2) [unfolded enqueue_put_def])

interpretation eq_ref: enqueuer enqueue_refresh "{KStart, KBlock, KFinish}"
  by unfold_locales (simp_all add: enqueue_refresh_def vinv_enqueue(3) [unfolded enqueue_refresh_def])

interpretation eq_head: enqueuer enqueue_headnode "{KInsert, KFollow, KFill, KSub}"
  by unfold_locales (simp_all add: enqueue_headnode_def vinv_enqueue(4) [unfolded enqueue_headnode_def])

subsection \<open>Updates of a request\<close>

lemma set_req_fields [simp]:
  "v_requests (set_req r q s) = v_requests s" "v_heap (set_req r q s) = (v_heap s)(r \<mapsto> q)"
  "v_next (set_req r q s) = v_next s" "v_flying (set_req r q s) = v_flying s"
  "v_reactor (set_req r q s) = v_reactor s" "v_loops (set_req r q s) = v_loops s"
  "v_log (set_req r q s) = v_log s" "v_children (set_req r q s) = v_children s"
  "vnames (set_req r q s) = vnames s" "occ (set_req r q s) = occ s"
  "goods (set_req r q s) = goods s" "bads (set_req r q s) = bads s"
  by (simp_all add: set_req_def vnames_def occ_def queued_n_def flying_n_def goods_def bads_def fun_eq_iff)

lemma tell_fields [simp]:
  "v_requests (tell r cm f s) = v_requests s" "v_heap (tell r cm f s) = v_heap s"
  "v_next (tell r cm f s) = v_next s" "v_flying (tell r cm f s) = v_flying s"
  "v_reactor (tell r cm f s) = v_reactor s" "v_loops (tell r cm f s) = v_loops s"
  "v_children (tell r cm f s) = v_children s" "vnames (tell r cm f s) = vnames s" "occ (tell r cm f s) = occ s"
  by (simp_all add: tell_def vlog_def vnames_def occ_def queued_n_def flying_n_def fun_eq_iff split: vcmpl.splits)

lemma goods_tell:
  "goods (tell r cm f s) x = goods s x + (case cm of Client a \<Rightarrow> of_bool (x = r \<and> good_up (f a)) | _ \<Rightarrow> 0)"
  "bads (tell r cm f s) x = bads s x + (case cm of Client a \<Rightarrow> of_bool (x = r \<and> bad_up (f a)) | _ \<Rightarrow> 0)"
  by (auto simp: tell_def vlog_def goods_def bads_def split: vcmpl.splits)

lemma finite_kids: "dom (v_heap s) = {..<v_next s} \<Longrightarrow> finite {r. \<exists>q. v_heap s r = Some q \<and> P q}"
  by (rule finite_subset [of _ "{..<v_next s}"]) auto

lemma kids_set:
  assumes "dom (v_heap s) = {..<v_next s}" "v_heap s r = Some q"
  shows "kids (set_req r q' s) p + of_bool (child_open p q) = kids s p + of_bool (child_open p q')"
proof -
  define A where "A = {x. x \<noteq> r \<and> (\<exists>q. v_heap s x = Some q \<and> child_open p q)}"
  have fin: "finite A" using finite_kids [OF assms(1)] unfolding A_def by (rule finite_subset [rotated]) auto
  have nr: "r \<notin> A" by (simp add: A_def)
  have 1: "{x. \<exists>q. v_heap s x = Some q \<and> child_open p q} = (if child_open p q then insert r A else A)"
    using assms(2) by (auto simp: A_def)
  have 2: "{x. \<exists>q. ((v_heap s)(r \<mapsto> q')) x = Some q \<and> child_open p q} = (if child_open p q' then insert r A else A)"
    by (auto simp: A_def)
  show ?thesis using fin nr unfolding kids_def set_req_fields 1 2 by simp
qed

lemma kind_set: "v_heap s r = Some q \<Longrightarrow> vk (r_sub q') = vk (r_sub q) \<Longrightarrow> kind_at (set_req r q' s) = kind_at s"
  by (auto simp: kind_at_def fun_eq_iff)

lemma vtyped_kind: "v_children s' = v_children s \<Longrightarrow> kind_at s' = kind_at s \<Longrightarrow> vtyped s' = vtyped s"
  by (simp add: vtyped_def queue_kind_def)

lemma kind_top: "v_heap s r = Some q \<Longrightarrow> vk (r_sub q) \<noteq> KTop \<Longrightarrow> \<not> sub_held s u r"
  by (auto simp: sub_held_def split: vsub.splits)

lemma links_plain:
  assumes "links D s" "v_heap s r = Some q" "vk (r_sub q') = vk (r_sub q)" "r_cmpl q' = r_cmpl q"
    and "vk (r_sub q) \<notin> {KSub, KTop}" "\<And>x. x \<noteq> r \<Longrightarrow> x \<in> D \<Longrightarrow> x \<in> D'"
  shows "links D' (set_req r q' s)"
proof -
  have h: "sub_held (set_req r q' s) u t = sub_held s u t" for u t
    using kind_top [of s r q u] kind_top [of "set_req r q' s" r q' u] assms(2,3,5)
    by (cases "t = r") (auto simp: sub_held_def)
  have k: "kind_at (set_req r q' s) = kind_at s" using assms(2,3) by (rule kind_set)
  have "up_ok (set_req r q' s) x y" if "v_heap (set_req r q' s) x = Some y" for x y
  proof (cases "x = r")
    case True
    with that have "y = q'" by simp
    moreover from assms(1,2) have "up_ok s r q" by (simp add: links_def)
    ultimately show ?thesis using assms(3-5) True by (simp add: up_ok_def h k)
  next
    case False
    with that assms(1) have "up_ok s x y" by (simp add: links_def)
    then show ?thesis by (simp add: up_ok_def h k)
  qed
  moreover have "down_ok D' (set_req r q' s) x" for x
    unfolding down_ok_def
  proof (intro allI impI)
    fix u assume "x \<in> v_requests (set_req r q' s)" "sub_held (set_req r q' s) u x"
    then obtain uq a where u: "v_heap s u = Some uq" "vk (r_sub uq) = KSub" "r_cmpl uq = Inner x a" "open_q uq \<or> u \<in> D"
      using assms(1) unfolding links_def down_ok_def h set_req_fields by blast
    with assms(2,5) have "u \<noteq> r" by auto
    with u assms(6) show "\<exists>uq a. v_heap (set_req r q' s) u = Some uq \<and> vk (r_sub uq) = KSub \<and>
        r_cmpl uq = Inner x a \<and> (open_q uq \<or> u \<in> D')" by auto
  qed
  ultimately show ?thesis by (simp add: links_def)
qed

lemma vinv_rok:
  assumes "vinv X D E s" "v_heap s r = Some q"
  shows "rok (length (v_children s)) (occ s r + X r) (r \<in> v_requests s) (r \<in> D) (goods s r) (bads s r) (kids s r + E r) q"
    and "data_ok s r q" and "r < v_next s"
  using assms by (auto simp: vinv_def)

text \<open>
  A change of the requests \<open>R\<close>, some of them new: the others keep what the invariant says of
  them, up to the reports announced to them.
\<close>

lemma vinv_change:
  assumes I: "vinv X D E s"
    and core: "v_children s' = v_children s" "v_flying s' = v_flying s" "v_next s \<le> v_next s'"
      "dom (v_heap s') = {..<v_next s'}" "R \<subseteq> {..<v_next s'}"
    and k: "\<And>x. kind_at s x \<noteq> None \<Longrightarrow> kind_at s' x = kind_at s x"
    and l: "links D' s'"
    and x: "\<And>x. x \<notin> R \<Longrightarrow> v_heap s' x = v_heap s x \<and> (x \<in> v_requests s' \<longleftrightarrow> x \<in> v_requests s) \<and> X' x = X x \<and>
       (x \<in> D' \<longleftrightarrow> x \<in> D) \<and> goods s' x = goods s x \<and> bads s' x = bads s x \<and> kids s' x + E' x = kids s x + E x"
    and e: "\<And>x. v_next s' \<le> x \<Longrightarrow> E' x = 0"
    and ok: "\<And>x q. x \<in> R \<Longrightarrow> v_heap s' x = Some q \<Longrightarrow> data_ok s x q \<and>
       rok (length (v_children s)) (occ s x + X' x) (x \<in> v_requests s') (x \<in> D') (goods s' x) (bads s' x) (kids s' x + E' x) q"
  shows "vinv X' D' E' s'"
proof -
  note v = I [unfolded vinv_def]
  have nm: "vnames s' = vnames s" and oc: "occ s' = occ s"
    by (simp_all add: vnames_def occ_def queued_n_def flying_n_def core fun_eq_iff)
  have dk: "data_ok s' y z = data_ok s y z" for y z by (simp add: data_ok_def core nm split: vsub.splits)
  have "queue_kind ch s'" if "queue_kind ch s" for ch
    using that k unfolding queue_kind_def by (auto 0 3)
  then have ty: "vtyped s'" using v unfolding vtyped_def core by (metis (mono_tags, lifting) case_prodE case_prodI2 old.prod.case)
  have all: "data_ok s' y z \<and> rok (length (v_children s')) (occ s' y + X' y) (y \<in> v_requests s') (y \<in> D')
      (goods s' y) (bads s' y) (kids s' y + E' y) z" if "v_heap s' y = Some z" for y z
  proof (cases "y \<in> R")
    case True
    with that ok show ?thesis by (simp add: core dk oc)
  next
    case False
    with that x have "v_heap s y = Some z" by simp
    with vinv_rok [OF I] x [OF False] show ?thesis by (simp add: core dk oc)
  qed
  have "occ s' y + X' y = 0 \<and> y \<notin> v_requests s' \<and> y \<notin> D' \<and> goods s' y = 0 \<and> bads s' y = 0 \<and> E' y = 0"
    if "v_next s' \<le> y" for y
  proof -
    have "y \<notin> R" "v_next s \<le> y" using that core(3,5) by auto
    with v x [of y] e [OF that] show ?thesis by (simp add: oc)
  qed
  moreover have "distinct (vnames s')" "v_children s' \<noteq> []" "snd ` set (v_flying s') \<subseteq> set (vnames s')"
    using v by (simp_all only: core nm) simp_all
  ultimately show ?thesis using all ty l core(4) unfolding vinv_def by blast
qed

lemma vinv_set:
  assumes I: "vinv X D E s" and h: "v_heap s r = Some q"
    and k: "vk (r_sub q') = vk (r_sub q)"
    and l: "links D' (set_req r q' s)"
    and c: "s' = tell r cm f (set_req r q' s)"
    and x: "\<And>x. x \<noteq> r \<Longrightarrow> X' x = X x \<and> (x \<in> D' \<longleftrightarrow> x \<in> D)"
    and e: "\<And>x. x \<noteq> r \<Longrightarrow> kids (set_req r q' s) x + E' x = kids s x + E x"
    and e': "\<And>x. v_next s \<le> x \<Longrightarrow> E' x = 0"
    and d: "data_ok s r q'"
    and ok: "rok (length (v_children s)) (occ s r + X' r) (r \<in> v_requests s) (r \<in> D')
       (goods s' r) (bads s' r) (kids (set_req r q' s) r + E' r) q'"
  shows "vinv X' D' E' s'"
proof (rule vinv_change [OF I, where R = "{r}"])
  have rn: "r < v_next s" using vinv_rok(3) [OF I h] .
  have kk: "kids s' = kids (set_req r q' s)" by (simp add: kids_def fun_eq_iff c)
  have k1: "kind_at s' = kind_at s" using kind_set [OF h k] by (simp add: kind_at_def fun_eq_iff c)
  have dom: "dom (v_heap s) = {..<v_next s}" using I by (simp add: vinv_def)
  show "dom (v_heap s') = {..<v_next s'}" using dom h by (auto simp: c)
  show "{r} \<subseteq> {..<v_next s'}" using rn by (simp add: c)
  show "kind_at s' y = kind_at s y" for y by (simp add: k1)
  show "links D' s'" using l by (simp add: c links_def up_ok_def down_ok_def kind_at_def sub_held_def)
  show "v_heap s' y = v_heap s y \<and> (y \<in> v_requests s' \<longleftrightarrow> y \<in> v_requests s) \<and> X' y = X y \<and>
      (y \<in> D' \<longleftrightarrow> y \<in> D) \<and> goods s' y = goods s y \<and> bads s' y = bads s y \<and> kids s' y + E' y = kids s y + E y"
    if "y \<notin> {r}" for y
  proof -
    have "goods s' y = goods s y" "bads s' y = bads s y"
      using that by (simp_all add: c goods_tell split: vcmpl.splits)
    with that x [of y] e [of y] show ?thesis by (simp add: kk) (simp add: c)
  qed
  show "data_ok s y z \<and> rok (length (v_children s)) (occ s y + X' y) (y \<in> v_requests s') (y \<in> D')
      (goods s' y) (bads s' y) (kids s' y + E' y) z" if "y \<in> {r}" "v_heap s' y = Some z" for y z
    using that d ok by (simp add: kk) (simp add: c)
qed (simp_all add: c e')

subsection \<open>The list of requests\<close>

lemma vinv_done:
  assumes I: "vinv X (insert r D) E s" "r \<notin> D"
    and t: "\<And>q. v_heap s r = Some q \<Longrightarrow> vk (r_sub q) = KTop \<Longrightarrow> goods s r + bads s r = 1"
    and w: "\<And>x xq. sub_held s x r \<Longrightarrow> v_heap s x = Some xq \<Longrightarrow> \<not> open_q xq"
    and u: "\<And>p. p \<in> v_requests s \<Longrightarrow> \<not> sub_held s r p"
  obtains s' where "remove_req r s = (s', Inr ())" "vinv X D E s'" "v_heap s' = v_heap s" "v_log s' = v_log s"
    "v_children s' = v_children s" "v_requests s' = v_requests s - {r}" "v_next s' = v_next s"
proof -
  note v = I(1) [unfolded vinv_def]
  have rn: "r < v_next s" using v by (metis insertI1 linorder_not_less)
  then obtain q where q: "v_heap s r = Some q" using v by (metis domD lessThan_iff)
  have rq: "rok (length (v_children s)) (occ s r + X r) (r \<in> v_requests s) True (goods s r) (bads s r) (kids s r + E r) q"
    using vinv_rok(1) [OF I(1) q] by simp
  then have m: "r \<in> v_requests s" by (simp add: rok_def)
  define s1 where "s1 = s\<lparr>v_requests := v_requests s - {r}\<rparr>"
  have core: "v_heap s1 = v_heap s" "v_log s1 = v_log s" "v_requests s1 = v_requests s - {r}"
    by (simp_all add: s1_def)
  have views: "goods s1 = goods s" "bads s1 = bads s" "kids s1 = kids s" "kind_at s1 = kind_at s" "sub_held s1 = sub_held s"
    by (simp_all add: goods_def bads_def kids_def kind_at_def sub_held_def fun_eq_iff core)
  have "vinv X D E s1"
  proof (rule vinv_change [OF I(1), where R = "{r}"])
    show "links D s1"
      unfolding links_def
    proof (intro conjI allI impI)
      fix x y assume xy: "v_heap s1 x = Some y"
      then have "up_ok s x y" using v by (simp add: links_def core)
      with w [of x y] xy show "up_ok s1 x y" unfolding up_ok_def views core by blast
    next
      fix x show "down_ok D s1 x" using v u unfolding links_def down_ok_def views core by blast
    qed
    show "data_ok s y z \<and> rok (length (v_children s)) (occ s y + X y) (y \<in> v_requests s1) (y \<in> D)
        (goods s1 y) (bads s1 y) (kids s1 y + E y) z" if "y \<in> {r}" "v_heap s1 y = Some z" for y z
    proof -
      have "y = r" "z = q" using that q by (simp_all add: core)
      with rq t [OF q] I(2) vinv_rok(2) [OF I(1) q] show ?thesis
        by (auto simp: rok_def core views split: vcmpl.splits vsub.splits)
    qed
    show "dom (v_heap s1) = {..<v_next s1}" "{r} \<subseteq> {..<v_next s1}"
      using v rn by (simp_all add: s1_def)
    show "E y = 0" if "v_next s1 \<le> y" for y using v that by (simp add: s1_def)
  qed (use v rn in \<open>simp_all add: views\<close>, simp_all add: s1_def)
  then have "vinv X D E (s1\<lparr>v_waiting := False\<rparr>)" by (rule vinv_control)
  with \<open>vinv X D E s1\<close> m that [of s1] that [of "s1\<lparr>v_waiting := False\<rparr>"] show ?thesis
    by (cases "v_requests s1 = {} \<and> v_waiting s1") (auto simp: remove_req_def s1_def Let_def)
qed

lemma no_held: "vinv X D E s \<Longrightarrow> v_heap s r = Some q \<Longrightarrow> vk (r_sub q) \<noteq> KSub \<Longrightarrow> p \<in> v_requests s \<Longrightarrow> \<not> sub_held s r p"
  unfolding vinv_def links_def down_ok_def by fastforce

text \<open>A new request, in the list from the start, with the answers it waits for to be queued.\<close>

lemma new_req_fields [simp]:
  "v_requests (new_req n cm sub s) = v_requests s" "v_next (new_req n cm sub s) = Suc (v_next s)"
  "v_flying (new_req n cm sub s) = v_flying s" "v_log (new_req n cm sub s) = v_log s"
  "v_children (new_req n cm sub s) = v_children s" "vnames (new_req n cm sub s) = vnames s"
  "v_heap (new_req n cm sub s) = (v_heap s)(v_next s \<mapsto> \<lparr>r_succeeded = False, r_outstanding = int n, r_cmpl = cm, r_sub = sub\<rparr>)"
  "v_loops (new_req n cm sub s) = v_loops s"
  by (simp_all add: new_req_def vnames_def)

lemma insert_req_fields [simp]:
  "v_requests (insert_req r s) = insert r (v_requests s)" "v_next (insert_req r s) = v_next s"
  "v_flying (insert_req r s) = v_flying s" "v_log (insert_req r s) = v_log s" "v_heap (insert_req r s) = v_heap s"
  "v_children (insert_req r s) = v_children s" "vnames (insert_req r s) = vnames s"
  "v_loops (insert_req r s) = v_loops s"
  by (simp_all add: insert_req_def vnames_def)

lemma no_kids: "vinv X D E s \<Longrightarrow> v_heap s p = None \<Longrightarrow> kids s p = 0"
proof -
  assume I: "vinv X D E s" and p: "v_heap s p = None"
  have "\<not> child_open p q" if "v_heap s r = Some q" for r q
  proof -
    have "up_ok s r q" using I that by (simp add: vinv_def links_def)
    then show ?thesis using p by (auto simp: child_open_def up_ok_def kind_at_def)
  qed
  then have "{r. \<exists>q. v_heap s r = Some q \<and> child_open p q} = {}" by blast
  then show ?thesis unfolding kids_def by (metis card.empty)
qed

lemma kids_new:
  assumes "dom (v_heap s) = {..<v_next s}" "v_heap s' = (v_heap s)(v_next s \<mapsto> q0)"
  shows "kids s' p = kids s p + of_bool (child_open p q0)"
proof -
  have nn: "v_heap s (v_next s) = None" using assms(1) by (metis domIff lessThan_iff less_irrefl)
  let ?A = "{r. \<exists>q. v_heap s r = Some q \<and> child_open p q}"
  have "{r. \<exists>q. v_heap s' r = Some q \<and> child_open p q} = (if child_open p q0 then insert (v_next s) ?A else ?A)"
    using nn by (auto simp: assms(2))
  then show ?thesis using finite_kids [OF assms(1), of "child_open p"] nn by (simp add: kids_def)
qed

lemma links_new:
  assumes I: "vinv X D E s" and h: "v_heap s' = (v_heap s)(v_next s \<mapsto> q0)"
    and up: "\<And>p a. r_cmpl q0 = Inner p a \<Longrightarrow> \<exists>k. parent_kind (vk (r_sub q0)) = Some k \<and> kind_at s p = Some k"
    and ns: "vk (r_sub q0) \<noteq> KSub"
    and nt: "\<And>ft. r_sub q0 = VFurthestTop ft \<Longrightarrow> t_subfurther ft = None"
    and D: "D \<subseteq> D'" and rq: "v_requests s' \<subseteq> insert (v_next s) (v_requests s)" "v_requests s \<subseteq> v_requests s'"
  shows "links D' s'"
proof -
  have nn: "v_heap s (v_next s) = None" using I by (metis domIff lessThan_iff less_irrefl vinv_def)
  have l: "links D s" using I by (simp add: vinv_def)
  have hd: "sub_held s' u t = sub_held s u t" for u t
    using nt nn by (auto simp: sub_held_def h split: vsub.splits)
  have k: "kind_at s' x = kind_at s x" if "kind_at s x \<noteq> None" for x
    using that nn by (auto simp: kind_at_def h)
  have "up_ok s' x y" if "v_heap s' x = Some y" for x y
  proof (cases "x = v_next s")
    case True
    with that have "y = q0" by (simp add: h)
    moreover have "\<exists>k. parent_kind (vk (r_sub q0)) = Some k \<and> kind_at s' p = Some k" if "r_cmpl q0 = Inner p a" for p a
      using up [OF that] k by (metis option.distinct(1))
    ultimately show ?thesis using ns unfolding up_ok_def by blast
  next
    case False
    with that l have "up_ok s x y" by (simp add: links_def h)
    then show ?thesis using k rq(2) unfolding up_ok_def hd by (metis option.distinct(1) subsetD)
  qed
  moreover have "down_ok D' s' x" for x
  proof -
    have "down_ok D s x" using l by (simp add: links_def)
    moreover have "v_heap s' u = Some uq" if "v_heap s u = Some uq" for u uq
      using that nn by (auto simp: h)
    moreover have "\<not> sub_held s u (v_next s)" for u using nn by (simp add: sub_held_def)
    ultimately show ?thesis using D rq unfolding down_ok_def hd by blast
  qed
  ultimately show ?thesis by (simp add: links_def)
qed

lemma kind_new: "vinv X D E s \<Longrightarrow> v_heap s' = (v_heap s)(v_next s \<mapsto> q0) \<Longrightarrow> kind_at s x \<noteq> None \<Longrightarrow> kind_at s' x = kind_at s x"
  by (metis (no_types, lifting) domIff fun_upd_other kind_at_def lessThan_iff less_irrefl option.map(1) vinv_def)

lemma vinv_new:
  assumes I: "vinv X D E s" and q0: "q0 = \<lparr>r_succeeded = False, r_outstanding = int n, r_cmpl = cm, r_sub = sub\<rparr>"
    and s': "s' = (if b then insert_req (v_next s) (new_req n cm sub s) else new_req n cm sub s)"
    and no: "\<And>a. cm \<noteq> Inner (v_next s) a"
    and up: "\<And>p a. cm = Inner p a \<Longrightarrow> \<exists>k. parent_kind (vk sub) = Some k \<and> kind_at s p = Some k"
    and ns: "vk sub \<noteq> KSub" and nt: "\<And>ft. sub = VFurthestTop ft \<Longrightarrow> t_subfurther ft = None"
    and D': "D' = (if d then insert (v_next s) D else D)"
    and e: "\<And>p. E' p + of_bool (child_open p q0) = E p"
    and dk: "data_ok s (v_next s) q0"
    and ok: "rok (length (v_children s)) m b d 0 0 0 q0"
  shows "vinv (X(v_next s := m)) D' E' s'"
proof -
  note v = I [unfolded vinv_def]
  have nn: "v_heap s (v_next s) = None" using v by (metis domIff lessThan_iff less_irrefl)
  have h: "v_heap s' = (v_heap s)(v_next s \<mapsto> q0)" by (simp add: s' q0)
  have kd: "kids s' p = kids s p + of_bool (child_open p q0)" for p using v h by (intro kids_new) auto
  have nc: "\<not> child_open (v_next s) q0" using no by (simp add: child_open_def q0)
  have z: "occ s (v_next s) = 0" "goods s (v_next s) = 0" "bads s (v_next s) = 0" "v_next s \<notin> D" "E (v_next s) = 0"
    using v by auto
  have lg: "goods s' = goods s" "bads s' = bads s" by (simp_all add: s' goods_def bads_def fun_eq_iff)
  show ?thesis
  proof (rule vinv_change [OF I, where R = "{v_next s}"])
    show "links D' s'"
      by (rule links_new [OF I h]) (use up ns nt in \<open>auto simp: q0 D' s'\<close>)
    show "kind_at s' x = kind_at s x" if "kind_at s x \<noteq> None" for x
      using kind_new [OF I h that] .
    show "E' x = 0" if "v_next s' \<le> x" for x
    proof -
      have "v_next s \<le> x" using that by (simp add: s' split: if_splits)
      with v have "E x = 0" by blast
      with e [of x] show ?thesis by simp
    qed
    show "v_heap s' x = v_heap s x \<and> (x \<in> v_requests s' \<longleftrightarrow> x \<in> v_requests s) \<and> (X(v_next s := m)) x = X x \<and>
        (x \<in> D' \<longleftrightarrow> x \<in> D) \<and> goods s' x = goods s x \<and> bads s' x = bads s x \<and> kids s' x + E' x = kids s x + E x"
      if "x \<notin> {v_next s}" for x
      using that e [of x] by (simp add: kd lg h) (simp add: s' D')
    show "data_ok s x q \<and> rok (length (v_children s)) (occ s x + (X(v_next s := m)) x) (x \<in> v_requests s') (x \<in> D')
        (goods s' x) (bads s' x) (kids s' x + E' x) q" if "x \<in> {v_next s}" "v_heap s' x = Some q" for x q
    proof -
      have x: "x = v_next s" "q = q0" using that by (simp_all add: h)
      have "(x \<in> v_requests s') = b" "(x \<in> D') = d" using v x by (auto simp: s' D')
      moreover have "kids s' x + E' x = 0"
        using no_kids [OF I nn] nc e [of x] z x by (simp add: kd)
      ultimately show ?thesis using ok dk z x by (simp add: lg)
    qed
    show "dom (v_heap s') = {..<v_next s'}" using v by (auto simp: h s')
  qed (simp_all add: s')
qed

end
