(* ===== verification/VBS_Callbacks.thy ===== *)
theory VBS_Callbacks
  imports VBS_Invariant
begin

text \<open>
  The callbacks of the requests that report to the client only, and what they do to the
  invariant: called for an answer that is still to be counted, they succeed and count it.
\<close>

subsection \<open>Counting an answer\<close>

lemma tell_NoCmpl [simp]: "tell r NoCmpl f s = s"
  by (simp add: tell_def)

lemma pending_open:
  assumes "vinv X D E s" "v_heap s r = Some q" "0 < occ s r + X r" "vk (r_sub q) \<noteq> KTop" "\<not> needy_q q"
  shows "0 < r_outstanding q" "r \<notin> D"
proof -
  note k = vinv_rok(1) [OF assms(1,2)]
  have "int (occ s r + X r) = r_outstanding q" using k assms(4,5) unfolding rok_def by blast
  with assms(3) show o: "0 < r_outstanding q" by linarith
  have "open_q q" using o assms(4) by (auto simp: open_q_def split: vsub.splits)
  with k assms(4) show "r \<notin> D" unfolding rok_def by blast
qed

definition plain_cmpl :: "vreq \<Rightarrow> bool" where
  "plain_cmpl q = (case r_cmpl q of Inner _ _ \<Rightarrow> False | _ \<Rightarrow> True)"

text \<open>
  One answer counted in a request without inner requests: it leaves the list with the last
  answer. The condition on the reports is left to the cases.
\<close>

lemma settle:
  assumes I: "vinv (X(r := Suc (X r))) D E s" and h: "v_heap s r = Some q" and rD: "r \<notin> D"
    and k: "vk (r_sub q') = vk (r_sub q)" "r_cmpl q' = r_cmpl q" "r_outstanding q' = r_outstanding q - 1"
    and p: "vk (r_sub q) \<notin> {KSub, KTop, KFill}" "plain_cmpl q"
    and d: "data_ok s r q'"
    and s': "s' = tell r cm f (set_req r q' s)"
    and D': "D' = (if r_outstanding q' = 0 then insert r D else D)"
    and rep: "rok (length (v_children s)) (occ s r + Suc (X r)) (r \<in> v_requests s) False (goods s r) (bads s r) 0 q \<Longrightarrow>
      \<not> needy_q q \<Longrightarrow> 1 \<le> r_outstanding q \<Longrightarrow>
      (case r_cmpl q of
         NoCmpl \<Rightarrow> goods s' r = 0 \<and> bads s' r = 0
       | Client a \<Rightarrow> rep_client q' (goods s' r) (bads s' r)
       | Inner _ _ \<Rightarrow> False)"
    and rep0: "needy_q q \<Longrightarrow> goods s' r = goods s r \<and> bads s' r = bads s r"
  shows "vinv X D' E s'"
proof -
  have ch: "child_open x q = False" "child_open x q' = False" for x
    using p(2) k(2) by (auto simp: child_open_def plain_cmpl_def)
  have dom: "dom (v_heap s) = {..<v_next s}" using I by (simp add: vinv_def)
  have kid: "kids (set_req r q' s) x = kids s x" for x using kids_set [OF dom h, of q' x] by (simp add: ch)
  note rk = vinv_rok(1) [OF I h]
  have k0: "kids s r + E r = 0" using rk p(1) by (auto simp: rok_def)
  have oq: "open_q q = (0 < r_outstanding q)" "open_q q' = (0 < r_outstanding q')"
    using p(1) k(1) by (auto simp: open_q_def split: vsub.splits)
  have nq: "needy_q q' = needy_q q" using k by (simp add: needy_q_def)
  show ?thesis
  proof (rule vinv_set [OF I h k(1) _ s'])
    show "links D' (set_req r q' s)"
      by (rule links_plain [of D]) (use I h k p in \<open>auto simp: vinv_def D'\<close>)
    show "kids (set_req r q' s) x + E x = kids s x + E x" for x by (simp add: kid)
    show "E x = 0" if "v_next s \<le> x" for x using I that by (simp add: vinv_def)
    show "X x = (X(r := Suc (X r))) x \<and> (x \<in> D' \<longleftrightarrow> x \<in> D)" if "x \<noteq> r" for x
      using that by (simp add: D')
    show "rok (length (v_children s)) (occ s r + X r) (r \<in> v_requests s) (r \<in> D') (goods s' r) (bads s' r)
        (kids (set_req r q' s) r + E r) q'"
    proof (cases "needy_q q")
      case True
      with rk k rD k0 rep0 oq nq show ?thesis
        by (auto simp: rok_def D' kid needy_q_def)
    next
      case False
      with rk p(1) have o1: "1 \<le> r_outstanding q" "r \<in> v_requests s" by (auto simp: rok_def oq)
      note rp = rep [OF _ False o1(1)]
      show ?thesis
      proof (cases "r_cmpl q")
        case NoCmpl
        with False rk rp k rD k0 oq o1 p(1) nq show ?thesis
          by (auto simp: rok_def D' kid needy_q_def)
      next
        case (Client a)
        with False rk rp k rD k0 oq o1 p(1) nq show ?thesis
          by (cases "r_sub q'") (auto simp: rok_def D' kid needy_q_def)
      qed (use p(2) in \<open>simp add: plain_cmpl_def\<close>)
    qed
  qed (rule d)
qed

subsection \<open>Callbacks that succeed\<close>

definition grows :: "vbs \<Rightarrow> vbs \<Rightarrow> bool" where
  "grows s s' = (vnames s' = vnames s \<and> v_next s \<le> v_next s' \<and>
     (\<forall>r q. v_heap s r = Some q \<longrightarrow>
        (\<exists>q'. v_heap s' r = Some q' \<and> vk (r_sub q') = vk (r_sub q) \<and> r_cmpl q' = r_cmpl q)))"

lemma grows_refl [simp]: "grows s s"
  by (simp add: grows_def)

lemma grows_trans: "grows s s1 \<Longrightarrow> grows s1 s2 \<Longrightarrow> grows s s2"
  unfolding grows_def by (metis order.trans)

lemma grows_same: "v_heap s' = v_heap s \<Longrightarrow> v_next s' = v_next s \<Longrightarrow> vnames s' = vnames s \<Longrightarrow> grows s s'"
  by (simp add: grows_def)

lemma grows_set: "v_heap s r = Some q \<Longrightarrow> vk (r_sub q') = vk (r_sub q) \<Longrightarrow> r_cmpl q' = r_cmpl q \<Longrightarrow> grows s (set_req r q' s)"
  by (simp add: grows_def)

lemma grows_kind: "grows s s' \<Longrightarrow> kind_at s r = Some k \<Longrightarrow> kind_at s' r = Some k"
  unfolding grows_def kind_at_def by fastforce

definition runs_ok :: "(rid \<Rightarrow> nat) \<Rightarrow> rid set \<Rightarrow> (rid \<Rightarrow> nat) \<Rightarrow> vbs \<Rightarrow> vbs \<times> unit res \<Rightarrow> bool" where
  "runs_ok X D E s x = (\<exists>s'. x = (s', Inr ()) \<and> vinv X D E s' \<and> grows s s')"

lemma runs_okI: "vinv X D E s' \<Longrightarrow> grows s s' \<Longrightarrow> runs_ok X D E s (s', Inr ())"
  by (simp add: runs_ok_def)

lemma runs_ok_then:
  assumes "runs_ok X1 D1 E1 s x" "\<And>s1. vinv X1 D1 E1 s1 \<Longrightarrow> grows s s1 \<Longrightarrow> runs_ok X D E s1 (f s1)"
  shows "runs_ok X D E s (vthen x f)"
  using assms grows_trans unfolding runs_ok_def by fastforce

lemma runs_ok_grows: "runs_ok X D E s1 x \<Longrightarrow> grows s s1 \<Longrightarrow> runs_ok X D E s x"
  unfolding runs_ok_def using grows_trans by blast

lemma done_if_inv:
  assumes "vinv X D' E s" "D' = (if b then insert r D else D)" "r \<notin> D" "kind_at s r = Some k" "k \<notin> {KTop, KSub}"
  shows "runs_ok X D E s (done_if b r s)"
proof (cases b)
  case True
  obtain q where q: "v_heap s r = Some q" "vk (r_sub q) = k" using assms(4) by (auto simp: kind_at_def)
  have I: "vinv X (insert r D) E s" using assms(1,2) True by simp
  have nt: "goods s r + bads s r = 1" if "v_heap s r = Some q'" "vk (r_sub q') = KTop" for q'
    using that q assms(5) by simp
  have nh: "\<not> sub_held s r p" if "p \<in> v_requests s" for p using no_held [OF I q(1)] q(2) assms(5) that by auto
  have nw: "\<not> open_q xq" if "sub_held s x r" "v_heap s x = Some xq" for x xq
    using that kind_top [OF q(1)] q(2) assms(5) by auto
  show ?thesis
    by (rule vinv_done [OF I assms(3) nt nw nh]) (auto simp: runs_ok_def done_if_def True grows_def vnames_def)
qed (use assms in \<open>simp add: done_if_def runs_ok_def\<close>)

lemma data_ok_same:
  assumes "vinv X D E s" "v_heap s r = Some q"
    and "r_sub q' = r_sub q"
  shows "data_ok s r q'"
  using vinv_rok(2) [OF assms(1,2)] assms(3) by (simp add: data_ok_def)

lemma tell_if: "(if b then tell r cm f s else s) = tell r (if b then cm else NoCmpl) f s"
  by simp

lemma settle_good:
  assumes I: "vinv (X(r := Suc (X r))) D E s" and h: "v_heap s r = Some q" and rD: "r \<notin> D"
    and k: "vk (r_sub q) \<in> {KGet, KPut, KBlock, KFinish, KInsert}" "plain_cmpl q"
    and q': "q' = q\<lparr>r_succeeded := True, r_outstanding := r_outstanding q - 1, r_sub := sub'\<rparr>" "vk sub' = vk (r_sub q)"
      "data_ok s r q'" "\<And>g. sub' = VGet g \<Longrightarrow> r_cmpl q \<noteq> NoCmpl \<Longrightarrow> g_needy g = []"
    and f: "\<And>a. good_up (f a) \<and> \<not> bad_up (f a)"
    and s': "s' = (if \<not> r_succeeded q then tell r (r_cmpl q) f (set_req r q' s) else set_req r q' s)"
    and D': "D' = (if r_outstanding q - 1 = 0 then insert r D else D)"
  shows "vinv X D' E s' \<and> grows s s'"
proof
  show "vinv X D' E s'"
  proof (rule settle [OF I h rD, where q' = q' and cm = "if \<not> r_succeeded q then r_cmpl q else NoCmpl" and f = f])
    show "s' = tell r (if \<not> r_succeeded q then r_cmpl q else NoCmpl) f (set_req r q' s)"
      by (simp add: s')
    show "goods s' r = goods s r \<and> bads s' r = bads s r" if "needy_q q"
      using that by (simp add: s' needy_q_def)
    assume A: "rok (length (v_children s)) (occ s r + Suc (X r)) (r \<in> v_requests s) False (goods s r) (bads s r) 0 q"
      "\<not> needy_q q" "1 \<le> r_outstanding q"
    have g: "goods s' r = goods s r + of_bool (\<not> r_succeeded q \<and> r_cmpl q \<noteq> NoCmpl)" "bads s' r = bads s r"
      using f k(2) by (simp_all add: s' goods_tell plain_cmpl_def split: vcmpl.splits)
    show "case r_cmpl q of
         NoCmpl \<Rightarrow> goods s' r = 0 \<and> bads s' r = 0
       | Client a \<Rightarrow> rep_client q' (goods s' r) (bads s' r)
       | Inner _ _ \<Rightarrow> False"
    proof (cases "r_cmpl q")
      case NoCmpl
      then show ?thesis using A(1) by (simp add: g rok_def)
    next
      case (Client a)
      have "rep_first q (goods s r) (bads s r)"
        using A(1) k(1) Client by (cases "r_sub q") (simp_all add: rok_def rep_client_def)
      then have "rep_first q' (goods s' r) (bads s' r)"
        using A(3) Client by (simp add: g q'(1) rep_first_def)
      with k(1) q' Client show ?thesis by (cases sub') (auto simp: rep_client_def)
    qed (use k(2) in \<open>simp add: plain_cmpl_def\<close>)
  qed (use k q' D' in auto)
  show "grows s s'" using h q' by (auto simp: s' grows_def)
qed

lemma settle_bad:
  assumes I: "vinv (X(r := Suc (X r))) D E s" and h: "v_heap s r = Some q" and rD: "r \<notin> D"
    and k: "vk (r_sub q) \<in> {KGet, KPut, KBlock, KFinish, KInsert, KStart}" "plain_cmpl q"
    and q': "q' = q\<lparr>r_outstanding := r_outstanding q - 1\<rparr>"
    and f: "\<And>a. bad_up (f a) \<and> \<not> good_up (f a)"
    and s': "s' = (if r_outstanding q - 1 = 0 \<and> \<not> r_succeeded q then tell r (r_cmpl q) f (set_req r q' s) else set_req r q' s)"
    and D': "D' = (if r_outstanding q - 1 = 0 then insert r D else D)"
  shows "vinv X D' E s' \<and> grows s s'"
proof
  let ?cm = "if r_outstanding q - 1 = 0 \<and> \<not> r_succeeded q then r_cmpl q else NoCmpl"
  show "vinv X D' E s'"
  proof (rule settle [OF I h rD, where q' = q' and cm = ?cm and f = f])
    show "s' = tell r ?cm f (set_req r q' s)" by (simp add: s')
    show "data_ok s r q'" by (rule data_ok_same [OF I h]) (simp add: q')
    show "goods s' r = goods s r \<and> bads s' r = bads s r" if "needy_q q"
      using that by (simp add: s' needy_q_def)
    assume A: "rok (length (v_children s)) (occ s r + Suc (X r)) (r \<in> v_requests s) False (goods s r) (bads s r) 0 q"
      "\<not> needy_q q" "1 \<le> r_outstanding q"
    have g: "bads s' r = bads s r + of_bool (r_outstanding q - 1 = 0 \<and> \<not> r_succeeded q \<and> r_cmpl q \<noteq> NoCmpl)"
      "goods s' r = goods s r"
      using f k(2) by (simp_all add: s' goods_tell plain_cmpl_def split: vcmpl.splits)
    show "case r_cmpl q of
         NoCmpl \<Rightarrow> goods s' r = 0 \<and> bads s' r = 0
       | Client a \<Rightarrow> rep_client q' (goods s' r) (bads s' r)
       | Inner _ _ \<Rightarrow> False"
    proof (cases "r_cmpl q")
      case NoCmpl
      then show ?thesis using A(1) by (simp add: g rok_def)
    next
      case (Client a)
      show ?thesis using A k(1) Client
        by (cases "r_sub q") (simp_all add: rok_def g q' rep_client_def rep_first_def rep_start_def)
    qed (use k(2) in \<open>simp add: plain_cmpl_def\<close>)
  qed (use k q' D' in auto)
  show "grows s s'" using h q' by (auto simp: s' grows_def)
qed

end
