(* ===== verification/VBS_Answers.thy ===== *)
theory VBS_Answers
  imports VBS_Callbacks
begin

text \<open>
  Every answer of a child keeps the invariant. The callbacks of puts, gets, refreshes and of
  following heads come first, then those of the search for the furthest heads.
\<close>

subsection \<open>Puts and refreshes\<close>

lemma good_op:
  assumes I: "vinv (X(r := Suc (X r))) D E s" and h: "v_heap s r = Some q" and rD: "r \<notin> D"
    and k: "vk (r_sub q) \<in> {KPut, KBlock, KFinish, KInsert}" and p: "plain_cmpl q"
    and f: "\<And>a. good_up (f a) \<and> \<not> bad_up (f a)"
    and q1: "q1 = q\<lparr>r_succeeded := True, r_outstanding := r_outstanding q - 1\<rparr>"
  shows "runs_ok X D E s (done_if (r_outstanding q - 1 = 0) r
    (if \<not> r_succeeded q then tell r (r_cmpl q) f (set_req r q1 s) else set_req r q1 s))"
proof -
  let ?s3 = "if \<not> r_succeeded q then tell r (r_cmpl q) f (set_req r q1 s) else set_req r q1 s"
  have S: "vinv X (if r_outstanding q - 1 = 0 then insert r D else D) E ?s3 \<and> grows s ?s3"
  proof (rule settle_good [OF I h rD _ p, where sub' = "r_sub q" and f = f and q' = q1])
    show "data_ok s r q1" by (rule data_ok_same [OF I h]) (simp add: q1)
  qed (use k f q1 in auto)
  then have "vinv X (if r_outstanding q - 1 = 0 then insert r D else D) E ?s3" ..
  moreover have "kind_at ?s3 r = Some (vk (r_sub q))" by (simp add: kind_at_def q1)
  ultimately have "runs_ok X D E ?s3 (done_if (r_outstanding q - 1 = 0) r ?s3)"
    using k rD by (intro done_if_inv [where D' = "if r_outstanding q - 1 = 0 then insert r D else D"]) auto
  then show ?thesis by (rule runs_ok_grows) (rule conjunct2 [OF S])
qed

lemma bad_op:
  assumes I: "vinv (X(r := Suc (X r))) D E s" and h: "v_heap s r = Some q" and rD: "r \<notin> D"
    and k: "vk (r_sub q) \<in> {KGet, KPut, KBlock, KFinish, KInsert, KStart}" and p: "plain_cmpl q"
    and f: "\<And>a. bad_up (f a) \<and> \<not> good_up (f a)"
    and q1: "q1 = q\<lparr>r_outstanding := r_outstanding q - 1\<rparr>"
    and w: "w = id \<or> w = needed_keys_append c key"
  shows "runs_ok X D E s (done_if (r_outstanding q - 1 = 0) r
    (w (if r_outstanding q - 1 = 0 \<and> \<not> r_succeeded q then tell r (r_cmpl q) f (set_req r q1 s) else set_req r q1 s)))"
proof -
  let ?s3 = "if r_outstanding q - 1 = 0 \<and> \<not> r_succeeded q then tell r (r_cmpl q) f (set_req r q1 s) else set_req r q1 s"
  let ?D = "if r_outstanding q - 1 = 0 then insert r D else D"
  have S: "vinv X ?D E ?s3 \<and> grows s ?s3"
    by (rule settle_bad [OF I h rD k p q1, where f = f]) (use f in auto)
  have V: "vinv X ?D E (w ?s3)" using w vinv_needed [OF conjunct1 [OF S]] S by (elim disjE) simp_all
  have g: "grows ?s3 (w ?s3)" using w by (auto simp: needed_keys_append_def grows_same)
  have "kind_at (w ?s3) r = Some (vk (r_sub q))"
    using w by (auto simp: kind_at_def q1 needed_keys_append_def)
  with V have "runs_ok X D E (w ?s3) (done_if (r_outstanding q - 1 = 0) r (w ?s3))"
    using k rD by (intro done_if_inv [where D' = ?D]) auto
  then show ?thesis by (rule runs_ok_grows) (rule grows_trans [OF conjunct2 [OF S] g])
qed

lemma bp_inv:
  assumes I: "vinv (X(r := Suc (X r))) D E s" and h: "v_heap s r = Some q" "r_sub q = VPut k blk"
    and rD: "r \<notin> D" and p: "plain_cmpl q"
  shows "runs_ok X D E s (bp_complete r c s)" "runs_ok X D E s (bp_error r e s)"
proof -
  let ?s1 = "report_put c (length blk) s"
  have I1: "vinv (X(r := Suc (X r))) D E ?s1" and h1: "v_heap ?s1 r = Some q" and g: "grows s ?s1"
    using vinv_report(2) [OF I] h by (simp_all add: report_put_def grows_same)
  show "runs_ok X D E s (bp_complete r c s)"
    using good_op [OF I1 h1 rD _ p, of "\<lambda>a. Bp_complete a k"] h
    by (intro runs_ok_grows [OF _ g]) (simp add: bp_complete_def first_good_def Let_def good_up_def bad_up_def)
  show "runs_ok X D E s (bp_error r e s)"
    using bad_op [OF I h(1) rD _ p, of "\<lambda>a. Bp_error a k e" _ id] h
    by (simp add: bp_error_def last_bad_def Let_def good_up_def bad_up_def)
qed

lemma rb_inv:
  assumes I: "vinv (X(r := Suc (X r))) D E s" and h: "v_heap s r = Some q" "r_sub q = VRefreshBlock i k"
    and rD: "r \<notin> D" and p: "plain_cmpl q"
  shows "runs_ok X D E s (rb_complete r s)" "runs_ok X D E s (rb_missing r c s)"
  using good_op [OF I h(1) rD _ p, of "\<lambda>a. Rb_complete a k"]
    bad_op [OF I h(1) rD _ p, of "\<lambda>a. Rb_missing a k" _ "needed_keys_append c k" c k] h
  by (simp_all add: rb_complete_def rb_missing_def first_good_def last_bad_def Let_def good_up_def bad_up_def)

lemma rf_inv:
  assumes I: "vinv (X(r := Suc (X r))) D E s" and h: "v_heap s r = Some q" "r_sub q = VRefreshFinish i"
    and rD: "r \<notin> D" and p: "plain_cmpl q"
  shows "runs_ok X D E s (rf_complete r s)" "runs_ok X D E s (rf_error r e s)"
  using good_op [OF I h(1) rD _ p, of "\<lambda>a. Rf_complete a i"]
    bad_op [OF I h(1) rD _ p, of "\<lambda>a. Rf_error a i e" _ id] h
  by (simp_all add: rf_complete_def rf_error_def first_good_def last_bad_def Let_def good_up_def bad_up_def)

lemma rs_inv:
  assumes I: "vinv (X(r := Suc (X r))) D E s" and h: "v_heap s r = Some q" "r_sub q = VRefreshStart i"
    and rD: "r \<notin> D" and p: "plain_cmpl q"
  shows "runs_ok X D E s (rs_complete r s)" "runs_ok X D E s (rs_error r e s)"
proof -
  show "runs_ok X D E s (rs_error r e s)"
    using bad_op [OF I h(1) rD _ p, of "\<lambda>a. Rs_error a i e" _ id] h
    by (simp add: rs_error_def last_bad_def Let_def good_up_def bad_up_def)
  define q1 where "q1 = q\<lparr>r_succeeded := True, r_outstanding := r_outstanding q - 1\<rparr>"
  let ?b = "r_outstanding q - 1 = 0"
  let ?D = "if ?b then insert r D else D"
  define s3 where "s3 = (if ?b then tell r (r_cmpl q) (\<lambda>a. Rs_complete a i) (set_req r q1 s) else set_req r q1 s)"
  have "vinv X ?D E s3"
  proof (rule settle [OF I h(1) rD, where q' = q1 and cm = "if ?b then r_cmpl q else NoCmpl" and f = "\<lambda>a. Rs_complete a i"])
    show "s3 = tell r (if ?b then r_cmpl q else NoCmpl) (\<lambda>a. Rs_complete a i) (set_req r q1 s)" by (simp add: s3_def)
    show "data_ok s r q1" by (rule data_ok_same [OF I h(1)]) (simp add: q1_def)
    assume A: "rok (length (v_children s)) (occ s r + Suc (X r)) (r \<in> v_requests s) False (goods s r) (bads s r) 0 q"
      "\<not> needy_q q" "1 \<le> r_outstanding q"
    show "case r_cmpl q of NoCmpl \<Rightarrow> goods s3 r = 0 \<and> bads s3 r = 0
       | Client a \<Rightarrow> rep_client q1 (goods s3 r) (bads s3 r) | Inner _ _ \<Rightarrow> False"
      using A h p
      by (auto simp: rok_def rep_client_def rep_start_def q1_def s3_def goods_tell good_up_def bad_up_def plain_cmpl_def
          split: vcmpl.splits)
  qed (use h p in \<open>auto simp: q1_def needy_q_def\<close>)
  moreover have g: "grows s s3" using h by (auto simp: s3_def q1_def grows_def)
  moreover have "kind_at s3 r = Some KStart" using h by (simp add: s3_def kind_at_def q1_def)
  ultimately have "runs_ok X D E s3 (done_if ?b r s3)" using rD by (intro done_if_inv [where D' = ?D]) auto
  moreover have "rs_complete r s = done_if ?b r s3"
    using h by (simp add: rs_complete_def last_any_def Let_def s3_def q1_def)
  ultimately show "runs_ok X D E s (rs_complete r s)" using runs_ok_grows [OF _ g] by simp
qed

subsection \<open>Gets\<close>

lemma plain_kind:
  assumes "vinv X D E s" "v_heap s r = Some q" "vk (r_sub q) \<notin> {KInsert, KFill, KSub}"
  shows "plain_cmpl q"
  using vinv_rok(1) [OF assms(1,2)] assms(3)
  by (cases "r_cmpl q"; cases "r_sub q") (simp_all add: rok_def plain_cmpl_def)

lemma vinv_dequeue:
  assumes "vinv X D E s" "c \<in> set (vnames s)"
    and "\<And>x. count_list (c_queued (child_of s c)) x = count_list (c_queued (f (child_of s c))) x + of_bool (x = r)"
    and "queue_kind (child_of s c) s \<Longrightarrow> queue_kind (f (child_of s c)) s"
  shows "vinv (X(r := Suc (X r))) D E (upd_child c f s)"
proof -
  have d: "distinct (vnames s)" "vtyped s" "snd ` set (v_flying s) \<subseteq> set (vnames s)"
    using assms(1) by (simp_all add: vinv_def)
  show ?thesis
  proof (rule vinv_queues [OF assms(1)])
    show "same_core s (upd_child c f s)" by (simp add: same_core_def)
    show "vtyped (upd_child c f s)" using d assms(4) by (intro vtyped_upd) auto
    show "occ (upd_child c f s) x + (X(r := Suc (X r))) x = occ s x + X x" for x
      using occ_upd [OF d(1) assms(2), of f x] assms(3) [of x] by (cases "x = r") simp_all
  qed (use d in simp_all)
qed

lemma count_remove1: "r \<in> set xs \<Longrightarrow> count_list xs x = count_list (remove1 r xs) x + of_bool (x = r)"
  by (induction xs) auto

lemma bg_error_inv:
  assumes I: "vinv (X(r := Suc (X r))) D E s" and k: "kind_at s r = Some KGet" and rD: "r \<notin> D"
  shows "runs_ok X D E s (bg_error r c e s)"
proof -
  obtain q g where h: "v_heap s r = Some q" "r_sub q = VGet g"
    using k by (auto simp: kind_at_def elim!: vk.elims [where y = KGet])
  have p: "plain_cmpl q" using plain_kind [OF I h(1)] h(2) by simp
  show ?thesis
  proof (cases "e = NotFoundError")
    case True
    then show ?thesis
      using bad_op [OF I h(1) rD _ p, of "\<lambda>a. Bg_error a (g_key g) NotFoundError" _ "needed_keys_append c (g_key g)" c "g_key g"] h
      by (simp add: bg_error_def last_bad_def Let_def good_up_def bad_up_def)
  next
    case False
    then show ?thesis
      using bad_op [OF I h(1) rD _ p, of "\<lambda>a. Bg_error a (g_key g) e" _ id] h
      by (simp add: bg_error_def last_bad_def Let_def good_up_def bad_up_def)
  qed
qed

lemma cancel_get_child:
  assumes I: "vinv X D E s" and c: "c \<in> set (vnames s)" and e: "VBSChild_cancel_get c k s = (s', grh)"
  shows "(case grh of None \<Rightarrow> s' = s | Some r \<Rightarrow> vinv (X(r := Suc (X r))) D E s' \<and> kind_at s r = Some KGet) \<and>
    v_heap s' = v_heap s \<and> v_next s' = v_next s \<and> vnames s' = vnames s"
proof (cases "find (\<lambda>r. get_key s r = Some k) (c_getreqs (child_of s c))")
  case None
  with e show ?thesis by (auto simp: VBSChild_cancel_get_def)
next
  case (Some r)
  then have r: "r \<in> set (c_getreqs (child_of s c))" "get_key s r = Some k"
    by (auto simp: find_Some_iff in_set_conv_nth)
  let ?f = "\<lambda>ch. ch\<lparr>c_getreqs := remove1 r (c_getreqs ch)\<rparr>"
  have e': "grh = Some r" "s' = upd_child c ?f s" using e Some by (auto simp: VBSChild_cancel_get_def)
  have "vinv (X(r := Suc (X r))) D E (upd_child c ?f s)"
  proof (rule vinv_dequeue [OF I c])
    show "count_list (c_queued (child_of s c)) x = count_list (c_queued (?f (child_of s c))) x + of_bool (x = r)" for x
      using count_remove1 [OF r(1), of x] by (simp add: c_queued_def)
    show "queue_kind (?f (child_of s c)) s" if "queue_kind (child_of s c) s"
      using that set_remove1_subset [of r "c_getreqs (child_of s c)"] by (auto simp: queue_kind_def)
  qed
  moreover have "kind_at s r = Some KGet"
    using r(2) by (auto simp: get_key_def kind_at_def split: option.splits vsub.splits)
  ultimately show ?thesis by (simp add: e')
qed

lemma cancel_scan_inv:
  assumes "vinv X D E s" "set cs \<subseteq> set (vnames s)" "cancel_scan h k cs s = (s', reqs)"
  shows "vinv (\<lambda>x. X x + count_list (map snd reqs) x) D E s' \<and> v_heap s' = v_heap s \<and> v_next s' = v_next s \<and>
    vnames s' = vnames s \<and> (\<forall>(c, r) \<in> set reqs. kind_at s r = Some KGet)"
  using assms
proof (induction cs arbitrary: s s' reqs X)
  case (Cons c cs)
  show ?case
  proof (cases "c = h")
    case True
    with Cons show ?thesis by simp
  next
    case False
    obtain s1 grh where 1: "VBSChild_cancel_get c k s = (s1, grh)" by fastforce
    obtain s2 reqs2 where 2: "cancel_scan h k cs s1 = (s2, reqs2)" by fastforce
    have cs: "c \<in> set (vnames s)" using Cons.prems(2) by simp
    note C = cancel_get_child [OF Cons.prems(1) cs 1]
    have res: "s' = s2" "reqs = (case grh of None \<Rightarrow> reqs2 | Some r \<Rightarrow> (c, r) # reqs2)"
      using Cons.prems(3) False 1 2 by auto
    have sub: "set cs \<subseteq> set (vnames s1)" using C Cons.prems(2) by simp
    have kk: "kind_at s1 = kind_at s" using C by (simp add: kind_at_def fun_eq_iff)
    show ?thesis
    proof (cases grh)
      case None
      with C have "s1 = s" by simp
      with Cons.IH [OF Cons.prems(1) _ 2 [unfolded \<open>s1 = s\<close>]] sub res None show ?thesis by simp
    next
      case (Some r)
      with C have V: "vinv (X(r := Suc (X r))) D E s1" "kind_at s r = Some KGet" by simp_all
      have "(\<lambda>x. (X(r := Suc (X r))) x + count_list (map snd reqs2) x) = (\<lambda>x. X x + count_list (map snd reqs) x)"
        using res Some by (auto simp: fun_eq_iff)
      with Cons.IH [OF V(1) sub 2] V(2) C res Some kk show ?thesis by simp
    qed
  qed
qed simp

lemma cancel_each_inv:
  assumes "vinv (\<lambda>x. X x + count_list (map snd reqs) x) D E s" "\<forall>(c, r) \<in> set reqs. kind_at s r = Some KGet"
    and "\<forall>x \<in> D. \<forall>q. v_heap s x = Some q \<longrightarrow> \<not> needy_q q"
  shows "runs_ok X D E s (veach (\<lambda>(c, r). bg_error r c e) reqs s)"
  using assms
proof (induction reqs arbitrary: s)
  case Nil
  then show ?case by (simp add: runs_ok_def)
next
  case (Cons cr reqs)
  obtain c r where cr: "cr = (c, r)" by fastforce
  define Y where "Y = (\<lambda>x. X x + count_list (map snd reqs) x)"
  have "(\<lambda>x. X x + count_list (map snd (cr # reqs)) x) = Y(r := Suc (Y r))"
    by (auto simp: Y_def cr fun_eq_iff)
  with Cons.prems(1) have I: "vinv (Y(r := Suc (Y r))) D E s" by simp
  have k: "kind_at s r = Some KGet" using Cons.prems(2) cr by simp
  obtain q where q: "v_heap s r = Some q" "vk (r_sub q) = KGet" using k by (auto simp: kind_at_def)
  have rD: "r \<notin> D"
  proof (cases "needy_q q")
    case True
    with Cons.prems(3) q show ?thesis by blast
  next
    case False
    show ?thesis by (rule pending_open(2) [OF I q(1) _ _ False]) (simp_all add: q)
  qed
  have "runs_ok X D E s (vthen (bg_error r c e s) (veach (\<lambda>(c, r). bg_error r c e) reqs))"
  proof (rule runs_ok_then [OF bg_error_inv [OF I k rD]])
    fix s1 assume V: "vinv Y D E s1" and g: "grows s s1"
    show "runs_ok X D E s1 (veach (\<lambda>(c, r). bg_error r c e) reqs s1)"
    proof (rule Cons.IH)
      show "vinv (\<lambda>x. X x + count_list (map snd reqs) x) D E s1" using V by (simp add: Y_def)
      show "\<forall>(c, r) \<in> set reqs. kind_at s1 r = Some KGet"
        using Cons.prems(2) grows_kind [OF g] by fastforce
      show "\<forall>x \<in> D. \<forall>q. v_heap s1 x = Some q \<longrightarrow> \<not> needy_q q"
      proof (intro ballI allI impI)
        fix x q1 assume x: "x \<in> D" "v_heap s1 x = Some q1"
        have "x < v_next s" using I x(1) unfolding vinv_def by (meson not_less)
        then obtain q0 where "v_heap s x = Some q0" using I unfolding vinv_def by (metis domD lessThan_iff)
        with g x Cons.prems(3) show "\<not> needy_q q1" unfolding grows_def needy_q_def by force
      qed
    qed
  qed
  then show ?case by (simp add: cr)
qed

lemma cancel_inv:
  assumes "vinv X D E s" "\<forall>x \<in> D. \<forall>q. v_heap s x = Some q \<longrightarrow> \<not> needy_q q"
  shows "runs_ok X D E s (VBlockStore_cancel_get c k s)"
proof -
  obtain s1 reqs where 1: "cancel_scan c k (vnames s) s = (s1, reqs)" by fastforce
  note C = cancel_scan_inv [OF assms(1) subset_refl 1]
  have kk: "kind_at s1 = kind_at s" using C by (simp add: kind_at_def fun_eq_iff)
  have "runs_ok X D E s1 (veach (\<lambda>(c, r). bg_error r c InternalError) reqs s1)"
    using C assms(2) by (intro cancel_each_inv) (simp_all add: kk)
  then show ?thesis using C 1 by (auto simp: VBlockStore_cancel_get_def intro: runs_ok_grows grows_same)
qed

lemma grows_new: "vinv X D E s \<Longrightarrow> v_heap s' = (v_heap s)(v_next s \<mapsto> q0) \<Longrightarrow> vnames s' = vnames s \<Longrightarrow>
   v_next s \<le> v_next s' \<Longrightarrow> grows s s'"
  unfolding grows_def vinv_def by (metis domI fun_upd_other lessThan_iff less_irrefl)

lemma vinv_X_cong: "vinv X D E s \<Longrightarrow> (\<And>x. X x = Y x) \<Longrightarrow> vinv Y D E s"
  by (metis ext)

lemma fresh_X: "vinv X D E s \<Longrightarrow> X (v_next s) = 0" "vinv X D E s \<Longrightarrow> v_heap s (v_next s) = None"
  by (auto simp: vinv_def)

lemma needy_put_inv:
  assumes I: "vinv X D E s" and n: "set needy \<subseteq> set (vnames s)"
  shows "vinv X D E (needy_put needy k blk s) \<and> grows s (needy_put needy k blk s)"
proof (cases "needy = []")
  case True
  with I show ?thesis by (simp add: needy_put_def)
next
  case False
  define s1 where "s1 = insert_req (v_next s) (new_req (length needy) NoCmpl (VPut k blk) s)"
  have V: "vinv (X(v_next s := length needy)) D E s1"
  proof (rule vinv_new [OF I refl, where b = True and d = False])
    show "s1 = (if True then insert_req (v_next s) (new_req (length needy) NoCmpl (VPut k blk) s)
        else new_req (length needy) NoCmpl (VPut k blk) s)" by (simp add: s1_def)
  qed (use False in \<open>simp_all add: child_open_def data_ok_def rok_def open_q_def needy_q_def\<close>)
  have "vinv X D E (fold (enqueue_put (v_next s)) needy s1)"
    by (rule eq_put.fold_inv) (use V n fresh_X(1) [OF I] in \<open>auto simp: s1_def kind_at_def\<close>)
  moreover have "grows s (fold (enqueue_put (v_next s)) needy s1)"
    by (rule grows_new [OF I]) (simp_all add: eq_put.fold_core, simp_all add: s1_def)
  ultimately show ?thesis using False by (simp add: needy_put_def Let_def s1_def)
qed

lemma bg_complete_inv:
  assumes I: "vinv (X(r := Suc (X r))) {} E s" and h: "v_heap s r = Some q" "r_sub q = VGet g"
    and n: "n \<le> length (g_blk g)"
  shows "runs_ok X {} E s (bg_complete r c n s)"
proof -
  define s1 where "s1 = report_get c n s"
  have I1: "vinv (X(r := Suc (X r))) {} E s1" and h1: "v_heap s1 r = Some q" and g1: "grows s s1"
    using vinv_report(1) [OF I] h by (simp_all add: s1_def report_get_def grows_same)
  have p: "plain_cmpl q" using plain_kind [OF I h(1)] h(2) by simp
  let ?first = "\<not> r_succeeded q"
  define needy where "needy = (if ?first then g_needy g else [])"
  define gg where "gg = (if ?first then g\<lparr>g_retsize := n, g_needy := []\<rparr> else g)"
  define q1 where "q1 = q\<lparr>r_succeeded := True, r_outstanding := r_outstanding q - 1, r_sub := VGet gg\<rparr>"
  let ?u = "\<lambda>a. Bg_complete a (g_key g) (if g_hasbuf g then take n (g_blk g) else [])"
  define s3 where "s3 = (if ?first then tell r (r_cmpl q) ?u (set_req r q1 s1) else set_req r q1 s1)"
  let ?D = "if r_outstanding q - 1 = 0 then {r} else {}"
  have dk: "data_ok s1 r q" using vinv_rok(2) [OF I1 h1] .
  have rk: "r_cmpl q \<noteq> NoCmpl \<Longrightarrow> g_needy g = []"
    using vinv_rok(1) [OF I h(1)] h(2) p by (cases "r_cmpl q") (auto simp: rok_def rep_client_def plain_cmpl_def)
  have S: "vinv X ?D E s3 \<and> grows s1 s3"
  proof (rule settle_good [OF I1 h1 _ _ p q1_def, where f = ?u])
    show "data_ok s1 r q1" using dk h(2) by (auto simp: data_ok_def q1_def gg_def)
    show "g_needy g' = []" if "VGet gg = VGet g'" "r_cmpl q \<noteq> NoCmpl" for g'
      using that rk by (auto simp: gg_def)
  qed (use h in \<open>auto simp: good_up_def bad_up_def s3_def\<close>)
  have sub: "set needy \<subseteq> set (vnames s1)" using dk h(2) by (auto simp: needy_def data_ok_def)
  define x where "x = (if ?first \<and> r_cmpl q \<noteq> NoCmpl then VBlockStore_cancel_get c (g_key g) s3 else (s3, Inr ()))"
  have C: "runs_ok X ?D E s3 x"
  proof (cases "?first \<and> r_cmpl q \<noteq> NoCmpl")
    case True
    have "\<not> needy_q q'" if "v_heap s3 r = Some q'" for q'
      using that True by (auto simp: s3_def q1_def needy_q_def split: if_splits)
    with S True show ?thesis by (auto simp: x_def intro!: cancel_inv)
  next
    case False
    with S show ?thesis unfolding x_def by (auto simp: runs_ok_def)
  qed
  have k3: "kind_at s3 r = Some KGet" by (simp add: s3_def kind_at_def q1_def)
  let ?f = "\<lambda>s4. done_if (r_outstanding q - 1 = 0) r (needy_put needy (g_key g) (take (g_retsize gg) (g_blk gg)) s4)"
  have "runs_ok X {} E s3 (vthen x ?f)"
  proof (rule runs_ok_then [OF C])
    fix s4 assume V: "vinv X ?D E s4" and g4: "grows s3 s4"
    let ?s5 = "needy_put needy (g_key g) (take (g_retsize gg) (g_blk gg)) s4"
    have "set needy \<subseteq> set (vnames s4)" using sub g4 S by (simp add: grows_def)
    note N = needy_put_inv [OF V this, of "g_key g" "take (g_retsize gg) (g_blk gg)"]
    have "kind_at ?s5 r = Some KGet" using k3 g4 N grows_kind by blast
    then have "runs_ok X {} E ?s5 (?f s4)" using N by (intro done_if_inv [where D' = ?D]) auto
    then show "runs_ok X {} E s4 (?f s4)" using N by (auto intro: runs_ok_grows)
  qed
  moreover have "bg_complete r c n s = vthen x ?f"
    using h n by (simp add: bg_complete_def first_good_def Let_def x_def s3_def s1_def q1_def gg_def needy_def
        cong: if_cong)
  ultimately show ?thesis using S g1 by (metis (no_types, lifting) grows_trans runs_ok_grows)
qed

text \<open>What a child delivers before its answer changes the data of a request only.\<close>

lemma vinv_touch:
  assumes I: "vinv X D E s" and h: "v_heap s r = Some q"
    and q': "vk (r_sub q') = vk (r_sub q)" "r_cmpl q' = r_cmpl q" "r_outstanding q' = r_outstanding q" "r_succeeded q' = r_succeeded q"
    and k: "vk (r_sub q) \<in> {KGet, KFollow}" "data_ok s r q'"
    and n: "\<And>g g'. r_sub q = VGet g \<Longrightarrow> r_sub q' = VGet g' \<Longrightarrow> g_needy g' = g_needy g"
  shows "vinv X D E (set_req r q' s)"
proof -
  have oq: "open_q q' = open_q q" "needy_q q' = needy_q q"
    using q' k(1) by (auto simp: open_q_def needy_q_def split: vsub.splits)
  have ch: "child_open x q = False" "child_open x q' = False" for x
    using k(1) q' by (auto simp: child_open_def)
  have dom: "dom (v_heap s) = {..<v_next s}" using I by (simp add: vinv_def)
  have kid: "kids (set_req r q' s) x = kids s x" for x using kids_set [OF dom h, of q' x] by (simp add: ch)
  show ?thesis
  proof (rule vinv_set [OF I h q'(1), where cm = NoCmpl])
    show "links D (set_req r q' s)"
      by (rule links_plain [of D]) (use I h q' k in \<open>auto simp: vinv_def\<close>)
    show "E x = 0" if "v_next s \<le> x" for x using I that by (simp add: vinv_def)
    have "rok a b' m d lg lb kk q' = rok a b' m d lg lb kk q" for a b' m d lg lb kk
    proof -
      consider (get) g g' where "r_sub q = VGet g" "r_sub q' = VGet g'"
        | (follow) hn es hn' es' where "r_sub q = VHeadFollow hn es" "r_sub q' = VHeadFollow hn' es'"
        using k(1) q'(1) by (cases "r_sub q"; cases "r_sub q'") auto
      then show ?thesis
      proof cases
        case get
        then show ?thesis using q'(2-4) oq n [OF get]
          by (cases "r_cmpl q") (simp_all add: rok_def rep_client_def rep_first_def)
      next
        case follow
        then show ?thesis using q'(2-4) oq by (cases "r_cmpl q") (simp_all add: rok_def rep_client_def rep_all_def)
      qed
    qed
    with vinv_rok(1) [OF I h] show "rok (length (v_children s)) (occ s r + X r) (r \<in> v_requests s) (r \<in> D)
        (goods (set_req r q' s) r) (bads (set_req r q' s) r) (kids (set_req r q' s) r + E r) q'"
      by (simp add: kid)
  qed (use k kid in auto)
qed

lemma get_data_inv:
  assumes I: "vinv X D E s" and h: "v_heap s r = Some q" "r_sub q = VGet g" and f: "r \<in> fst ` set (v_flying s)"
    and d: "length d \<le> g_buffsize g"
  shows "runs_ok X D E s (get_data r d s)"
proof -
  let ?q = "q\<lparr>r_sub := VGet (g\<lparr>g_blk := memcpy_at (g_blk g) 0 d\<rparr>)\<rparr>"
  have "data_ok s r q" using vinv_rok(2) [OF I h(1)] .
  then have "data_ok s r ?q" using h(2) f d by (simp add: data_ok_def)
  then have "vinv X D E (set_req r ?q s)"
    using h by (intro vinv_touch [OF I h(1)]) auto
  then show ?thesis using h by (simp add: get_data_def runs_ok_def grows_set)
qed

subsection \<open>Following heads\<close>

lemma follow_edge_inv:
  assumes I: "vinv X D E s" and h: "v_heap s r = Some q" "r_sub q = VHeadFollow hn es"
  shows "follow_edge parse r she s = (s, Inl InternalError) \<or> runs_ok X D E s (follow_edge parse r she s)"
proof (cases "LameEdge parse she")
  case (Inl e)
  then show ?thesis using h by (auto simp: follow_edge_def LameEdge_def split: option.splits)
next
  case (Inr leh)
  let ?q = "q\<lparr>r_sub := VHeadFollow hn (edge_insert leh es)\<rparr>"
  have "vinv X D E (set_req r ?q s)"
    using h by (intro vinv_touch [OF I h(1)]) (auto simp: data_ok_def)
  then show ?thesis using h Inr by (simp add: follow_edge_def runs_ok_def grows_set)
qed

lemma vinv_log:
  assumes "vinv X D E s" "s' = s\<lparr>v_log := l\<rparr>" "\<And>x. goods s' x = goods s x \<and> bads s' x = bads s x"
  shows "vinv X D E s'"
proof (rule vinv_change [OF assms(1), where R = "{}"])
  show "links D s'" using assms(1,2) by (simp add: vinv_def links_def up_ok_def down_ok_def kind_at_def sub_held_def)
  show "E x = 0" if "v_next s' \<le> x" for x using assms(1,2) that by (auto simp: vinv_def)
  show "dom (v_heap s') = {..<v_next s'}" using assms(1,2) by (auto simp: vinv_def)
qed (use assms(2,3) in \<open>simp_all add: kind_at_def kids_def\<close>)

text \<open>Edges and nodes told to the client count neither as good nor as bad reports.\<close>

definition log_neutral :: "vbs \<Rightarrow> vbs \<Rightarrow> bool" where
  "log_neutral s s' = (s' = s\<lparr>v_log := v_log s'\<rparr> \<and> (\<forall>x. goods s' x = goods s x \<and> bads s' x = bads s x))"

lemma log_neutral_refl [simp]: "log_neutral s s"
  by (simp add: log_neutral_def)

lemma log_neutral_trans: "log_neutral s s1 \<Longrightarrow> log_neutral s1 s2 \<Longrightarrow> log_neutral s s2"
  unfolding log_neutral_def by (metis vbs.surjective vbs.update_convs(9))

lemma log_neutral_tell: "(\<And>a. \<not> good_up (f a) \<and> \<not> bad_up (f a)) \<Longrightarrow> log_neutral s (tell r cm f s)"
  by (auto simp: log_neutral_def goods_def bads_def tell_def vlog_def split: vcmpl.splits)

lemma log_neutral_fold:
  assumes "\<And>e a. \<not> good_up (f e a) \<and> \<not> bad_up (f e a)"
  shows "log_neutral s (fold (\<lambda>e. tell r cm (f e)) es s)"
proof (induction es arbitrary: s)
  case (Cons e es)
  show ?case using log_neutral_trans [OF log_neutral_tell [of "f e" s r cm] Cons.IH] assms by simp
qed simp

lemma tell_commute_neutral:
  assumes "log_neutral s s1" shows "\<exists>l. tell r cm f s1 = (tell r cm f s)\<lparr>v_log := l\<rparr>"
    and "goods (tell r cm f s1) x = goods (tell r cm f s) x \<and> bads (tell r cm f s1) x = bads (tell r cm f s) x"
proof -
  obtain l where "s1 = s\<lparr>v_log := l\<rparr>" using assms unfolding log_neutral_def by metis
  then show "\<exists>l. tell r cm f s1 = (tell r cm f s)\<lparr>v_log := l\<rparr>"
    by (cases cm) (auto simp: tell_def vlog_def)
  show "goods (tell r cm f s1) x = goods (tell r cm f s) x \<and> bads (tell r cm f s1) x = bads (tell r cm f s) x"
    using assms by (simp add: goods_tell log_neutral_def)
qed

lemma follow_answer_inv:
  assumes I: "vinv (X(r := Suc (X r))) D E s" and h: "v_heap s r = Some q" "r_sub q = VHeadFollow hn es"
    and rD: "r \<notin> D"
  shows "runs_ok X D E s (follow_answer good r s)"
proof -
  have p: "plain_cmpl q" using plain_kind [OF I h(1)] h(2) by simp
  define q1 where "q1 = q\<lparr>r_succeeded := (good \<or> r_succeeded q), r_outstanding := r_outstanding q - 1\<rparr>"
  let ?last = "r_outstanding q - 1 = 0"
  let ?u = "\<lambda>a. if r_succeeded q1 then Het_complete a else Het_error a NotFoundError"
  define sA where "sA = tell r (if ?last then r_cmpl q else NoCmpl) ?u (set_req r q1 s)"
  have A: "vinv X (if ?last then insert r D else D) E sA"
  proof (rule settle [OF I h(1) rD, where q' = q1 and cm = "if ?last then r_cmpl q else NoCmpl" and f = ?u])
    show "data_ok s r q1" by (rule data_ok_same [OF I h(1)]) (simp add: q1_def)
    assume R: "rok (length (v_children s)) (occ s r + Suc (X r)) (r \<in> v_requests s) False (goods s r) (bads s r) 0 q"
      "\<not> needy_q q" "1 \<le> r_outstanding q"
    show "case r_cmpl q of NoCmpl \<Rightarrow> goods sA r = 0 \<and> bads sA r = 0
       | Client a \<Rightarrow> rep_client q1 (goods sA r) (bads sA r) | Inner _ _ \<Rightarrow> False"
      using R h p
      by (auto simp: rok_def rep_client_def rep_all_def q1_def sA_def goods_tell good_up_def bad_up_def plain_cmpl_def
          split: vcmpl.splits)
  qed (use h p in \<open>auto simp: q1_def sA_def needy_q_def\<close>)
  have gA: "grows s sA" using h by (auto simp: sA_def q1_def grows_def)
  show ?thesis
  proof (cases ?last)
    case False
    with h have "follow_answer good r s = (sA, Inr ())"
      by (simp add: follow_answer_def last_any_def Let_def sA_def q1_def)
    then show ?thesis using A gA False by (simp add: runs_ok_def)
  next
    case True
    define s1 where "s1 = (if r_succeeded q1 then fold (\<lambda>leh. tell r (r_cmpl q) (\<lambda>a. Het_edge a (le_she leh))) es (set_req r q1 s)
       else set_req r q1 s)"
    define sB where "sB = tell r (r_cmpl q) ?u s1"
    have ln: "log_neutral (set_req r q1 s) s1"
      by (auto simp: s1_def good_up_def bad_up_def intro: log_neutral_fold)
    obtain l where l: "sB = sA\<lparr>v_log := l\<rparr>"
      using tell_commute_neutral(1) [OF ln, of r "r_cmpl q" ?u] True by (auto simp: sB_def sA_def)
    have "goods sB x = goods sA x \<and> bads sB x = bads sA x" for x
      using tell_commute_neutral(2) [OF ln, of r "r_cmpl q" ?u x] True by (simp add: sB_def sA_def)
    with l have B: "vinv X (insert r D) E sB" using vinv_log [of X "insert r D" E sA sB l] A True by simp
    have hB: "v_heap sB = v_heap sA" "v_next sB = v_next sA" "vnames sB = vnames sA" by (simp_all add: l vnames_def)
    have "kind_at sB r = Some KFollow" using h by (simp add: kind_at_def hB sA_def q1_def)
    then have "runs_ok X D E sB (done_if True r sB)" using B rD by (intro done_if_inv [where D' = "insert r D"]) auto
    moreover have "grows s sB" using gA grows_same [of sB sA] hB grows_trans by blast
    moreover have "follow_answer good r s = done_if True r sB"
      using True h by (simp add: follow_answer_def last_any_def Let_def follow_complete_def done_if_def sB_def s1_def q1_def)
    ultimately show ?thesis by (simp add: runs_ok_grows)
  qed
qed

end
