(* ===== verification/VBS_Anneal.thy ===== *)
theory VBS_Anneal
  imports VBS_Answers
begin

text \<open>
  The callbacks of the search for the furthest heads keep the invariant: the top request, its
  surveys, the follow-fills and the insertions they make.
\<close>

subsection \<open>Surveys\<close>

lemma top_open:
  assumes I: "vinv X D E s" and h: "v_heap s t = Some q" "r_sub q = VFurthestTop ft"
    and o: "t_subfurther ft \<noteq> None \<or> 0 < t_ffout ft" and m: "t \<in> v_requests s" and d: "t \<notin> D"
  shows "goods s t = 0 \<and> bads s t = 0"
  using vinv_rok(1) [OF I h(1)] h(2) o m d
  by (cases "r_cmpl q") (auto simp: rok_def open_q_def split: if_splits)

lemma upd_top_set:
  "v_heap s t = Some q \<Longrightarrow> r_sub q = VFurthestTop ft \<Longrightarrow> upd_top t f s = set_req t (q\<lparr>r_sub := VFurthestTop (f ft)\<rparr>) s"
  by (simp add: upd_top_def)

lemma sub_held_top: "v_heap s t = Some q \<Longrightarrow> r_sub q = VFurthestTop ft \<Longrightarrow> sub_held s u t = (t_subfurther ft = Some u)"
  by (simp add: sub_held_def)

lemma survey_core:
  assumes I: "vinv X (insert t D) E s" and tD: "t \<notin> D" and h: "v_heap s t = Some q" "r_sub q = VFurthestTop ft"
    and c: "t_subfurther ft = None" "t_ffout ft = 0" and g: "goods s t = 0" "bads s t = 0" and a: "a \<le> 2"
    and u: "u = v_next s" and b: "vk sub = KSub"
    and s2: "s2 = insert_req u (upd_top t (\<lambda>ft. ft\<lparr>t_subfurther := Some u\<rparr>) (new_req (length (v_children s)) (Inner t a) sub s))"
  shows "vinv (X(u := length (v_children s))) D E s2"
proof -
  note v = I [unfolded vinv_def]
  define uq where "uq = \<lparr>r_succeeded = False, r_outstanding = int (length (v_children s)), r_cmpl = Inner t a, r_sub = sub\<rparr>"
  define q1 where "q1 = q\<lparr>r_sub := VFurthestTop (ft\<lparr>t_subfurther := Some u\<rparr>)\<rparr>"
  define s1 where "s1 = new_req (length (v_children s)) (Inner t a) sub s"
  have un: "v_heap s u = None" using fresh_X(2) [OF I] u by simp
  have tu: "t \<noteq> u" using un h by auto
  have n0: "0 < length (v_children s)" using v by simp
  have h1: "v_heap s1 t = Some q" using h tu u by (simp add: s1_def)
  have e2: "s2 = insert_req u (set_req t q1 s1)"
    using upd_top_set [OF h1 h(2)] by (simp add: s2 s1_def q1_def)
  have hp: "v_heap s2 = (v_heap s)(u \<mapsto> uq, t \<mapsto> q1)" by (simp add: e2 s1_def uq_def u)
  have rq: "v_requests s2 = insert u (v_requests s)" by (simp add: e2 s1_def)
  have pl: "plain_cmpl q" using plain_kind [OF I h(1)] h(2) by simp
  have oq: "open_q uq" "open_q q1" using n0 b by (auto simp: uq_def open_q_def q1_def split: vsub.splits)
  have rk: "rok (length (v_children s)) (occ s t + X t) (t \<in> v_requests s) True (goods s t) (bads s t) (kids s t + E t) q"
    using vinv_rok(1) [OF I h(1)] by simp
  obtain cl where cl: "r_cmpl q = Client cl" using rk pl h(2) by (cases "r_cmpl q") (auto simp: rok_def plain_cmpl_def)
  have k0: "kids s t + E t = 0" using rk h(2) c(2) cl by (simp add: rok_def)
  have kid: "kids s2 p = kids s p" for p
  proof -
    have d1: "dom (v_heap s1) = {..<v_next s1}" using v by (auto simp: s1_def)
    have "kids s1 p = kids s p" using kids_new [of s s1 uq p] v b by (simp add: s1_def uq_def child_open_def)
    moreover have "kids (set_req t q1 s1) p = kids s1 p"
      using kids_set [OF d1 h1, of q1 p] cl h(2) by (simp add: child_open_def q1_def)
    moreover have "kids s2 p = kids (set_req t q1 s1) p" by (simp add: kids_def e2)
    ultimately show ?thesis by simp
  qed
  have hd: "sub_held s2 y p = (if p = t then y = u else sub_held s y p)" for y p
    using un tu h b by (auto simp: sub_held_def hp q1_def uq_def split: vsub.splits option.splits)
  have kd: "kind_at s2 y = (if y = u then Some KSub else kind_at s y)" for y
    using tu h by (simp add: kind_at_def hp uq_def b q1_def)
  have kn: "kind_at s u = None" using un by (simp add: kind_at_def)
  show ?thesis
  proof (rule vinv_change [OF I, where R = "{t, u}"])
    show "kind_at s2 x = kind_at s x" if "kind_at s x \<noteq> None" for x
      using that kn by (auto simp: kd)
    show "links D s2"
      unfolding links_def
    proof (intro conjI allI impI)
      fix x y assume xy: "v_heap s2 x = Some y"
      consider "x = u" | "x = t" | "x \<noteq> u" "x \<noteq> t" by blast
      then show "up_ok s2 x y"
      proof cases
        case 1
        with xy tu have "y = uq" by (simp add: hp)
        moreover have "kind_at s2 t = Some KTop" using h tu by (simp add: kd) (simp add: kind_at_def)
        moreover have "t \<in> v_requests s2" using rk rq by (simp add: rok_def)
        ultimately show ?thesis using 1 by (auto simp: up_ok_def uq_def b parent_kind_def hd)
      next
        case 2
        with xy have "y = q1" by (simp add: hp)
        with cl show ?thesis by (simp add: up_ok_def q1_def)
      next
        case 3
        with xy have "v_heap s x = Some y" by (simp add: hp)
        with v have up: "up_ok s x y" by (simp add: links_def)
        have "kind_at s p = Some k \<Longrightarrow> kind_at s2 p = Some k" for p k using kn by (auto simp: kd)
        moreover have "\<not> sub_held s x t" using sub_held_top [OF h] c by simp
        ultimately show ?thesis using up rq unfolding up_ok_def hd by (metis insertI2)
      qed
    next
      fix x show "down_ok D s2 x"
        unfolding down_ok_def
      proof (intro allI impI)
        fix y assume y: "x \<in> v_requests s2" "sub_held s2 y x"
        show "\<exists>uq a. v_heap s2 y = Some uq \<and> vk (r_sub uq) = KSub \<and> r_cmpl uq = Inner x a \<and> (open_q uq \<or> y \<in> D)"
        proof (cases "x = t")
          case True
          with y have "y = u" by (simp add: hd)
          with True tu oq b show ?thesis by (auto simp: hp uq_def)
        next
          case False
          with y have yx: "sub_held s y x" by (simp add: hd)
          then have "x \<noteq> u" using un by (auto simp: sub_held_def)
          with y rq have "x \<in> v_requests s" by simp
          with yx v obtain uq' a' where w: "v_heap s y = Some uq'" "vk (r_sub uq') = KSub" "r_cmpl uq' = Inner x a'"
              "open_q uq' \<or> y \<in> insert t D"
            unfolding links_def down_ok_def by blast
          have "y \<noteq> t" "y \<noteq> u" using w h un by auto
          with w show ?thesis by (auto simp: hp)
        qed
      qed
    qed
    show "E x = 0" if "v_next s2 \<le> x" for x using v that by (simp add: e2 s1_def)
    show "dom (v_heap s2) = {..<v_next s2}" using v vinv_rok(3) [OF I h(1)] by (auto simp: hp e2 s1_def u)
    show "{t, u} \<subseteq> {..<v_next s2}" using vinv_rok(3) [OF I h(1)] by (simp add: e2 s1_def u)
    have gb: "goods s2 = goods s" "bads s2 = bads s" by (simp_all add: fun_eq_iff goods_def bads_def e2 s1_def)
    show "v_heap s2 x = v_heap s x \<and> (x \<in> v_requests s2 \<longleftrightarrow> x \<in> v_requests s) \<and> (X(u := length (v_children s))) x = X x \<and>
        (x \<in> D \<longleftrightarrow> x \<in> insert t D) \<and> goods s2 x = goods s x \<and> bads s2 x = bads s x \<and> kids s2 x + E x = kids s x + E x"
      if "x \<notin> {t, u}" for x
      using that by (simp add: hp rq gb kid)
    have fr: "occ s u = 0" "u \<notin> D" "goods s u = 0" "bads s u = 0" "E u = 0" "kids s u = 0"
      using v u no_kids [OF I un] by auto
    show "data_ok s x y \<and> rok (length (v_children s)) (occ s x + (X(u := length (v_children s))) x) (x \<in> v_requests s2) (x \<in> D)
        (goods s2 x) (bads s2 x) (kids s2 x + E x) y" if "x \<in> {t, u}" "v_heap s2 x = Some y" for x y
    proof (cases "x = u")
      case True
      with that tu have "y = uq" by (simp add: hp)
      with True fr oq(1) a b show ?thesis
        by (cases sub) (simp_all add: data_ok_def uq_def rok_def rq gb kid needy_q_def)
    next
      case False
      with that have "x = t" "y = q1" by (simp_all add: hp)
      with rk k0 g tD tu oq(2) h(2) cl c show ?thesis
        by (simp add: data_ok_def rok_def rq gb kid needy_q_def q1_def)
    qed
  qed (simp_all add: e2 s1_def)
qed

lemma survey_inv:
  assumes I: "vinv X (insert t D) E s" and tD: "t \<notin> D" and h: "v_heap s t = Some q" "r_sub q = VFurthestTop ft"
    and c: "t_subfurther ft = None" "t_ffout ft = 0" and g: "goods s t = 0" "bads s t = 0" and a: "a \<le> 2"
  shows "vinv X D E (survey t a s) \<and> grows s (survey t a s)"
proof -
  define u where "u = v_next s"
  define sub where "sub = VFurthestSub \<lparr>b_hn = top_hn t s, b_cnsm = (\<lambda>_. None), b_cmnnodes = [], b_unqnodes = []\<rparr>"
  define s1 where "s1 = new_req (length (v_children s)) (Inner t a) sub s"
  define s2 where "s2 = insert_req u (upd_top t (\<lambda>ft. ft\<lparr>t_subfurther := Some u\<rparr>) s1)"
  have V: "vinv (X(u := length (v_children s))) D E s2"
    by (rule survey_core [OF I tD h c g a u_def, of sub]) (simp_all add: sub_def s2_def s1_def)
  have un: "v_heap s u = None" using fresh_X(2) [OF I] u_def by simp
  have tu: "t \<noteq> u" using un h by auto
  have h1: "v_heap s1 t = Some q" using h tu by (simp add: s1_def u_def)
  have e2: "s2 = insert_req u (set_req t (q\<lparr>r_sub := VFurthestTop (ft\<lparr>t_subfurther := Some u\<rparr>)\<rparr>) s1)"
    by (simp add: s2_def upd_top_set [OF h1 h(2)])
  have nm: "vnames s2 = vnames s" by (simp add: e2 s1_def)
  have "vinv X D E (fold (enqueue_headnode u) (vnames s) s2)"
    by (rule eq_head.fold_inv)
      (use V fresh_X(1) [OF I] tu in \<open>auto simp: u_def nm\<close>, auto simp: kind_at_def e2 s1_def sub_def u_def)
  moreover have "grows s s2"
  proof -
    have "grows s s1" by (rule grows_new [OF I]) (simp_all add: s1_def)
    moreover have "grows s1 (set_req t (q\<lparr>r_sub := VFurthestTop (ft\<lparr>t_subfurther := Some u\<rparr>)\<rparr>) s1)"
      using h(2) by (intro grows_set [OF h1]) simp_all
    moreover have "grows (set_req t (q\<lparr>r_sub := VFurthestTop (ft\<lparr>t_subfurther := Some u\<rparr>)\<rparr>) s1) s2"
      by (rule grows_same) (simp_all add: e2)
    ultimately show ?thesis using grows_trans by blast
  qed
  moreover have "grows s2 (fold (enqueue_headnode u) (vnames s) s2)"
    by (rule grows_same) (simp_all add: eq_head.fold_core)
  moreover have "survey t a s = fold (enqueue_headnode u) (vnames s) s2"
    by (simp add: survey_def Let_def s2_def s1_def sub_def u_def)
  ultimately show ?thesis using grows_trans by auto
qed

text \<open>An update of the top request that keeps its survey.\<close>

lemma links_top:
  assumes "links D s" "v_heap s t = Some q" "r_sub q = VFurthestTop ft" "r_cmpl q' = r_cmpl q" "r_sub q' = VFurthestTop ft'"
    and "t_subfurther ft' = t_subfurther ft" "\<And>x. x \<noteq> t \<Longrightarrow> x \<in> D \<Longrightarrow> x \<in> D'"
  shows "links D' (set_req t q' s)"
proof -
  have hd: "sub_held (set_req t q' s) = sub_held s"
    using assms(2,3,5,6) by (auto simp: sub_held_def fun_eq_iff)
  have kd: "kind_at (set_req t q' s) = kind_at s" using assms(2,3,5) by (intro kind_set) auto
  have "up_ok (set_req t q' s) x y" if "v_heap (set_req t q' s) x = Some y" for x y
  proof (cases "x = t")
    case True
    with that have "y = q'" by simp
    moreover from assms(1,2) have "up_ok s t q" by (simp add: links_def)
    ultimately show ?thesis using assms(3-5) by (simp add: up_ok_def kd hd parent_kind_def)
  next
    case False
    with that assms(1) have "up_ok s x y" by (simp add: links_def)
    then show ?thesis by (simp add: up_ok_def hd kd)
  qed
  moreover have "down_ok D' (set_req t q' s) x" for x
    unfolding down_ok_def
  proof (intro allI impI)
    fix u assume "x \<in> v_requests (set_req t q' s)" "sub_held (set_req t q' s) u x"
    then obtain uq a where u: "v_heap s u = Some uq" "vk (r_sub uq) = KSub" "r_cmpl uq = Inner x a" "open_q uq \<or> u \<in> D"
      using assms(1) unfolding links_def down_ok_def hd set_req_fields by blast
    with assms(2,3) have "u \<noteq> t" by auto
    with u assms(7) show "\<exists>uq a. v_heap (set_req t q' s) u = Some uq \<and> vk (r_sub uq) = KSub \<and>
        r_cmpl uq = Inner x a \<and> (open_q uq \<or> u \<in> D')" by auto
  qed
  ultimately show ?thesis by (simp add: links_def)
qed

lemma vinv_top:
  assumes I: "vinv X D E s" and h: "v_heap s t = Some q" "r_sub q = VFurthestTop ft"
    and q': "r_cmpl q' = r_cmpl q" "r_sub q' = VFurthestTop ft'" and l: "links D' (set_req t q' s)"
    and x: "\<And>x. x \<noteq> t \<Longrightarrow> (x \<in> D' \<longleftrightarrow> x \<in> D) \<and> E' x = E x"
    and ok: "\<And>cl. r_cmpl q = Client cl \<Longrightarrow>
       (t \<in> v_requests s \<longleftrightarrow> (open_q q' \<and> bads s t = 0) \<or> t \<in> D') \<and> (t \<in> D' \<longrightarrow> \<not> (open_q q' \<and> bads s t = 0)) \<and>
       (t \<notin> D' \<longrightarrow> goods s t + bads s t = of_bool (\<not> (open_q q' \<and> bads s t = 0))) \<and>
       t_ffout ft' = int (kids s t + E' t) \<and> (t_subfurther ft' = None \<and> bads s t = 0 \<or> kids s t + E' t = 0)"
  shows "vinv X D' E' (set_req t q' s)"
proof -
  have pl: "plain_cmpl q" using plain_kind [OF I h(1)] h(2) by simp
  note rk = vinv_rok(1) [OF I h(1)]
  obtain cl where cl: "r_cmpl q = Client cl" using rk pl h(2) by (cases "r_cmpl q") (auto simp: rok_def plain_cmpl_def)
  have dom: "dom (v_heap s) = {..<v_next s}" using I by (simp add: vinv_def)
  have kid: "kids (set_req t q' s) p = kids s p" for p
    using kids_set [OF dom h(1), of q' p] cl q'(1) by (simp add: child_open_def)
  have tn: "t < v_next s" using vinv_rok(3) [OF I h(1)] .
  show ?thesis
  proof (rule vinv_set [OF I h(1) _ l, where cm = NoCmpl])
    show "E' y = 0" if "v_next s \<le> y" for y using I x [of y] tn that by (auto simp: vinv_def)
    show "rok (length (v_children s)) (occ s t + X t) (t \<in> v_requests s) (t \<in> D') (goods (set_req t q' s) t)
        (bads (set_req t q' s) t) (kids (set_req t q' s) t + E' t) q'"
      using rk ok [OF cl] h(2) cl q' by (auto simp: rok_def kid needy_q_def)
  qed (use h q' x kid in \<open>auto simp: data_ok_def\<close>)
qed

subsection \<open>Follow-fills\<close>

lemma length_filter_neq:
  assumes "distinct xs" "x \<in> set xs" shows "length (filter (\<lambda>y. y \<noteq> x) xs) = length xs - 1"
proof -
  have "filter (\<lambda>y. y \<noteq> x) xs = removeAll x xs" by (simp add: removeAll_filter_not_eq eq_commute)
  then have "filter (\<lambda>y. y \<noteq> x) xs = remove1 x xs" using assms(1) by (simp add: distinct_remove1_removeAll)
  then show ?thesis using assms(2) by (simp add: length_remove1)
qed

lemma issue_fill_inv:
  assumes I: "vinv X D (E(t := Suc (E t))) s" and k: "kind_at s t = Some KTop" and cp: "cp \<in> set (vnames s)"
    and n: "2 \<le> length (v_children s)"
  shows "vinv X D E (issue_fill t (cp, hn) s) \<and> grows s (issue_fill t (cp, hn) s)"
proof -
  define f where "f = v_next s"
  define sub where "sub = VFollowFill \<lparr>f_hn = hn, f_targcp = cp, f_travdone = False, f_fillsout = 0\<rparr>"
  define s1 where "s1 = insert_req f (new_req (length (v_children s) - 1) (Inner t 0) sub s)"
  have tf: "t \<noteq> f" using fresh_X(2) [OF I] k by (auto simp: f_def kind_at_def)
  have V: "vinv (X(f := length (v_children s) - 1)) D E s1"
    unfolding f_def
  proof (rule vinv_new [OF I refl, where b = True and d = False and sub = sub and cm = "Inner t 0"])
    show "s1 = (if True then insert_req (v_next s) (new_req (length (v_children s) - 1) (Inner t 0) sub s)
        else new_req (length (v_children s) - 1) (Inner t 0) sub s)" by (simp add: s1_def f_def)
  qed (use tf k cp n in \<open>auto simp: sub_def f_def child_open_def data_ok_def rok_def open_q_def needy_q_def parent_kind_def\<close>)
  let ?cs = "filter (\<lambda>c. c \<noteq> cp) (vnames s)"
  have "distinct (vnames s)" using I by (simp add: vinv_def)
  then have len: "length ?cs = length (v_children s) - 1" using length_filter_neq [OF _ cp] by simp
  have "vinv X D E (fold (enqueue_headnode f) ?cs s1)"
  proof (rule eq_head.fold_inv)
    show "vinv (X(f := X f + length ?cs)) D E s1" using V fresh_X(1) [OF I] by (simp add: len f_def)
    show "set ?cs \<subseteq> set (vnames s1)" by (auto simp: s1_def)
    show "kind_at s1 f \<in> Some ` {KInsert, KFollow, KFill, KSub}" by (simp add: kind_at_def s1_def f_def sub_def)
  qed
  moreover have "grows s (fold (enqueue_headnode f) ?cs s1)"
    by (rule grows_new [OF I]) (simp_all add: eq_head.fold_core, simp_all add: s1_def f_def)
  ultimately show ?thesis by (simp add: issue_fill_def Let_def s1_def sub_def f_def)
qed

lemma issue_fills_inv:
  assumes "vinv X D (E(t := E t + length xs)) s" "kind_at s t = Some KTop" "fst ` set xs \<subseteq> set (vnames s)"
    and "2 \<le> length (v_children s)"
  shows "vinv X D E (fold (issue_fill t) xs s) \<and> grows s (fold (issue_fill t) xs s)"
  using assms
proof (induction xs arbitrary: s)
  case (Cons x xs)
  obtain cp hn where x: "x = (cp, hn)" by (cases x)
  have e: "E(t := E t + length (x # xs)) = (E(t := E t + length xs))(t := Suc ((E(t := E t + length xs)) t))" by simp
  have "vinv X D ((E(t := E t + length xs))(t := Suc ((E(t := E t + length xs)) t))) s"
    using Cons.prems(1) unfolding e .
  note F = issue_fill_inv [OF this Cons.prems(2), of cp hn]
  have G: "vinv X D (E(t := E t + length xs)) (issue_fill t x s) \<and> grows s (issue_fill t x s)"
    using F Cons.prems(3,4) x by simp
  have nm: "vnames (issue_fill t x s) = vnames s" using G by (simp add: grows_def)
  then have len: "length (v_children (issue_fill t x s)) = length (v_children s)" by (metis length_vnames)
  have "vinv X D E (fold (issue_fill t) xs (issue_fill t x s)) \<and>
      grows (issue_fill t x s) (fold (issue_fill t) xs (issue_fill t x s))"
  proof (rule Cons.IH)
    show "vinv X D (E(t := E t + length xs)) (issue_fill t x s)" using G ..
    show "kind_at (issue_fill t x s) t = Some KTop" using G Cons.prems(2) grows_kind by blast
  qed (use Cons.prems(3,4) nm len in auto)
  then show ?case using G grows_trans by auto
qed simp

text \<open>The top request announces the fills it is going to issue.\<close>

lemma announce_inv:
  assumes I: "vinv X (insert t D) E s" and tD: "t \<notin> D" and h: "v_heap s t = Some q" "r_sub q = VFurthestTop ft"
    and c: "t_subfurther ft = None" "t_ffout ft = 0" and g: "goods s t = 0" "bads s t = 0"
    and f: "t_subfurther ft' = None" "t_ffout ft' = int n" "0 < n"
  shows "vinv X D (E(t := E t + n)) (set_req t (q\<lparr>r_sub := VFurthestTop ft'\<rparr>) s)"
proof (rule vinv_top [OF I h])
  show "links D (set_req t (q\<lparr>r_sub := VFurthestTop ft'\<rparr>) s)"
    by (rule links_top [where D = "insert t D" and ft = ft and ft' = ft']) (use I h c f in \<open>auto simp: vinv_def\<close>)
  fix cl assume cl: "r_cmpl q = Client cl"
  have "rok (length (v_children s)) (occ s t + X t) (t \<in> v_requests s) True 0 0 (kids s t + E t) q"
    using vinv_rok(1) [OF I h(1)] g by simp
  then show "(t \<in> v_requests s \<longleftrightarrow> (open_q (q\<lparr>r_sub := VFurthestTop ft'\<rparr>) \<and> bads s t = 0) \<or> t \<in> D) \<and>
      (t \<in> D \<longrightarrow> \<not> (open_q (q\<lparr>r_sub := VFurthestTop ft'\<rparr>) \<and> bads s t = 0)) \<and>
      (t \<notin> D \<longrightarrow> goods s t + bads s t = of_bool (\<not> (open_q (q\<lparr>r_sub := VFurthestTop ft'\<rparr>) \<and> bads s t = 0))) \<and>
      t_ffout ft' = int (kids s t + (E(t := E t + n)) t) \<and> (t_subfurther ft' = None \<and> bads s t = 0 \<or> kids s t + (E(t := E t + n)) t = 0)"
    using cl h(2) c f g tD by (simp add: rok_def open_q_def)
qed auto

lemma directed_inv:
  assumes I: "vinv X (insert t D) E s" and tD: "t \<notin> D" and h: "v_heap s t = Some q" "r_sub q = VFurthestTop ft"
    and c: "t_subfurther ft = None" "t_ffout ft = 0" and g: "goods s t = 0" "bads s t = 0"
    and u: "unq \<noteq> []" "\<forall>(cp, hns) \<in> set unq. hns \<noteq> [] \<and> cp \<in> set (vnames s)" and n: "2 \<le> length (v_children s)"
  shows "vinv X D E (directed_follow_fill t unq s) \<and> grows s (directed_follow_fill t unq s)"
proof -
  define xs where "xs = concat (map (\<lambda>(cp, hns). map (Pair cp) hns) unq)"
  have len: "length xs = sum_list (map (length \<circ> snd) unq)"
    by (simp add: xs_def length_concat comp_def case_prod_beta)
  have pos: "0 < length xs" using u by (cases unq) (auto simp: xs_def)
  have sub: "fst ` set xs \<subseteq> set (vnames s)" using u(2) by (auto simp: xs_def)
  let ?s1 = "set_req t (q\<lparr>r_sub := VFurthestTop (ft\<lparr>t_ffout := int (length xs)\<rparr>)\<rparr>) s"
  have V: "vinv X D (E(t := E t + length xs)) ?s1"
    by (rule announce_inv [OF I tD h c g]) (use pos c in simp_all)
  have g1: "grows s ?s1" using h by (intro grows_set) simp_all
  have "vinv X D E (fold (issue_fill t) xs ?s1) \<and> grows ?s1 (fold (issue_fill t) xs ?s1)"
    using n sub h by (intro issue_fills_inv [OF V]) (auto simp: kind_at_def)
  moreover have "directed_follow_fill t unq s = fold (issue_fill t) xs ?s1"
    by (simp only: directed_follow_fill_def Let_def upd_top_set [OF h] len [symmetric] xs_def [symmetric])
  ultimately show ?thesis using g1 grows_trans by auto
qed

lemma full_inv:
  assumes I: "vinv X (insert t D) E s" and tD: "t \<notin> D" and h: "v_heap s t = Some q" "r_sub q = VFurthestTop ft"
    and c: "t_subfurther ft = None" "t_ffout ft = 0" and g: "goods s t = 0" "bads s t = 0"
    and n: "2 \<le> length (v_children s)"
  shows "vinv X D E (full_follow_fill t s) \<and> grows s (full_follow_fill t s)"
proof -
  define xs where "xs = map (\<lambda>c. (c, (fst (top_hn t s), [] :: bytes))) (vnames s)"
  have len: "length xs = length (v_children s)" by (simp add: xs_def)
  have pos: "0 < length xs" using len n by linarith
  have sub: "fst ` set xs \<subseteq> set (vnames s)" by (auto simp: xs_def)
  let ?s1 = "set_req t (q\<lparr>r_sub := VFurthestTop (ft\<lparr>t_lasttry := True, t_ffout := int (length xs)\<rparr>)\<rparr>) s"
  have V: "vinv X D (E(t := E t + length xs)) ?s1"
    by (rule announce_inv [OF I tD h c g]) (use pos c in simp_all)
  have g1: "grows s ?s1" using h by (intro grows_set) simp_all
  have "vinv X D E (fold (issue_fill t) xs ?s1) \<and> grows ?s1 (fold (issue_fill t) xs ?s1)"
    using n sub h by (intro issue_fills_inv [OF V]) (auto simp: kind_at_def)
  moreover have "full_follow_fill t s = fold (issue_fill t) xs ?s1"
    by (simp add: full_follow_fill_def Let_def upd_top_set [OF h] len xs_def)
  ultimately show ?thesis using g1 grows_trans by auto
qed

subsection \<open>Reports to the top request\<close>

lemma top_client:
  assumes I: "vinv X D E s" and h: "v_heap s t = Some q" "r_sub q = VFurthestTop ft"
  obtains cl where "r_cmpl q = Client cl" "t_ffout ft = int (kids s t + E t)"
    "t_subfurther ft = None \<and> bads s t = 0 \<or> kids s t + E t = 0"
    "t \<in> v_requests s \<longleftrightarrow> (open_q q \<and> bads s t = 0) \<or> t \<in> D" "t \<in> D \<longrightarrow> \<not> (open_q q \<and> bads s t = 0)"
    "t \<notin> D \<longrightarrow> goods s t + bads s t = of_bool (\<not> (open_q q \<and> bads s t = 0))"
proof -
  note rk = vinv_rok(1) [OF I h(1)]
  have "plain_cmpl q" using plain_kind [OF I h(1)] h(2) by simp
  then obtain cl where "r_cmpl q = Client cl"
    using rk h(2) by (cases "r_cmpl q") (auto simp: rok_def plain_cmpl_def)
  with rk h(2) that [of cl] show ?thesis by (simp add: rok_def needy_q_def)
qed

lemma top_answer_inv:
  assumes I: "vinv X D (E(t := Suc (E t))) s" and h: "v_heap s t = Some q" "r_sub q = VFurthestTop ft"
  shows "runs_ok X D E s (top_answer good t s)"
proof -
  obtain cl where T: "r_cmpl q = Client cl" "t_ffout ft = int (kids s t + (E(t := Suc (E t))) t)"
    "t_subfurther ft = None \<and> bads s t = 0 \<or> kids s t + (E(t := Suc (E t))) t = 0"
    "t \<in> v_requests s \<longleftrightarrow> (open_q q \<and> bads s t = 0) \<or> t \<in> D" "t \<in> D \<longrightarrow> \<not> (open_q q \<and> bads s t = 0)"
    "t \<notin> D \<longrightarrow> goods s t + bads s t = of_bool (\<not> (open_q q \<and> bads s t = 0))"
    by (rule top_client [OF I h])
  have sn: "t_subfurther ft = None" "bads s t = 0" using T(3) by simp_all
  have op: "open_q q" using T(2) h(2) by (simp add: open_q_def)
  have tD: "t \<notin> D" and m: "t \<in> v_requests s" and g: "goods s t = 0" using T(4-6) op sn by auto
  have al: "alive s t" using m by (simp add: alive_def)
  define q1 where "q1 = q\<lparr>r_succeeded := (good \<or> r_succeeded q), r_sub := VFurthestTop (ft\<lparr>t_ffout := t_ffout ft - 1\<rparr>)\<rparr>"
  have ff: "t_ffout ft - 1 = int (kids s t + E t)" using T(2) by simp
  have oq: "open_q q1 = (t_ffout ft - 1 \<noteq> 0)" using ff sn by (auto simp: open_q_def q1_def)
  let ?D = "if t_ffout ft - 1 = 0 then insert t D else D"
  have V: "vinv X ?D E (set_req t q1 s)"
  proof (rule vinv_top [OF I h])
    show "links ?D (set_req t q1 s)"
      by (rule links_top [where D = D and ft = ft and ft' = "ft\<lparr>t_ffout := t_ffout ft - 1\<rparr>"])
        (use I h in \<open>auto simp: vinv_def q1_def\<close>)
    show "(t \<in> v_requests s \<longleftrightarrow> (open_q q1 \<and> bads s t = 0) \<or> t \<in> ?D) \<and> (t \<in> ?D \<longrightarrow> \<not> (open_q q1 \<and> bads s t = 0)) \<and>
       (t \<notin> ?D \<longrightarrow> goods s t + bads s t = of_bool (\<not> (open_q q1 \<and> bads s t = 0))) \<and>
       t_ffout (ft\<lparr>t_ffout := t_ffout ft - 1\<rparr>) = int (kids s t + E t) \<and>
       (t_subfurther (ft\<lparr>t_ffout := t_ffout ft - 1\<rparr>) = None \<and> bads s t = 0 \<or> kids s t + E t = 0)"
      using m tD sn g oq ff by simp
  qed (auto simp: q1_def)
  have g1: "grows s (set_req t q1 s)" using h by (intro grows_set) (simp_all add: q1_def)
  have eq: "top_answer good t s = (if t_ffout ft - 1 = 0
      then (if \<not> t_lasttry ft then second_check t (set_req t q1 s) else last_check t (set_req t q1 s))
      else set_req t q1 s, Inr ())"
    using al h by (simp add: top_answer_def Let_def q1_def)
  show ?thesis
  proof (cases "t_ffout ft - 1 = 0")
    case False
    with V g1 eq show ?thesis by (simp add: runs_ok_def)
  next
    case True
    have "vinv X D E (survey t a (set_req t q1 s)) \<and> grows (set_req t q1 s) (survey t a (set_req t q1 s))" if "a \<le> 2" for a
      by (rule survey_inv [where q = q1 and ft = "ft\<lparr>t_ffout := t_ffout ft - 1\<rparr>"])
        (use V True tD sn g that in \<open>auto simp: q1_def\<close>)
    with g1 grows_trans eq True show ?thesis
      by (auto simp: runs_ok_def second_check_def last_check_def)
  qed
qed

end
