(* ===== verification/VBS_Survey.thy ===== *)
theory VBS_Survey
  imports VBS_Anneal
begin

text \<open>
  The end of a survey: the answers of the children to a sub-request of the search for the
  furthest heads, its report to the top request, and the callbacks of the follow-fills.
\<close>

subsection \<open>Updates of a sub-request\<close>

lemma links_sub:
  assumes "links D s" "v_heap s u = Some q" "vk (r_sub q) = KSub" "vk (r_sub q') = KSub" "r_cmpl q' = r_cmpl q"
    and "open_q q' \<Longrightarrow> open_q q" "open_q q \<or> u \<in> D \<Longrightarrow> open_q q' \<or> u \<in> D'" "\<And>x. x \<noteq> u \<Longrightarrow> x \<in> D \<Longrightarrow> x \<in> D'"
  shows "links D' (set_req u q' s)"
proof -
  have h: "sub_held (set_req u q' s) y p = sub_held s y p" for y p
    using kind_top [of s u q y] kind_top [of "set_req u q' s" u q' y] assms(2-4)
    by (cases "p = u") (auto simp: sub_held_def)
  have k: "kind_at (set_req u q' s) = kind_at s" using assms(2-4) by (intro kind_set) auto
  have "up_ok (set_req u q' s) x y" if "v_heap (set_req u q' s) x = Some y" for x y
  proof (cases "x = u")
    case True
    with that have "y = q'" by simp
    moreover from assms(1,2) have "up_ok s u q" by (simp add: links_def)
    ultimately show ?thesis using assms(3-6) True by (simp add: up_ok_def h k)
  next
    case False
    with that assms(1) have "up_ok s x y" by (simp add: links_def)
    then show ?thesis by (simp add: up_ok_def h k)
  qed
  moreover have "down_ok D' (set_req u q' s) x" for x
    unfolding down_ok_def
  proof (intro allI impI)
    fix y assume "x \<in> v_requests (set_req u q' s)" "sub_held (set_req u q' s) y x"
    then obtain uq a where y: "v_heap s y = Some uq" "vk (r_sub uq) = KSub" "r_cmpl uq = Inner x a" "open_q uq \<or> y \<in> D"
      using assms(1) unfolding links_def down_ok_def h set_req_fields by blast
    show "\<exists>uq a. v_heap (set_req u q' s) y = Some uq \<and> vk (r_sub uq) = KSub \<and>
        r_cmpl uq = Inner x a \<and> (open_q uq \<or> y \<in> D')"
    proof (cases "y = u")
      case True
      with y assms show ?thesis by auto
    next
      case False
      with y assms(8) show ?thesis by auto
    qed
  qed
  ultimately show ?thesis by (simp add: links_def)
qed

lemma vinv_sub:
  assumes I: "vinv X D E s" and h: "v_heap s u = Some q" "vk (r_sub q) = KSub"
    and q': "vk (r_sub q') = KSub" "r_cmpl q' = r_cmpl q" "r_outstanding q' = int (occ s u + X' u)"
    and X': "\<And>x. x \<noteq> u \<Longrightarrow> X' x = X x" and D': "\<And>x. x \<noteq> u \<Longrightarrow> (x \<in> D' \<longleftrightarrow> x \<in> D)"
    and o: "open_q q' \<Longrightarrow> open_q q" "open_q q \<or> u \<in> D \<longleftrightarrow> open_q q' \<or> u \<in> D'" "u \<in> D' \<Longrightarrow> \<not> open_q q'"
  shows "vinv X' D' E (set_req u q' s)"
proof -
  have dom: "dom (v_heap s) = {..<v_next s}" using I by (simp add: vinv_def)
  have kid: "kids (set_req u q' s) p = kids s p" for p
    using kids_set [OF dom h(1), of q' p] h(2) q'(1) by (simp add: child_open_def)
  note rk = vinv_rok(1) [OF I h(1)]
  obtain t a where c: "r_cmpl q = Inner t a"
    using rk h(2) by (cases "r_cmpl q"; cases "r_sub q") (auto simp: rok_def rep_client_def)
  have "a \<le> 2" using rk h(2) c by (cases "r_sub q") (auto simp: rok_def)
  show ?thesis
  proof (rule vinv_set [OF I h(1), where cm = NoCmpl])
    show "links D' (set_req u q' s)"
      by (rule links_sub [where D = D and q = q]) (use I h q' D' o in \<open>auto simp: vinv_def\<close>)
    show "E x = 0" if "v_next s \<le> x" for x using I that by (simp add: vinv_def)
    show "data_ok s u q'" using q'(1) by (cases "r_sub q'") (simp_all add: data_ok_def)
    show "rok (length (v_children s)) (occ s u + X' u) (u \<in> v_requests s) (u \<in> D') (goods (set_req u q' s) u)
        (bads (set_req u q' s) u) (kids (set_req u q' s) u + E u) q'"
      using rk h(2) c \<open>a \<le> 2\<close> q' o
      by (cases "r_sub q"; cases "r_sub q'") (auto simp: rok_def kid needy_q_def)
  qed (use h q' X' D' kid in auto)
qed

lemma sub_node_inv:
  assumes I: "vinv X D E s" and h: "v_heap s u = Some q" "r_sub q = VFurthestSub b"
  shows "runs_ok X D E s (sub_node u c hn s)"
proof -
  define q1 where "q1 = q\<lparr>r_sub := VFurthestSub (b\<lparr>b_cnsm := (b_cnsm b)(c \<mapsto> set_insert hn (case b_cnsm b c of None \<Rightarrow> [] | Some hns \<Rightarrow> hns))\<rparr>)\<rparr>"
  have oq: "open_q q1 = open_q q" using h(2) by (simp add: open_q_def q1_def)
  have rk: "int (occ s u + X u) = r_outstanding q" "u \<in> D \<longrightarrow> \<not> open_q q"
    using vinv_rok(1) [OF I h(1)] h(2) by (auto simp: rok_def needy_q_def)
  have "vinv X D E (set_req u q1 s)"
    by (rule vinv_sub [OF I h(1)]) (use h oq rk in \<open>auto simp: q1_def\<close>)
  then show ?thesis using h by (simp add: sub_node_def Let_def runs_ok_def grows_set q1_def)
qed

subsection \<open>The top request at the end of a survey\<close>

text \<open>The top request forgets its sub-request.\<close>

lemma links_drop:
  assumes l: "links D s" and h: "v_heap s t = Some q" "r_sub q = VFurthestTop ft" "t_subfurther ft = Some u"
    and c: "r_cmpl q = Client cl" and uq: "v_heap s u = Some uq" "\<not> open_q uq"
    and q': "r_cmpl q' = r_cmpl q" "r_sub q' = VFurthestTop ft'" "t_subfurther ft' = None" and D: "D \<subseteq> D'"
  shows "links D' (set_req t q' s)"
proof -
  have hd: "sub_held (set_req t q' s) y p = (p \<noteq> t \<and> sub_held s y p)" for y p
    using q' by (auto simp: sub_held_def)
  have kd: "kind_at (set_req t q' s) = kind_at s" using h q' by (intro kind_set) auto
  have "up_ok (set_req t q' s) x y" if xy: "v_heap (set_req t q' s) x = Some y" for x y
  proof (cases "x = t")
    case True
    with xy c q' show ?thesis by (auto simp: up_ok_def)
  next
    case False
    with xy have hx: "v_heap s x = Some y" by simp
    with l have up: "up_ok s x y" by (simp add: links_def)
    have "\<not> (open_q y \<and> sub_held s x t)" using sub_held_top [OF h(1,2)] h(3) uq hx by auto
    with up show ?thesis unfolding up_ok_def hd kd set_req_fields by metis
  qed
  moreover have "down_ok D' (set_req t q' s) x" for x
    unfolding down_ok_def
  proof (intro allI impI)
    fix y assume "x \<in> v_requests (set_req t q' s)" "sub_held (set_req t q' s) y x"
    then obtain yq a where y: "v_heap s y = Some yq" "vk (r_sub yq) = KSub" "r_cmpl yq = Inner x a" "open_q yq \<or> y \<in> D"
      using l unfolding links_def down_ok_def hd set_req_fields by blast
    then have "y \<noteq> t" using h by auto
    with y D show "\<exists>uq a. v_heap (set_req t q' s) y = Some uq \<and> vk (r_sub uq) = KSub \<and>
        r_cmpl uq = Inner x a \<and> (open_q uq \<or> y \<in> D')" by auto
  qed
  ultimately show ?thesis by (simp add: links_def)
qed

lemma links_mono:
  assumes "links D s" "D \<subseteq> D'" "v_heap s' = v_heap s" "v_requests s' = v_requests s"
  shows "links D' s'"
proof -
  have "kind_at s' = kind_at s" "sub_held s' = sub_held s" using assms(3) by (simp_all add: kind_at_def sub_held_def fun_eq_iff)
  with assms show ?thesis unfolding links_def up_ok_def down_ok_def by (simp add: subset_eq) blast
qed

text \<open>The top request tells the client its result and is about to leave the list.\<close>

lemma vinv_tell_top:
  assumes I: "vinv X D E s" and h: "v_heap s t = Some q" "r_sub q = VFurthestTop ft" and m: "t \<in> v_requests s"
    and k: "kids s t + E t = 0" and s': "s' = tell t (r_cmpl q) f s" and o: "\<not> open_q q \<or> 0 < bads s' t"
  shows "vinv X (insert t D) E s'"
proof -
  obtain cl where T: "r_cmpl q = Client cl" "t_ffout ft = int (kids s t + E t)" by (rule top_client [OF I h])
  note rk = vinv_rok(1) [OF I h(1)]
  have kk: "kids s' = kids s" by (simp add: kids_def fun_eq_iff s')
  show ?thesis
  proof (rule vinv_change [OF I, where R = "{t}"])
    show "links (insert t D) s'"
      by (rule links_mono [of D s]) (use I in \<open>auto simp: vinv_def s'\<close>)
    show "E x = 0" if "v_next s' \<le> x" for x using I that by (simp add: vinv_def s')
    show "dom (v_heap s') = {..<v_next s'}" using I by (simp add: vinv_def s')
    show "{t} \<subseteq> {..<v_next s'}" using vinv_rok(3) [OF I h(1)] by (simp add: s')
    show "v_heap s' x = v_heap s x \<and> (x \<in> v_requests s' \<longleftrightarrow> x \<in> v_requests s) \<and> X x = X x \<and>
        (x \<in> insert t D \<longleftrightarrow> x \<in> D) \<and> goods s' x = goods s x \<and> bads s' x = bads s x \<and> kids s' x + E x = kids s x + E x"
      if "x \<notin> {t}" for x
      using that T by (simp add: kk) (simp add: s' goods_tell)
    show "data_ok s x y \<and> rok (length (v_children s)) (occ s x + X x) (x \<in> v_requests s') (x \<in> insert t D)
        (goods s' x) (bads s' x) (kids s' x + E x) y" if "x \<in> {t}" "v_heap s' x = Some y" for x y
    proof -
      have "x = t" "y = q" using that h by (simp_all add: s')
      moreover have "t \<in> v_requests s'" using m by (simp add: s')
      ultimately show ?thesis
        using rk h(2) T k o by (auto simp: data_ok_def rok_def kk needy_q_def)
    qed
  qed (simp_all add: s' kind_at_def)
qed

lemma top_done_inv:
  assumes I: "vinv X (insert t D) E s" and tD: "t \<notin> D" and h: "v_heap s t = Some q" "vk (r_sub q) = KTop"
    and g: "goods s t + bads s t = 1" and w: "\<And>x xq. sub_held s x t \<Longrightarrow> v_heap s x = Some xq \<Longrightarrow> \<not> open_q xq"
  obtains s' where "remove_req t s = (s', Inr ())" "vinv X D E s'" "grows s s'" "t \<notin> v_requests s'" "v_heap s' = v_heap s"
proof -
  have nh: "\<not> sub_held s t p" if "p \<in> v_requests s" for p using no_held [OF I h(1)] h(2) that by auto
  obtain s' where s': "remove_req t s = (s', Inr ())" "vinv X D E s'" "v_heap s' = v_heap s" "v_log s' = v_log s"
    "v_children s' = v_children s" "v_requests s' = v_requests s - {t}" "v_next s' = v_next s"
    by (rule vinv_done [OF I tD g w nh])
  have "vnames s' = vnames s" by (simp add: vnames_def s'(5))
  with s' have "grows s s'" by (intro grows_same) simp_all
  with s' that show ?thesis by simp
qed

lemma top_nodes_eq:
  "\<exists>s1. log_neutral s s1 \<and> top_nodes t cm hns s = tell t cm Hnt_complete s1"
proof -
  have "log_neutral s (fold (\<lambda>hn. tell t cm (\<lambda>a. Hnt_node a hn)) hns s)"
    by (rule log_neutral_fold) (simp add: good_up_def bad_up_def)
  then show ?thesis unfolding top_nodes_def by blast
qed

lemma vinv_neutral: "vinv X D E s \<Longrightarrow> log_neutral s s1 \<Longrightarrow> vinv X D E s1"
  unfolding log_neutral_def by (metis vinv_log)

lemma neutral_views:
  assumes "log_neutral s s1"
  shows "v_heap s1 = v_heap s" "v_requests s1 = v_requests s" "kids s1 = kids s" "goods s1 x = goods s x" "bads s1 x = bads s x"
    "vnames s1 = vnames s" "v_next s1 = v_next s"
proof -
  obtain l where l: "s1 = s\<lparr>v_log := l\<rparr>" using assms unfolding log_neutral_def by metis
  show "v_heap s1 = v_heap s" "v_requests s1 = v_requests s" "kids s1 = kids s" "vnames s1 = vnames s" "v_next s1 = v_next s"
    by (simp_all add: l vnames_def kids_def fun_eq_iff)
  show "goods s1 x = goods s x" "bads s1 x = bads s x" using assms by (simp_all add: log_neutral_def)
qed

lemma issue_fill_heap: "y < v_next s \<Longrightarrow> v_heap (issue_fill t x s) y = v_heap s y \<and> v_next s \<le> v_next (issue_fill t x s)"
  by (cases x) (simp add: issue_fill_def Let_def eq_head.fold_core)

lemma issue_fills_heap: "y < v_next s \<Longrightarrow> v_heap (fold (issue_fill t) xs s) y = v_heap s y"
proof (induction xs arbitrary: s)
  case (Cons x xs)
  with issue_fill_heap [of y s t x] show ?case by simp
qed simp

lemma follow_fill_keeps:
  assumes h: "v_heap s t = Some q" "r_sub q = VFurthestTop ft" "t_subfurther ft = None" and n: "t < v_next s"
  shows "\<not> sub_held (directed_follow_fill t unq s) v t" "\<not> sub_held (full_follow_fill t s) v t"
proof -
  have "v_heap (fold (issue_fill t) xs (set_req t q' s)) t = Some q'" for xs q'
    using issue_fills_heap [of t "set_req t q' s" t xs] n by simp
  then show "\<not> sub_held (directed_follow_fill t unq s) v t" "\<not> sub_held (full_follow_fill t s) v t"
    using h by (simp_all add: sub_held_def directed_follow_fill_def full_follow_fill_def Let_def upd_top_set [OF h(1,2)])
qed

lemma held_top:
  assumes I: "vinv X D E s" and tD: "t \<notin> D" and h: "v_heap s t = Some q" "r_sub q = VFurthestTop ft"
    and u: "t_subfurther ft = Some u" and m: "t \<in> v_requests s"
  obtains cl where "r_cmpl q = Client cl" "t_ffout ft = 0" "kids s t + E t = 0" "goods s t = 0" "bads s t = 0"
proof -
  obtain cl where T: "r_cmpl q = Client cl" "t_ffout ft = int (kids s t + E t)"
    "t_subfurther ft = None \<and> bads s t = 0 \<or> kids s t + E t = 0"
    "t \<in> v_requests s \<longleftrightarrow> (open_q q \<and> bads s t = 0) \<or> t \<in> D" "t \<in> D \<longrightarrow> \<not> (open_q q \<and> bads s t = 0)"
    "t \<notin> D \<longrightarrow> goods s t + bads s t = of_bool (\<not> (open_q q \<and> bads s t = 0))"
    by (rule top_client [OF I h])
  have "kids s t + E t = 0" using T(3) u by simp
  moreover have "bads s t = 0" "goods s t = 0" using T(4-6) m tD by auto
  ultimately show ?thesis using that T by simp
qed

lemma top_hnt_complete_inv:
  assumes I: "vinv X {u} E s" and h: "v_heap s t = Some q" "r_sub q = VFurthestTop ft" "t_subfurther ft = Some u"
    and m: "t \<in> v_requests s" and uq: "v_heap s u = Some uq" "r_sub uq = VFurthestSub b" "\<not> open_q uq" and a: "a \<le> 2"
    and unq: "b_unqnodes b \<noteq> [] \<Longrightarrow> 2 \<le> length (v_children s) \<and> (\<forall>(cp, hns) \<in> set (b_unqnodes b). hns \<noteq> [] \<and> cp \<in> set (vnames s))"
  shows "(a = 2 \<and> b_unqnodes b \<noteq> [] \<and> snd (top_hnt_complete t a s) = Inl InternalError) \<or>
    (\<exists>s'. top_hnt_complete t a s = (s', Inr ()) \<and> vinv X {u} E s' \<and> grows s s' \<and>
       (t \<in> v_requests s' \<longrightarrow> (\<forall>v. \<not> sub_held s' v t)))"
proof -
  have tu: "t \<noteq> u" using h uq by auto
  have tD: "t \<notin> {u}" using tu by simp
  obtain cl where T: "r_cmpl q = Client cl" "t_ffout ft = 0" "kids s t + E t = 0" "goods s t = 0" "bads s t = 0"
    by (rule held_top [OF I tD h m])
  have tn: "t < v_next s" using vinv_rok(3) [OF I h(1)] .
  define ft1 where "ft1 = ft\<lparr>t_subfurther := None\<rparr>"
  define q1 where "q1 = q\<lparr>r_sub := VFurthestTop ft1\<rparr>"
  define s1 where "s1 = set_req t q1 s"
  have h1: "v_heap s1 t = Some q1" "r_sub q1 = VFurthestTop ft1" "t_subfurther ft1 = None" "t_ffout ft1 = 0"
    using T by (simp_all add: s1_def q1_def ft1_def)
  have I1: "vinv X (insert t {u}) E s1"
    unfolding s1_def
  proof (rule vinv_top [OF I h(1,2), where q' = q1 and ft' = ft1])
    show "links (insert t {u}) (set_req t q1 s)"
      by (rule links_drop [OF _ h T(1) uq(1,3), where ft' = ft1 and D = "{u}"])
        (use I in \<open>auto simp: vinv_def q1_def ft1_def\<close>)
  qed (use m T tu in \<open>auto simp: q1_def ft1_def open_q_def\<close>)
  have g1: "grows s s1" using h unfolding s1_def by (intro grows_set) (simp_all add: q1_def)
  have al: "alive s t" using m by (simp add: alive_def)
  have top: "top_hnt_complete t a s =
      (if b_unqnodes b = [] then remove_req t (top_nodes t (r_cmpl q) (b_cmnnodes b) s1)
       else if a = 0 then (directed_follow_fill t (b_unqnodes b) s1, Inr ())
       else if a = 1 then (full_follow_fill t s1, Inr ()) else (s1, Inl InternalError))"
    using al h uq a by (simp add: top_hnt_complete_def Let_def upd_top_set [OF h(1,2)] s1_def q1_def ft1_def)
  have gb: "goods s1 t = 0" "bads s1 t = 0" using T by (simp_all add: s1_def)
  have len: "length (v_children s1) = length (v_children s)" "vnames s1 = vnames s" by (simp_all add: s1_def)
  have tn1: "t < v_next s1" using tn by (simp add: s1_def)
  show ?thesis
  proof (cases "b_unqnodes b = []")
    case True
    obtain s2 where s2: "log_neutral s1 s2" "top_nodes t (r_cmpl q) (b_cmnnodes b) s1 = tell t (r_cmpl q) Hnt_complete s2"
      using top_nodes_eq by blast
    note nv = neutral_views [OF s2(1)]
    have I2: "vinv X (insert t {u}) E s2" using vinv_neutral [OF I1 s2(1)] .
    have k1: "kids s1 t + E t = 0"
    proof (rule top_client [OF I1 h1(1,2)])
      assume "t_ffout ft1 = int (kids s1 t + E t)" then show ?thesis using h1(4) by simp
    qed
    define s3 where "s3 = tell t (r_cmpl q1) Hnt_complete s2"
    have I3: "vinv X (insert t (insert t {u})) E s3"
      by (rule vinv_tell_top [OF I2 _ h1(2), where f = Hnt_complete])
        (use h1 m nv k1 in \<open>auto simp: s3_def open_q_def, auto simp: s1_def\<close>)
    have I3': "vinv X (insert t {u}) E s3" using I3 by simp
    have gd: "goods s3 t + bads s3 t = 1"
      using gb nv T by (simp add: s3_def goods_tell q1_def good_up_def bad_up_def)
    have h3: "v_heap s3 t = Some q1" and kt: "vk (r_sub q1) = KTop" using h1 nv by (simp_all add: s3_def)
    have nw: "\<not> open_q xq" if "sub_held s3 x t" "v_heap s3 x = Some xq" for x xq
      using that sub_held_top [OF h3 h1(2)] h1(3) by simp
    obtain s4 where s4: "remove_req t s3 = (s4, Inr ())" "vinv X {u} E s4" "grows s3 s4" "t \<notin> v_requests s4"
      by (rule top_done_inv [OF I3' tD h3 kt gd nw])
    have "grows s1 s3" by (rule grows_same) (simp_all add: s3_def nv)
    with g1 s4(3) grows_trans have "grows s s4" by blast
    with s4 True top s2(2) show ?thesis by (simp add: s3_def q1_def)
  next
    case False
    note u2 = unq [OF False]
    show ?thesis
    proof (cases "a = 0")
      case True
      have "vinv X {u} E (directed_follow_fill t (b_unqnodes b) s1) \<and> grows s1 (directed_follow_fill t (b_unqnodes b) s1)"
        by (rule directed_inv [OF I1 tD h1 gb False]) (use u2 in \<open>simp_all add: len\<close>)
      then show ?thesis
        using True False top g1 grows_trans follow_fill_keeps(1) [OF h1(1-3) tn1] by auto
    next
      case a0: False
      show ?thesis
      proof (cases "a = 1")
        case True
        have "vinv X {u} E (full_follow_fill t s1) \<and> grows s1 (full_follow_fill t s1)"
          by (rule full_inv [OF I1 tD h1 gb]) (use u2 in \<open>simp_all add: len\<close>)
        then show ?thesis
          using True False a0 top g1 grows_trans follow_fill_keeps(2) [OF h1(1-3) tn1] by auto
      next
        case False
        with a0 a \<open>b_unqnodes b \<noteq> []\<close> top show ?thesis by simp
      qed
    qed
  qed
qed

lemma top_hnt_error_inv:
  assumes I: "vinv X {u} E s" and h: "v_heap s t = Some q" "r_sub q = VFurthestTop ft" "t_subfurther ft = Some u"
    and m: "t \<in> v_requests s" and uq: "v_heap s u = Some uq" "vk (r_sub uq) = KSub" "\<not> open_q uq"
  shows "\<exists>s'. top_hnt_error t e s = (s', Inr ()) \<and> vinv X {u} E s' \<and> grows s s' \<and> t \<notin> v_requests s'"
proof -
  have tD: "t \<notin> {u}" using h uq by auto
  obtain cl where T: "r_cmpl q = Client cl" "t_ffout ft = 0" "kids s t + E t = 0" "goods s t = 0" "bads s t = 0"
    by (rule held_top [OF I tD h m])
  define s1 where "s1 = tell t (r_cmpl q) (\<lambda>a. Hnt_error a e) s"
  have gb: "goods s1 t = 0" "bads s1 t = 1" using T by (simp_all add: s1_def goods_tell good_up_def bad_up_def)
  have I1: "vinv X (insert t {u}) E s1"
    by (rule vinv_tell_top [OF I h(1,2) m T(3) s1_def]) (simp add: gb)
  have nw: "\<not> open_q xq" if "sub_held s1 x t" "v_heap s1 x = Some xq" for x xq
    using that sub_held_top [of s1 t q ft x] h uq by (simp add: s1_def)
  have h1: "v_heap s1 t = Some q" and kt: "vk (r_sub q) = KTop" and gd: "goods s1 t + bads s1 t = 1"
    using h gb by (simp_all add: s1_def)
  obtain s2 where s2: "remove_req t s1 = (s2, Inr ())" "vinv X {u} E s2" "grows s1 s2" "t \<notin> v_requests s2"
    by (rule top_done_inv [OF I1 tD h1 kt gd nw])
  have "grows s s1" by (rule grows_same) (simp_all add: s1_def)
  with s2 grows_trans have "grows s s2" by blast
  moreover have "top_hnt_error t e s = remove_req t s1" using m h by (simp add: top_hnt_error_def alive_def s1_def)
  ultimately show ?thesis using s2 by auto
qed

subsection \<open>The sub-request\<close>

lemma cnsm_list_names: "(c, hns) \<in> set (cnsm_list ns m) \<Longrightarrow> c \<in> set ns \<and> m c = Some hns"
  by (auto simp: cnsm_list_def split: option.splits)

lemma length_cnsm: "length (cnsm_list ns m) \<le> length ns"
  by (induction ns) (auto simp: cnsm_list_def split: option.splits)

lemma unique_nodes_two:
  assumes "cs = cnsm_list ns m" "unq = unique_nodes (common_nodes (map snd cs)) cs" "unq \<noteq> []"
  shows "2 \<le> length ns" "\<forall>(cp, hns) \<in> set unq. hns \<noteq> [] \<and> cp \<in> set ns"
proof -
  show "\<forall>(cp, hns) \<in> set unq. hns \<noteq> [] \<and> cp \<in> set ns"
    using cnsm_list_names unfolding assms(1,2) unique_nodes_def by fastforce
  have "\<not> length cs \<le> 1"
  proof
    assume "length cs \<le> 1"
    then consider "cs = []" | c hns where "cs = [(c, hns)]"
      by (cases cs) (auto simp: length_Suc_conv)
    then show False using assms(2,3) by cases (auto simp: unique_nodes_def set_difference_def)
  qed
  moreover have "length cs \<le> length ns" using length_cnsm [of ns m] assms(1) by simp
  ultimately show "2 \<le> length ns" by linarith
qed

lemma sub_free:
  assumes I: "vinv X D E s" and u: "v_heap s u = Some uq" "r_cmpl uq = Inner t a"
    and t: "t \<in> v_requests s \<longrightarrow> (\<forall>v. \<not> sub_held s v t)" and p: "p \<in> v_requests s"
  shows "\<not> sub_held s u p"
proof
  assume hd: "sub_held s u p"
  with I p obtain uq' a' where "v_heap s u = Some uq'" "r_cmpl uq' = Inner p a'"
    unfolding vinv_def links_def down_ok_def by blast
  with u have "p = t" by simp
  with t p hd show False by blast
qed

lemma sub_done_inv:
  assumes I: "vinv X {u} E s" and u: "v_heap s u = Some uq" "vk (r_sub uq) = KSub" "r_cmpl uq = Inner t a"
    and t: "t \<in> v_requests s \<longrightarrow> (\<forall>v. \<not> sub_held s v t)"
  shows "runs_ok X {} E s (remove_req u s)"
proof -
  have nf: "\<not> sub_held s u p" if "p \<in> v_requests s" for p using sub_free [OF I u(1,3) t that] .
  have nt: "goods s u + bads s u = 1" if "v_heap s u = Some q" "vk (r_sub q) = KTop" for q using that u by simp
  have nw: "\<not> open_q xq" if "sub_held s x u" "v_heap s x = Some xq" for x xq using that kind_top [OF u(1)] u(2) by auto
  show ?thesis
  proof (rule vinv_done [of X u "{}" E s, OF I _ nt nw nf])
    fix s' assume s': "remove_req u s = (s', Inr ())" "vinv X {} E s'" "v_heap s' = v_heap s" "v_log s' = v_log s"
      "v_children s' = v_children s" "v_requests s' = v_requests s - {u}" "v_next s' = v_next s"
    have "grows s s'" by (rule grows_same) (simp_all add: s' vnames_def)
    with s' show ?thesis by (simp add: runs_ok_def)
  qed simp_all
qed

lemma sub_complete_inv:
  assumes I: "vinv X {u} E s" and uq: "v_heap s u = Some uq" "r_sub uq = VFurthestSub b" "\<not> open_q uq" "r_cmpl uq = Inner t a"
    and h: "sub_held s u t" and m: "t \<in> v_requests s"
  shows "snd (sub_complete u s) = Inl InternalError \<or> runs_ok X {} E s (sub_complete u s)"
proof -
  obtain q ft where q: "v_heap s t = Some q" "r_sub q = VFurthestTop ft" "t_subfurther ft = Some u"
    using h by (auto simp: sub_held_def split: option.splits vsub.splits)
  have a: "a \<le> 2" using vinv_rok(1) [OF I uq(1)] uq by (simp add: rok_def)
  define cs where "cs = cnsm_list (vnames s) (b_cnsm b)"
  have fin: "runs_ok X {} E s1 (remove_req u s1)"
    if s1: "vinv X {u} E s1" "grows s s1" "t \<in> v_requests s1 \<longrightarrow> (\<forall>v. \<not> sub_held s1 v t)" for s1
  proof -
    obtain uq1 where "v_heap s1 u = Some uq1" "vk (r_sub uq1) = vk (r_sub uq)" "r_cmpl uq1 = r_cmpl uq"
      using s1(2) uq(1) unfolding grows_def by blast
    then show ?thesis using sub_done_inv [OF s1(1), of uq1 t a] s1(3) uq(2,4) by simp
  qed
  show ?thesis
  proof (cases "cs = []")
    case True
    obtain s1 where s1: "top_hnt_error t NotFoundError s = (s1, Inr ())" "vinv X {u} E s1" "grows s s1" "t \<notin> v_requests s1"
      using top_hnt_error_inv [OF I q m uq(1) _ uq(3)] uq(2) by auto
    have "sub_complete u s = remove_req u s1"
      using True uq s1(1) by (simp add: sub_complete_def Let_def cs_def inner_hnt_def)
    moreover have "runs_ok X {} E s1 (remove_req u s1)" using fin [OF s1(2,3)] s1(4) by simp
    ultimately show ?thesis using runs_ok_grows [OF _ s1(3)] by simp
  next
    case False
    define unq where "unq = unique_nodes (common_nodes (map snd cs)) cs"
    define b1 where "b1 = b\<lparr>b_cmnnodes := common_nodes (map snd cs), b_unqnodes := unq\<rparr>"
    define uq1 where "uq1 = uq\<lparr>r_sub := VFurthestSub b1\<rparr>"
    define s0 where "s0 = set_req u uq1 s"
    have tu: "t \<noteq> u" using q uq by auto
    have oq: "\<not> open_q uq1" using uq by (simp add: open_q_def uq1_def)
    have ob: "r_outstanding uq = int (occ s u + X u)"
      using vinv_rok(1) [OF I uq(1)] uq by (simp add: rok_def needy_q_def)
    have I0: "vinv X {u} E s0"
      unfolding s0_def by (rule vinv_sub [OF I uq(1)]) (simp_all add: uq1_def uq ob oq [unfolded uq1_def])
    have g0: "grows s s0" using uq unfolding s0_def by (intro grows_set [OF uq(1)]) (simp_all add: uq1_def)
    have q0: "v_heap s0 t = Some q" "t \<in> v_requests s0" "v_heap s0 u = Some uq1" "r_sub uq1 = VFurthestSub b1"
      using q m tu by (simp_all add: s0_def uq1_def)
    have "b_unqnodes b1 \<noteq> [] \<Longrightarrow> 2 \<le> length (v_children s0) \<and> (\<forall>(cp, hns) \<in> set (b_unqnodes b1). hns \<noteq> [] \<and> cp \<in> set (vnames s0))"
      using unique_nodes_two [OF cs_def unq_def] by (simp add: b1_def s0_def)
    note C = top_hnt_complete_inv [OF I0 q0(1) q(2,3) q0(2,3,4) oq a this]
    have eq: "sub_complete u s = vthen (top_hnt_complete t a s0) (remove_req u)"
      using False uq by (simp add: sub_complete_def Let_def cs_def [symmetric] inner_hnt_def s0_def uq1_def b1_def unq_def)
    show ?thesis
      using C
    proof
      assume "a = 2 \<and> b_unqnodes b1 \<noteq> [] \<and> snd (top_hnt_complete t a s0) = Inl InternalError"
      then show ?thesis using eq by (cases "top_hnt_complete t a s0") auto
    next
      assume "\<exists>s'. top_hnt_complete t a s0 = (s', Inr ()) \<and> vinv X {u} E s' \<and> grows s0 s' \<and>
         (t \<in> v_requests s' \<longrightarrow> (\<forall>v. \<not> sub_held s' v t))"
      then obtain s1 where s1: "top_hnt_complete t a s0 = (s1, Inr ())" "vinv X {u} E s1" "grows s0 s1"
        "t \<in> v_requests s1 \<longrightarrow> (\<forall>v. \<not> sub_held s1 v t)" by blast
      have g: "grows s s1" using grows_trans [OF g0 s1(3)] .
      show ?thesis using runs_ok_grows [OF fin [OF s1(2) g s1(4)] g] eq s1(1) by simp
    qed
  qed
qed

lemma sub_answer_inv:
  assumes I: "vinv (X(u := Suc (X u))) {} E s" and h: "v_heap s u = Some q" "r_sub q = VFurthestSub b"
  shows "snd (sub_answer good u c s) = Inl InternalError \<or> runs_ok X {} E s (sub_answer good u c s)"
proof -
  define b1 where "b1 = (if good \<and> b_cnsm b c = None then b\<lparr>b_cnsm := (b_cnsm b)(c \<mapsto> [])\<rparr> else b)"
  define q1 where "q1 = q\<lparr>r_sub := VFurthestSub b1, r_outstanding := r_outstanding q - 1\<rparr>"
  have ob: "int (occ s u + Suc (X u)) = r_outstanding q"
    using vinv_rok(1) [OF I h(1)] h by (simp add: rok_def needy_q_def)
  have op: "open_q q" using ob h(2) by (simp add: open_q_def)
  let ?last = "r_outstanding q - 1 = 0"
  have V: "vinv X (if ?last then {u} else {}) E (set_req u q1 s)"
    by (rule vinv_sub [OF I h(1)]) (use h op ob in \<open>auto simp: q1_def open_q_def\<close>)
  have g: "grows s (set_req u q1 s)" using h by (intro grows_set) (simp_all add: q1_def)
  have eq: "sub_answer good u c s = (if ?last then sub_complete u (set_req u q1 s) else (set_req u q1 s, Inr ()))"
    using h by (simp add: sub_answer_def last_any_def Let_def q1_def b1_def)
  show ?thesis
  proof (cases ?last)
    case False
    with V g eq show ?thesis by (simp add: runs_ok_def)
  next
    case True
    obtain t a where c: "r_cmpl q = Inner t a"
      using vinv_rok(1) [OF I h(1)] h(2) by (cases "r_cmpl q") (auto simp: rok_def rep_client_def)
    have "up_ok s u q" using I h(1) by (simp add: vinv_def links_def)
    then have "sub_held s u t" "t \<in> v_requests s" using c op h(2) by (auto simp: up_ok_def)
    moreover have "t \<noteq> u" using calculation(1) kind_top [OF h(1)] h(2) by auto
    ultimately have "sub_held (set_req u q1 s) u t" "t \<in> v_requests (set_req u q1 s)" by (simp_all add: sub_held_def)
    moreover have "\<not> open_q q1" using True by (simp add: open_q_def q1_def)
    ultimately have "snd (sub_complete u (set_req u q1 s)) = Inl InternalError \<or> runs_ok X {} E (set_req u q1 s) (sub_complete u (set_req u q1 s))"
      using V True c by (intro sub_complete_inv [where uq = q1 and b = b1]) (auto simp: q1_def)
    with eq True show ?thesis using runs_ok_grows [OF _ g] by simp blast
  qed
qed

subsection \<open>Follow-fills and the insertions they make\<close>

lemma fill_parent:
  assumes I: "vinv X D E s" and h: "v_heap s f = Some q" "r_sub q = VFollowFill ff"
  obtains t a tq ft where "r_cmpl q = Inner t a" "v_heap s t = Some tq" "r_sub tq = VFurthestTop ft" "t \<noteq> f"
    "goods s f = 0" "bads s f = 0" "r_outstanding q = int (occ s f + X f)" "f_fillsout ff = int (kids s f + E f)"
    "f_travdone ff \<longleftrightarrow> r_outstanding q = 0" "f \<in> v_requests s \<longleftrightarrow> open_q q \<or> f \<in> D" "f \<in> D \<longrightarrow> \<not> open_q q"
proof -
  note rk = vinv_rok(1) [OF I h(1)]
  obtain t a where c: "r_cmpl q = Inner t a" using rk h(2) by (cases "r_cmpl q") (auto simp: rok_def rep_client_def)
  have "up_ok s f q" using I h(1) by (simp add: vinv_def links_def)
  then have "kind_at s t = Some KTop" using c h(2) by (simp add: up_ok_def parent_kind_def)
  then obtain tq where tq: "v_heap s t = Some tq" "vk (r_sub tq) = KTop" by (auto simp: kind_at_def)
  then obtain ft where "r_sub tq = VFurthestTop ft" by (cases "r_sub tq") auto
  moreover have "t \<noteq> f" using tq h by auto
  ultimately show ?thesis using that [OF c tq(1)] rk h(2) c by (simp add: rok_def needy_q_def)
qed

lemma vinv_fill:
  assumes I: "vinv X D E s" and h: "v_heap s f = Some q" "r_sub q = VFollowFill ff"
    and q': "r_cmpl q' = r_cmpl q" "r_sub q' = VFollowFill ff'" "f_targcp ff' = f_targcp ff"
      "r_outstanding q' = int (occ s f + X' f)" "f_fillsout ff' = int (kids s f + E' f)" "f_travdone ff' \<longleftrightarrow> r_outstanding q' = 0"
    and X': "\<And>x. x \<noteq> f \<Longrightarrow> X' x = X x" and D': "\<And>x. x \<noteq> f \<Longrightarrow> (x \<in> D' \<longleftrightarrow> x \<in> D)"
    and o: "open_q q \<or> f \<in> D \<longleftrightarrow> open_q q' \<or> f \<in> D'" "f \<in> D' \<Longrightarrow> \<not> open_q q'"
    and E': "\<And>x. x \<noteq> f \<Longrightarrow> E' x + of_bool (child_open x q') = E x + of_bool (child_open x q)"
  shows "vinv X' D' E' (set_req f q' s)"
proof -
  obtain t a tq ft where P: "r_cmpl q = Inner t a" "v_heap s t = Some tq" "r_sub tq = VFurthestTop ft" "t \<noteq> f"
    "goods s f = 0" "bads s f = 0" "r_outstanding q = int (occ s f + X f)" "f_fillsout ff = int (kids s f + E f)"
    "f_travdone ff \<longleftrightarrow> r_outstanding q = 0" "f \<in> v_requests s \<longleftrightarrow> open_q q \<or> f \<in> D" "f \<in> D \<longrightarrow> \<not> open_q q"
    by (rule fill_parent [OF I h])
  have dom: "dom (v_heap s) = {..<v_next s}" using I by (simp add: vinv_def)
  have fn: "f < v_next s" "t < v_next s" using vinv_rok(3) [OF I h(1)] vinv_rok(3) [OF I P(2)] by simp_all
  have kf: "kids (set_req f q' s) f = kids s f"
    using kids_set [OF dom h(1), of q' f] P(1,4) q'(1) by (simp add: child_open_def)
  show ?thesis
  proof (rule vinv_set [OF I h(1), where cm = NoCmpl])
    show "links D' (set_req f q' s)"
      by (rule links_plain [where D = D and q = q]) (use I h q' D' in \<open>auto simp: vinv_def\<close>)
    show "kids (set_req f q' s) x + E' x = kids s x + E x" if "x \<noteq> f" for x
      using kids_set [OF dom h(1), of q' x] E' [OF that] by linarith
    show "E' x = 0" if x: "v_next s \<le> x" for x
    proof -
      have "x \<noteq> f" "x \<noteq> t" using x fn by auto
      moreover have "E x = 0" using I x by (simp add: vinv_def)
      ultimately show ?thesis using E' [of x] P(1) q'(1) by (simp add: child_open_def)
    qed
    show "data_ok s f q'" using vinv_rok(2) [OF I h(1)] h(2) q' by (simp add: data_ok_def)
    show "rok (length (v_children s)) (occ s f + X' f) (f \<in> v_requests s) (f \<in> D') (goods (set_req f q' s) f)
        (bads (set_req f q' s) f) (kids (set_req f q' s) f + E' f) q'"
      using P q' o by (simp add: rok_def kf needy_q_def)
  qed (use h q' X' D' in auto)
qed

lemma fill_complete_inv:
  assumes I: "vinv X (insert f D) (E(t := Suc (E t))) s" and fD: "f \<notin> D" and h: "v_heap s f = Some q" "r_sub q = VFollowFill ff"
    and c: "r_cmpl q = Inner t a"
  shows "runs_ok X D E s (fill_complete f s)"
proof -
  obtain tq ft where P: "v_heap s t = Some tq" "r_sub tq = VFurthestTop ft"
    using fill_parent [OF I h] c by (metis vcmpl.inject(2))
  have T: "runs_ok X (insert f D) E s (top_answer (r_succeeded q) t s)" by (rule top_answer_inv [OF I P])
  have "runs_ok X D E s (vthen (top_answer (r_succeeded q) t s) (done_if True f))"
  proof (rule runs_ok_then [OF T])
    fix s1 assume V: "vinv X (insert f D) E s1" and g: "grows s s1"
    have "kind_at s1 f = Some KFill" using grows_kind [OF g, of f KFill] h by (simp add: kind_at_def)
    then show "runs_ok X D E s1 (done_if True f s1)" using V fD by (intro done_if_inv [where D' = "insert f D"]) auto
  qed
  moreover have "fill_complete f s = vthen (top_answer (r_succeeded q) t s) (done_if True f)"
    using h c by (simp add: fill_complete_def inner_hnt_def done_if_def [abs_def])
  ultimately show ?thesis by simp
qed

lemma fill_answer_inv:
  assumes I: "vinv (X(f := Suc (X f))) {} E s" and h: "v_heap s f = Some q" "r_sub q = VFollowFill ff"
  shows "runs_ok X {} E s (fill_answer good f s)"
proof -
  obtain t a tq ft where P: "r_cmpl q = Inner t a" "v_heap s t = Some tq" "r_sub tq = VFurthestTop ft" "t \<noteq> f"
    "goods s f = 0" "bads s f = 0" "r_outstanding q = int (occ s f + (X(f := Suc (X f))) f)" "f_fillsout ff = int (kids s f + E f)"
    "f_travdone ff \<longleftrightarrow> r_outstanding q = 0" "f \<in> v_requests s \<longleftrightarrow> open_q q \<or> f \<in> {}" "f \<in> {} \<longrightarrow> \<not> open_q q"
    by (rule fill_parent [OF I h])
  let ?last = "r_outstanding q - 1 = 0"
  define ff1 where "ff1 = (if ?last then ff\<lparr>f_travdone := True\<rparr> else ff)"
  define q1 where "q1 = q\<lparr>r_succeeded := (good \<or> r_succeeded q), r_outstanding := r_outstanding q - 1, r_sub := VFollowFill ff1\<rparr>"
  let ?close = "?last \<and> f_fillsout ff = 0"
  have op: "open_q q" using P(7) h(2) by (simp add: open_q_def)
  have oq: "open_q q1 = (\<not> ?close)" using P(7,8) by (auto simp: open_q_def q1_def ff1_def)
  let ?E = "if ?close then E(t := Suc (E t)) else E"
  have V: "vinv X (if ?close then {f} else {}) ?E (set_req f q1 s)"
  proof (rule vinv_fill [OF I h, where q' = q1 and ff' = ff1])
    show "?E x + of_bool (child_open x q1) = E x + of_bool (child_open x q)" if "x \<noteq> f" for x
      using P(1) op oq h(2) by (auto simp: child_open_def q1_def)
  qed (use P op oq in \<open>auto simp: q1_def ff1_def\<close>)
  have g: "grows s (set_req f q1 s)" using h by (intro grows_set [OF h(1)]) (simp_all add: q1_def)
  have eq: "fill_answer good f s = (if ?close then fill_complete f (set_req f q1 s) else (set_req f q1 s, Inr ()))"
  proof -
    have e: "q\<lparr>r_succeeded := x, r_outstanding := y, r_sub := VFollowFill ff\<rparr> = q\<lparr>r_succeeded := x, r_outstanding := y\<rparr>" for x y
      using h(2) by (cases q) simp
    show ?thesis using h by (auto simp: fill_answer_def last_any_def Let_def q1_def ff1_def) (simp only: e)
  qed
  show ?thesis
  proof (cases ?close)
    case False
    show ?thesis using V g eq unfolding if_not_P [OF False] by (simp add: runs_okI)
  next
    case True
    have "runs_ok X {} E (set_req f q1 s) (fill_complete f (set_req f q1 s))"
      by (rule fill_complete_inv [where q = q1 and ff = ff1 and t = t and a = a]) (use V True P in \<open>auto simp: q1_def\<close>)
    with eq True show ?thesis using runs_ok_grows [OF _ g] by simp
  qed
qed

lemma fill_edge_inv:
  assumes I: "vinv X {} E s" and h: "v_heap s f = Some q" "r_sub q = VFollowFill ff" and f: "0 < occ s f + X f"
  shows "runs_ok X {} E s (fill_edge f she s)"
proof -
  obtain t a tq ft where P: "r_cmpl q = Inner t a" "v_heap s t = Some tq" "r_sub tq = VFurthestTop ft" "t \<noteq> f"
    "goods s f = 0" "bads s f = 0" "r_outstanding q = int (occ s f + X f)" "f_fillsout ff = int (kids s f + E f)"
    "f_travdone ff \<longleftrightarrow> r_outstanding q = 0" "f \<in> v_requests s \<longleftrightarrow> open_q q \<or> f \<in> {}" "f \<in> {} \<longrightarrow> \<not> open_q q"
    by (rule fill_parent [OF I h])
  define q1 where "q1 = q\<lparr>r_sub := VFollowFill (ff\<lparr>f_fillsout := f_fillsout ff + 1\<rparr>)\<rparr>"
  have op: "open_q q" "open_q q1" using P(7,8) h(2) f by (auto simp: open_q_def q1_def)
  have V: "vinv X {} (E(f := Suc (E f))) (set_req f q1 s)"
  proof (rule vinv_fill [OF I h, where q' = q1 and ff' = "ff\<lparr>f_fillsout := f_fillsout ff + 1\<rparr>"])
    show "(E(f := Suc (E f))) x + of_bool (child_open x q1) = E x + of_bool (child_open x q)" if "x \<noteq> f" for x
      using that op h(2) by (simp add: child_open_def q1_def)
  qed (use P op in \<open>auto simp: q1_def\<close>)
  define s1 where "s1 = set_req f q1 s"
  define r where "r = v_next s1"
  define s2 where "s2 = insert_req r (new_req 1 (Inner f 0) (VHeadInsert she) s1)"
  have I1: "vinv X {} (E(f := Suc (E f))) s1" using V by (simp add: s1_def)
  have k1: "kind_at s1 f = Some KFill" by (simp add: kind_at_def s1_def q1_def)
  have rf: "r \<noteq> f" using fresh_X(2) [OF I1] k1 by (auto simp: kind_at_def r_def)
  have "vinv (X(v_next s1 := 1)) {} E s2"
  proof (rule vinv_new [OF I1 refl, where b = True and d = False and sub = "VHeadInsert she" and cm = "Inner f 0"])
    show "s2 = (if True then insert_req (v_next s1) (new_req 1 (Inner f 0) (VHeadInsert she) s1)
        else new_req 1 (Inner f 0) (VHeadInsert she) s1)" by (simp add: s2_def r_def)
  qed (use rf k1 in \<open>auto simp: r_def child_open_def data_ok_def rok_def open_q_def needy_q_def parent_kind_def\<close>)
  then have I2: "vinv (X(r := Suc (X r))) {} E s2" using fresh_X(1) [OF I1] by (simp add: r_def)
  have tg: "f_targcp ff \<in> set (vnames s2)"
    using vinv_rok(2) [OF I h(1)] h(2) by (simp add: data_ok_def s2_def s1_def)
  have "vinv X {} E (enqueue_headnode r (f_targcp ff) s2)"
    by (rule eq_head.enq_inv [OF I2 tg]) (simp add: kind_at_def s2_def r_def)
  moreover have "grows s s1" unfolding s1_def using h by (intro grows_set [OF h(1)]) (simp_all add: q1_def)
  moreover have "grows s1 (enqueue_headnode r (f_targcp ff) s2)"
    by (rule grows_new [OF I1]) (simp_all add: eq_head.enq_heap eq_head.enq_names eq_head.enq_rest, simp_all add: s2_def r_def)
  moreover have "fill_edge f she s = (enqueue_headnode r (f_targcp ff) s2, Inr ())"
    using h by (simp add: fill_edge_def Let_def s2_def r_def s1_def q1_def)
  ultimately show ?thesis using grows_trans by (auto simp: runs_ok_def)
qed

lemma fill_hei_inv:
  assumes I: "vinv X D (E(f := Suc (E f))) s" and fD: "f \<notin> D" and h: "v_heap s f = Some q" "r_sub q = VFollowFill ff"
  shows "runs_ok X D E s (fill_hei f s)"
proof -
  obtain t a tq ft where P: "r_cmpl q = Inner t a" "v_heap s t = Some tq" "r_sub tq = VFurthestTop ft" "t \<noteq> f"
    "goods s f = 0" "bads s f = 0" "r_outstanding q = int (occ s f + X f)" "f_fillsout ff = int (kids s f + (E(f := Suc (E f))) f)"
    "f_travdone ff \<longleftrightarrow> r_outstanding q = 0" "f \<in> v_requests s \<longleftrightarrow> open_q q \<or> f \<in> D" "f \<in> D \<longrightarrow> \<not> open_q q"
    by (rule fill_parent [OF I h])
  define ff1 where "ff1 = ff\<lparr>f_fillsout := f_fillsout ff - 1\<rparr>"
  define q1 where "q1 = q\<lparr>r_sub := VFollowFill ff1\<rparr>"
  let ?close = "f_travdone ff \<and> f_fillsout ff - 1 = 0"
  have op: "open_q q" using P(8) h(2) by (simp add: open_q_def)
  have m: "alive s f" using P(10) op by (simp add: alive_def)
  have oq: "open_q q1 = (\<not> ?close)" using P(7-9) by (auto simp: open_q_def q1_def ff1_def)
  let ?E = "if ?close then E(t := Suc (E t)) else E"
  have V: "vinv X (if ?close then insert f D else D) ?E (set_req f q1 s)"
  proof (rule vinv_fill [OF I h, where q' = q1 and ff' = ff1])
    show "?E x + of_bool (child_open x q1) = (E(f := Suc (E f))) x + of_bool (child_open x q)" if "x \<noteq> f" for x
      using P(1) op oq h(2) that by (auto simp: child_open_def q1_def)
  qed (use P op oq fD in \<open>auto simp: q1_def ff1_def\<close>)
  have g: "grows s (set_req f q1 s)" using h by (intro grows_set [OF h(1)]) (simp_all add: q1_def)
  have eq: "fill_hei f s = (if ?close then fill_complete f (set_req f q1 s) else (set_req f q1 s, Inr ()))"
    using h m by (simp add: fill_hei_def Let_def q1_def ff1_def)
  show ?thesis
  proof (cases ?close)
    case False
    show ?thesis using V g eq unfolding if_not_P [OF False] by (simp add: runs_okI)
  next
    case True
    have "runs_ok X D E (set_req f q1 s) (fill_complete f (set_req f q1 s))"
      by (rule fill_complete_inv [where q = q1 and ff = ff1 and t = t and a = a]) (use V True P fD in \<open>auto simp: q1_def\<close>)
    with eq True show ?thesis using runs_ok_grows [OF _ g] by simp
  qed
qed

text \<open>An insertion made for a follow-fill: it has one answer, which it reports to the fill.\<close>

lemma insert_settle:
  assumes I: "vinv (X(r := Suc (X r))) {} E s" and h: "v_heap s r = Some q" "r_sub q = VHeadInsert she" "r_cmpl q = Inner f a"
    and q1: "q1 = q\<lparr>r_succeeded := b, r_outstanding := r_outstanding q - 1\<rparr>"
  shows "r_outstanding q = 1" "\<not> r_succeeded q" "vinv X {r} (E(f := Suc (E f))) (set_req r q1 s)"
    "\<exists>fq ff. v_heap s f = Some fq \<and> r_sub fq = VFollowFill ff" "f \<noteq> r"
proof -
  note rk = vinv_rok(1) [OF I h(1)]
  show o: "r_outstanding q = 1" and ns: "\<not> r_succeeded q" using rk h by (auto simp: rok_def needy_q_def)
  have "up_ok s r q" using I h(1) by (simp add: vinv_def links_def)
  then have "kind_at s f = Some KFill" using h by (simp add: up_ok_def parent_kind_def)
  then obtain fq where fq: "v_heap s f = Some fq" "vk (r_sub fq) = KFill" by (auto simp: kind_at_def)
  then show "\<exists>fq ff. v_heap s f = Some fq \<and> r_sub fq = VFollowFill ff" by (cases "r_sub fq") auto
  show fr: "f \<noteq> r" using fq h by auto
  have dom: "dom (v_heap s) = {..<v_next s}" using I by (simp add: vinv_def)
  have fn: "f < v_next s" using vinv_rok(3) [OF I fq(1)] .
  have ch: "child_open x q = (x = f)" "child_open x q1 = False" for x
    using h o by (auto simp: child_open_def q1 open_q_def)
  have kid: "kids (set_req r q1 s) x + of_bool (x = f) = kids s x" for x using kids_set [OF dom h(1), of q1 x] by (simp add: ch)
  show "vinv X {r} (E(f := Suc (E f))) (set_req r q1 s)"
  proof (rule vinv_set [OF I h(1), where cm = NoCmpl])
    show "links {r} (set_req r q1 s)"
      by (rule links_plain [where D = "{}" and q = q]) (use I h in \<open>auto simp: vinv_def q1\<close>)
    show "kids (set_req r q1 s) x + (E(f := Suc (E f))) x = kids s x + E x" if "x \<noteq> r" for x
      using kid [of x] by auto
    show "(E(f := Suc (E f))) x = 0" if "v_next s \<le> x" for x using I fn that by (auto simp: vinv_def)
    show "data_ok s r q1" using h by (simp add: data_ok_def q1)
    show "rok (length (v_children s)) (occ s r + X r) (r \<in> v_requests s) (r \<in> {r}) (goods (set_req r q1 s) r)
        (bads (set_req r q1 s) r) (kids (set_req r q1 s) r + (E(f := Suc (E f))) r) q1"
      using rk h o kid [of r] fr by (auto simp: rok_def q1 open_q_def needy_q_def)
  qed (use h in \<open>auto simp: q1\<close>)
qed

lemma insert_inner_inv:
  assumes I: "vinv (X(r := Suc (X r))) {} E s" and h: "v_heap s r = Some q" "r_sub q = VHeadInsert she" "r_cmpl q = Inner f a"
    and q1: "q1 = q\<lparr>r_succeeded := b, r_outstanding := r_outstanding q - 1\<rparr>"
  shows "runs_ok X {} E s (vthen (fill_hei f (set_req r q1 s)) (done_if True r))"
proof -
  note S = insert_settle [OF I h q1]
  obtain fq ff where fq: "v_heap s f = Some fq" "r_sub fq = VFollowFill ff" using S(4) by blast
  have g: "grows s (set_req r q1 s)" using h by (intro grows_set [OF h(1)]) (simp_all add: q1)
  have "runs_ok X {r} E (set_req r q1 s) (fill_hei f (set_req r q1 s))"
    by (rule fill_hei_inv [OF S(3)]) (use S(5) fq in auto)
  then have "runs_ok X {} E (set_req r q1 s) (vthen (fill_hei f (set_req r q1 s)) (done_if True r))"
  proof (rule runs_ok_then)
    fix s1 assume V: "vinv X {r} E s1" and g1: "grows (set_req r q1 s) s1"
    have "kind_at s1 r = Some KInsert" using grows_kind [OF g1, of r KInsert] h by (simp add: kind_at_def q1)
    then show "runs_ok X {} E s1 (done_if True r s1)" using V by (intro done_if_inv [where D' = "{r}"]) auto
  qed
  then show ?thesis using runs_ok_grows [OF _ g] by blast
qed

lemma hei_inv:
  assumes I: "vinv (X(r := Suc (X r))) {} E s" and h: "v_heap s r = Some q" "r_sub q = VHeadInsert she"
  shows "runs_ok X {} E s (hei_complete r s)" "runs_ok X {} E s (hei_error r e s)"
proof -
  show "runs_ok X {} E s (hei_complete r s)"
  proof (cases "r_cmpl q")
    case (Inner f a)
    note S = insert_settle [OF I h Inner refl]
    show ?thesis using insert_inner_inv [OF I h Inner refl, of True] S(1,2) h Inner
      by (simp add: hei_complete_def first_good_def Let_def hei_upcall_def)
  next
    case (Client a)
    then show ?thesis using good_op [OF I h(1) _ _ _ _ refl, of "\<lambda>a. Hei_complete a she"] h
      by (simp add: hei_complete_def first_good_def Let_def hei_upcall_def plain_cmpl_def good_up_def bad_up_def split: if_splits)
  qed (use vinv_rok(1) [OF I h(1)] h in \<open>auto simp: rok_def\<close>)
  show "runs_ok X {} E s (hei_error r e s)"
  proof (cases "r_cmpl q")
    case (Inner f a)
    note S = insert_settle [OF I h Inner refl]
    have e: "q\<lparr>r_outstanding := x\<rparr> = q\<lparr>r_succeeded := False, r_outstanding := x\<rparr>" for x using S(2) by (cases q) simp
    have "hei_error r e s = vthen (fill_hei f (set_req r (q\<lparr>r_outstanding := r_outstanding q - 1\<rparr>) s)) (done_if True r)"
      using S(1,2) h Inner by (simp add: hei_error_def last_bad_def Let_def hei_upcall_def)
    then show ?thesis using insert_inner_inv [OF I h Inner refl, of False] unfolding e by simp
  next
    case (Client a)
    then show ?thesis using bad_op [OF I h(1) _ _ _ _ refl, of "\<lambda>a. Hei_error a she e" id] h
      by (auto simp: hei_error_def last_bad_def Let_def hei_upcall_def plain_cmpl_def good_up_def bad_up_def split: if_splits)
  qed (use vinv_rok(1) [OF I h(1)] h in \<open>auto simp: rok_def\<close>)
qed

end
