(* ===== verification/VBS_Runs.thy ===== *)
theory VBS_Runs
  imports VBS_Survey
begin

text \<open>
  Runs of a virtual block store: whatever the order in which the client calls, the children's
  loops go round and the children answer, the invariant holds, and with it what the client
  is told.
\<close>

subsection \<open>Answers\<close>

abbreviation no_x :: "rid \<Rightarrow> nat" where "no_x \<equiv> (\<lambda>_. 0)"

definition vok :: "vbs \<Rightarrow> bool" where
  "vok s = vinv no_x {} no_x s"

lemma flying_remove: "(r, c) \<in> set fs \<Longrightarrow> count_list (map fst fs) x = count_list (map fst (remove1 (r, c) fs)) x + of_bool (x = r)"
  by (induction fs) auto

lemma vinv_land:
  assumes I: "vinv X D E s" and f: "(r, c) \<in> set (v_flying s)"
  shows "vinv (X(r := Suc (X r))) D E (s\<lparr>v_flying := remove1 (r, c) (v_flying s)\<rparr>)"
proof (rule vinv_queues [OF I])
  have sub: "set (remove1 (r, c) (v_flying s)) \<subseteq> set (v_flying s)" by (rule set_remove1_subset)
  have d: "vtyped s" "snd ` set (v_flying s) \<subseteq> set (vnames s)" using I by (simp_all add: vinv_def)
  show "vtyped (s\<lparr>v_flying := remove1 (r, c) (v_flying s)\<rparr>)"
    using d(1) by (simp add: vtyped_def queue_kind_def kind_at_def)
  show "snd ` set (v_flying (s\<lparr>v_flying := remove1 (r, c) (v_flying s)\<rparr>)) \<subseteq> set (vnames s)" using d(2) sub by auto
  show "occ (s\<lparr>v_flying := remove1 (r, c) (v_flying s)\<rparr>) x + (X(r := Suc (X r))) x = occ s x + X x" for x
    using flying_remove [OF f, of x] by (cases "x = r") (simp_all add: occ_def queued_n_def flying_n_def)
  show "length (g_blk g) = g_buffsize g" if "y \<in> fst ` set (v_flying (s\<lparr>v_flying := remove1 (r, c) (v_flying s)\<rparr>))"
    "y \<notin> fst ` set (v_flying s)" for y g using that sub by auto
qed (simp add: same_core_def vnames_def)

lemma flying_occ: "(r, c) \<in> set (v_flying s) \<Longrightarrow> 0 < occ s r"
  by (force simp: occ_def flying_n_def count_list_0_iff)

text \<open>An answer finds its request, unless the request is a get for a needy child with three children or more.\<close>

lemma answer_alive:
  assumes I: "vok s" and f: "(r, c) \<in> set (v_flying s)" and h: "v_heap s r = Some q" and a: "\<not> alive s r"
  shows "needy_q q \<and> 3 \<le> length (v_children s)" 
proof -
  have rk: "rok (length (v_children s)) (occ s r) (r \<in> v_requests s) False (goods s r) (bads s r) (kids s r) q"
    using vinv_rok(1) [OF I [unfolded vok_def] h] by simp
  have o: "0 < occ s r" using flying_occ [OF f] .
  have m: "r \<notin> v_requests s" using a by (simp add: alive_def)
  have nt: "vk (r_sub q) \<noteq> KTop"
  proof
    assume "vk (r_sub q) = KTop"
    with rk o show False by (cases "r_cmpl q"; cases "r_sub q") (auto simp: rok_def)
  qed
  have ny: "needy_q q"
  proof (rule ccontr)
    assume n: "\<not> needy_q q"
    then have "0 < r_outstanding q" using rk o nt unfolding rok_def by linarith
    then have "open_q q" using nt by (auto simp: open_q_def split: vsub.splits)
    with rk m n nt show False unfolding rok_def by blast
  qed
  moreover have "open_q q = (0 < r_outstanding q)" using ny by (auto simp: needy_q_def open_q_def split: vsub.splits)
  moreover have "int (occ s r) = r_outstanding q + int (length (v_children s)) - 2" "r_outstanding q \<le> 1"
    using rk ny by (auto simp: rok_def needy_q_def)
  moreover have "\<not> (open_q q \<and> 2 \<le> length (v_children s))" using rk m nt ny unfolding rok_def by blast
  ultimately show ?thesis using o by linarith
qed

lemma alive_final: "alive (s\<lparr>v_flying := fs\<rparr>) r = alive s r"
  by (simp add: alive_def sub_held_def)

lemma deliver_inv:
  assumes I: "vok s" and f: "(r, c) \<in> set (v_flying s)" and h: "v_heap s r = Some q" and ft: "fits (r_sub q) a" and al: "alive s r"
  shows "(snd (deliver parse r c a s) = Inl InternalError \<and> vk (r_sub q) \<in> {KFollow, KSub}) \<or> runs_ok no_x {} no_x s (deliver parse r c a s)"
proof -
  let ?s1 = "if is_final a then s\<lparr>v_flying := remove1 (r, c) (v_flying s)\<rparr> else s"
  have eq: "deliver parse r c a s = dispatch parse r c (r_sub q) a ?s1"
    using al h by (simp add: deliver_def Let_def)
  have I0: "vinv no_x {} no_x s" using I by (simp add: vok_def)
  have I1: "vinv (no_x(r := Suc (no_x r))) {} no_x (s\<lparr>v_flying := remove1 (r, c) (v_flying s)\<rparr>)"
    using vinv_land [OF I0 f] by simp
  let ?t = "s\<lparr>v_flying := remove1 (r, c) (v_flying s)\<rparr>"
  have h1: "v_heap ?t r = Some q" using h by simp
  have g1: "grows s ?t" by (rule grows_same) (simp_all add: vnames_def)
  have fl: "r \<in> fst ` set (v_flying s)" using f by force
  have R: "runs_ok no_x {} no_x ?t x \<Longrightarrow> runs_ok no_x {} no_x s x" for x using runs_ok_grows [OF _ g1] by blast
  have pl: "vk (r_sub q) \<notin> {KInsert, KFill, KSub} \<Longrightarrow> plain_cmpl q" using plain_kind [OF I0 h] by blast
  show ?thesis
  proof (cases "r_sub q")
    case (VGet g)
    have bl: "length (g_blk g) = g_buffsize g" using vinv_rok(2) [OF I0 h] VGet fl by (simp add: data_ok_def)
    show ?thesis using ft VGet eq R get_data_inv [OF I0 h VGet fl] bg_complete_inv [OF I1 h1 VGet] bl
        bg_error_inv [OF I1] h1
      by (cases a) (auto simp: is_final_def kind_at_def)
  next
    case (VPut k b)
    show ?thesis using ft VPut eq R bp_inv [OF I1 h1 VPut _ pl]
      by (cases a) (auto simp: is_final_def)
  next
    case (VRefreshStart i)
    show ?thesis using ft VRefreshStart eq R rs_inv [OF I1 h1 VRefreshStart _ pl]
      by (cases a) (auto simp: is_final_def)
  next
    case (VRefreshBlock i k)
    show ?thesis using ft VRefreshBlock eq R rb_inv [OF I1 h1 VRefreshBlock _ pl]
      by (cases a) (auto simp: is_final_def)
  next
    case (VRefreshFinish i)
    show ?thesis using ft VRefreshFinish eq R rf_inv [OF I1 h1 VRefreshFinish _ pl]
      by (cases a) (auto simp: is_final_def)
  next
    case (VHeadInsert she)
    show ?thesis using ft VHeadInsert eq R hei_inv [OF I1 h1 VHeadInsert]
      by (cases a) (auto simp: is_final_def)
  next
    case (VHeadFollow hn es)
    have "snd (follow_edge parse r she s) = Inl InternalError \<or> runs_ok no_x {} no_x s (follow_edge parse r she s)" for she
      using follow_edge_inv [OF I0 h VHeadFollow, of parse she] by auto
    then show ?thesis using ft VHeadFollow eq R follow_answer_inv [OF I1 h1 VHeadFollow]
      by (cases a) (auto simp: is_final_def)
  next
    case (VFollowFill ff)
    show ?thesis using ft VFollowFill eq R fill_answer_inv [OF I1 h1 VFollowFill] fill_edge_inv [OF I0 h VFollowFill] flying_occ [OF f]
      by (cases a) (auto simp: is_final_def)
  next
    case (VFurthestSub b)
    have "snd (sub_answer good r c ?t) = Inl InternalError \<or> runs_ok no_x {} no_x s (sub_answer good r c ?t)" for good
      using sub_answer_inv [OF I1 h1 VFurthestSub, of good c] R by blast
    then show ?thesis using ft VFurthestSub eq sub_node_inv [OF I0 h VFurthestSub]
      by (cases a) (auto simp: is_final_def)
  next
    case (VFurthestTop ftop)
    with ft show ?thesis by simp
  qed
qed

subsection \<open>The loops of the children\<close>

lemma initiate_inv:
  assumes I: "vinv (X(r := Suc (X r))) D E s" and c: "c \<in> set (vnames s)"
  shows "vinv X D E (initiate r c s)"
proof -
  define s1 where "s1 = (case v_heap s r of
      Some q \<Rightarrow> (case r_sub q of
          VGet g \<Rightarrow> set_req r (q\<lparr>r_sub := VGet (g\<lparr>g_blk := resize (g_buffsize g) (g_blk g)\<rparr>)\<rparr>) s | _ \<Rightarrow> s)
    | None \<Rightarrow> s)"
  have rs: "length (resize n xs) = n" for n xs by (simp add: resize_def)
  have V: "vinv (X(r := Suc (X r))) D E s1 \<and> vnames s1 = vnames s \<and> v_flying s1 = v_flying s \<and>
      (\<forall>q g. v_heap s1 r = Some q \<longrightarrow> r_sub q = VGet g \<longrightarrow> length (g_blk g) = g_buffsize g)"
  proof (cases "\<exists>q g. v_heap s r = Some q \<and> r_sub q = VGet g")
    case True
    then obtain q g where h: "v_heap s r = Some q" "r_sub q = VGet g" by blast
    let ?q = "q\<lparr>r_sub := VGet (g\<lparr>g_blk := resize (g_buffsize g) (g_blk g)\<rparr>)\<rparr>"
    have "data_ok s r ?q" using vinv_rok(2) [OF I h(1)] h(2) by (simp add: data_ok_def rs)
    then have "vinv (X(r := Suc (X r))) D E (set_req r ?q s)" using h by (intro vinv_touch [OF I h(1)]) auto
    then show ?thesis using h by (simp add: s1_def rs)
  next
    case False
    then have "s1 = s" unfolding s1_def by (auto split: option.splits vsub.splits)
    with I False show ?thesis by auto
  qed
  let ?s2 = "s1\<lparr>v_flying := v_flying s1 @ [(r, c)]\<rparr>"
  have "vinv X D E ?s2"
  proof (rule vinv_queues [OF conjunct1 [OF V]])
    have d: "vtyped s1" "snd ` set (v_flying s1) \<subseteq> set (vnames s1)" using conjunct1 [OF V] by (simp_all add: vinv_def)
    show "same_core s1 ?s2" by (simp add: same_core_def vnames_def)
    show "vtyped ?s2" using d(1) by (simp add: vtyped_def queue_kind_def kind_at_def)
    show "snd ` set (v_flying ?s2) \<subseteq> set (vnames s1)" using d(2) c V by auto
    show "occ ?s2 x + X x = occ s1 x + (X(r := Suc (X r))) x" for x
      by (simp add: occ_def queued_n_def flying_n_def)
    show "length (g_blk g) = g_buffsize g"
      if "v_heap s1 y = Some q" "r_sub q = VGet g" "y \<in> fst ` set (v_flying ?s2)" "y \<notin> fst ` set (v_flying s1)" for y q g
    proof -
      have "y = r" using that(3,4) by auto
      with that(1,2) V show ?thesis by blast
    qed
  qed
  moreover have "initiate r c s = ?s2" by (simp add: initiate_def Let_def s1_def)
  ultimately show ?thesis by simp
qed

lemma initiate_needed_inv:
  assumes I: "vinv X D E s" and c: "c \<in> set (vnames s)"
  shows "vinv X D E (initiate_needed c nk s)"
proof -
  let ?sub = "VGet \<lparr>g_key = nk, g_hasbuf = False, g_buffsize = 32 * 1024, g_blk = [], g_retsize = 0, g_needy = [c]\<rparr>"
  let ?others = "filter (\<lambda>x. x \<noteq> c) (vnames s)"
  have dist: "distinct (vnames s)" using I by (simp add: vinv_def)
  have len: "length ?others = length (v_children s) - 1" using length_filter_neq [OF dist c] by simp
  have n1: "1 \<le> length (v_children s)" using I by (simp add: vinv_def Suc_le_eq)
  have fl: "v_next s \<notin> fst ` set (v_flying s)"
  proof
    assume "v_next s \<in> fst ` set (v_flying s)"
    then have "0 < occ s (v_next s)" using flying_occ by fastforce
    then show False using I by (simp add: vinv_def)
  qed
  define b where "b = (?others \<noteq> [])"
  define s1 where "s1 = (if b then insert_req (v_next s) (new_req 1 NoCmpl ?sub s) else new_req 1 NoCmpl ?sub s)"
  have b2: "b = (2 \<le> length (v_children s))" using len n1 by (auto simp: b_def simp flip: length_greater_0_conv)
  have V: "vinv (X(v_next s := length ?others)) D E s1"
  proof (rule vinv_new [OF I refl s1_def, where d = False])
    show "rok (length (v_children s)) (length ?others) b False 0 0 0 \<lparr>r_succeeded = False, r_outstanding = int 1, r_cmpl = NoCmpl, r_sub = ?sub\<rparr>"
      using len n1 b2 by (simp add: rok_def open_q_def needy_q_def)
  qed (use c fl in \<open>simp_all add: child_open_def data_ok_def\<close>)
  have "vinv X D E (fold (enqueue_get (v_next s)) ?others s1)"
  proof (rule eq_get.fold_inv)
    show "vinv (X(v_next s := X (v_next s) + length ?others)) D E s1" using V fresh_X(1) [OF I] by simp
    show "set ?others \<subseteq> set (vnames s1)" by (auto simp: s1_def)
    show "kind_at s1 (v_next s) \<in> Some ` {KGet}" by (simp add: kind_at_def s1_def)
  qed
  moreover have "initiate_needed c nk s = fold (enqueue_get (v_next s)) ?others s1"
    by (simp add: initiate_needed_def enqueue_needy_get_def Let_def s1_def b_def)
  ultimately show ?thesis by simp
qed

lemma pop_inv:
  assumes I: "vinv X D E s" and c: "c \<in> set (vnames s)"
  shows "c_refreqs (child_of s c) = r # rs \<Longrightarrow> vinv (X(r := Suc (X r))) D E (upd_child c (\<lambda>ch. ch\<lparr>c_refreqs := rs\<rparr>) s)"
    and "c_shereqs (child_of s c) = r # rs \<Longrightarrow> vinv (X(r := Suc (X r))) D E (upd_child c (\<lambda>ch. ch\<lparr>c_shereqs := rs\<rparr>) s)"
    and "c_getreqs (child_of s c) = r # rs \<Longrightarrow> vinv (X(r := Suc (X r))) D E (upd_child c (\<lambda>ch. ch\<lparr>c_getreqs := rs\<rparr>) s)"
    and "c_putreqs (child_of s c) = r # rs \<Longrightarrow> vinv (X(r := Suc (X r))) D E (upd_child c (\<lambda>ch. ch\<lparr>c_putreqs := rs\<rparr>) s)"
  by (rule vinv_dequeue [OF I c]; simp add: c_queued_def queue_kind_def)+

lemma initiate_pass_inv:
  assumes I: "vinv X D E s"
  shows "vinv X D E (fst (initiate_pass sat c s))"
proof -
  have q: "vinv X D E (upd_child c (\<lambda>ch. ch\<lparr>c_notified := False\<rparr>) s)" using I by (intro vinv_upd_quiet) auto
  show ?thesis
  proof (cases "c \<in> set (vnames s)")
    case False
    then have "child_of s c = VBSChild_ctor" by (simp add: child_of_def vnames_def map_of_eq_None_iff [symmetric])
    with q show ?thesis by (simp add: initiate_pass_def VBSChild_ctor_def)
  next
    case True
    have k: "vinv X D E (upd_child c (\<lambda>ch. ch\<lparr>c_neededkeys := nks\<rparr>) s)" for nks using I by (intro vinv_upd_quiet) auto
    have n: "vinv X D E (initiate_needed c nk (upd_child c (\<lambda>ch. ch\<lparr>c_neededkeys := nks\<rparr>) s))" for nk nks
      using k True by (intro initiate_needed_inv) auto
    note p = pop_inv [OF I True]
    have i: "vinv (X(r := Suc (X r))) D E (upd_child c f s) \<Longrightarrow> vinv X D E (initiate r c (upd_child c f s))" for r f
      using True by (intro initiate_inv) auto
    show ?thesis
      using q k n i p by (auto simp: initiate_pass_def Let_def split: list.split)
  qed
qed

lemma pass_inv: "vinv X D E s \<Longrightarrow> vinv X D E (pass c sat s)"
  using initiate_pass_inv [of X D E s sat c] vinv_control(2) by (auto simp: pass_def split: prod.splits bool.splits)

subsection \<open>Calls of the client\<close>

context enqueuer begin

lemma issue_inv:
  assumes I: "vinv X D E s" and k: "vk sub \<in> ks" "vk sub \<in> {KGet, KPut, KStart, KBlock, KFinish, KInsert, KFollow}"
    and g: "\<And>g. sub = VGet g \<Longrightarrow> g_needy g = []"
  shows "vinv X D E (issue enq argp sub s)"
proof -
  define s1 where "s1 = insert_req (v_next s) (new_req (length (v_children s)) (Client argp) sub s)"
  have n: "0 < length (v_children s)" using I by (simp add: vinv_def)
  have fl: "v_next s \<notin> fst ` set (v_flying s)"
  proof
    assume "v_next s \<in> fst ` set (v_flying s)"
    then have "0 < occ s (v_next s)" using flying_occ by fastforce
    then show False using I by (simp add: vinv_def)
  qed
  have V: "vinv (X(v_next s := length (v_children s))) D E s1"
  proof (rule vinv_new [OF I refl, where b = True and d = False])
    show "s1 = (if True then insert_req (v_next s) (new_req (length (v_children s)) (Client argp) sub s)
        else new_req (length (v_children s)) (Client argp) sub s)" by (simp add: s1_def)
    show "rok (length (v_children s)) (length (v_children s)) True False 0 0 0
        \<lparr>r_succeeded = False, r_outstanding = int (length (v_children s)), r_cmpl = Client argp, r_sub = sub\<rparr>"
      using k(2) n g by (cases sub) (simp_all add: rok_def open_q_def needy_q_def rep_client_def rep_first_def rep_all_def rep_start_def)
    show "data_ok s (v_next s) \<lparr>r_succeeded = False, r_outstanding = int (length (v_children s)), r_cmpl = Client argp, r_sub = sub\<rparr>"
      using k(2) g fl by (cases sub) (simp_all add: data_ok_def)
  qed (use k(2) in \<open>auto simp: child_open_def\<close>)
  have "vinv X D E (fold (enq (v_next s)) (vnames s) s1)"
  proof (rule fold_inv)
    show "vinv (X(v_next s := X (v_next s) + length (vnames s))) D E s1" using V fresh_X(1) [OF I] by simp
    show "kind_at s1 (v_next s) \<in> Some ` ks" using k(1) by (simp add: kind_at_def s1_def)
  qed (simp add: s1_def)
  then show ?thesis by (simp add: issue_def Let_def s1_def)
qed

end

lemma furthest_inv:
  assumes I: "vinv X D E s"
  shows "vinv X D E (bs_head_furthest_async argp hn s)"
proof -
  define t where "t = v_next s"
  define ft where "ft = \<lparr>t_hn = hn, t_subfurther = None, t_lasttry = False, t_ffout = 0\<rparr>"
  define s1 where "s1 = insert_req t (new_req (length (v_children s)) (Client argp) (VFurthestTop ft) s)"
  have tD: "t \<notin> D" using I by (simp add: vinv_def t_def)
  have "vinv (X(v_next s := 0)) (if True then insert (v_next s) D else D) E s1"
  proof (rule vinv_new [OF I refl, where b = True and d = True])
    show "s1 = (if True then insert_req (v_next s) (new_req (length (v_children s)) (Client argp) (VFurthestTop ft) s)
        else new_req (length (v_children s)) (Client argp) (VFurthestTop ft) s)" by (simp add: s1_def t_def)
  qed (simp_all add: child_open_def data_ok_def rok_def open_q_def needy_q_def ft_def)
  then have I1: "vinv X (insert t D) E s1" using fresh_X(1) [OF I] by (simp add: t_def fun_upd_idem)
  have gb: "goods s1 t = 0" "bads s1 t = 0"
    using I by (simp_all add: vinv_def s1_def goods_def bads_def t_def)
  define q where "q = \<lparr>r_succeeded = False, r_outstanding = int (length (v_children s)), r_cmpl = Client argp, r_sub = VFurthestTop ft\<rparr>"
  have h: "v_heap s1 t = Some q" "r_sub q = VFurthestTop ft" "t_subfurther ft = None" "t_ffout ft = 0"
    by (simp_all add: s1_def t_def ft_def q_def)
  have "vinv X D E (survey t 0 s1)" using survey_inv [OF I1 tD h gb, of 0] by simp
  then show ?thesis by (simp add: bs_head_furthest_async_def top_init_def Let_def s1_def t_def ft_def)
qed

lemma vcall_inv: "vinv X D E s \<Longrightarrow> vinv X D E (vcall op s)"
  by (cases op)
    (auto simp: bs_block_get_async_def bs_block_put_async_def bs_refresh_start_async_def bs_refresh_block_async_def
      bs_refresh_finish_async_def bs_head_insert_async_def bs_head_follow_async_def
      intro!: eq_get.issue_inv eq_put.issue_inv eq_ref.issue_inv eq_head.issue_inv furthest_inv)

subsection \<open>Runs\<close>

lemma vdo_inv:
  assumes "vok s" "enabled l s" "vdo parse l s = (s', Inr u)"
  shows "vok s'"
proof (cases l)
  case (LAnswer r c a)
  with assms(2) obtain q where h: "(r, c) \<in> set (v_flying s)" "v_heap s r = Some q" "fits (r_sub q) a"
    by (auto simp: enabled_def split: option.splits)
  have d: "deliver parse r c a s = (s', Inr u)" using assms(3) LAnswer by (simp add: vdo_def)
  then have "alive s r" by (auto simp: deliver_def Let_def split: if_splits)
  from deliver_inv [OF assms(1) h this, of parse] d show ?thesis by (auto simp: runs_ok_def vok_def)
next
  case (LPass c sat)
  with assms show ?thesis by (auto simp: vdo_def vok_def intro: pass_inv)
qed (use assms in \<open>auto simp: vdo_def vok_def handle_exception_def uh_unsaturated_def intro: vcall_inv vinv_control
    dest: vinv_control(1) vinv_control(2)\<close>)

lemma vrun_inv: "vrun parse s ls s' \<Longrightarrow> vok s \<Longrightarrow> vok s'"
  by (induction rule: vrun.induct) (auto intro: vdo_inv)

text \<open>A store that was opened with at least one child.\<close>

definition fresh_store :: "vbs \<Rightarrow> bool" where
  "fresh_store s = (distinct (vnames s) \<and> (\<forall>(n, ch) \<in> set (v_children s). ch = VBSChild_ctor) \<and>
     v_requests s = {} \<and> v_heap s = (\<lambda>_. None) \<and> v_next s = 0 \<and> v_flying s = [] \<and> v_reactor s = [] \<and> v_loops s = [] \<and> v_log s = [])"

lemma bs_open_fresh:
  "fresh_store s \<Longrightarrow> bs_open reg args s = (s', Inr ()) \<Longrightarrow> fresh_store s' \<and> set (vnames s') = set (vnames s) \<union> set args"
proof (induction args arbitrary: s)
  case (Cons n args)
  let ?s = "if n \<in> set (vnames s) then s else s\<lparr>v_children := insort_key fst (n, VBSChild_ctor) (v_children s)\<rparr>"
  have m: "mset (vnames (s\<lparr>v_children := insort_key fst (n, VBSChild_ctor) (v_children s)\<rparr>)) = mset (n # vnames s)"
    by (simp add: vnames_def flip: mset_map) (simp add: mset_map)
  then have "n \<notin> set (vnames s) \<Longrightarrow> distinct (vnames (s\<lparr>v_children := insort_key fst (n, VBSChild_ctor) (v_children s)\<rparr>))"
    "set (vnames (s\<lparr>v_children := insort_key fst (n, VBSChild_ctor) (v_children s)\<rparr>)) = insert n (set (vnames s))"
    using Cons.prems(1) mset_eq_imp_distinct_iff [OF m] mset_eq_setD [OF m] by (auto simp: fresh_store_def)
  then have "fresh_store ?s" "set (vnames ?s) = insert n (set (vnames s))"
    using Cons.prems(1) by (auto simp: fresh_store_def set_insort_key)
  moreover have "bs_open reg args ?s = (s', Inr ())" using Cons.prems(2) by (simp split: if_splits)
  ultimately show ?case using Cons.IH by simp
qed simp

lemma fresh_vok: "fresh_store s \<Longrightarrow> v_children s \<noteq> [] \<Longrightarrow> vok s"
proof -
  assume f: "fresh_store s" and n: "v_children s \<noteq> []"
  note f' = f [unfolded fresh_store_def]
  have q: "queue_kind ch s" "count_list (c_queued ch) r = 0" if "(m, ch) \<in> set (v_children s)" for m ch r
  proof -
    have "ch = VBSChild_ctor" using f' that by blast
    then show "queue_kind ch s" "count_list (c_queued ch) r = 0" by (simp_all add: queue_kind_def VBSChild_ctor_def c_queued_def)
  qed
  have o: "occ s r = 0" for r
    using q(2) f' by (auto simp: occ_def queued_n_def flying_n_def)
  have "vtyped s" using q(1) by (auto simp: vtyped_def)
  moreover have "links {} s" using f' by (simp add: links_def down_ok_def)
  ultimately show ?thesis using f' n o by (simp add: vok_def vinv_def goods_def bads_def)
qed

lemma opened_vok:
  assumes "bs_open reg args vbs_ctor = (s, Inr ())" "args \<noteq> []"
  shows "vok s"
proof -
  have "fresh_store vbs_ctor" by (simp add: fresh_store_def vbs_ctor_def vnames_def)
  from bs_open_fresh [OF this assms(1)] assms(2) have "fresh_store s" "set (vnames s) \<noteq> {}" by auto
  then show ?thesis using fresh_vok by (auto simp: vnames_def)
qed

lemma reached_vok:
  assumes "bs_open reg args vbs_ctor = (s0, Inr ())" "args \<noteq> []" "vrun parse s0 ls s"
  shows "vok s"
  using vrun_inv [OF assms(3) opened_vok [OF assms(1,2)]] .

subsection \<open>What the client is told\<close>

definition idle :: "vbs \<Rightarrow> bool" where
  "idle s = (v_flying s = [] \<and> (\<forall>(n, ch) \<in> set (v_children s). c_queued ch = []))"

lemma idle_occ: "idle s \<Longrightarrow> occ s r = 0"
  by (auto simp: idle_def occ_def queued_n_def flying_n_def)

lemma open_kid:
  assumes "0 < kids s p" shows "\<exists>r q. v_heap s r = Some q \<and> child_open p q"
proof (rule ccontr)
  assume "\<not> ?thesis"
  then have "{r. \<exists>q. v_heap s r = Some q \<and> child_open p q} = {}" by blast
  then have "kids s p = 0" unfolding kids_def by (metis card.empty)
  with assms show False by simp
qed

text \<open>Without answers to come no request is open, so the list of requests is empty.\<close>

lemma idle_requests:
  assumes I: "vok s" and o: "\<And>r. occ s r = 0"
  shows "v_requests s = {}"
proof -
  note V = I [unfolded vok_def]
  have rk: "rok (length (v_children s)) 0 (r \<in> v_requests s) False (goods s r) (bads s r) (kids s r) q" if "v_heap s r = Some q" for r q
    using vinv_rok(1) [OF V that] o by simp
  have out: "r_outstanding q = 0" if "v_heap s r = Some q" "vk (r_sub q) \<noteq> KTop" "\<not> needy_q q" for r q
    using rk [OF that(1)] that(2,3) unfolding rok_def by simp
  have plain: "\<not> open_q q" if h: "v_heap s r = Some q" "vk (r_sub q) \<notin> {KTop, KFill}" "\<not> needy_q q" for r q
    using out [OF h(1) _ h(3)] h(2) by (auto simp: open_q_def split: vsub.splits)
  have fill: "\<not> open_q q" if h: "v_heap s r = Some q" "vk (r_sub q) = KFill" for r q
  proof
    assume "open_q q"
    obtain ff where ff: "r_sub q = VFollowFill ff" using h(2) by (cases "r_sub q") auto
    have "r_outstanding q = 0" using out [OF h(1)] h(2) by (simp add: needy_q_def)
    with \<open>open_q q\<close> ff have "0 < f_fillsout ff" by (simp add: open_q_def)
    moreover have "f_fillsout ff = int (kids s r)" using fill_parent [OF V h(1) ff] by auto
    ultimately obtain x xq where x: "v_heap s x = Some xq" "child_open r xq" using open_kid [of s r] by auto
    have "up_ok s x xq" using V x(1) by (simp add: vinv_def links_def)
    with x(2) h have "vk (r_sub xq) = KInsert"
      by (auto simp: child_open_def up_ok_def kind_at_def parent_kind_def split: vkind.splits)
    with x plain [OF x(1)] show False by (auto simp: child_open_def needy_q_def)
  qed
  have top: "\<not> (open_q q \<and> bads s r = 0)" if h: "v_heap s r = Some q" "vk (r_sub q) = KTop" and m: "r \<in> v_requests s" for r q
  proof
    assume op: "open_q q \<and> bads s r = 0"
    obtain ft where ft: "r_sub q = VFurthestTop ft" using h(2) by (cases "r_sub q") auto
    have k: "t_ffout ft = int (kids s r)" using top_client [OF V h(1) ft] by auto
    show False
    proof (cases "t_subfurther ft")
      case None
      with op ft k have "0 < kids s r" by (simp add: open_q_def)
      then obtain x xq where x: "v_heap s x = Some xq" "child_open r xq" using open_kid by blast
      have "up_ok s x xq" using V x(1) by (simp add: vinv_def links_def)
      with x(2) h have "vk (r_sub xq) = KFill"
        by (auto simp: child_open_def up_ok_def kind_at_def parent_kind_def split: vkind.splits)
      with x fill [OF x(1)] show False by (auto simp: child_open_def)
    next
      case (Some u)
      then have "sub_held s u r" using sub_held_top [OF h(1) ft] by simp
      with V m obtain uq where u: "v_heap s u = Some uq" "vk (r_sub uq) = KSub" "open_q uq"
        unfolding vinv_def links_def down_ok_def by blast
      then show False using plain [OF u(1)] by (simp add: needy_q_def)
    qed
  qed
  have "r \<notin> v_requests s" for r
  proof
    assume m: "r \<in> v_requests s"
    then have "r < v_next s" using V unfolding vinv_def by (meson not_less)
    then obtain q where h: "v_heap s r = Some q" using V unfolding vinv_def by (metis domD lessThan_iff)
    have "open_q q \<and> (needy_q q \<longrightarrow> 2 \<le> length (v_children s)) \<and> (vk (r_sub q) = KTop \<longrightarrow> bads s r = 0)"
      using rk [OF h] m unfolding rok_def by blast
    moreover have False if "needy_q q" "2 \<le> length (v_children s)" "open_q q"
    proof -
      have "0 < r_outstanding q" using that by (auto simp: needy_q_def open_q_def split: vsub.splits)
      moreover have "int 0 = r_outstanding q + int (length (v_children s)) - 2"
        using rk [OF h] that(1) by (auto simp: rok_def needy_q_def)
      ultimately show False using that(2) by linarith
    qed
    ultimately show False using plain [OF h] fill [OF h] top [OF h _ m] by blast
  qed
  then show ?thesis by blast
qed

lemma client_reports:
  assumes I: "vok s" and h: "v_heap s r = Some q" "r_cmpl q = Client a"
  shows "goods s r + bads s r \<le> 1" "vk (r_sub q) \<noteq> KStart \<Longrightarrow> r \<notin> v_requests s \<Longrightarrow> goods s r + bads s r = 1"
proof -
  have rk: "rok (length (v_children s)) (occ s r) (r \<in> v_requests s) False (goods s r) (bads s r) (kids s r) q"
    using vinv_rok(1) [OF I [unfolded vok_def] h(1)] by simp
  show "goods s r + bads s r \<le> 1"
    using rk h(2) by (cases "r_sub q")
      (auto simp: rok_def rep_client_def rep_first_def rep_all_def rep_start_def of_bool_def split: if_splits)
  show "goods s r + bads s r = 1" if "vk (r_sub q) \<noteq> KStart" "r \<notin> v_requests s"
    using rk h(2) that by (cases "r_sub q")
      (auto simp: rok_def rep_client_def rep_first_def rep_all_def needy_q_def open_q_def)
qed

lemma vrun_append: "vrun parse s1 ms s2 \<Longrightarrow> vrun parse s ls s1 \<Longrightarrow> vrun parse s (ls @ ms) s2"
proof (induction rule: vrun.induct)
  case (vrun_snoc s1 ms s2 l s3 u)
  then show ?case by (metis append_assoc vrun.vrun_snoc)
qed simp

lemma exec_vrun: "exec parse ls s = Some s' \<Longrightarrow> vrun parse s ls s'"
proof (induction ls arbitrary: s)
  case (Cons l ls)
  then obtain s1 u where 1: "enabled l s" "vdo parse l s = (s1, Inr u)" "exec parse ls s1 = Some s'"
    by (auto split: if_splits prod.splits sum.splits)
  have "vrun parse s ([] @ [l]) s1" using vrun.vrun_snoc [OF vrun.vrun_nil 1(1,2)] .
  then show ?case using vrun_append [OF Cons.IH [OF 1(3)]] by fastforce
qed (simp add: vrun.vrun_nil)

text \<open>
  C4. In every run of a store opened with at least one child, a request of the client is told
  a result at most once; when it has left the list of requests it was told exactly once, unless
  it starts a refresh; and when no entry is queued and no call of a child is unanswered, the
  list is empty, so that \<^verbatim>\<open>bs_sync\<close> returns.
\<close>

theorem vbs_reports_once:
  assumes "bs_open reg args vbs_ctor = (s0, Inr ())" "args \<noteq> []" "vrun parse s0 ls s"
    and "v_heap s r = Some q" "r_cmpl q = Client a"
  shows "goods s r + bads s r \<le> 1 \<and>
    (vk (r_sub q) \<noteq> KStart \<longrightarrow> r \<notin> v_requests s \<longrightarrow> goods s r + bads s r = 1) \<and>
    (idle s \<longrightarrow> v_requests s = {} \<and> bs_sync_pass s = (s, True))"
proof -
  note I = reached_vok [OF assms(1-3)]
  have "idle s \<Longrightarrow> v_requests s = {}" using idle_requests [OF I] idle_occ by blast
  then show ?thesis using client_reports [OF I assms(4,5)] by (simp add: bs_sync_pass_def)
qed

text \<open>Two children: a put that one of them takes and the other has no room for.\<close>

definition wit_two :: vbs where
  "wit_two = \<lparr>v_children = [(''a'', VBSChild_ctor), (''b'', VBSChild_ctor)], v_requests = {}, v_waiting = False,
     v_heap = (\<lambda>_. None), v_next = 0, v_flying = [], v_reactor = [], v_loops = [], v_log = []\<rparr>"

definition no_parse :: he_parser where "no_parse = (\<lambda>_. None)"

lemma wit_two_open: "bs_open (\<lambda>_. True) [''b'', ''a''] vbs_ctor = (wit_two, Inr ())"
  by (simp add: vbs_ctor_def wit_two_def vnames_def less_char_def)

definition wit_put :: "vlabel list" where
  "wit_put = [LCall (OpPut 7 [1] [2, 3]), LDispatch ''a'', LPass ''a'' False, LDispatch ''b'', LPass ''b'' False,
     LAnswer 0 ''b'' (AErr NoSpaceError), LAnswer 0 ''a'' (AOk 0)]"

lemma wit_put_run:
  "case exec no_parse wit_put wit_two of
     None \<Rightarrow> False
   | Some s \<Rightarrow> idle s \<and> map_option r_cmpl (v_heap s 0) = Some (Client 7) \<and>
       map_option (\<lambda>q. vk (r_sub q)) (v_heap s 0) = Some KPut \<and> v_log s = [(0, Bp_complete 7 [1])]"
  by code_simp

theorem vbs_reports_once_witness:
  "\<exists>s q. exec no_parse wit_put wit_two = Some s \<and> v_heap s 0 = Some q \<and> r_cmpl q = Client 7 \<and> vk (r_sub q) \<noteq> KStart \<and>
     idle s \<and> goods s 0 + bads s 0 = 1 \<and> bs_sync_pass s = (s, True)"
proof -
  obtain s q where s: "exec no_parse wit_put wit_two = Some s" "idle s" "v_heap s 0 = Some q" "r_cmpl q = Client 7" "vk (r_sub q) = KPut"
    using wit_put_run by (auto split: option.splits)
  have ne: "[''b'', ''a''] \<noteq> []" by simp
  from vbs_reports_once [OF wit_two_open ne exec_vrun [OF s(1)] s(3,4)] s show ?thesis by auto
qed

text \<open>
  C22. No step of a run calls a request that was destroyed, as long as the store has at most two
  children: a step that throws is an answer, and it throws \<^verbatim>\<open>InternalError\<close>, from an edge that
  cannot be parsed or a search for the furthest heads that copying all edges did not settle.
  With three children or more the only other failure is an answer to a get made for a needy
  child, whose request may be gone.
\<close>

theorem vbs_no_stray_answers:
  assumes "bs_open reg args vbs_ctor = (s0, Inr ())" "args \<noteq> []" "vrun parse s0 ls s"
    and "enabled l s" "vdo parse l s = (s', Inl e)"
  shows "\<exists>r c a q. l = LAnswer r c a \<and> v_heap s r = Some q \<and>
    (e = InternalError \<and> vk (r_sub q) \<in> {KFollow, KSub} \<or>
     e = UseAfterFree \<and> \<not> alive s r \<and> needy_q q \<and> 3 \<le> length (v_children s))"
proof (cases l)
  case (LAnswer r c a)
  note I = reached_vok [OF assms(1-3)]
  from assms(4) LAnswer obtain q where h: "(r, c) \<in> set (v_flying s)" "v_heap s r = Some q" "fits (r_sub q) a"
    by (auto simp: enabled_def split: option.splits)
  have d: "deliver parse r c a s = (s', Inl e)" using assms(5) LAnswer by (simp add: vdo_def)
  show ?thesis
  proof (cases "alive s r")
    case True
    from deliver_inv [OF I h True, of parse] d LAnswer h(2) show ?thesis by (auto simp: runs_ok_def)
  next
    case False
    then have "e = UseAfterFree" using d by (auto simp: deliver_def Let_def)
    with answer_alive [OF I h(1,2) False] False LAnswer h(2) show ?thesis by auto
  qed
qed (use assms(5) in \<open>auto simp: vdo_def\<close>)

text \<open>A child delivers an edge that cannot be parsed.\<close>

definition wit_follow :: "vlabel list" where
  "wit_follow = [LCall (OpHeadFollow 5 ([1], [])), LDispatch ''a'', LPass ''a'' False]"

definition wit_bad_edge :: vlabel where
  "wit_bad_edge = LAnswer 0 ''a'' (AEdge \<lparr>she_headedge = [], she_keyid = [], she_signature = []\<rparr>)"

lemma wit_follow_run:
  "case exec no_parse wit_follow wit_two of
     None \<Rightarrow> False
   | Some s \<Rightarrow> enabled wit_bad_edge s \<and> snd (vdo no_parse wit_bad_edge s) = Inl InternalError"
  by code_simp

theorem vbs_no_stray_answers_witness:
  "\<exists>s r c a q. exec no_parse wit_follow wit_two = Some s \<and> enabled wit_bad_edge s \<and> wit_bad_edge = LAnswer r c a \<and>
     v_heap s r = Some q \<and> vk (r_sub q) \<in> {KFollow, KSub}"
proof -
  obtain s s' where s: "exec no_parse wit_follow wit_two = Some s" "enabled wit_bad_edge s"
    "vdo no_parse wit_bad_edge s = (s', Inl InternalError)"
    using wit_follow_run by (auto split: option.splits intro: prod_eqI) (metis prod.collapse)
  have ne: "[''b'', ''a''] \<noteq> []" by simp
  from vbs_no_stray_answers [OF wit_two_open ne exec_vrun [OF s(1)] s(2,3)] s(1,2) show ?thesis by auto
qed

text \<open>
  C23. In every run the queues of a child hold requests of their own kind only, every call in
  flight belongs to a request and a child of the store, and a request of the client waits for
  exactly the entries of it that are queued or in flight.
\<close>

theorem vbs_queues_typed:
  assumes "bs_open reg args vbs_ctor = (s0, Inr ())" "args \<noteq> []" "vrun parse s0 ls s"
  shows "(\<forall>(n, ch) \<in> set (v_children s). queue_kind ch s) \<and>
    (\<forall>(r, c) \<in> set (v_flying s). c \<in> set (vnames s) \<and> kind_at s r \<notin> {None, Some KTop}) \<and>
    (\<forall>r q a. v_heap s r = Some q \<longrightarrow> r_cmpl q = Client a \<longrightarrow> vk (r_sub q) \<noteq> KTop \<longrightarrow> r_outstanding q = int (occ s r))"
proof -
  note V = reached_vok [OF assms, unfolded vok_def]
  have "c \<in> set (vnames s) \<and> kind_at s r \<notin> {None, Some KTop}" if f: "(r, c) \<in> set (v_flying s)" for r c
  proof -
    have o: "0 < occ s r" using flying_occ [OF f] .
    then have "r < v_next s" using V unfolding vinv_def by (metis add_is_0 not_gr_zero not_less)
    then obtain q where h: "v_heap s r = Some q" using V unfolding vinv_def by (metis domD lessThan_iff)
    have "vk (r_sub q) \<noteq> KTop"
      using vinv_rok(1) [OF V h] o by (cases "r_cmpl q"; cases "r_sub q") (auto simp: rok_def)
    moreover have "c \<in> set (vnames s)" using V f unfolding vinv_def by force
    ultimately show ?thesis using h by (simp add: kind_at_def)
  qed
  moreover have "r_outstanding q = int (occ s r)" if "v_heap s r = Some q" "r_cmpl q = Client a" "vk (r_sub q) \<noteq> KTop" for r q a
    using vinv_rok(1) [OF V that(1)] that(2,3) by (simp add: rok_def needy_q_def)
  ultimately show ?thesis using V unfolding vinv_def vtyped_def by blast
qed

theorem vbs_queues_typed_witness:
  "\<exists>s. exec no_parse wit_put wit_two = Some s \<and> (\<forall>r q a. v_heap s r = Some q \<longrightarrow> r_cmpl q = Client a \<longrightarrow>
     vk (r_sub q) \<noteq> KTop \<longrightarrow> r_outstanding q = int (occ s r))"
proof -
  obtain s where s: "exec no_parse wit_put wit_two = Some s" using wit_put_run by (auto split: option.splits)
  have ne: "[''b'', ''a''] \<noteq> []" by simp
  from vbs_queues_typed [OF wit_two_open ne exec_vrun [OF s]] s show ?thesis by blast
qed

subsection \<open>The space of the store\<close>

lemma stat_fold:
  fixes st :: "'c \<Rightarrow> nat \<times> 'd"
  assumes "r = fold (\<lambda>c (sz, fr). if sz < fst (st c) then st c else (sz, fr)) cs (sz0, fr0)"
  shows "sz0 \<le> fst r \<and> (\<forall>c \<in> set cs. fst (st c) \<le> fst r) \<and> (r = (sz0, fr0) \<or> (\<exists>c \<in> set cs. r = st c))"
  using assms
proof (induction cs arbitrary: sz0 fr0 r)
  case (Cons c cs)
  obtain sz1 fr1 where 1: "(if sz0 < fst (st c) then st c else (sz0, fr0)) = (sz1, fr1)" by fastforce
  then have "r = fold (\<lambda>c (sz, fr). if sz < fst (st c) then st c else (sz, fr)) cs (sz1, fr1)"
    using Cons.prems by simp
  note IH = Cons.IH [OF this]
  have "sz0 \<le> sz1" "fst (st c) \<le> sz1" "(sz1, fr1) = (sz0, fr0) \<or> (sz1, fr1) = st c"
    using 1 by (auto split: if_splits)
  with IH show ?case by (auto intro: order_trans)
qed simp

text \<open>
  The size a store reports is the largest of its children's, and its free space is that of
  a child of this size: it never exceeds the size when no child's does.
\<close>

theorem vbs_stat_bounds:
  assumes "bs_stat st s = (sz, fr)" "\<forall>c \<in> set (vnames s). snd (st c) \<le> fst (st c)"
  shows "(\<forall>c \<in> set (vnames s). fst (st c) \<le> sz) \<and> fr \<le> sz \<and> (sz > 0 \<longrightarrow> (\<exists>c \<in> set (vnames s). st c = (sz, fr)))"
proof -
  have "(\<forall>c \<in> set (vnames s). fst (st c) \<le> sz) \<and> ((sz, fr) = (0, 0) \<or> (\<exists>c \<in> set (vnames s). (sz, fr) = st c))"
    using stat_fold [of "(sz, fr)" st "vnames s" 0 0] assms(1) by (simp add: bs_stat_def)
  then show ?thesis using assms(2) by (metis fst_conv snd_conv not_gr_zero le_zero_eq Pair_inject order_refl)
qed

theorem vbs_stat_bounds_witness:
  "\<exists>sz fr. bs_stat (\<lambda>c. if c = ''a'' then (10, 4) else (20, 3)) wit_two = (sz, fr) \<and> fr \<le> sz"
proof -
  have "\<forall>c \<in> set (vnames wit_two). snd (if c = ''a'' then (10, 4) else (20, 3::nat)) \<le> fst (if c = ''a'' then (10::nat, 4::nat) else (20, 3))"
    by simp
  from vbs_stat_bounds [OF surjective_pairing this] show ?thesis by (metis surjective_pairing)
qed

end
