(* ===== verification/VBS_Data.thy ===== *)
theory VBS_Data
  imports VBS_Runs
begin

text \<open>
  What a virtual block store returns for a get and what it copies to a child that misses a
  block. The children share the request's buffer, and several may write to it; nothing else
  does. The frame lemmas say which parts of the state a callback leaves alone.
\<close>

subsection \<open>Frames\<close>

datatype gview = GGet key bool nat bytes | GPut key bytes | GNone

definition sub_view :: "vsub \<Rightarrow> gview" where
  "sub_view sub = (case sub of
      VGet g \<Rightarrow> GGet (g_key g) (g_hasbuf g) (g_buffsize g) (g_blk g) | VPut k b \<Rightarrow> GPut k b | _ \<Rightarrow> GNone)"

lemma sub_view_simps [simp]:
  "sub_view (VGet g) = GGet (g_key g) (g_hasbuf g) (g_buffsize g) (g_blk g)" "sub_view (VPut k b) = GPut k b"
  "vk sub \<notin> {KGet, KPut} \<Longrightarrow> sub_view sub = GNone"
  by (auto simp: sub_view_def split: vsub.split)

definition rview :: "vreq \<Rightarrow> vcmpl \<times> gview" where
  "rview q = (r_cmpl q, sub_view (r_sub q))"

definition is_data :: "upcall \<Rightarrow> bool" where
  "is_data u = (case u of Bg_complete a k d \<Rightarrow> True | _ \<Rightarrow> False)"

lemma heap_report [simp]:
  "v_heap (report_put c n s) = v_heap s" "v_heap (report_get c n s) = v_heap s" "v_heap (needed_keys_append c k s) = v_heap s"
  by (simp_all add: report_put_def report_get_def needed_keys_append_def)

definition view :: "vbs \<Rightarrow> rid \<Rightarrow> (vcmpl \<times> gview) option" where
  "view s r = map_option rview (v_heap s r)"

definition frame :: "vbs \<Rightarrow> vbs \<Rightarrow> bool" where
  "frame s s' = (v_next s \<le> v_next s' \<and>
     filter (is_data \<circ> snd) (v_log s') = filter (is_data \<circ> snd) (v_log s) \<and>
     (\<forall>r. view s' r = view s r \<or> (v_next s \<le> r \<and> (\<exists>cm. view s' r = Some (cm, GNone)))))"

named_theorems frames

lemma frame_refl [frames]: "frame s s"
  by (simp add: frame_def)

lemma frame_quiet:
  "frame s t \<Longrightarrow> v_heap t' = v_heap t \<Longrightarrow> v_next t' = v_next t \<Longrightarrow> v_log t' = v_log t \<Longrightarrow> frame s t'"
  by (simp add: frame_def view_def)

lemma view_upd:
  "view (set_req r q s) = (view s)(r \<mapsto> rview q)"
  "view (new_req n cm sub s) = (view s)(v_next s \<mapsto> (cm, sub_view sub))"
  by (auto simp: view_def set_req_def new_req_def rview_def)

lemma frame_set [frames]:
  "frame s t \<Longrightarrow> map_option rview (v_heap t r) = Some (rview q') \<Longrightarrow> frame s (set_req r q' t)"
proof -
  assume f: "frame s t" and q: "map_option rview (v_heap t r) = Some (rview q')"
  from q have "view (set_req r q' t) = view t" by (simp add: view_upd(1) fun_upd_idem view_def)
  with f show ?thesis by (simp add: frame_def)
qed

lemma frame_new [frames]:
  "frame s t \<Longrightarrow> sub_view sub = GNone \<Longrightarrow> frame s (new_req n cm sub t)"
  by (simp add: frame_def view_upd)

lemma frame_log: "frame s t \<Longrightarrow> \<not> is_data u \<Longrightarrow> frame s (vlog r u t)"
  by (simp add: frame_def vlog_def view_def)

lemma frame_tell [frames]: "frame s t \<Longrightarrow> \<forall>a. \<not> is_data (f a) \<Longrightarrow> frame s (tell r cm f t)"
  by (simp add: tell_def frame_log split: vcmpl.split)

lemma frame_basic [frames]:
  assumes "frame s t"
  shows "frame s (upd_child c f t)" "frame s (enqueue_get r c t)" "frame s (enqueue_put r c t)"
    "frame s (enqueue_refresh r c t)" "frame s (enqueue_headnode r c t)" "frame s (report_put c n t)" "frame s (report_get c n t)"
    "frame s (needed_keys_append c k t)" "frame s (insert_req r t)" "frame s (t\<lparr>v_flying := fs\<rparr>)" "frame s (t\<lparr>v_loops := ls\<rparr>)"
    "frame s (t\<lparr>v_reactor := rs\<rparr>)"
  by (rule frame_quiet [OF assms];
    simp add: upd_child_def enqueue_get_def enqueue_put_def enqueue_refresh_def enqueue_headnode_def notify_child_def
      reactor_notify_def report_put_def report_get_def needed_keys_append_def insert_req_def)+

lemma frame_fold [frames]: "frame s t \<Longrightarrow> (\<And>x t. frame s t \<Longrightarrow> frame s (f x t)) \<Longrightarrow> frame s (fold f xs t)"
  by (induction xs arbitrary: t) auto

lemma frame_remove [frames]: "frame s t \<Longrightarrow> frame s (fst (remove_req r t))"
  by (auto simp: remove_req_def Let_def intro: frame_quiet)

lemma frame_done [frames]: "frame s t \<Longrightarrow> frame s (fst (done_if b r t))"
  by (simp add: done_if_def frame_remove)

lemma frame_vthen [frames]: "frame s (fst x) \<Longrightarrow> (\<And>t. frame s t \<Longrightarrow> frame s (fst (f t))) \<Longrightarrow> frame s (fst (vthen x f))"
  by (auto simp: vthen_def split: prod.splits sum.splits)

lemma frame_veach [frames]: "frame s t \<Longrightarrow> (\<And>x t. frame s t \<Longrightarrow> frame s (fst (f x t))) \<Longrightarrow> frame s (fst (veach f xs t))"
proof (induction xs arbitrary: t)
  case (Cons x xs)
  then show ?case using frame_vthen [of s "f x t" "veach f xs"] by simp
qed simp

subsection \<open>Callbacks that leave blocks alone\<close>

lemmas rviews = rview_def is_data_def first_good_def last_bad_def last_any_def

lemma bp_frame:
  "frame s t \<Longrightarrow> frame s (fst (bp_complete r c t))" "frame s t \<Longrightarrow> frame s (fst (bp_error r e t))"
  unfolding bp_complete_def bp_error_def
  by (auto simp: Let_def rviews split: option.splits vsub.splits intro!: frames)

lemma refresh_frame:
  assumes "frame s t"
  shows "frame s (fst (rs_complete r t))" "frame s (fst (rs_error r e t))" "frame s (fst (rb_complete r t))"
    "frame s (fst (rb_missing r c t))" "frame s (fst (rf_complete r t))" "frame s (fst (rf_error r e t))"
  using assms unfolding rs_complete_def rs_error_def rb_complete_def rb_missing_def rf_complete_def rf_error_def
  by (auto simp: Let_def rviews split: option.splits vsub.splits intro!: frames)

lemma bg_error_frame [frames]: "frame s t \<Longrightarrow> frame s (fst (bg_error r c e t))"
  unfolding bg_error_def by (auto simp: Let_def rviews split: option.splits vsub.splits intro!: frames)

lemma cancel_frame [frames]: "frame s t \<Longrightarrow> frame s (fst (VBlockStore_cancel_get c k t))"
proof -
  assume f: "frame s t"
  have "frame s (fst (cancel_scan c k cs t))" for cs using f
  proof (induction cs arbitrary: t)
    case (Cons x cs)
    have "frame s (fst (VBSChild_cancel_get x k t))"
      using Cons.prems by (auto simp: VBSChild_cancel_get_def split: option.splits intro: frames)
    with Cons show ?case by (force simp: Let_def split: prod.splits)
  qed simp
  then show ?thesis by (auto simp: VBlockStore_cancel_get_def split: prod.splits intro!: frames) (metis fst_conv)
qed

lemma follow_frame:
  assumes "frame s t"
  shows "frame s (fst (follow_edge parse r she t))" "frame s (fst (follow_answer good r t))"
proof -
  show "frame s (fst (follow_edge parse r she t))"
    using assms unfolding follow_edge_def by (auto simp: rviews split: option.splits vsub.splits sum.splits intro!: frames)
  have [frames]: "frame s t \<Longrightarrow> frame s (fst (follow_complete r t))" for t
    unfolding follow_complete_def by (auto simp: rviews split: option.splits vsub.splits intro!: frames)
  show "frame s (fst (follow_answer good r t))"
    using assms unfolding follow_answer_def by (auto simp: Let_def rviews split: option.splits intro!: frames)
qed

subsection \<open>The search for the furthest heads\<close>

lemma frame_upd_top [frames]: "frame s t \<Longrightarrow> frame s (upd_top r f t)"
  unfolding upd_top_def by (auto simp: rviews split: option.splits vsub.splits intro!: frames)

lemma survey_frame [frames]:
  assumes "frame s t"
  shows "frame s (survey r n t)" "frame s (top_init r t)" "frame s (second_check r t)" "frame s (last_check r t)"
proof -
  show [simp]: "frame s (survey r n t)" for n using assms unfolding survey_def Let_def by (intro frames) (simp_all add: rviews)
  show "frame s (top_init r t)" "frame s (second_check r t)" "frame s (last_check r t)"
    by (simp_all add: top_init_def second_check_def last_check_def)
qed

lemma fills_frame [frames]:
  assumes "frame s t"
  shows "frame s (directed_follow_fill r unq t)" "frame s (full_follow_fill r t)"
proof -
  have [frames]: "frame s t \<Longrightarrow> frame s (issue_fill r x t)" for x t
    by (cases x) (auto simp: issue_fill_def Let_def rviews intro!: frames)
  show "frame s (directed_follow_fill r unq t)" "frame s (full_follow_fill r t)"
    using assms by (auto simp: directed_follow_fill_def full_follow_fill_def Let_def intro!: frames)
qed

lemma top_frame [frames]:
  assumes "frame s t"
  shows "frame s (fst (top_answer good r t))" "frame s (fst (top_hnt_complete r v t))" "frame s (fst (top_hnt_error r e t))"
proof -
  have [frames]: "frame s t \<Longrightarrow> frame s (top_nodes r cm hns t)" for cm hns t
    by (auto simp: top_nodes_def rviews intro!: frames)
  show "frame s (fst (top_answer good r t))" "frame s (fst (top_hnt_complete r v t))" "frame s (fst (top_hnt_error r e t))"
    using assms unfolding top_answer_def top_hnt_complete_def top_hnt_error_def
    by (auto simp: Let_def rviews split: option.splits vsub.splits intro!: frames)
qed

lemma sub_frame:
  assumes "frame s t"
  shows "frame s (fst (sub_node r c hn t))" "frame s (fst (sub_answer good r c t))"
proof -
  show "frame s (fst (sub_node r c hn t))"
    using assms unfolding sub_node_def by (auto simp: Let_def rviews split: option.splits vsub.splits intro!: frames)
  have [frames]: "frame s t \<Longrightarrow> frame s (fst (sub_complete r t))" for t
    unfolding sub_complete_def inner_hnt_def
    by (auto simp: Let_def rviews split: option.splits vsub.splits vcmpl.splits intro!: frames)
  show "frame s (fst (sub_answer good r c t))"
    using assms unfolding sub_answer_def by (auto simp: Let_def rviews split: option.splits vsub.splits intro!: frames)
qed

lemma fill_complete_frame [frames]: "frame s t \<Longrightarrow> frame s (fst (fill_complete r t))"
  unfolding fill_complete_def inner_hnt_def by (auto split: option.splits vcmpl.splits intro!: frames)

lemma fill_frame [frames]:
  assumes "frame s t"
  shows "frame s (fst (fill_edge r she t))" "frame s (fst (fill_answer good r t))" "frame s (fst (fill_hei r t))"
  using assms unfolding fill_edge_def fill_answer_def fill_hei_def
  by (auto simp: Let_def rviews split: option.splits vsub.splits intro!: frames)

lemma hei_frame:
  assumes "frame s t"
  shows "frame s (fst (hei_complete r t))" "frame s (fst (hei_error r e t))"
  using assms unfolding hei_complete_def hei_error_def hei_upcall_def
  by (auto simp: Let_def rviews split: option.splits vsub.splits vcmpl.splits intro!: frames)

subsection \<open>Blocks of honest children\<close>

text \<open>
  What is to hold of a request and of what the client is told when the block of a key is
  \<open>st k\<close>: \<open>D\<close> holds the requests to which a child has delivered a block.
\<close>

definition vgood :: "(key \<Rightarrow> bytes) \<Rightarrow> rid set \<Rightarrow> rid \<Rightarrow> vcmpl \<times> gview \<Rightarrow> bool" where
  "vgood st D r v = (case v of
      (cm, GGet k hb n b) \<Rightarrow> (cm \<noteq> NoCmpl \<longrightarrow> hb) \<and> (r \<in> D \<longrightarrow> take (length (st k)) b = st k \<and> length (st k) \<le> n)
    | (cm, GPut k b) \<Rightarrow> cm = NoCmpl \<longrightarrow> b = st k
    | (cm, GNone) \<Rightarrow> True)"

definition ugood :: "(key \<Rightarrow> bytes) \<Rightarrow> upcall \<Rightarrow> bool" where
  "ugood st u = (case u of Bg_complete a k d \<Rightarrow> d = st k | _ \<Rightarrow> True)"

definition data_inv :: "(key \<Rightarrow> bytes) \<Rightarrow> rid set \<Rightarrow> vbs \<Rightarrow> bool" where
  "data_inv st D s = (D \<subseteq> {..<v_next s} \<and> (\<forall>r v. view s r = Some v \<longrightarrow> vgood st D r v) \<and>
     (\<forall>(r, u) \<in> set (v_log s). ugood st u))"

lemma data_frame:
  assumes "data_inv st D s" "frame s t"
  shows "data_inv st D t"
proof -
  have l: "(\<forall>(r, u) \<in> set xs. ugood st u) = (\<forall>e \<in> set (filter (is_data \<circ> snd) xs). ugood st (snd e))" for xs :: "(rid \<times> upcall) list"
    by (force simp: is_data_def ugood_def split: upcall.splits)
  have "filter (is_data \<circ> snd) (v_log t) = filter (is_data \<circ> snd) (v_log s)" using assms(2) by (simp add: frame_def)
  then have "\<forall>(r, u) \<in> set (v_log t). ugood st u" using assms(1) l [of "v_log t"] l [of "v_log s"] unfolding data_inv_def by metis
  moreover have "vgood st D r v" if "view t r = Some v" for r v
  proof -
    have "view t r = view s r \<or> (\<exists>cm. view t r = Some (cm, GNone))" using assms(2) unfolding frame_def by blast
    then show ?thesis using assms(1) that by (auto simp: data_inv_def vgood_def)
  qed
  moreover have "D \<subseteq> {..<v_next t}" using assms by (auto simp: data_inv_def frame_def)
  ultimately show ?thesis by (simp add: data_inv_def)
qed

lemma data_set:
  assumes "data_inv st D s" "vgood st D r (rview q)"
  shows "data_inv st D (set_req r q s)"
  using assms by (auto simp: data_inv_def view_upd)

lemma data_deliver:
  assumes "data_inv st D s" "r < v_next s" "vgood st (insert r D) r (rview q)"
  shows "data_inv st (insert r D) (set_req r q s)"
proof -
  have "x \<noteq> r \<Longrightarrow> vgood st (insert r D) x v = vgood st D x v" for x v
    by (simp add: vgood_def split: prod.split gview.split)
  with assms show ?thesis by (auto simp: data_inv_def view_upd)
qed

lemma data_new:
  assumes "data_inv st D s" "v_next s \<notin> D \<Longrightarrow> vgood st D (v_next s) (cm, sub_view sub)"
  shows "data_inv st D (new_req n cm sub s)"
  using assms by (auto simp: data_inv_def view_upd)

lemma data_log: "data_inv st D s \<Longrightarrow> ugood st u \<Longrightarrow> data_inv st D (vlog r u s)"
  by (auto simp: data_inv_def vlog_def view_def)

lemma data_get:
  assumes "data_inv st D s" "v_heap s r = Some q" "r_sub q = VGet g"
  shows "r_cmpl q \<noteq> NoCmpl \<Longrightarrow> g_hasbuf g"
    and "r \<in> D \<Longrightarrow> take (length (st (g_key g))) (g_blk g) = st (g_key g) \<and> length (st (g_key g)) \<le> g_buffsize g"
proof -
  have "view s r = Some (r_cmpl q, sub_view (r_sub q))" using assms(2) by (simp add: view_def rview_def)
  then have "vgood st D r (r_cmpl q, sub_view (r_sub q))" using assms(1) unfolding data_inv_def by blast
  then show "r_cmpl q \<noteq> NoCmpl \<Longrightarrow> g_hasbuf g"
    and "r \<in> D \<Longrightarrow> take (length (st (g_key g))) (g_blk g) = st (g_key g) \<and> length (st (g_key g)) \<le> g_buffsize g"
    using assms(3) by (simp_all add: vgood_def)
qed

lemma needy_put_data:
  assumes "data_inv st D s" "needy \<noteq> [] \<Longrightarrow> b = st k"
  shows "data_inv st D (needy_put needy k b s)"
proof (cases "needy = []")
  case False
  have "data_inv st D (new_req (length needy) NoCmpl (VPut k b) s)" using assms False by (intro data_new) (simp_all add: vgood_def)
  then show ?thesis using False by (auto simp: needy_put_def Let_def intro!: frames elim: data_frame)
qed (use assms in \<open>simp add: needy_put_def\<close>)

lemma bg_complete_data:
  assumes I: "data_inv st D s" and h: "v_heap s r = Some q" "r_sub q = VGet g" and r: "r \<in> D" and n: "n = length (st (g_key g))"
  shows "data_inv st D (fst (bg_complete r c n s))"
proof -
  note g = data_get [OF I h] 
  let ?k = "g_key g"
  have f: "frame s t \<Longrightarrow> data_inv st D t" for t using data_frame [OF I] .
  have t: "data_inv st D t \<Longrightarrow> (\<And>a. r_cmpl q = Client a \<Longrightarrow> ugood st (F a)) \<Longrightarrow> data_inv st D (tell r (r_cmpl q) F t)" for t F
    by (auto simp: tell_def split: vcmpl.split intro!: data_log)
  have v: "data_inv st D (fst x) \<Longrightarrow> (\<And>t. data_inv st D t \<Longrightarrow> data_inv st D (fst (F t))) \<Longrightarrow> data_inv st D (fst (vthen x F))" for x F
    by (auto simp: vthen_def split: prod.splits sum.splits)
  have c: "data_inv st D t \<Longrightarrow> data_inv st D (fst (VBlockStore_cancel_get c ?k t))" for t
    by (erule data_frame) (intro frames)
  have d: "data_inv st D t \<Longrightarrow> data_inv st D (fst (done_if b r t))" for b t
    by (erule data_frame) (intro frames)
  have s2: "data_inv st D (set_req r q' (report_get c n s))" if "rview q' = rview q" for q'
    using h that by (intro f frames) simp
  have e: "data_inv st D (report_get c n s)" by (intro f frames)
  have n1: "take n (g_blk g) = st ?k" using g(2) r n by simp
  show ?thesis unfolding bg_complete_def using h g(1) n1
    by (auto simp: Let_def first_good_def rview_def ugood_def intro!: v c d t s2 e needy_put_data)
qed

lemma dispatch_frame: "vk sub = KGet \<longrightarrow> (\<exists>e. a = AErr e) \<Longrightarrow> frame s t \<Longrightarrow> frame s (fst (dispatch parse r c sub a t))"
  by (cases sub; cases a) (auto simp: frame_refl bp_frame refresh_frame follow_frame sub_frame hei_frame intro: frames)

lemma issue_data:
  assumes "data_inv st D s" "vgood st D (v_next s) (Client a, sub_view sub)" "\<And>r c t. frame t (enq r c t)"
  shows "data_inv st D (issue enq a sub s)"
proof -
  let ?s1 = "insert_req (v_next s) (new_req (length (v_children s)) (Client a) sub s)"
  have "data_inv st D (new_req (length (v_children s)) (Client a) sub s)" using assms(1,2) by (rule data_new)
  then have "data_inv st D ?s1" by (rule data_frame) (intro frames)
  moreover have "data_inv st D (fold (enq r) cs t)" if "data_inv st D t" for r cs t
    using that by (induction cs arbitrary: t) (auto intro: data_frame assms(3))
  ultimately show ?thesis by (simp add: issue_def Let_def)
qed

lemma vcall_data:
  assumes "data_inv st D s"
  shows "data_inv st D (vcall op s)"
proof (cases "\<exists>a hn. op = OpHeadFurthest a hn")
  case True
  then show ?thesis by (auto simp: bs_head_furthest_async_def Let_def intro!: data_frame [OF assms] frames)
next
  case False
  have n: "v_next s \<notin> D" using assms by (auto simp: data_inv_def)
  note i = issue_data [OF assms]
  show ?thesis using False n
    by (cases op) (auto simp: bs_block_get_async_def bs_block_put_async_def bs_refresh_start_async_def bs_refresh_block_async_def
      bs_refresh_finish_async_def bs_head_insert_async_def bs_head_follow_async_def vgood_def intro!: i frames)
qed

lemma resize_keeps: "take m b = x \<Longrightarrow> length x = m \<Longrightarrow> m \<le> n \<Longrightarrow> take m (resize n b) = x"
  by (auto simp: resize_def min_def split: if_splits)

lemma initiate_data:
  assumes "data_inv st D s"
  shows "data_inv st D (initiate r c s)"
proof -
  have q: "data_inv st D t \<Longrightarrow> data_inv st D (t\<lparr>v_flying := fs\<rparr>)" for t fs by (erule data_frame) (intro frames)
  show ?thesis
  proof (cases "\<exists>q g. v_heap s r = Some q \<and> r_sub q = VGet g")
    case True
    then obtain q g where h: "v_heap s r = Some q" "r_sub q = VGet g" by blast
    have "vgood st D r (rview (q\<lparr>r_sub := VGet (g\<lparr>g_blk := resize (g_buffsize g) (g_blk g)\<rparr>)\<rparr>))"
      using data_get [OF assms h] resize_keeps by (auto simp: vgood_def rview_def)
    with h assms show ?thesis by (auto simp: initiate_def intro!: q data_set)
  next
    case False
    with assms show ?thesis by (auto simp: initiate_def intro!: q split: option.splits vsub.splits)
  qed
qed

lemma pass_data:
  assumes "data_inv st D s"
  shows "data_inv st D (pass c sat s)"
proof -
  have f: "frame s t \<Longrightarrow> data_inv st D t" for t using data_frame [OF assms] .
  have q: "data_inv st D t \<Longrightarrow> data_inv st D (t\<lparr>v_loops := ls\<rparr>)" for t ls by (erule data_frame) (intro frames)
  have k: "data_inv st D (initiate_needed c nk t)" if "data_inv st D t" for nk t
  proof -
    have "data_inv st D (new_req 1 NoCmpl (VGet \<lparr>g_key = nk, g_hasbuf = False, g_buffsize = 32 * 1024, g_blk = [], g_retsize = 0,
        g_needy = [c]\<rparr>) t)" using that by (intro data_new) (auto simp: vgood_def)
    then show ?thesis by (auto simp: initiate_needed_def enqueue_needy_get_def Let_def intro!: frames elim: data_frame)
  qed
  have u: "data_inv st D (upd_child c F s)" for F by (intro f frames)
  have "data_inv st D (fst (initiate_pass sat c s))"
    using u k by (auto simp: initiate_pass_def Let_def split: list.split intro!: initiate_data)
  then show ?thesis by (auto simp: pass_def split: prod.splits bool.splits intro: q)
qed

subsection \<open>Runs with honest children\<close>

text \<open>
  Children that hold \<open>st k\<close> under the key \<open>k\<close>: what such a child delivers is the block of the
  key, and it tells success, with the size, only after it delivered (\<open>seen\<close>).
\<close>

definition honest_label :: "(key \<Rightarrow> bytes) \<Rightarrow> (rid \<times> cname) list \<Rightarrow> vlabel \<Rightarrow> vbs \<Rightarrow> bool" where
  "honest_label st seen l s = (case l of
      LAnswer r c a \<Rightarrow> (case get_key s r of
          None \<Rightarrow> True
        | Some k \<Rightarrow> (case a of
            AData d \<Rightarrow> d = st k
          | AOk n \<Rightarrow> n = length (st k) \<and> (r, c) \<in> set seen
          | _ \<Rightarrow> True))
    | _ \<Rightarrow> True)"

definition delivered :: "vlabel \<Rightarrow> (rid \<times> cname) list \<Rightarrow> (rid \<times> cname) list" where
  "delivered l seen = (case l of LAnswer r c (AData d) \<Rightarrow> (r, c) # seen | _ \<Rightarrow> seen)"

fun honest :: "he_parser \<Rightarrow> (key \<Rightarrow> bytes) \<Rightarrow> (rid \<times> cname) list \<Rightarrow> vlabel list \<Rightarrow> vbs \<Rightarrow> bool" where
  "honest parse st seen [] s = True"
| "honest parse st seen (l # ls) s =
     (honest_label st seen l s \<and> honest parse st (delivered l seen) ls (fst (vdo parse l s)))"

lemma exec_append: "exec parse (ls @ ms) s = Option.bind (exec parse ls s) (exec parse ms)"
  by (induction ls arbitrary: s) (auto split: prod.splits sum.splits)

lemma vrun_exec: "vrun parse s ls s' \<Longrightarrow> exec parse ls s = Some s'"
  by (induction rule: vrun.induct) (simp_all add: exec_append)

lemma deliver_data:
  assumes I: "data_inv st (fst ` set seen) s" and V: "vok s" and f: "(r, c) \<in> set (v_flying s)" and q: "v_heap s r = Some q"
    and ft: "fits (r_sub q) a" and ho: "honest_label st seen (LAnswer r c a) s" and al: "alive s r"
  shows "data_inv st (fst ` set (delivered (LAnswer r c a) seen)) (fst (deliver parse r c a s))"
proof -
  let ?s1 = "if is_final a then s\<lparr>v_flying := remove1 (r, c) (v_flying s)\<rparr> else s"
  let ?D = "fst ` set seen"
  have r: "r < v_next s" using V q unfolding vok_def vinv_def by (metis domI lessThan_iff)
  have I1: "data_inv st ?D ?s1" using I by (auto elim: data_frame intro!: frames)
  have fr: "frame ?s1 (fst (deliver parse r c a s))" if "vk (r_sub q) = KGet \<longrightarrow> (\<exists>e. a = AErr e)"
    using dispatch_frame [OF that frame_refl, of ?s1 parse r c] q by (auto simp: deliver_def Let_def intro: frames)
  show ?thesis
  proof (cases "vk (r_sub q) = KGet \<longrightarrow> (\<exists>e. a = AErr e)")
    case True
    then have "delivered (LAnswer r c a) seen = seen" using ft by (cases "r_sub q"; cases a) (auto simp: delivered_def is_final_def)
    with data_frame [OF I1 fr [OF True]] show ?thesis by simp
  next
    case False
    then obtain g where g: "r_sub q = VGet g" by (cases "r_sub q") auto
    have k: "get_key s r = Some (g_key g)" using q g by (simp add: get_key_def)
    from False ft g consider d where "a = AData d" "length d \<le> g_buffsize g" | n where "a = AOk n" by (cases a) (auto simp: is_final_def)
    then show ?thesis
    proof cases
      case 1
      have d: "d = st (g_key g)" using ho 1 k by (simp add: honest_label_def)
      have b: "take (length d) (memcpy_at (g_blk g) 0 d) = d" by (simp add: memcpy_at_def)
      have "data_inv st (insert r ?D) (set_req r (q\<lparr>r_sub := VGet (g\<lparr>g_blk := memcpy_at (g_blk g) 0 d\<rparr>)\<rparr>) s)"
        using data_get(1) [OF I q g] b d 1 by (intro data_deliver I r) (simp add: vgood_def rview_def)
      then show ?thesis using 1 q g al by (simp add: deliver_def delivered_def is_final_def get_data_def)
    next
      case 2
      have n: "n = length (st (g_key g))" "r \<in> ?D" using ho 2 k by (force simp: honest_label_def)+
      have "data_inv st ?D (fst (bg_complete r c n ?s1))" using bg_complete_data [OF I1 _ g n(2,1)] q by (simp add: 2 is_final_def)
      then show ?thesis using 2 q g al by (simp add: deliver_def delivered_def is_final_def)
    qed
  qed
qed

lemma vdo_data:
  assumes I: "data_inv st (fst ` set seen) s" and V: "vok s" and e: "enabled l s" "vdo parse l s = (s', Inr u)" and ho: "honest_label st seen l s"
  shows "data_inv st (fst ` set (delivered l seen)) s'"
proof (cases l)
  case (LAnswer r c a)
  with e obtain q where h: "(r, c) \<in> set (v_flying s)" "v_heap s r = Some q" "fits (r_sub q) a"
    by (auto simp: enabled_def split: option.splits)
  have d: "deliver parse r c a s = (s', Inr u)" using e LAnswer by (simp add: vdo_def)
  then have "alive s r" by (auto simp: deliver_def Let_def split: if_splits)
  with deliver_data [OF I V h ho [unfolded LAnswer] this, of parse] d LAnswer show ?thesis by simp
next
  case (LPass c sat)
  with e I show ?thesis by (auto simp: vdo_def delivered_def intro: pass_data)
next
  case (LCall op)
  with e I show ?thesis by (auto simp: vdo_def delivered_def intro: vcall_data)
qed (use e in \<open>auto simp: vdo_def delivered_def handle_exception_def uh_unsaturated_def intro!: data_frame [OF I] frames\<close>)

lemma exec_data:
  "exec parse ls s = Some s' \<Longrightarrow> data_inv st (fst ` set seen) s \<Longrightarrow> vok s \<Longrightarrow> honest parse st seen ls s \<Longrightarrow> \<exists>D. data_inv st D s'"
proof (induction ls arbitrary: s seen)
  case (Cons l ls)
  then obtain s1 u where 1: "enabled l s" "vdo parse l s = (s1, Inr u)" "exec parse ls s1 = Some s'"
    by (auto split: if_splits prod.splits sum.splits)
  have "data_inv st (fst ` set (delivered l seen)) s1" using vdo_data [OF Cons.prems(2,3) 1(1,2)] Cons.prems(4) by simp
  with Cons.IH [OF 1(3) this vdo_inv [OF Cons.prems(3) 1(1,2)]] Cons.prems(4) 1(2) show ?case by simp
qed auto

text \<open>
  C3. When every child that delivers a block for a key delivers the same block \<open>st k\<close>, then in
  every run each block the client is told for a get of \<open>k\<close> is \<open>st k\<close>, although the children that
  answer share one buffer and may write to it in any order; and each block the store itself puts
  to a child that did not have the key is \<open>st k\<close>.
\<close>

theorem vbs_get_returns_block:
  assumes "bs_open reg args vbs_ctor = (s0, Inr ())" "args \<noteq> []" "vrun parse s0 ls s" "honest parse st [] ls s0"
  shows "((r, Bg_complete a k d) \<in> set (v_log s) \<longrightarrow> d = st k) \<and>
    (v_heap s r = Some q \<and> r_cmpl q = NoCmpl \<and> r_sub q = VPut k b \<longrightarrow> b = st k)"
proof -
  have f: "fresh_store s0" using bs_open_fresh [OF _ assms(1)] by (simp add: fresh_store_def vbs_ctor_def vnames_def)
  have "data_inv st (fst ` set []) s0" using f by (simp add: data_inv_def fresh_store_def view_def)
  then obtain D where D: "data_inv st D s"
    using exec_data [OF vrun_exec [OF assms(3)] _ opened_vok [OF assms(1,2)]] assms(4) by blast
  show ?thesis using D by (force simp: data_inv_def ugood_def view_def rview_def vgood_def)
qed

text \<open>One child misses the block; it is given what the other returns.\<close>

definition wit_anneal :: "vlabel list" where
  "wit_anneal = [LCall (OpGet 7 [1] 2), LDispatch ''a'', LPass ''a'' False, LDispatch ''b'', LPass ''b'' False,
     LAnswer 0 ''a'' (AErr NotFoundError), LAnswer 0 ''b'' (AData [5, 6]), LAnswer 0 ''b'' (AOk 2)]"

lemma wit_anneal_run:
  "honest no_parse (\<lambda>_. [5, 6]) [] wit_anneal wit_two" "map_option v_log (exec no_parse wit_anneal wit_two) = Some [(0, Bg_complete 7 [1] [5, 6])]"
  by code_simp+

theorem vbs_get_returns_block_witness:
  "\<exists>s r d. exec no_parse wit_anneal wit_two = Some s \<and> (r, Bg_complete 7 [1] d) \<in> set (v_log s) \<and> d = [5, 6]"
proof -
  obtain s where s: "exec no_parse wit_anneal wit_two = Some s" "v_log s = [(0, Bg_complete 7 [1] [5, 6])]"
    using wit_anneal_run(2) by auto
  have ne: "[''b'', ''a''] \<noteq> []" by simp
  from vbs_get_returns_block [OF wit_two_open ne exec_vrun [OF s(1)] wit_anneal_run(1), of 0 7 "[1]"] s show ?thesis by auto
qed

end
