(* ===== verification/VBS_Faults.thy ===== *)
theory VBS_Faults
  imports VBS_Data
begin

text \<open>
  Runs in which a virtual block store does not do what it should. Each is a run of the model
  from a freshly opened store, in which the children answer as their interface allows.
\<close>

definition wit_three :: vbs where
  "wit_three = wit_two\<lparr>v_children := [(''a'', VBSChild_ctor), (''b'', VBSChild_ctor), (''c'', VBSChild_ctor)]\<rparr>"

lemmas vbs_eval = enabled_def vdo_def pass_def initiate_pass_def child_of_def upd_child_def initiate_needed_def
  enqueue_needy_get_def Let_def vnames_def new_req_def insert_req_def enqueue_get_def notify_child_def reactor_notify_def
  initiate_def set_req_def deliver_def is_final_def alive_def bg_error_def last_bad_def tell_def vlog_def sub_held_def
  needed_keys_append_def done_if_def remove_req_def c_queued_def

lemma wit_three_open: "bs_open (\<lambda>_. True) [''c'', ''b'', ''a''] vbs_ctor = (wit_three, Inr ())"
  by (simp add: vbs_ctor_def wit_three_def wit_two_def vnames_def less_char_def)

subsection \<open>A get for a needy child\<close>

text \<open>The block is missing at all of three children; then the first of them asks the other two for it.\<close>

definition run_needy :: "vlabel list" where
  "run_needy = [LCall (OpGet 7 [1] 2), LDispatch ''a'', LDispatch ''b'', LDispatch ''c'', LPass ''a'' False,
     LAnswer 0 ''a'' (AErr NotFoundError), LPass ''a'' False, LPass ''b'' False, LPass ''c'' False,
     LPass ''b'' False, LPass ''c'' False, LAnswer 1 ''c'' (AErr NotFoundError)]"


subsection \<open>Two gets of one block\<close>

text \<open>Both children have the block; the client asks for it three times.\<close>

definition run_canceled :: "vlabel list" where
  "run_canceled = [LCall (OpGet 7 [1] 2), LCall (OpGet 8 [1] 2), LCall (OpGet 9 [1] 2),
     LDispatch ''a'', LPass ''a'' False, LDispatch ''b'', LPass ''b'' False,
     LAnswer 0 ''a'' (AData [5, 6]), LAnswer 0 ''a'' (AOk 2), LAnswer 0 ''b'' (AData [5, 6]), LAnswer 0 ''b'' (AOk 2),
     LPass ''b'' False, LAnswer 2 ''b'' (AData [5, 6]), LAnswer 2 ''b'' (AOk 2)]"

text \<open>
  A get that succeeds cancels the first queued get of its key at the other children, which
  may be another request's. With two children that both have the block, and three gets of it,
  one get is cancelled at both and its client is told \<^verbatim>\<open>InternalError\<close>.
\<close>

theorem vbs_get_canceled:
  "map_option v_log (exec no_parse run_canceled wit_two) =
     Some [(0, Bg_complete 7 [1] [5, 6]), (2, Bg_complete 9 [1] [5, 6]), (1, Bg_error 8 [1] InternalError)]"
  by code_simp

subsection \<open>The start of a refresh\<close>

definition run_refresh :: "vlabel list" where
  "run_refresh = [LCall (OpRefreshStart 7 1), LDispatch ''a'', LPass ''a'' False, LDispatch ''b'', LPass ''b'' False,
     LAnswer 0 ''a'' (AOk 0), LAnswer 0 ''b'' (AErr NotUniqueError), LPass ''a'' False, LPass ''b'' False]"


subsection \<open>A block that no child has\<close>

definition run_missing :: "vlabel list" where
  "run_missing = [LCall (OpGet 7 [1] 2), LDispatch ''a'', LPass ''a'' False, LDispatch ''b'', LPass ''b'' False,
     LAnswer 0 ''a'' (AErr NotFoundError), LAnswer 0 ''b'' (AErr NotFoundError)]"

text \<open>One child asks the other for a key it needs, which does not have it, and so needs it in turn.\<close>

fun ping :: "nat \<Rightarrow> cname \<Rightarrow> cname \<Rightarrow> rid \<Rightarrow> vlabel list" where
  "ping 0 x y r = []"
| "ping (Suc n) x y r = [LPass x False, LPass y False, LAnswer r y (AErr NotFoundError)] @ ping n y x (Suc r)"

definition quiet_child :: "vchild \<Rightarrow> bool" where
  "quiet_child ch = (c_queued ch = [] \<and> [] \<notin> set (c_neededkeys ch))"

definition ping_state :: "cname \<Rightarrow> cname \<Rightarrow> rid \<Rightarrow> vbs \<Rightarrow> bool" where
  "ping_state x y r s = (\<exists>cx cy. x \<noteq> y \<and> (v_children s = [(x, cx), (y, cy)] \<or> v_children s = [(y, cy), (x, cx)]) \<and>
     quiet_child cx \<and> quiet_child cy \<and> c_neededkeys cx \<noteq> [] \<and>
     x \<in> set (v_loops s) \<and> y \<in> set (v_loops s) \<and> v_flying s = [] \<and> v_next s = r)"

lemma ping_round:
  assumes "ping_state x y r s"
  shows "\<exists>s'. exec parse [LPass x False, LPass y False, LAnswer r y (AErr NotFoundError)] s = Some s' \<and> ping_state y x (Suc r) s'"
proof -
  from assms obtain cx cy where b: "x \<noteq> y" "v_children s = [(x, cx), (y, cy)] \<or> v_children s = [(y, cy), (x, cx)]"
    "quiet_child cx" "quiet_child cy" "c_neededkeys cx \<noteq> []"
    "x \<in> set (v_loops s)" "y \<in> set (v_loops s)" "v_flying s = []" "v_next s = r"
    by (auto simp: ping_state_def)
  from b(5) obtain k ks where k: "c_neededkeys cx = k # ks" by (meson list.exhaust)
  with b(3) have a: "k \<noteq> []" "[] \<notin> set ks" by (auto simp: quiet_child_def)
  from b(2) show ?thesis
    by (elim disjE; use a b k in \<open>simp add: vbs_eval ping_state_def quiet_child_def\<close>)
qed

lemma ping_forever: "ping_state x y r s \<Longrightarrow> \<exists>s'. exec parse (ping n x y r) s = Some s'"
proof (induction n arbitrary: x y r s)
  case (Suc n)
  obtain s1 where "exec parse [LPass x False, LPass y False, LAnswer r y (AErr NotFoundError)] s = Some s1" "ping_state y x (Suc r) s1"
    using ping_round [OF Suc.prems] by blast
  with Suc.IH [OF this(2)] show ?case by (simp only: ping.simps exec_append bind.bind_lunit)
qed simp

text \<open>
  C39. A get of a block that neither of two children has keeps the store busy forever: with no
  further call of the client, for every number of rounds there is a run in which in each round a child
  asks the other for the block and is told that it is not there.
\<close>

theorem vbs_missing_block_forever:
  "\<exists>s. vrun no_parse wit_two (run_missing @ ping n ''a'' ''b'' 1) s \<and> length (ping n ''a'' ''b'' 1) = 3 * n"
proof -
  have len: "length (ping n x y r) = 3 * n" for n x y r by (induction n x y r rule: ping.induct) auto
  have "\<exists>s0. exec no_parse run_missing wit_two = Some s0 \<and> ping_state ''a'' ''b'' 1 s0"
    by (simp add: run_missing_def wit_two_def VBSChild_ctor_def bs_block_get_async_def issue_def handle_exception_def 
       vbs_eval ping_state_def quiet_child_def)
  then obtain s0 where s0: "exec no_parse run_missing wit_two = Some s0" "ping_state ''a'' ''b'' 1 s0" by blast
  then obtain s where "exec no_parse (run_missing @ ping n ''a'' ''b'' 1) wit_two = Some s"
    using ping_forever [OF s0(2), of no_parse n] by (auto simp only: exec_append bind.bind_lunit)
  then show ?thesis using len exec_vrun by blast
qed

end
