(* ===== verification/S3_BlockStore.thy ===== *)
theory S3_BlockStore
  imports FS_BlockStore VBS_State
begin

text \<open>
  The block store that keeps one object per block in a bucket of the Amazon S3 service
  (\<^verbatim>\<open>modules/S3BlockStore\<close>).

  \<^item> The table of entries, the recency list and the mark are as in \<open>FS_BlockStore\<close>, but the
    table is iterated in the order of names, and is a sorted association list here.
  \<^item> Gets and puts are asynchronous. A handler object (\<open>s3req\<close>) is in the list
    \<^verbatim>\<open>m_rsphandlers\<close> from the call until the client is told; the service delivers data to it
    and completes it with a status, and a handler whose status can be retried starts anew.
  \<^item> The service is an argument: its statuses, which of them can be retried (\<open>retryable\<close>),
    and what it lists and returns. The objects it holds are \<open>s_objs\<close>; a put or delete that
    it completes with \<^verbatim>\<open>S3StatusOK\<close> changes them. The index file of the local disk is \<open>s_index\<close>.
  \<^item> Calls of the client are recorded with the completion's argument in \<open>s_log\<close>.
\<close>

subsection \<open>State\<close>

datatype s3status =
    S3StatusOK
  | S3StatusErrorNoSuchKey
  | S3StatusErrorNoSuchBucket
  | S3StatusHttpErrorNotFound
  | S3StatusOther nat

record s3get =
  ag_argp :: nat
  ag_blkpath :: string
  ag_key :: key
  ag_buffsize :: nat
  ag_data :: bytes
  ag_retries :: nat

record s3put =
  ap_argp :: nat
  ap_blkpath :: string
  ap_key :: key
  ap_blk :: bytes
  ap_retries :: nat

datatype s3req = SGet s3get | SPut s3put

type_synonym hid = nat

record s3bs =
  s_size :: int
  s_committed :: int
  s_uncommitted :: int
  s_ent :: "eid \<Rightarrow> fentry"
  s_neid :: eid
  s_entries :: "(string \<times> eid) list"
  s_lru :: "eid list"
  s_mark :: "eid option"
  s_lhng :: lhng
  s_objs :: "string \<Rightarrow> bytes option"
  s_index :: "bytes option"
  s_rsphandlers :: "(hid \<times> s3req) list"
  s_nhid :: hid
  s_waiting :: bool
  s_unsathandler :: "nat option"
  s_unsatcalls :: "nat list"
  s_log :: "upcall list"

definition SATURATED_SIZE :: nat where "SATURATED_SIZE = 20"
definition MAX_RETRIES :: nat where "MAX_RETRIES = 10"

definition s3_ctor :: s3bs where
  "s3_ctor = \<lparr>s_size = 0, s_committed = 0, s_uncommitted = 0,
     s_ent = (\<lambda>_. \<lparr>e_name = [], e_tstamp = 0, e_size = 0\<rparr>), s_neid = 0, s_entries = [], s_lru = [],
     s_mark = None, s_lhng = lhng_empty, s_objs = (\<lambda>_. None), s_index = None, s_rsphandlers = [], s_nhid = 0,
     s_waiting = False, s_unsathandler = None, s_unsatcalls = [], s_log = []\<rparr>"

definition blockpath :: "string \<Rightarrow> string" where "blockpath i_entry = ''BLOCKS/'' @ i_entry"
definition edgepath :: "string \<Rightarrow> string" where "edgepath i_edge = ''EDGES/'' @ i_edge"

definition s3_tell :: "upcall \<Rightarrow> s3bs \<Rightarrow> s3bs" where
  "s3_tell u s = s\<lparr>s_log := s_log s @ [u]\<rparr>"

subsection \<open>Entries\<close>

definition ins_entry :: "string \<Rightarrow> eid \<Rightarrow> (string \<times> eid) list \<Rightarrow> (string \<times> eid) list" where
  "ins_entry n e es = (if map_of es n = None then insort_key fst (n, e) es else es)"

definition del_entry :: "string \<Rightarrow> (string \<times> eid) list \<Rightarrow> (string \<times> eid) list" where
  "del_entry n es = filter (\<lambda>p. fst p \<noteq> n) es"

definition s3_touch_entry :: "string \<Rightarrow> int \<Rightarrow> int \<Rightarrow> bool \<Rightarrow> s3bs \<Rightarrow> s3bs \<times> bool res" where
  "s3_touch_entry i_entry i_mtime i_size i_plsinsert s =
     (case map_of (s_entries s) i_entry of
        None \<Rightarrow>
          (if i_plsinsert then
             (let eh = s_neid s in
              (s\<lparr>s_ent := (s_ent s)(eh := \<lparr>e_name = i_entry, e_tstamp = i_mtime, e_size = i_size\<rparr>),
                 s_neid := Suc eh, s_entries := ins_entry i_entry eh (s_entries s), s_lru := eh # s_lru s\<rparr>, Inr True))
           else (s, Inr False))
      | Some eh \<Rightarrow>
          if eh \<notin> set (s_lru s) then (s, Inl InvalidIterator)
          else
            (let ent = s_ent s eh;
                 ent1 = ent\<lparr>e_tstamp := i_mtime, e_size := (if i_size \<noteq> 0 then i_size else e_size ent)\<rparr>
             in (s\<lparr>s_lru := eh # remove1 eh (s_lru s), s_ent := (s_ent s)(eh := ent1)\<rparr>, Inr (0 < e_size ent1))))"

text \<open>The argument \<open>st\<close> is the status with which the service completes the deletion of an object.\<close>

definition s3_purge_uncommitted :: "(string \<Rightarrow> s3status) \<Rightarrow> s3bs \<Rightarrow> s3bs \<times> unit res" where
  "s3_purge_uncommitted st s =
     (if s_lru s = [] then (s, Inl InternalError)
      else case s_mark s of
        None \<Rightarrow> (s, Inl InternalError)
      | Some mark \<Rightarrow>
          (let eh = last (s_lru s); ent = s_ent s eh in
           if e_tstamp ent > e_tstamp (s_ent s mark) then (s, Inl InternalError)
           else
             (let s1 = s\<lparr>s_lru := butlast (s_lru s)\<rparr> in
              if st (e_name ent) \<noteq> S3StatusOK then (s1, Inl InternalError)
              else (s1\<lparr>s_objs := (s_objs s1)(e_name ent := None),
                       s_uncommitted := s_uncommitted s1 - e_size ent\<rparr>, Inr ()))))"

lemma s3_purge_shrinks: "s3_purge_uncommitted st s = (s', Inr u) \<Longrightarrow> length (s_lru s') < length (s_lru s)"
  by (auto simp: s3_purge_uncommitted_def Let_def split: if_splits option.splits)

function s3_purge_loop :: "(string \<Rightarrow> s3status) \<Rightarrow> int \<Rightarrow> s3bs \<Rightarrow> s3bs \<times> unit res" where
  "s3_purge_loop st need s =
     (if s_committed s + need + s_uncommitted s > s_size s then
        (case s3_purge_uncommitted st s of
           (s1, Inl e) \<Rightarrow> (s1, Inl e)
         | (s1, Inr _) \<Rightarrow> s3_purge_loop st need s1)
      else (s, Inr ()))"
  by pat_completeness auto
termination
  by (relation "measure (\<lambda>(st, need, s). length (s_lru s))") (auto intro: s3_purge_shrinks [OF sym])

declare s3_purge_loop.simps [simp del]

subsection \<open>Gets and puts\<close>

definition add_handler :: "s3req \<Rightarrow> s3bs \<Rightarrow> s3bs" where
  "add_handler h s = s\<lparr>s_rsphandlers := s_rsphandlers s @ [(s_nhid s, h)], s_nhid := Suc (s_nhid s)\<rparr>"

definition s3_block_get_async :: "nat \<Rightarrow> key \<Rightarrow> nat \<Rightarrow> s3bs \<Rightarrow> s3bs" where
  "s3_block_get_async i_argp i_key i_buffsize s =
     (let blkpath = blockpath (entryname i_key) in
      if map_of (s_entries s) blkpath = None then s3_tell (Bg_error i_argp i_key NotFoundError) s
      else add_handler (SGet \<lparr>ag_argp = i_argp, ag_blkpath = blkpath, ag_key = i_key, ag_buffsize = i_buffsize,
             ag_data = [], ag_retries = MAX_RETRIES\<rparr>) s)"

definition s3_block_put_async :: "(string \<Rightarrow> s3status) \<Rightarrow> nat \<Rightarrow> key \<Rightarrow> bytes \<Rightarrow> s3bs \<Rightarrow> s3bs" where
  "s3_block_put_async st i_argp i_key i_blkdata s =
     (let blkpath = blockpath (entryname i_key);
          blksize = int (length i_blkdata);
          avail = s_size s - s_committed s in
      if map_of (s_entries s) blkpath \<noteq> None then s3_tell (Bp_complete i_argp i_key) s
      else if blksize > avail then s3_tell (Bp_error i_argp i_key NoSpaceError) s
      else case s3_purge_loop st blksize s of
        (s1, Inl e) \<Rightarrow> s3_tell (Bp_error i_argp i_key e) s1
      | (s1, Inr _) \<Rightarrow>
          add_handler (SPut \<lparr>ap_argp = i_argp, ap_blkpath = blkpath, ap_key = i_key, ap_blk = i_blkdata,
            ap_retries = MAX_RETRIES\<rparr>) s1)"

definition remove_handler :: "hid \<Rightarrow> s3bs \<Rightarrow> s3bs" where
  "remove_handler i_rhh s =
     (let hs = filter (\<lambda>p. fst p \<noteq> i_rhh) (s_rsphandlers s);
          s1 = s\<lparr>s_rsphandlers := hs, s_waiting := (if hs = [] then False else s_waiting s)\<rparr> in
      case s_unsathandler s1 of
        Some argp \<Rightarrow> if length hs < SATURATED_SIZE then s1\<lparr>s_unsatcalls := s_unsatcalls s1 @ [argp]\<rparr> else s1
      | None \<Rightarrow> s1)"

definition set_handler :: "hid \<Rightarrow> s3req \<Rightarrow> s3bs \<Rightarrow> s3bs" where
  "set_handler i_rhh h s = s\<lparr>s_rsphandlers := map (\<lambda>p. if fst p = i_rhh then (i_rhh, h) else p) (s_rsphandlers s)\<rparr>"

definition update_put_stats :: "int \<Rightarrow> s3put \<Rightarrow> s3bs \<Rightarrow> s3bs \<times> bool res" where
  "update_put_stats now p s =
     (let sz = int (length (ap_blk p)) in
      s3_touch_entry (ap_blkpath p) now sz True (s\<lparr>s_committed := s_committed s + sz\<rparr>))"

text \<open>Data of an object that the service hands to a get; what does not fit into the buffer is dropped.\<close>

definition gh_objdata :: "bytes \<Rightarrow> s3get \<Rightarrow> s3get" where
  "gh_objdata i_buffer g = g\<lparr>ag_data := ag_data g @ take (ag_buffsize g - length (ag_data g)) i_buffer\<rparr>"

text \<open>The data of a put, which the service takes in pieces of at most the size it asks for.\<close>

record puthandler =
  ph_data :: bytes
  ph_left :: bytes

definition ph_ctor :: "bytes \<Rightarrow> puthandler" where
  "ph_ctor dat = \<lparr>ph_data = dat, ph_left = dat\<rparr>"

definition ph_reset :: "puthandler \<Rightarrow> puthandler" where
  "ph_reset h = h\<lparr>ph_left := ph_data h\<rparr>"

definition ph_objdata :: "nat \<Rightarrow> puthandler \<Rightarrow> puthandler \<times> bytes" where
  "ph_objdata i_buffsz h =
     (let sz = min i_buffsz (length (ph_left h)) in (h\<lparr>ph_left := drop sz (ph_left h)\<rparr>, take sz (ph_left h)))"

fun ph_pieces :: "nat list \<Rightarrow> puthandler \<Rightarrow> puthandler \<times> bytes list" where
  "ph_pieces [] h = (h, [])"
| "ph_pieces (n # ns) h =
     (case ph_objdata n h of (h1, b) \<Rightarrow> case ph_pieces ns h1 of (h2, bs) \<Rightarrow> (h2, b # bs))"

definition get_handle_exception :: "(s3status \<Rightarrow> bool) \<Rightarrow> s3status \<Rightarrow> hid \<Rightarrow> s3get \<Rightarrow> s3bs \<Rightarrow> s3bs" where
  "get_handle_exception retryable st h g s =
     (if st = S3StatusOK then remove_handler h (s3_tell (Bg_complete (ag_argp g) (ag_key g) (ag_data g)) s)
      else if retryable st then
        (if 0 < ag_retries g - 1 then set_handler h (SGet (g\<lparr>ag_retries := ag_retries g - 1, ag_data := []\<rparr>)) s
         else remove_handler h (s3_tell (Bg_error (ag_argp g) (ag_key g) InternalError) s))
      else remove_handler h
        (s3_tell (Bg_error (ag_argp g) (ag_key g)
           (if st = S3StatusErrorNoSuchKey then NotFoundError else InternalError)) s))"

definition put_handle_exception :: "(s3status \<Rightarrow> bool) \<Rightarrow> int \<Rightarrow> s3status \<Rightarrow> hid \<Rightarrow> s3put \<Rightarrow> s3bs \<Rightarrow> s3bs \<times> unit res" where
  "put_handle_exception retryable now st h p s =
     (if st = S3StatusOK then
        (case update_put_stats now p s of
           (s1, Inl e) \<Rightarrow> (s1, Inl e)
         | (s1, Inr _) \<Rightarrow> (remove_handler h (s3_tell (Bp_complete (ap_argp p) (ap_key p)) s1), Inr ()))
      else if retryable st then
        (if 0 < ap_retries p - 1 then (set_handler h (SPut (p\<lparr>ap_retries := ap_retries p - 1\<rparr>)) s, Inr ())
         else (remove_handler h (s3_tell (Bp_error (ap_argp p) (ap_key p) InternalError) s), Inr ()))
      else (remove_handler h (s3_tell (Bp_error (ap_argp p) (ap_key p) InternalError) s), Inr ()))"

definition s3_stat :: "s3bs \<Rightarrow> int \<times> int" where
  "s3_stat s = (s_size s, s_size s - s_committed s)"

definition s3_sync_pass :: "s3bs \<Rightarrow> s3bs \<times> bool" where
  "s3_sync_pass s = (if s_rsphandlers s = [] then (s, True) else (s\<lparr>s_waiting := True\<rparr>, False))"

text \<open>Closing a store; \<open>unmapped\<close> is the result of removing it from the registry of instances.\<close>

definition s3_close :: "unit res \<Rightarrow> s3bs \<Rightarrow> s3bs \<times> unit res" where
  "s3_close unmapped s = (s, case unmapped of Inl e \<Rightarrow> Inl InternalError | Inr _ \<Rightarrow> Inr ())"

definition s3_issaturated :: "s3bs \<Rightarrow> bool" where
  "s3_issaturated s \<longleftrightarrow> SATURATED_SIZE \<le> length (s_rsphandlers s)"

definition s3_register_unsathandler :: "nat option \<Rightarrow> s3bs \<Rightarrow> s3bs" where
  "s3_register_unsathandler i_handler s = s\<lparr>s_unsathandler := i_handler\<rparr>"

subsection \<open>Repeated requests\<close>

text \<open>
  The loops that try a request up to \<^verbatim>\<open>MAX_RETRIES\<close> times: \<open>sts i\<close> is the status of attempt \<open>i\<close>,
  \<open>fatal\<close> the exception for a status that is not tried again. The result is the attempt that
  succeeded; none when all of them failed, since the check for the last one is never reached.
\<close>

fun retry :: "(s3status \<Rightarrow> exn option) \<Rightarrow> (nat \<Rightarrow> s3status) \<Rightarrow> nat list \<Rightarrow> nat option res" where
  "retry fatal sts [] = Inr None"
| "retry fatal sts (i # is) =
     (if sts i = S3StatusOK then Inr (Some i)
      else case fatal (sts i) of Some e \<Rightarrow> Inl e | None \<Rightarrow> retry fatal sts is)"

subsection \<open>Refresh cycles\<close>

definition s3_refresh_start :: "int \<Rightarrow> 64 word \<Rightarrow> s3bs \<Rightarrow> s3bs \<times> unit res" where
  "s3_refresh_start now i_rid s =
     (let rpath = blockpath (ridname i_rid) in
      if map_of (s_entries s) rpath \<noteq> None then (s, Inl NotUniqueError)
      else case s3_touch_entry rpath now (- 1) True s of
        (s1, Inl e) \<Rightarrow> (s1, Inl e)
      | (s1, Inr _) \<Rightarrow> (s1, Inr ()))"

text \<open>The result \<open>True\<close> is \<^verbatim>\<open>rb_complete\<close>, \<open>False\<close> is \<^verbatim>\<open>rb_missing\<close>.\<close>

definition s3_refresh_block :: "int \<Rightarrow> 64 word \<Rightarrow> key \<Rightarrow> s3bs \<Rightarrow> s3bs \<times> bool res" where
  "s3_refresh_block now i_rid i_key s =
     (if map_of (s_entries s) (blockpath (ridname i_rid)) = None then (s, Inl NotFoundError)
      else s3_touch_entry (blockpath (entryname i_key)) now 0 False s)"

record mdentry =
  md_name :: string
  md_mtime :: "32 word"
  md_size :: "32 word option"

definition md_index :: "s3bs \<Rightarrow> mdentry list" where
  "md_index s = map (\<lambda>(n, eh). let e = s_ent s eh in
     \<lparr>md_name = e_name e, md_mtime = of_int (e_tstamp e),
      md_size = (if e_size e \<noteq> 0 then Some (of_int (e_size e)) else None)\<rparr>) (s_entries s)"

definition s3_remove_mark :: "s3bs \<Rightarrow> s3bs \<times> unit res" where
  "s3_remove_mark s =
     (case map_of (s_entries s) markname of
        None \<Rightarrow> (s, Inr ())
      | Some meh \<Rightarrow>
          (let s1 = s\<lparr>s_entries := del_entry markname (s_entries s)\<rparr> in
           if meh \<in> set (s_lru s) then (s1\<lparr>s_lru := remove1 meh (s_lru s1)\<rparr>, Inr ())
           else (s1, Inl InvalidIterator)))"

definition s3_set_mark :: "string \<Rightarrow> s3bs \<Rightarrow> s3bs \<times> unit res" where
  "s3_set_mark rpath s =
     (case map_of (s_entries s) rpath of
        None \<Rightarrow> (s, Inl InternalError)
      | Some reh \<Rightarrow>
          (let s1 = s\<lparr>s_ent := (s_ent s)(reh := (s_ent s reh)\<lparr>e_name := markname\<rparr>),
                      s_entries := ins_entry markname reh (del_entry rpath (s_entries s))\<rparr>;
               (c, u) = add_up (s_ent s1) (s_lru s1) False 0 0
           in (s1\<lparr>s_committed := c, s_uncommitted := u,
                  s_mark := (case find (\<lambda>e. e_name (s_ent s1 e) = markname) (s_lru s1) of
                               Some m \<Rightarrow> Some m | None \<Rightarrow> s_mark s1)\<rparr>, Inr ())))"

text \<open>
  The index of all entries is serialized (\<open>ser\<close>), written to the local file and put as an
  object; \<open>sts\<close> are the statuses of the attempts to put it.
\<close>

definition s3_write_index :: "(mdentry list \<Rightarrow> bytes option) \<Rightarrow> (nat \<Rightarrow> s3status) \<Rightarrow> s3bs \<Rightarrow> s3bs \<times> unit res" where
  "s3_write_index ser sts s =
     (case ser (md_index s) of
        None \<Rightarrow> (s, Inl InternalError)
      | Some buf \<Rightarrow>
          (let s1 = s\<lparr>s_index := Some buf\<rparr> in
           case retry (\<lambda>_. None) sts [0..<MAX_RETRIES] of
             Inl e \<Rightarrow> (s1, Inl e)
           | Inr None \<Rightarrow> (s1, Inr ())
           | Inr (Some i) \<Rightarrow> (s1\<lparr>s_objs := (s_objs s1)(''MDNDX'' \<mapsto> buf)\<rparr>, Inr ())))"

definition s3_refresh_finish ::
    "(mdentry list \<Rightarrow> bytes option) \<Rightarrow> (nat \<Rightarrow> s3status) \<Rightarrow> 64 word \<Rightarrow> s3bs \<Rightarrow> s3bs \<times> unit res" where
  "s3_refresh_finish ser sts i_rid s =
     (let rpath = blockpath (ridname i_rid) in
      if map_of (s_entries s) rpath = None then (s, Inl NotFoundError)
      else vthen (s3_remove_mark s) (\<lambda>s1. vthen (s3_set_mark rpath s1) (s3_write_index ser sts)))"

subsection \<open>Heads\<close>

definition s3_write_head ::
    "(signedheadedge \<Rightarrow> bytes) \<Rightarrow> (bytes \<Rightarrow> bytes) \<Rightarrow> (nat \<Rightarrow> s3status) \<Rightarrow> signedheadedge \<Rightarrow> s3bs \<Rightarrow> s3bs \<times> unit res" where
  "s3_write_head ser_she sha sts i_she s =
     (let encbuf = Base64_encode (ser_she i_she);
          obj = map (of_nat \<circ> of_char) encbuf;
          edgekey = edgepath (Base32_encode (sha obj)) in
      case retry (\<lambda>_. None) sts [0..<Suc MAX_RETRIES] of
        Inr (Some i) \<Rightarrow> (s\<lparr>s_objs := (s_objs s)(edgekey \<mapsto> obj)\<rparr>, Inr ())
      | _ \<Rightarrow> (s, Inl InternalError))"

definition s3_head_insert ::
    "(signedheadedge \<Rightarrow> bytes) \<Rightarrow> (bytes \<Rightarrow> bytes) \<Rightarrow> he_parser \<Rightarrow> (nat \<Rightarrow> s3status) \<Rightarrow> signedheadedge \<Rightarrow> s3bs \<Rightarrow> s3bs \<times> unit res" where
  "s3_head_insert ser_she sha parse sts i_she s =
     vthen (s3_write_head ser_she sha sts i_she s) (\<lambda>s1.
       case insert_head parse i_she (s_lhng s1) of
         Inl e \<Rightarrow> (s1, Inl e)
       | Inr g \<Rightarrow> (s1\<lparr>s_lhng := g\<rparr>, Inr ()))"

definition s3_head_follow :: "headnode \<Rightarrow> s3bs \<Rightarrow> signedheadedge list res option" where
  "s3_head_follow i_hn s = head_follow (s_lhng s) i_hn"

definition s3_head_furthest :: "headnode \<Rightarrow> s3bs \<Rightarrow> headnode list res option" where
  "s3_head_furthest i_hn s = head_furthest (s_lhng s) i_hn"

subsection \<open>Arguments\<close>

record s3params =
  p_access_key_id :: string
  p_secret_access_key :: string
  p_bucket_name :: string
  p_mdndx_path_name :: string

definition arg_value :: "string \<Rightarrow> string \<Rightarrow> string option" where
  "arg_value opt arg = (if take (length opt) arg = opt then Some (drop (length opt) arg) else None)"

fun parse_args :: "string list \<Rightarrow> s3params \<Rightarrow> s3params res" where
  "parse_args [] p = Inr p"
| "parse_args (a # as) p =
     (case arg_value ''--s3-access-key-id='' a of
        Some v \<Rightarrow> parse_args as (p\<lparr>p_access_key_id := v\<rparr>)
      | None \<Rightarrow> (case arg_value ''--s3-secret-access-key='' a of
        Some v \<Rightarrow> parse_args as (p\<lparr>p_secret_access_key := v\<rparr>)
      | None \<Rightarrow> (case arg_value ''--bucket='' a of
        Some v \<Rightarrow> parse_args as (p\<lparr>p_bucket_name := v\<rparr>)
      | None \<Rightarrow> (case arg_value ''--mdndx-path='' a of
        Some v \<Rightarrow> parse_args as (p\<lparr>p_mdndx_path_name := v\<rparr>)
      | None \<Rightarrow> Inl ValueError))))"

definition parse_params :: "string list \<Rightarrow> s3params res" where
  "parse_params i_args =
     (case parse_args i_args \<lparr>p_access_key_id = [], p_secret_access_key = [], p_bucket_name = [], p_mdndx_path_name = []\<rparr> of
        Inl e \<Rightarrow> Inl e
      | Inr p \<Rightarrow>
          if p_access_key_id p = [] \<or> p_secret_access_key p = [] \<or> p_bucket_name p = [] \<or> p_mdndx_path_name p = []
          then Inl ValueError else Inr p)"

subsection \<open>Creating and opening\<close>

text \<open>Polling a bucket after it was created: the request context and the test in each turn.\<close>

fun create_poll :: "(nat \<Rightarrow> s3status) \<Rightarrow> (nat \<Rightarrow> s3status) \<Rightarrow> nat list \<Rightarrow> unit res" where
  "create_poll ctxt test [] = Inl InternalError"
| "create_poll ctxt test (i # is) =
     (if ctxt i \<noteq> S3StatusOK then Inl InternalError
      else if test i = S3StatusOK then Inr ()
      else if test i \<noteq> S3StatusErrorNoSuchBucket then Inl InternalError
      else create_poll ctxt test is)"

record s3created =
  c_test :: s3status
  c_create :: s3status
  c_ctxt :: "nat \<Rightarrow> s3status"
  c_poll :: "nat \<Rightarrow> s3status"
  c_put :: "nat \<Rightarrow> s3status"

definition s3_create :: "s3created \<Rightarrow> nat \<Rightarrow> string list \<Rightarrow> s3bs \<Rightarrow> s3bs \<times> unit res" where
  "s3_create ans i_size i_args s =
     (let s1 = s\<lparr>s_size := int i_size, s_uncommitted := 0, s_committed := 0\<rparr> in
      case parse_params i_args of
        Inl e \<Rightarrow> (s1, Inl e)
      | Inr p \<Rightarrow>
          if c_test ans = S3StatusOK then (s1, Inl NotUniqueError)
          else if c_test ans \<noteq> S3StatusErrorNoSuchBucket then (s1, Inl InternalError)
          else if c_create ans \<noteq> S3StatusOK then (s1, Inl InternalError)
          else
            (let s2 = s1\<lparr>s_objs := (\<lambda>_. None)\<rparr> in
             case create_poll (c_ctxt ans) (c_poll ans) [0..<101] of
               Inl e \<Rightarrow> (s2, Inl e)
             | Inr _ \<Rightarrow>
                 (case retry (\<lambda>_. None) (c_put ans) [0..<Suc MAX_RETRIES] of
                    Inr (Some i) \<Rightarrow>
                      (s2\<lparr>s_objs := (s_objs s2)(''SIZE'' \<mapsto> map (of_nat \<circ> of_char) (decimal i_size @ [CHR 0x0A]))\<rparr>, Inr ())
                  | _ \<Rightarrow> (s2, Inl InternalError))))"

definition new_entry :: "string \<Rightarrow> int \<Rightarrow> int \<Rightarrow> s3bs \<Rightarrow> s3bs" where
  "new_entry n t z s =
     s\<lparr>s_ent := (s_ent s)(s_neid s := \<lparr>e_name = n, e_tstamp = t, e_size = z\<rparr>), s_neid := Suc (s_neid s),
       s_entries := ins_entry n (s_neid s) (s_entries s)\<rparr>"

fun parse_mdndx_entries :: "32 word \<Rightarrow> mdentry list \<Rightarrow> s3bs \<Rightarrow> eid list \<Rightarrow> s3bs \<times> eid list" where
  "parse_mdndx_entries timeoff [] s ets = (s, ets)"
| "parse_mdndx_entries timeoff (m # ms) s ets =
     (let mtime = sint (timeoff + md_mtime m);
          size = (case md_size m of None \<Rightarrow> 0 | Some w \<Rightarrow> uint w) in
      case map_of (s_entries s) (md_name m) of
        Some eh \<Rightarrow>
          parse_mdndx_entries timeoff ms
            (s\<lparr>s_ent := (s_ent s)(eh := (s_ent s eh)\<lparr>e_tstamp := mtime,
                 e_size := (if size \<noteq> 0 then size else e_size (s_ent s eh))\<rparr>)\<rparr>) ets
      | None \<Rightarrow>
          parse_mdndx_entries timeoff ms
            (new_entry (md_name m) mtime (if md_name m = markname then 0 else size) s) (ets @ [s_neid s]))"

text \<open>One call of \<^verbatim>\<open>EntryListHandler::lh_item\<close>, with the name, time and size of each object listed.\<close>

fun entry_items :: "(string \<times> int \<times> int) list \<Rightarrow> s3bs \<Rightarrow> eid list \<Rightarrow> s3bs \<times> eid list" where
  "entry_items [] s ets = (s, ets)"
| "entry_items ((entry, mtime, sz) # cs) s ets =
     (if take 7 entry \<noteq> blockpath [] then entry_items cs s ets
      else entry_items cs (new_entry entry (mtime - 7 * 60 * 60) sz s) (ets @ [s_neid s]))"

text \<open>
  The answers to the attempts to list a page: each delivers items, with the flag for more pages,
  and then a status. The items of an attempt that fails stay in the table.
\<close>

type_synonym entry_item = "bool \<times> (string \<times> int \<times> int) list"

fun entry_page :: "entry_item list \<Rightarrow> s3bs \<Rightarrow> eid list \<Rightarrow> bool \<Rightarrow> s3bs \<times> eid list \<times> bool" where
  "entry_page [] s ets istrunc = (s, ets, istrunc)"
| "entry_page ((tr, cs) # is) s ets istrunc = (case entry_items cs s ets of (s1, ets1) \<Rightarrow> entry_page is s1 ets1 tr)"

fun list_page ::
    "(s3status \<Rightarrow> bool) \<Rightarrow> (entry_item list \<times> s3status) list \<Rightarrow> s3bs \<Rightarrow> eid list \<Rightarrow> bool \<Rightarrow>
     (s3bs \<times> eid list \<times> bool) res" where
  "list_page retryable [] s ets istrunc = Inr (s, ets, istrunc)"
| "list_page retryable ((items, st) # as) s ets istrunc =
     (case entry_page items s ets istrunc of (s1, ets1, istrunc1) \<Rightarrow>
      if st = S3StatusOK then Inr (s1, ets1, istrunc1)
      else if \<not> retryable st then Inl InternalError
      else list_page retryable as s1 ets1 istrunc1)"

fun list_pages ::
    "(s3status \<Rightarrow> bool) \<Rightarrow> (entry_item list \<times> s3status) list list \<Rightarrow> s3bs \<Rightarrow> eid list \<Rightarrow> (s3bs \<times> eid list) res" where
  "list_pages retryable [] s ets = Inr (s, ets)"
| "list_pages retryable (pg # pgs) s ets =
     (case list_page retryable (take MAX_RETRIES pg) s ets False of
        Inl e \<Rightarrow> Inl e
      | Inr (s1, ets1, istrunc) \<Rightarrow> if istrunc then list_pages retryable pgs s1 ets1 else Inr (s1, ets1))"

fun list_edges :: "(s3status \<times> bool \<times> string list) list \<Rightarrow> string list \<Rightarrow> string list res" where
  "list_edges [] ks = Inr ks"
| "list_edges ((st, istrunc, keys) # pgs) ks =
     (let ks1 = ks @ filter (\<lambda>k. take 6 k = ''EDGES/'') keys in
      if st \<noteq> S3StatusOK then Inl InternalError
      else if istrunc then list_edges pgs ks1 else Inr ks1)"

record s3answers =
  o_retryable :: "s3status \<Rightarrow> bool"
  o_test :: "nat \<Rightarrow> s3status"
  o_ctxt :: s3status
  o_size :: "s3status \<times> int"
  o_head :: "nat \<Rightarrow> s3status"
  o_mdndx :: "nat \<Rightarrow> s3status \<times> bytes"
  o_pages :: "(entry_item list \<times> s3status) list list"
  o_edges :: "(s3status \<times> bool \<times> string list) list"
  o_edge :: "string \<Rightarrow> nat \<Rightarrow> s3status \<times> bytes"
  o_parsemd :: "bytes \<Rightarrow> (32 word option \<times> mdentry list) option"

definition read_index :: "s3answers \<Rightarrow> bytes \<Rightarrow> s3bs \<Rightarrow> (s3bs \<times> eid list) res" where
  "read_index ans buf s =
     (case o_parsemd ans buf of
        None \<Rightarrow> Inl InternalError
      | Some (timeoff, ms) \<Rightarrow>
          Inr (parse_mdndx_entries (case timeoff of None \<Rightarrow> 0 | Some t \<Rightarrow> t) ms s []))"

definition open_index :: "s3answers \<Rightarrow> s3bs \<Rightarrow> (s3bs \<times> eid list) res" where
  "open_index ans s =
     (case s_index s of
        Some buf \<Rightarrow> read_index ans buf s
      | None \<Rightarrow>
          (case find (\<lambda>i. o_head ans i \<in> {S3StatusOK, S3StatusHttpErrorNotFound}) [0..<MAX_RETRIES] of
             Some i \<Rightarrow>
               if o_head ans i = S3StatusOK then
                 (case retry (\<lambda>_. None) (\<lambda>i. fst (o_mdndx ans i)) [0..<MAX_RETRIES] of
                    Inl e \<Rightarrow> Inl e
                  | Inr (Some j) \<Rightarrow> read_index ans (snd (o_mdndx ans j)) s
                  | Inr None \<Rightarrow> read_index ans (snd (o_mdndx ans (MAX_RETRIES - 1))) s)
               else list_pages (o_retryable ans) (o_pages ans) s []
           | None \<Rightarrow> list_pages (o_retryable ans) (o_pages ans) s []))"

text \<open>The entries by time, the newest first; entries of equal time in the reverse order of insertion.\<close>

definition unroll_lru :: "s3bs \<Rightarrow> eid list \<Rightarrow> s3bs" where
  "unroll_lru s ets =
     (let lru = rev (sort_key (\<lambda>e. e_tstamp (s_ent s e)) ets);
          (c, u) = add_up (s_ent s) lru False 0 0
      in s\<lparr>s_lru := s_lru s @ lru, s_committed := c, s_uncommitted := u,
           s_mark := (case find (\<lambda>e. e_name (s_ent s e) = markname) lru of Some m \<Rightarrow> Some m | None \<Rightarrow> s_mark s)\<rparr>)"

fun open_edges ::
    "(s3status \<Rightarrow> bool) \<Rightarrow> (string \<Rightarrow> nat \<Rightarrow> s3status \<times> bytes) \<Rightarrow> he_parser \<Rightarrow> (bytes \<Rightarrow> signedheadedge option) \<Rightarrow>
     string list \<Rightarrow> lhng \<Rightarrow> lhng res" where
  "open_edges retryable edge parse parse_she [] g = Inr g"
| "open_edges retryable edge parse parse_she (k # ks) g =
     (case retry (\<lambda>st. if st = S3StatusErrorNoSuchKey then Some NotFoundError
                       else if \<not> retryable st then Some InternalError else None)
             (\<lambda>i. fst (edge k i)) [0..<MAX_RETRIES] of
        Inl e \<Rightarrow> Inl e
      | Inr None \<Rightarrow> Inl Uninit
      | Inr (Some i) \<Rightarrow>
          (case parse_she (Base64_decode (map (char_of \<circ> unat) (take 8192 (snd (edge k i))))) of
             None \<Rightarrow> Inl InternalError
           | Some she \<Rightarrow>
               (case insert_head parse she g of
                  Inl e \<Rightarrow> Inl e
                | Inr g' \<Rightarrow> open_edges retryable edge parse parse_she ks g')))"

definition s3_open ::
    "s3answers \<Rightarrow> he_parser \<Rightarrow> (bytes \<Rightarrow> signedheadedge option) \<Rightarrow> string list \<Rightarrow> s3bs \<Rightarrow> s3bs res" where
  "s3_open ans parse parse_she i_args s =
     (case parse_params i_args of
        Inl e \<Rightarrow> Inl e
      | Inr p \<Rightarrow>
          (case retry (\<lambda>st. if st = S3StatusErrorNoSuchBucket then Some NotFoundError
                            else if \<not> o_retryable ans st then Some InternalError else None)
                  (o_test ans) [0..<MAX_RETRIES] of
             Inl e \<Rightarrow> Inl e
           | Inr _ \<Rightarrow>
               if o_ctxt ans \<noteq> S3StatusOK then Inl InternalError
               else if fst (o_size ans) \<noteq> S3StatusOK then Inl InternalError
               else case open_index ans (s\<lparr>s_size := snd (o_size ans)\<rparr>) of
                 Inl e \<Rightarrow> Inl e
               | Inr (s1, ets) \<Rightarrow>
                   (case list_edges (o_edges ans) [] of
                      Inl e \<Rightarrow> Inl e
                    | Inr ks \<Rightarrow>
                        (case open_edges (o_retryable ans) (o_edge ans) parse parse_she ks (s_lhng s1) of
                           Inl e \<Rightarrow> Inl e
                         | Inr g \<Rightarrow> Inr ((unroll_lru s1 ets)\<lparr>s_lhng := g\<rparr>)))))"


subsection \<open>Asynchronous calls\<close>

text \<open>
  The calls of the client and the events of the service, one step each. What the source passes to
  the completion is told; an invalid iterator is not an exception of the source and stays a
  result. \<^verbatim>\<open>bs_refresh_block_async\<close> throws to its caller when the refresh id is unknown.
\<close>

definition s3_refresh_start_async :: "nat \<Rightarrow> int \<Rightarrow> 64 word \<Rightarrow> s3bs \<Rightarrow> s3bs" where
  "s3_refresh_start_async i_argp now i_rid s =
     (case s3_refresh_start now i_rid s of
        (s1, Inl e) \<Rightarrow> s3_tell (Rs_error i_argp i_rid e) s1
      | (s1, Inr _) \<Rightarrow> s3_tell (Rs_complete i_argp i_rid) s1)"

definition s3_refresh_block_async :: "nat \<Rightarrow> int \<Rightarrow> 64 word \<Rightarrow> key \<Rightarrow> s3bs \<Rightarrow> s3bs \<times> unit res" where
  "s3_refresh_block_async i_argp now i_rid i_key s =
     (case s3_refresh_block now i_rid i_key s of
        (s1, Inl e) \<Rightarrow> (s1, Inl e)
      | (s1, Inr found) \<Rightarrow>
          (s3_tell (if found then Rb_complete i_argp i_key else Rb_missing i_argp i_key) s1, Inr ()))"

definition s3_refresh_finish_async ::
    "(mdentry list \<Rightarrow> bytes option) \<Rightarrow> (nat \<Rightarrow> s3status) \<Rightarrow> nat \<Rightarrow> 64 word \<Rightarrow> s3bs \<Rightarrow> s3bs \<times> unit res" where
  "s3_refresh_finish_async ser sts i_argp i_rid s =
     (case s3_refresh_finish ser sts i_rid s of
        (s1, Inl e) \<Rightarrow> if e = InvalidIterator then (s1, Inl e) else (s3_tell (Rf_error i_argp i_rid e) s1, Inr ())
      | (s1, Inr _) \<Rightarrow> (s3_tell (Rf_complete i_argp i_rid) s1, Inr ()))"

datatype s3event =
    SCallGet nat key nat
  | SCallPut "string \<Rightarrow> s3status" nat key bytes
  | SCallStart nat int "64 word"
  | SCallRefresh nat int "64 word" key
  | SCallFinish "mdentry list \<Rightarrow> bytes option" "nat \<Rightarrow> s3status" nat "64 word"
  | SChunk hid bytes
  | SDone hid s3status int

definition s3_done :: "(s3status \<Rightarrow> bool) \<Rightarrow> hid \<Rightarrow> s3status \<Rightarrow> int \<Rightarrow> s3bs \<Rightarrow> s3bs \<times> unit res" where
  "s3_done retryable h st now s =
     (case map_of (s_rsphandlers s) h of
        None \<Rightarrow> (s, Inl NotFoundError)
      | Some (SGet g) \<Rightarrow> (get_handle_exception retryable st h g s, Inr ())
      | Some (SPut p) \<Rightarrow>
          put_handle_exception retryable now st h p
            (if st = S3StatusOK then s\<lparr>s_objs := (s_objs s)(ap_blkpath p \<mapsto> ap_blk p)\<rparr> else s))"

definition s3_chunk :: "hid \<Rightarrow> bytes \<Rightarrow> s3bs \<Rightarrow> s3bs \<times> unit res" where
  "s3_chunk h dat s =
     (case map_of (s_rsphandlers s) h of
        Some (SGet g) \<Rightarrow> (set_handler h (SGet (gh_objdata dat g)) s, Inr ())
      | _ \<Rightarrow> (s, Inl NotFoundError))"

fun s3_step :: "(s3status \<Rightarrow> bool) \<Rightarrow> s3event \<Rightarrow> s3bs \<Rightarrow> s3bs \<times> unit res" where
  "s3_step retryable (SCallGet a k n) s = (s3_block_get_async a k n s, Inr ())"
| "s3_step retryable (SCallPut st a k blk) s = (s3_block_put_async st a k blk s, Inr ())"
| "s3_step retryable (SCallStart a now r) s = (s3_refresh_start_async a now r s, Inr ())"
| "s3_step retryable (SCallRefresh a now r k) s = s3_refresh_block_async a now r k s"
| "s3_step retryable (SCallFinish ser sts a r) s = s3_refresh_finish_async ser sts a r s"
| "s3_step retryable (SChunk h dat) s = s3_chunk h dat s"
| "s3_step retryable (SDone h st now) s = s3_done retryable h st now s"

text \<open>A run of events; it ends with the first one that throws.\<close>

fun s3_run :: "(s3status \<Rightarrow> bool) \<Rightarrow> s3event list \<Rightarrow> s3bs \<Rightarrow> s3bs \<times> unit res" where
  "s3_run retryable [] s = (s, Inr ())"
| "s3_run retryable (e # es) s = vthen (s3_step retryable e s) (s3_run retryable es)"

subsection \<open>Destroying a bucket\<close>

record bdestroyer =
  d_istrunc :: bool
  d_outstanding :: nat
  d_keyqueue :: "string list"
  d_deleting :: "(nat \<times> string \<times> nat) list"
  d_next :: nat

definition bd_ctor :: bdestroyer where
  "bd_ctor = \<lparr>d_istrunc = False, d_outstanding = 0, d_keyqueue = [], d_deleting = [], d_next = 0\<rparr>"

text \<open>\<open>d_deleting\<close> lists the \<^verbatim>\<open>ObjectDestroyer\<close>s alive: an identity, the key and the attempts left.\<close>

function service_queue :: "bdestroyer \<Rightarrow> bdestroyer" where
  "service_queue d =
     (case d_keyqueue d of
        [] \<Rightarrow> d
      | key # ks \<Rightarrow>
          if d_outstanding d < 128 then
            service_queue (d\<lparr>d_outstanding := Suc (d_outstanding d), d_keyqueue := ks,
              d_deleting := d_deleting d @ [(d_next d, key, 10)], d_next := Suc (d_next d)\<rparr>)
          else d)"
  by pat_completeness auto
termination
  by (relation "measure (\<lambda>d. length (d_keyqueue d))") auto

declare service_queue.simps [simp del]

definition bd_lh_item :: "bool \<Rightarrow> string list \<Rightarrow> bdestroyer \<Rightarrow> bdestroyer" where
  "bd_lh_item i_istrunc keys d = service_queue (d\<lparr>d_istrunc := i_istrunc, d_keyqueue := d_keyqueue d @ keys\<rparr>)"

definition bd_completed :: "bdestroyer \<Rightarrow> bdestroyer" where
  "bd_completed d = service_queue (d\<lparr>d_outstanding := d_outstanding d - 1\<rparr>)"

definition od_handle_exception :: "(s3status \<Rightarrow> bool) \<Rightarrow> s3status \<Rightarrow> nat \<Rightarrow> bdestroyer \<Rightarrow> bdestroyer" where
  "od_handle_exception retryable st i d =
     (case map_of (d_deleting d) i of
        None \<Rightarrow> d
      | Some (key, retries) \<Rightarrow>
          if st \<noteq> S3StatusOK \<and> retryable st \<and> 0 < retries - 1 then
            d\<lparr>d_deleting := map (\<lambda>p. if fst p = i then (i, key, retries - 1) else p) (d_deleting d)\<rparr>
          else bd_completed (d\<lparr>d_deleting := filter (\<lambda>p. fst p \<noteq> i) (d_deleting d)\<rparr>))"

datatype bdevent = BLhItem bool "string list" | BDone nat s3status

fun bd_step :: "(s3status \<Rightarrow> bool) \<Rightarrow> bdevent \<Rightarrow> bdestroyer \<Rightarrow> bdestroyer" where
  "bd_step retryable (BLhItem tr keys) d = bd_lh_item tr keys d"
| "bd_step retryable (BDone i st) d = od_handle_exception retryable st i d"

text \<open>
  \<^verbatim>\<open>S3BlockStore::destroy\<close>: the attempts to list a page, each with the events that happen while it
  runs, pages as long as the last one was truncated, then the deletion of the bucket and the
  poll until it is gone. The destroyer at the moment the bucket is deleted is part of the result.
\<close>

fun destroy_page :: "(s3status \<Rightarrow> bool) \<Rightarrow> (bdevent list \<times> s3status) list \<Rightarrow> bdestroyer \<Rightarrow> bdestroyer" where
  "destroy_page retryable [] d = d"
| "destroy_page retryable ((evs, st) # as) d =
     (let d1 = fold (bd_step retryable) evs d in
      if st = S3StatusOK then d1 else destroy_page retryable as d1)"

fun destroy_pages :: "(s3status \<Rightarrow> bool) \<Rightarrow> (bdevent list \<times> s3status) list list \<Rightarrow> bdestroyer \<Rightarrow> bdestroyer" where
  "destroy_pages retryable [] d = d"
| "destroy_pages retryable (pg # pgs) d =
     (let d1 = destroy_page retryable (take MAX_RETRIES pg) d in
      if d_istrunc d1 then destroy_pages retryable pgs d1 else d1)"

fun destroy_poll :: "(nat \<Rightarrow> s3status) \<Rightarrow> nat list \<Rightarrow> unit res" where
  "destroy_poll test [] = Inl InternalError"
| "destroy_poll test (i # is) =
     (if test i = S3StatusErrorNoSuchBucket then Inr ()
      else if test i \<noteq> S3StatusOK then Inl InternalError
      else destroy_poll test is)"

record s3destroyed =
  d_test :: s3status
  d_ctxt :: s3status
  d_pages :: "(bdevent list \<times> s3status) list list"
  d_delete :: s3status
  d_poll :: "nat \<Rightarrow> s3status"

definition s3_destroy :: "(s3status \<Rightarrow> bool) \<Rightarrow> s3destroyed \<Rightarrow> string list \<Rightarrow> bdestroyer \<times> unit res" where
  "s3_destroy retryable ans i_args =
     (case parse_params i_args of
        Inl e \<Rightarrow> (bd_ctor, Inl e)
      | Inr p \<Rightarrow>
          if d_test ans = S3StatusErrorNoSuchBucket then (bd_ctor, Inl NotFoundError)
          else if d_test ans \<noteq> S3StatusOK then (bd_ctor, Inl InternalError)
          else if d_ctxt ans \<noteq> S3StatusOK then (bd_ctor, Inl InternalError)
          else
            (let d = destroy_pages retryable (d_pages ans) bd_ctor in
             if d_delete ans \<noteq> S3StatusOK then (d, Inl InternalError)
             else (d, destroy_poll (d_poll ans) [0..<101])))"

end
