(* ===== verification/S3_Laws.thy ===== *)
theory S3_Laws
  imports S3_BlockStore "HOL-Library.Multiset"
begin

text \<open>
  What holds of the store in the S3 service (\<open>S3_BlockStore\<close>).

  \<^item> In every run each get and put of a client is answered once, or still has a handler; the
    attempts made for it are bounded (\<open>s3_reports_once\<close>, \<open>s3_attempts_bounded\<close>).
  \<^item> A block that was put is returned by a get, through failed attempts of both
    (\<open>s3_put_get\<close>).
  \<^item> Destroying a bucket makes at most 128 requests at a time and loses no key
    (\<open>bd_run_inv\<close>), but does not wait for them (\<open>destroy_does_not_wait\<close>).
  \<^item> The faults of the accounting: a purged block is never stored again, a failed upload of the
    index is not reported.
\<close>

subsection \<open>Handlers\<close>

fun retries_of :: "s3req \<Rightarrow> nat" where
  "retries_of (SGet g) = ag_retries g"
| "retries_of (SPut p) = ap_retries p"

fun req_of :: "s3req \<Rightarrow> bool \<times> nat \<times> key" where
  "req_of (SGet g) = (False, ag_argp g, ag_key g)"
| "req_of (SPut p) = (True, ap_argp p, ap_key p)"

fun told :: "upcall \<Rightarrow> (bool \<times> nat \<times> key) list" where
  "told (Bg_complete a k d) = [(False, a, k)]"
| "told (Bg_error a k e) = [(False, a, k)]"
| "told (Bp_complete a k) = [(True, a, k)]"
| "told (Bp_error a k e) = [(True, a, k)]"
| "told _ = []"

fun asked :: "s3event \<Rightarrow> (bool \<times> nat \<times> key) list" where
  "asked (SCallGet a k n) = [(False, a, k)]"
| "asked (SCallPut st a k blk) = [(True, a, k)]"
| "asked _ = []"

fun is_done :: "s3event \<Rightarrow> bool" where
  "is_done (SDone h st now) = True"
| "is_done _ = False"

definition handlers_ok :: "s3bs \<Rightarrow> bool" where
  "handlers_ok s \<longleftrightarrow> distinct (map fst (s_rsphandlers s)) \<and>
     (\<forall>(h, q) \<in> set (s_rsphandlers s). h < s_nhid s \<and> 0 < retries_of q \<and> retries_of q \<le> MAX_RETRIES)"

definition pending :: "s3bs \<Rightarrow> (bool \<times> nat \<times> key) multiset" where
  "pending s = mset (map (req_of \<circ> snd) (s_rsphandlers s))"

definition answered :: "s3bs \<Rightarrow> (bool \<times> nat \<times> key) multiset" where
  "answered s = mset (concat (map told (s_log s)))"

definition attempts_left :: "s3bs \<Rightarrow> nat" where
  "attempts_left s = sum_list (map (retries_of \<circ> snd) (s_rsphandlers s))"

text \<open>The operations on entries leave handlers, their numbering and the log alone.\<close>

definition hpart :: "s3bs \<Rightarrow> (hid \<times> s3req) list \<times> hid \<times> upcall list" where
  "hpart s = (s_rsphandlers s, s_nhid s, s_log s)"

lemma hpart_cong: "hpart s = hpart s' \<Longrightarrow> handlers_ok s = handlers_ok s' \<and> pending s = pending s' \<and>
    answered s = answered s' \<and> attempts_left s = attempts_left s'"
  by (simp add: hpart_def handlers_ok_def pending_def answered_def attempts_left_def)

lemma touch_hpart: "s3_touch_entry n t z b s = (s', r) \<Longrightarrow> hpart s' = hpart s"
  by (auto simp: s3_touch_entry_def Let_def hpart_def split: option.splits if_splits)

lemma purge_hpart: "s3_purge_uncommitted st s = (s', r) \<Longrightarrow> hpart s' = hpart s"
  by (auto simp: s3_purge_uncommitted_def Let_def hpart_def split: option.splits if_splits)

lemma purge_loop_hpart: "s3_purge_loop st need s = (s', r) \<Longrightarrow> hpart s' = hpart s"
proof (induction st need s rule: s3_purge_loop.induct)
  case (1 st need s)
  show ?case
  proof (cases "s_committed s + need + s_uncommitted s > s_size s")
    case True
    obtain s1 r1 where p: "s3_purge_uncommitted st s = (s1, r1)" by fastforce
    show ?thesis
    proof (cases r1)
      case (Inl e)
      then show ?thesis using "1.prems" True p purge_hpart [OF p]
        by (subst (asm) s3_purge_loop.simps) simp
    next
      case (Inr u)
      then show ?thesis using "1.prems" True p purge_hpart [OF p] "1.IH" [OF True p [symmetric] Inr]
        by (subst (asm) s3_purge_loop.simps) simp
    qed
  next
    case False
    then show ?thesis using "1.prems" by (subst (asm) s3_purge_loop.simps) simp
  qed
qed

lemma finish_hpart: "s3_refresh_finish ser sts rid s = (s', r) \<Longrightarrow> hpart s' = hpart s"
  by (auto simp: s3_refresh_finish_def s3_remove_mark_def s3_set_mark_def s3_write_index_def vthen_def hpart_def Let_def
      split: if_splits option.splits sum.splits prod.splits)

lemma tell_parts [simp]:
  "s_rsphandlers (s3_tell u s) = s_rsphandlers s"
  "s_nhid (s3_tell u s) = s_nhid s"
  "s_log (s3_tell u s) = s_log s @ [u]"
  by (simp_all add: s3_tell_def)

lemma tell_laws [simp]:
  "handlers_ok (s3_tell u s) = handlers_ok s"
  "pending (s3_tell u s) = pending s"
  "answered (s3_tell u s) = answered s + mset (told u)"
  "attempts_left (s3_tell u s) = attempts_left s"
  by (simp_all add: handlers_ok_def pending_def answered_def attempts_left_def)

lemma add_handler_laws:
  assumes "handlers_ok s" "0 < retries_of q" "retries_of q \<le> MAX_RETRIES"
  shows "handlers_ok (add_handler q s)"
    "pending (add_handler q s) = pending s + {#req_of q#}"
    "answered (add_handler q s) = answered s"
    "attempts_left (add_handler q s) = attempts_left s + retries_of q"
  using assms by (auto simp: handlers_ok_def add_handler_def pending_def answered_def attempts_left_def)

lemma set_handler_keys [simp]: "map fst (s_rsphandlers (set_handler h q s)) = map fst (s_rsphandlers s)"
  by (auto simp: set_handler_def)

lemma set_handler_parts [simp]:
  "s_nhid (set_handler h q s) = s_nhid s" "s_log (set_handler h q s) = s_log s"
  by (simp_all add: set_handler_def)

lemma handler_split:
  assumes "map_of hs h = Some q" "distinct (map fst hs)"
  obtains xs ys where "hs = xs @ (h, q) # ys" "\<forall>p \<in> set xs. fst p \<noteq> h" "\<forall>p \<in> set ys. fst p \<noteq> h"
proof -
  from assms(1) have "(h, q) \<in> set hs" by (rule map_of_SomeD)
  then obtain xs ys where "hs = xs @ (h, q) # ys" by (meson split_list)
  with assms(2) show ?thesis by (intro that [of xs ys]) force+
qed

lemma handlers_distinct: "handlers_ok s \<Longrightarrow> distinct (map fst (s_rsphandlers s))"
  by (simp add: handlers_ok_def)

lemma set_handler_laws:
  assumes "handlers_ok s" "map_of (s_rsphandlers s) h = Some q" "req_of q' = req_of q"
    "0 < retries_of q'" "retries_of q' \<le> retries_of q"
  shows "handlers_ok (set_handler h q' s)"
    "pending (set_handler h q' s) = pending s"
    "answered (set_handler h q' s) = answered s"
    "attempts_left (set_handler h q' s) + (retries_of q - retries_of q') = attempts_left s"
proof -
  obtain xs ys where hs: "s_rsphandlers s = xs @ (h, q) # ys" "\<forall>p \<in> set xs. fst p \<noteq> h" "\<forall>p \<in> set ys. fst p \<noteq> h"
    by (rule handler_split [OF assms(2) handlers_distinct [OF assms(1)]])
  then have hs': "s_rsphandlers (set_handler h q' s) = xs @ (h, q') # ys"
    by (simp add: set_handler_def map_idI)
  show "handlers_ok (set_handler h q' s)"
    using assms(1,4,5) hs(1) hs' by (fastforce simp: handlers_ok_def)
  show "pending (set_handler h q' s) = pending s" "answered (set_handler h q' s) = answered s"
    "attempts_left (set_handler h q' s) + (retries_of q - retries_of q') = attempts_left s"
    using assms(3,5) hs(1) hs' by (simp_all add: pending_def answered_def attempts_left_def)
qed

lemma remove_handler_parts [simp]:
  "s_rsphandlers (remove_handler h s) = filter (\<lambda>p. fst p \<noteq> h) (s_rsphandlers s)"
  "s_nhid (remove_handler h s) = s_nhid s" "s_log (remove_handler h s) = s_log s"
  by (simp_all add: remove_handler_def Let_def split: option.splits)

lemma handler_frame [simp]:
  "s_objs (remove_handler h s) = s_objs s" "s_entries (remove_handler h s) = s_entries s"
  "s_committed (remove_handler h s) = s_committed s" "s_ent (remove_handler h s) = s_ent s"
  "s_objs (s3_tell u s) = s_objs s" "s_entries (s3_tell u s) = s_entries s"
  "s_committed (s3_tell u s) = s_committed s" "s_ent (s3_tell u s) = s_ent s"
  "s_objs (set_handler h q s) = s_objs s" "s_entries (set_handler h q s) = s_entries s"
  "s_committed (set_handler h q s) = s_committed s" "s_ent (set_handler h q s) = s_ent s" "s_neid (set_handler h q s) = s_neid s"
  "s_objs (add_handler q s) = s_objs s" "s_entries (add_handler q s) = s_entries s"
  "s_committed (add_handler q s) = s_committed s" "s_ent (add_handler q s) = s_ent s" "s_log (add_handler q s) = s_log s"
  "s_neid (add_handler q s) = s_neid s"
  by (simp_all add: remove_handler_def s3_tell_def set_handler_def add_handler_def Let_def split: option.splits)

lemma remove_handler_laws:
  assumes "handlers_ok s" "map_of (s_rsphandlers s) h = Some q"
  shows "handlers_ok (remove_handler h s)"
    "pending (remove_handler h s) + {#req_of q#} = pending s"
    "answered (remove_handler h s) = answered s"
    "Suc (attempts_left (remove_handler h s)) \<le> attempts_left s"
proof -
  obtain xs ys where hs: "s_rsphandlers s = xs @ (h, q) # ys" "\<forall>p \<in> set xs. fst p \<noteq> h" "\<forall>p \<in> set ys. fst p \<noteq> h"
    by (rule handler_split [OF assms(2) handlers_distinct [OF assms(1)]])
  then have hs': "filter (\<lambda>p. fst p \<noteq> h) (s_rsphandlers s) = xs @ ys" by simp
  have pos: "0 < retries_of q" using assms(1) hs(1) by (simp add: handlers_ok_def)
  show "handlers_ok (remove_handler h s)"
    using assms(1) hs(1) hs' by (auto simp: handlers_ok_def)
  show "pending (remove_handler h s) + {#req_of q#} = pending s" "answered (remove_handler h s) = answered s"
    "Suc (attempts_left (remove_handler h s)) \<le> attempts_left s"
    using pos hs(1) hs' by (simp_all add: pending_def answered_def attempts_left_def)
qed


subsection \<open>Steps\<close>

text \<open>How a step may change the handlers: \<open>n\<close> are the requests it adds, \<open>d\<close> the attempts it ends.\<close>

definition moves :: "(bool \<times> nat \<times> key) list \<Rightarrow> nat \<Rightarrow> s3bs \<Rightarrow> s3bs \<Rightarrow> bool" where
  "moves n d s s' \<longleftrightarrow> handlers_ok s' \<and> answered s' + pending s' = answered s + pending s + mset n \<and>
     attempts_left s' + d \<le> attempts_left s + MAX_RETRIES * length n"

lemma moves_hpart: "hpart s' = hpart s \<Longrightarrow> moves n d s' t = moves n d s t"
  using hpart_cong [of s' s] by (simp add: moves_def)

lemma moves_silent: "handlers_ok s \<Longrightarrow> hpart s' = hpart s \<Longrightarrow> moves [] 0 s s'"
  using hpart_cong [of s' s] by (simp add: moves_def)

lemma moves_tell: "handlers_ok s \<Longrightarrow> hpart s' = hpart s \<Longrightarrow> told u = n \<Longrightarrow> moves n 0 s (s3_tell u s')"
  using hpart_cong [of s' s] by (auto simp: moves_def)

lemma moves_add:
  "handlers_ok s \<Longrightarrow> hpart s' = hpart s \<Longrightarrow> retries_of q = MAX_RETRIES \<Longrightarrow> req_of q = r \<Longrightarrow>
   moves [r] 0 s (add_handler q s')"
  using hpart_cong [of s' s] add_handler_laws [of s' q]
  by (simp add: moves_def MAX_RETRIES_def)

lemma moves_retry:
  "handlers_ok s \<Longrightarrow> map_of (s_rsphandlers s) h = Some q \<Longrightarrow> req_of q' = req_of q \<Longrightarrow>
   0 < retries_of q' \<Longrightarrow> retries_of q' + d = retries_of q \<Longrightarrow> moves [] d s (set_handler h q' s)"
  using set_handler_laws [of s h q q'] by (simp add: moves_def)

lemma moves_answer:
  assumes "handlers_ok s" "hpart s' = hpart s" "map_of (s_rsphandlers s) h = Some q" "told u = [req_of q]"
  shows "moves [] (Suc 0) s (remove_handler h (s3_tell u s'))"
proof -
  have t: "handlers_ok (s3_tell u s')" "map_of (s_rsphandlers (s3_tell u s')) h = Some q"
    using assms hpart_cong [OF assms(2)] by (auto simp: hpart_def)
  show ?thesis
    using remove_handler_laws [OF t] hpart_cong [OF assms(2)] assms(4) by (simp add: moves_def)
qed

lemma get_call_moves: "handlers_ok s \<Longrightarrow> moves [(False, a, k)] 0 s (s3_block_get_async a k n s)"
  by (auto simp: s3_block_get_async_def Let_def intro!: moves_tell moves_add)

lemma put_call_moves: "handlers_ok s \<Longrightarrow> moves [(True, a, k)] 0 s (s3_block_put_async st a k blk s)"
  by (auto simp: s3_block_put_async_def Let_def split: prod.splits sum.splits
      intro!: moves_tell moves_add intro: purge_loop_hpart)

lemma start_moves: "handlers_ok s \<Longrightarrow> moves [] 0 s (s3_refresh_start_async a now r s)"
  by (auto simp: s3_refresh_start_async_def s3_refresh_start_def Let_def split: prod.splits sum.splits
      intro!: moves_tell intro: touch_hpart)

lemma refresh_moves: "handlers_ok s \<Longrightarrow> s3_refresh_block_async a now r k s = (s', Inr u) \<Longrightarrow> moves [] 0 s s'"
  by (auto simp: s3_refresh_block_async_def s3_refresh_block_def split: prod.splits sum.splits if_splits
      intro!: moves_tell intro: touch_hpart)

lemma finish_moves: "handlers_ok s \<Longrightarrow> s3_refresh_finish_async ser sts a r s = (s', Inr u) \<Longrightarrow> moves [] 0 s s'"
  by (auto simp: s3_refresh_finish_async_def split: prod.splits sum.splits if_splits
      intro!: moves_tell intro: finish_hpart)

lemma handler_retries: "handlers_ok s \<Longrightarrow> map_of (s_rsphandlers s) h = Some q \<Longrightarrow> 0 < retries_of q"
  by (auto simp: handlers_ok_def dest!: map_of_SomeD)

lemma chunk_moves: "handlers_ok s \<Longrightarrow> s3_chunk h dat s = (s', Inr u) \<Longrightarrow> moves [] 0 s s'"
  using handler_retries [of s h]
  by (auto simp: s3_chunk_def gh_objdata_def split: option.splits s3req.splits intro!: moves_retry)

lemma get_done_moves:
  "handlers_ok s \<Longrightarrow> map_of (s_rsphandlers s) h = Some (SGet g) \<Longrightarrow> moves [] 1 s (get_handle_exception r st h g s)"
  by (auto simp: get_handle_exception_def intro!: moves_answer moves_retry)

lemma put_stats_hpart: "update_put_stats now p s = (s', r) \<Longrightarrow> hpart s' = hpart s"
  by (auto simp: update_put_stats_def Let_def hpart_def dest!: touch_hpart)

lemma put_done_moves:
  "handlers_ok s \<Longrightarrow> map_of (s_rsphandlers s) h = Some (SPut p) \<Longrightarrow>
   put_handle_exception r now st h p s = (s', Inr u) \<Longrightarrow> moves [] 1 s s'"
  by (auto simp: put_handle_exception_def split: if_splits prod.splits sum.splits
      intro!: moves_answer moves_retry intro: put_stats_hpart)

lemma done_moves: "handlers_ok s \<Longrightarrow> s3_done r h st now s = (s', Inr u) \<Longrightarrow> moves [] 1 s s'"
proof -
  assume ok: "handlers_ok s" and d: "s3_done r h st now s = (s', Inr u)"
  let ?t = "\<lambda>p. if st = S3StatusOK then s\<lparr>s_objs := (s_objs s)(ap_blkpath p \<mapsto> ap_blk p)\<rparr> else s"
  have hp: "hpart (?t p) = hpart s" for p by (simp add: hpart_def)
  then have ok': "handlers_ok (?t p)" for p using ok hpart_cong by blast
  from d consider g where "map_of (s_rsphandlers s) h = Some (SGet g)" "s' = get_handle_exception r st h g s"
    | p where "map_of (s_rsphandlers s) h = Some (SPut p)" "put_handle_exception r now st h p (?t p) = (s', Inr u)"
    by (auto simp: s3_done_def split: option.splits s3req.splits)
  then show ?thesis
  proof cases
    case 1
    then show ?thesis using get_done_moves [OF ok] by simp
  next
    case (2 p)
    then have "moves [] 1 (?t p) s'" using put_done_moves [OF ok', of p h p] by (simp split: if_splits)
    then show ?thesis using moves_hpart [OF hp] by blast
  qed
qed

lemma step_moves:
  "handlers_ok s \<Longrightarrow> s3_step r e s = (s', Inr u) \<Longrightarrow> moves (asked e) (if is_done e then 1 else 0) s s'"
  using get_call_moves put_call_moves start_moves refresh_moves finish_moves chunk_moves done_moves
  by (cases e) auto

lemma run_moves:
  "handlers_ok s \<Longrightarrow> s3_run r es s = (s', Inr u) \<Longrightarrow>
   moves (concat (map asked es)) (length (filter is_done es)) s s'"
proof (induction es arbitrary: s)
  case Nil
  then show ?case by (simp add: moves_def)
next
  case (Cons e es)
  from Cons.prems(2) obtain s1 where s1: "s3_step r e s = (s1, Inr ())" "s3_run r es s1 = (s', Inr u)"
    by (auto simp: vthen_def split: prod.splits sum.splits)
  have m: "moves (asked e) (if is_done e then 1 else 0) s s1" using Cons.prems(1) s1(1) by (rule step_moves)
  then have "handlers_ok s1" by (simp add: moves_def)
  from Cons.IH [OF this s1(2)] m show ?case by (cases "is_done e") (auto simp: moves_def add_mult_distrib2)
qed


subsection \<open>Attempts\<close>

text \<open>An attempt of a get: the data delivered in pieces, then the status.\<close>

definition get_attempt :: "hid \<Rightarrow> bytes list \<Rightarrow> s3status \<Rightarrow> int \<Rightarrow> s3event list" where
  "get_attempt h cs st now = map (SChunk h) cs @ [SDone h st now]"

lemma s3_run_append [simp]: "s3_run r (es @ fs) s = vthen (s3_run r es s) (s3_run r fs)"
  by (induction es arbitrary: s) (auto simp: vthen_def split: prod.splits sum.splits)

lemma map_of_set_handler:
  "map_of (s_rsphandlers (set_handler h q s)) h = map_option (\<lambda>_. q) (map_of (s_rsphandlers s) h)"
proof -
  have "map_of (map (\<lambda>p. if fst p = h then (h, q) else p) hs) h = map_option (\<lambda>_. q) (map_of hs h)" for hs
    by (induction hs) auto
  then show ?thesis by (simp add: set_handler_def)
qed

lemma set_handler_twice [simp]: "set_handler h q (set_handler h q' s) = set_handler h q s"
  by (auto simp: set_handler_def)

lemma set_handler_same:
  assumes "map_of (s_rsphandlers s) h = Some q" "handlers_ok s"
  shows "set_handler h q s = s"
proof -
  obtain xs ys where "s_rsphandlers s = xs @ (h, q) # ys" "\<forall>p \<in> set xs. fst p \<noteq> h" "\<forall>p \<in> set ys. fst p \<noteq> h"
    by (rule handler_split [OF assms(1) handlers_distinct [OF assms(2)]])
  then show ?thesis by (simp add: set_handler_def map_idI)
qed

lemma gh_objdata_parts [simp]:
  "ag_argp (gh_objdata b g) = ag_argp g" "ag_key (gh_objdata b g) = ag_key g" "ag_retries (gh_objdata b g) = ag_retries g"
  "ag_buffsize (gh_objdata b g) = ag_buffsize g" "ag_blkpath (gh_objdata b g) = ag_blkpath g"
  by (simp_all add: gh_objdata_def)

text \<open>The pieces that fit are put together, the rest is dropped.\<close>

lemma chunks_data:
  "length (ag_data g) \<le> ag_buffsize g \<Longrightarrow>
   fold gh_objdata cs g = g\<lparr>ag_data := take (ag_buffsize g) (ag_data g @ concat cs)\<rparr>"
proof (induction cs arbitrary: g)
  case (Cons c cs)
  let ?n = "ag_buffsize g"
  have d: "ag_data (gh_objdata c g) = take ?n (ag_data g @ c)" using Cons.prems by (simp add: gh_objdata_def)
  then have "fold gh_objdata cs (gh_objdata c g) =
      (gh_objdata c g)\<lparr>ag_data := take ?n (take ?n (ag_data g @ c) @ concat cs)\<rparr>"
    using Cons.IH [of "gh_objdata c g"] by simp
  moreover have "take ?n (take ?n (ag_data g @ c) @ concat cs) = take ?n (ag_data g @ c @ concat cs)"
    using Cons.prems by (cases "length (ag_data g @ c) \<le> ?n") (simp_all add: min_def)
  moreover have "(gh_objdata c g)\<lparr>ag_data := x\<rparr> = g\<lparr>ag_data := x\<rparr>" for x by (simp add: gh_objdata_def)
  ultimately show ?case by (simp only: fold.simps concat.simps comp_apply)
qed simp


lemma chunks_run:
  "map_of (s_rsphandlers s) h = Some (SGet g) \<Longrightarrow> handlers_ok s \<Longrightarrow>
   s3_run r (map (SChunk h) cs) s = (set_handler h (SGet (fold gh_objdata cs g)) s, Inr ())"
proof (induction cs arbitrary: g s)
  case Nil
  then show ?case by (simp add: set_handler_same)
next
  case (Cons c cs)
  let ?s = "set_handler h (SGet (gh_objdata c g)) s"
  have "handlers_ok ?s" using set_handler_laws(1) [OF Cons.prems(2,1), of "SGet (gh_objdata c g)"]
      handler_retries [OF Cons.prems(2,1)] by simp
  moreover have "map_of (s_rsphandlers ?s) h = Some (SGet (gh_objdata c g))"
    using Cons.prems(1) by (simp add: map_of_set_handler)
  ultimately show ?case using Cons.IH [of ?s "gh_objdata c g"] Cons.prems(1) by (simp add: s3_chunk_def)
qed

lemma fresh_handler [simp]: "handlers_ok s \<Longrightarrow> map_of (s_rsphandlers (add_handler q s)) (s_nhid s) = Some q"
  by (fastforce simp: add_handler_def handlers_ok_def map_add_def map_of_eq_None_iff split: option.splits dest: map_of_SomeD)

text \<open>One failed attempt of a get that can be repeated: the data it delivered is forgotten.\<close>

lemma get_attempt_fails:
  assumes "handlers_ok s" "map_of (s_rsphandlers s) h = Some (SGet g)" "st \<noteq> S3StatusOK" "r st" "1 < ag_retries g"
  shows "s3_run r (get_attempt h cs st now) s =
    (set_handler h (SGet (g\<lparr>ag_retries := ag_retries g - 1, ag_data := []\<rparr>)) s, Inr ())"
proof -
  have eq: "(fold gh_objdata cs g)\<lparr>ag_retries := k, ag_data := []\<rparr> = g\<lparr>ag_retries := k, ag_data := []\<rparr>" for k
    by (induction cs arbitrary: g) (simp_all add: gh_objdata_def)
  have "ag_retries (fold gh_objdata cs g) = ag_retries g" by (induction cs arbitrary: g) simp_all
  then show ?thesis
    using assms eq by (simp add: get_attempt_def chunks_run s3_done_def map_of_set_handler get_handle_exception_def)
qed

lemma get_attempts_fail:
  assumes "handlers_ok s" "map_of (s_rsphandlers s) h = Some (SGet g)" "ag_data g = []"
    "\<forall>(cs, st, now) \<in> set fs. st \<noteq> S3StatusOK \<and> r st" "length fs < ag_retries g"
  shows "s3_run r (concat (map (\<lambda>(cs, st, now). get_attempt h cs st now) fs)) s =
    (set_handler h (SGet (g\<lparr>ag_retries := ag_retries g - length fs\<rparr>)) s, Inr ())"
  using assms
proof (induction fs arbitrary: s g)
  case Nil
  then show ?case using chunks_run [of s h g r "[]"] by simp
next
  case (Cons f fs)
  obtain cs st now where f: "f = (cs, st, now)" by (cases f) auto
  let ?g = "g\<lparr>ag_retries := ag_retries g - 1\<rparr>"
  have gd: "g\<lparr>ag_retries := k, ag_data := []\<rparr> = g\<lparr>ag_retries := k\<rparr>" for k using Cons.prems(3) by simp
  have run: "s3_run r (get_attempt h cs st now) s = (set_handler h (SGet ?g) s, Inr ())"
    using get_attempt_fails [OF Cons.prems(1,2), of st r cs now] Cons.prems(4,5) f gd by simp
  have ok: "handlers_ok (set_handler h (SGet ?g) s)"
    using set_handler_laws(1) [OF Cons.prems(1,2), of "SGet ?g"] Cons.prems(5) by simp
  show ?case
    using Cons.IH [OF ok, of ?g] Cons.prems run f by (simp add: map_of_set_handler)
qed


lemma get_attempt_ok:
  assumes "handlers_ok s" "map_of (s_rsphandlers s) h = Some (SGet g)" "ag_data g = []"
  shows "s3_run r (get_attempt h cs S3StatusOK now) s =
    (remove_handler h (s3_tell (Bg_complete (ag_argp g) (ag_key g) (take (ag_buffsize g) (concat cs)))
       (set_handler h (SGet (g\<lparr>ag_data := take (ag_buffsize g) (concat cs)\<rparr>)) s)), Inr ())"
  using assms
  by (simp add: get_attempt_def chunks_run s3_done_def map_of_set_handler get_handle_exception_def chunks_data)

text \<open>The attempts of a put.\<close>

lemma put_attempts_fail:
  assumes "handlers_ok s" "map_of (s_rsphandlers s) h = Some (SPut p)"
    "\<forall>(st, now) \<in> set fs. st \<noteq> S3StatusOK \<and> r st" "length fs < ap_retries p"
  shows "s3_run r (map (\<lambda>(st, now). SDone h st now) fs) s =
    (set_handler h (SPut (p\<lparr>ap_retries := ap_retries p - length fs\<rparr>)) s, Inr ())"
  using assms
proof (induction fs arbitrary: s p)
  case Nil
  then show ?case by (simp add: set_handler_same)
next
  case (Cons f fs)
  obtain st now where f: "f = (st, now)" by fastforce
  let ?p = "p\<lparr>ap_retries := ap_retries p - 1\<rparr>"
  have run: "s3_done r h st now s = (set_handler h (SPut ?p) s, Inr ())"
    using Cons.prems f by (simp add: s3_done_def put_handle_exception_def)
  have ok: "handlers_ok (set_handler h (SPut ?p) s)"
    using set_handler_laws(1) [OF Cons.prems(1,2), of "SPut ?p"] Cons.prems(4) by simp
  show ?case
    using Cons.IH [OF ok, of ?p] Cons.prems run f by (simp add: map_of_set_handler)
qed

text \<open>A put whose last attempt succeeds stores the object and enters it in the table.\<close>

lemma put_attempt_ok:
  assumes "handlers_ok s" "map_of (s_rsphandlers s) h = Some (SPut p)" "map_of (s_entries s) (ap_blkpath p) = None"
  obtains s' where "s3_run r [SDone h S3StatusOK now] s = (s', Inr ())"
    "s_objs s' = (s_objs s)(ap_blkpath p \<mapsto> ap_blk p)"
    "map_of (s_entries s') (ap_blkpath p) = Some (s_neid s)"
    "s_committed s' = s_committed s + int (length (ap_blk p))"
    "s_log s' = s_log s @ [Bp_complete (ap_argp p) (ap_key p)]"
proof -
  have ins: "map_of (ins_entry n e es) n = Some e" if "map_of es n = None" for n e and es :: "(string \<times> eid) list"
  proof -
    have "map_of (insort_key fst (n, e) es) n = Some e" using that by (induction es) (auto split: if_splits)
    with that show ?thesis by (simp add: ins_entry_def)
  qed
  let ?s = "s\<lparr>s_objs := (s_objs s)(ap_blkpath p \<mapsto> ap_blk p), s_committed := s_committed s + int (length (ap_blk p)),
      s_ent := (s_ent s)(s_neid s := \<lparr>e_name = ap_blkpath p, e_tstamp = now, e_size = int (length (ap_blk p))\<rparr>),
      s_neid := Suc (s_neid s), s_entries := ins_entry (ap_blkpath p) (s_neid s) (s_entries s), s_lru := s_neid s # s_lru s\<rparr>"
  have "s3_run r [SDone h S3StatusOK now] s = (remove_handler h (s3_tell (Bp_complete (ap_argp p) (ap_key p)) ?s), Inr ())"
    using assms by (simp add: s3_done_def put_handle_exception_def update_put_stats_def s3_touch_entry_def Let_def)
  then show ?thesis by (rule that) (simp_all add: ins [OF assms(3)])
qed


text \<open>
  An attempt of a put sends the whole block, in whatever pieces the service takes it, also after
  an attempt that stopped in the middle.
\<close>

lemma ph_pieces_all:
  "concat (snd (ph_pieces ns h)) = take (sum_list ns) (ph_left h)"
  "ph_data (fst (ph_pieces ns h)) = ph_data h"
  by (induction ns arbitrary: h) (simp_all add: ph_objdata_def Let_def min_def take_add split_beta)

lemma ph_sends_block:
  "length blk \<le> sum_list ns \<Longrightarrow>
   concat (snd (ph_pieces ns (ph_reset (fst (ph_pieces ms (ph_ctor blk)))))) = blk"
  by (simp add: ph_pieces_all ph_reset_def) (simp add: ph_ctor_def)

text \<open>The two halves of the round trip.\<close>

lemma put_stores:
  assumes ok: "handlers_ok s"
    and new: "map_of (s_entries s) (blockpath (entryname k)) = None"
    and room: "s_committed s + int (length blk) + s_uncommitted s \<le> s_size s" "0 \<le> s_uncommitted s"
    and fs: "\<forall>(st, now) \<in> set fs. st \<noteq> S3StatusOK \<and> r st" "length fs < MAX_RETRIES"
  obtains s' where
    "s3_run r (SCallPut del a k blk # map (\<lambda>(st, now). SDone (s_nhid s) st now) fs @ [SDone (s_nhid s) S3StatusOK now]) s
       = (s', Inr ())"
    "s_objs s' (blockpath (entryname k)) = Some blk"
    "map_of (s_entries s') (blockpath (entryname k)) \<noteq> None"
    "s_committed s' = s_committed s + int (length blk)"
    "s_log s' = s_log s @ [Bp_complete a k]" "handlers_ok s'"
proof -
  let ?p = "\<lparr>ap_argp = a, ap_blkpath = blockpath (entryname k), ap_key = k, ap_blk = blk, ap_retries = MAX_RETRIES\<rparr>"
  let ?q = "?p\<lparr>ap_retries := MAX_RETRIES - length fs\<rparr>"
  let ?s1 = "add_handler (SPut ?p) s"
  let ?s2 = "set_handler (s_nhid s) (SPut ?q) ?s1"
  have call: "s3_block_put_async del a k blk s = ?s1"
    using new room by (simp add: s3_block_put_async_def Let_def s3_purge_loop.simps [of del])
  have ok1: "handlers_ok ?s1" using ok by (intro add_handler_laws(1)) (simp_all add: MAX_RETRIES_def)
  have h1: "map_of (s_rsphandlers ?s1) (s_nhid s) = Some (SPut ?p)" using ok by simp
  have fail: "s3_run r (map (\<lambda>(st, now). SDone (s_nhid s) st now) fs) ?s1 = (?s2, Inr ())"
    using put_attempts_fail [OF ok1 h1] fs by simp
  have ok2: "handlers_ok ?s2" using set_handler_laws(1) [OF ok1 h1, of "SPut ?q"] fs(2) by simp
  have h2: "map_of (s_rsphandlers ?s2) (s_nhid s) = Some (SPut ?q)" using h1 by (simp add: map_of_set_handler)
  obtain s' where s': "s3_run r [SDone (s_nhid s) S3StatusOK now] ?s2 = (s', Inr ())"
    "s_objs s' = (s_objs s)(blockpath (entryname k) \<mapsto> blk)"
    "map_of (s_entries s') (blockpath (entryname k)) = Some (s_neid s)"
    "s_committed s' = s_committed s + int (length blk)" "s_log s' = s_log s @ [Bp_complete a k]"
    using put_attempt_ok [OF ok2 h2, of r now] new by auto
  have "handlers_ok s'" using run_moves [OF ok2 s'(1)] by (simp add: moves_def)
  with s' show ?thesis
    using call fail by (intro that [of s']) (simp_all add: fun_upd_def)
qed

lemma get_delivers:
  assumes ok: "handlers_ok s"
    and known: "map_of (s_entries s) (blockpath (entryname k)) \<noteq> None"
    and fs: "\<forall>(cs, st, now) \<in> set fs. st \<noteq> S3StatusOK \<and> r st" "length fs < MAX_RETRIES"
  obtains s' where
    "s3_run r (SCallGet a k n # concat (map (\<lambda>(cs, st, now). get_attempt (s_nhid s) cs st now) fs)
         @ get_attempt (s_nhid s) cs S3StatusOK now) s = (s', Inr ())"
    "s_log s' = s_log s @ [Bg_complete a k (take n (concat cs))]"
proof -
  let ?g = "\<lparr>ag_argp = a, ag_blkpath = blockpath (entryname k), ag_key = k, ag_buffsize = n, ag_data = [], ag_retries = MAX_RETRIES\<rparr>"
  let ?q = "?g\<lparr>ag_retries := MAX_RETRIES - length fs\<rparr>"
  let ?s1 = "add_handler (SGet ?g) s"
  let ?s2 = "set_handler (s_nhid s) (SGet ?q) ?s1"
  have call: "s3_block_get_async a k n s = ?s1" using known by (auto simp: s3_block_get_async_def Let_def)
  have ok1: "handlers_ok ?s1" using ok by (intro add_handler_laws(1)) (simp_all add: MAX_RETRIES_def)
  have h1: "map_of (s_rsphandlers ?s1) (s_nhid s) = Some (SGet ?g)" using ok by simp
  have fail: "s3_run r (concat (map (\<lambda>(cs, st, now). get_attempt (s_nhid s) cs st now) fs)) ?s1 = (?s2, Inr ())"
    using get_attempts_fail [OF ok1 h1] fs by simp
  have ok2: "handlers_ok ?s2" using set_handler_laws(1) [OF ok1 h1, of "SGet ?q"] fs(2) by simp
  have h2: "map_of (s_rsphandlers ?s2) (s_nhid s) = Some (SGet ?q)" using h1 by (simp add: map_of_set_handler)
  let ?s3 = "remove_handler (s_nhid s) (s3_tell (Bg_complete a k (take n (concat cs)))
       (set_handler (s_nhid s) (SGet (?q\<lparr>ag_data := take n (concat cs)\<rparr>)) ?s2))"
  have "s3_run r (SCallGet a k n # concat (map (\<lambda>(cs, st, now). get_attempt (s_nhid s) cs st now) fs)
         @ get_attempt (s_nhid s) cs S3StatusOK now) s = (?s3, Inr ())"
    using call fail get_attempt_ok [OF ok2 h2, of r cs now] by simp
  then show ?thesis by (rule that) simp
qed


subsection \<open>Properties\<close>


definition wit_s3 :: s3bs where "wit_s3 = s3_ctor\<lparr>s_size := 100\<rparr>"

definition wit_events :: "s3event list" where
  "wit_events = [SCallPut (\<lambda>_. S3StatusOK) 5 [1] [7, 8], SDone 0 (S3StatusOther 1) 0, SDone 0 S3StatusOK 0, SCallGet 6 [1] 10]"

definition wit_retryable :: "s3status \<Rightarrow> bool" where "wit_retryable st \<longleftrightarrow> st = S3StatusOther 1"

lemma wit_run: "s3_run wit_retryable wit_events wit_s3 = (fst (s3_run wit_retryable wit_events wit_s3), Inr ())"
proof -
  have "snd (s3_run wit_retryable wit_events wit_s3) = Inr ()" by code_simp
  then show ?thesis by (simp add: prod_eq_iff)
qed


text \<open>
  C5. A block put under a new key, when there is room for it, is stored: with fewer than
  \<open>MAX_RETRIES\<close> failed attempts before one that succeeds, the put completes, and a get, again with
  fewer than \<open>MAX_RETRIES\<close> failed attempts, however the object is cut into pieces, returns the octets of the block
  that fit into its buffer. What failed attempts delivered does not appear.
\<close>

theorem s3_put_get:
  assumes "s_rsphandlers s = []"
    and "map_of (s_entries s) (blockpath (entryname k)) = None"
    and "s_committed s + int (length blk) + s_uncommitted s \<le> s_size s" "0 \<le> s_uncommitted s"
    and "\<forall>(st, now) \<in> set fs. st \<noteq> S3StatusOK \<and> r st" "length fs < MAX_RETRIES"
    and "\<forall>(cs, st, now) \<in> set gs. st \<noteq> S3StatusOK \<and> r st" "length gs < MAX_RETRIES"
  shows "\<exists>s1 h. s3_run r (SCallPut del a k blk # map (\<lambda>(st, now). SDone (s_nhid s) st now) fs @ [SDone (s_nhid s) S3StatusOK now]) s
       = (s1, Inr ()) \<and> s_committed s1 = s_committed s + int (length blk) \<and>
     s_objs s1 (blockpath (entryname k)) = Some blk \<and>
     (\<forall>cs. concat cs = blk \<longrightarrow>
       (\<exists>s2. s3_run r (SCallGet b k n # concat (map (\<lambda>(cs, st, now). get_attempt h cs st now) gs)
               @ get_attempt h cs S3StatusOK now') s1 = (s2, Inr ()) \<and>
          s_log s2 = s_log s @ [Bp_complete a k, Bg_complete b k (take n blk)]))"
proof -
  have ok: "handlers_ok s" using assms(1) by (simp add: handlers_ok_def)
  obtain s1 where s1: "s3_run r (SCallPut del a k blk # map (\<lambda>(st, now). SDone (s_nhid s) st now) fs @ [SDone (s_nhid s) S3StatusOK now]) s = (s1, Inr ())"
    "s_objs s1 (blockpath (entryname k)) = Some blk" "map_of (s_entries s1) (blockpath (entryname k)) \<noteq> None"
    "s_committed s1 = s_committed s + int (length blk)" "s_log s1 = s_log s @ [Bp_complete a k]" "handlers_ok s1"
    by (rule put_stores [OF ok assms(2-6)])
  have "\<exists>s2. s3_run r (SCallGet b k n # concat (map (\<lambda>(cs, st, now). get_attempt (s_nhid s1) cs st now) gs)
               @ get_attempt (s_nhid s1) cs S3StatusOK now') s1 = (s2, Inr ()) \<and>
          s_log s2 = s_log s @ [Bp_complete a k, Bg_complete b k (take n blk)]"
    if "concat cs = blk" for cs
    by (rule get_delivers [OF s1(6,3) assms(7,8), of b n cs now']) (use that s1(5) in auto)
  then show ?thesis using s1(1,2,4) by blast
qed

theorem s3_put_get_witness:
  "\<exists>s1 h. s3_run wit_retryable [SCallPut (\<lambda>_. S3StatusOK) 5 [1] [7, 8], SDone 0 (S3StatusOther 1) 3, SDone 0 S3StatusOK 4] wit_s3
       = (s1, Inr ()) \<and>
     (\<exists>s2. s3_run wit_retryable [SCallGet 6 [1] 10, SChunk h [9], SDone h (S3StatusOther 1) 5, SChunk h [7], SChunk h [8], SDone h S3StatusOK 6] s1
        = (s2, Inr ()) \<and> s_log s2 = [Bp_complete 5 [1], Bg_complete 6 [1] [7, 8]])"
  using s3_put_get [of wit_s3 "[1]" "[7, 8]" "[(S3StatusOther 1, 3)]" wit_retryable "[([[9]], S3StatusOther 1, 5)]"
      "\<lambda>_. S3StatusOK" 5 4 6 10 6]
  by (force simp: wit_s3_def s3_ctor_def MAX_RETRIES_def wit_retryable_def get_attempt_def
      dest!: spec [of _ "[[7], [8]]"])


subsection \<open>Destroying a bucket\<close>

definition bd_pre :: "bdestroyer \<Rightarrow> bool" where
  "bd_pre d \<longleftrightarrow> d_outstanding d = length (d_deleting d) \<and> d_outstanding d \<le> 128 \<and>
     distinct (map fst (d_deleting d)) \<and> (\<forall>p \<in> set (d_deleting d). fst p < d_next d)"

definition bd_inv :: "bdestroyer \<Rightarrow> bool" where
  "bd_inv d \<longleftrightarrow> bd_pre d \<and> (d_keyqueue d \<noteq> [] \<longrightarrow> d_outstanding d = 128)"

definition bd_seen :: "bdestroyer \<Rightarrow> nat" where
  "bd_seen d = d_next d + length (d_keyqueue d)"

fun listed :: "bdevent \<Rightarrow> nat" where
  "listed (BLhItem tr keys) = length keys"
| "listed (BDone i st) = 0"

lemma service_queue_inv: "bd_pre d \<Longrightarrow> bd_inv (service_queue d) \<and> bd_seen (service_queue d) = bd_seen d"
proof (induction d rule: service_queue.induct)
  case (1 d)
  show ?case
  proof (cases "d_keyqueue d")
    case Nil
    then show ?thesis using "1.prems" by (simp add: service_queue.simps [of d] bd_inv_def)
  next
    case (Cons key ks)
    let ?d = "d\<lparr>d_outstanding := Suc (d_outstanding d), d_keyqueue := ks,
              d_deleting := d_deleting d @ [(d_next d, key, 10)], d_next := Suc (d_next d)\<rparr>"
    show ?thesis
    proof (cases "d_outstanding d < 128")
      case True
      have "bd_pre ?d" using "1.prems" True by (auto simp: bd_pre_def)
      then show ?thesis
        using "1.IH" [OF Cons True] True Cons by (simp add: service_queue.simps [of d] bd_seen_def)
    next
      case False
      then show ?thesis using "1.prems" Cons by (simp add: service_queue.simps [of d] bd_inv_def bd_pre_def)
    qed
  qed
qed

lemma service_queue_outstanding: "d_outstanding d \<le> d_outstanding (service_queue d)"
proof (induction d rule: service_queue.induct)
  case (1 d)
  then show ?case by (subst service_queue.simps) (fastforce split: list.splits intro: le_trans [OF le_SucI])
qed

lemma od_inv:
  assumes "bd_inv d"
  shows "bd_inv (od_handle_exception r st i d) \<and> bd_seen (od_handle_exception r st i d) = bd_seen d"
proof (cases "map_of (d_deleting d) i")
  case None
  then show ?thesis using assms by (simp add: od_handle_exception_def)
next
  case (Some kr)
  obtain key n where kr: "kr = (key, n)" by fastforce
  from assms have dist: "distinct (map fst (d_deleting d))" by (simp add: bd_inv_def bd_pre_def)
  obtain xs ys where ds: "d_deleting d = xs @ (i, kr) # ys" "\<forall>p \<in> set xs. fst p \<noteq> i" "\<forall>p \<in> set ys. fst p \<noteq> i"
    by (rule handler_split [OF Some dist])
  let ?d = "d\<lparr>d_deleting := filter (\<lambda>p. fst p \<noteq> i) (d_deleting d), d_outstanding := d_outstanding d - 1\<rparr>"
  have "bd_pre ?d" using assms ds by (auto simp: bd_inv_def bd_pre_def)
  then have fin: "bd_inv (service_queue ?d) \<and> bd_seen (service_queue ?d) = bd_seen d"
    using service_queue_inv [of ?d] by (simp add: bd_seen_def)
  have "map (\<lambda>p. if fst p = i then (i, key, n - 1) else p) (d_deleting d) = xs @ (i, key, n - 1) # ys"
    using ds by (simp add: map_idI)
  then have "bd_inv (d\<lparr>d_deleting := map (\<lambda>p. if fst p = i then (i, key, n - 1) else p) (d_deleting d)\<rparr>)"
    using assms ds(1) by (auto simp: bd_inv_def bd_pre_def)
  then show ?thesis using fin Some kr by (auto simp: od_handle_exception_def bd_completed_def bd_seen_def)
qed

lemma bd_step_inv: "bd_inv d \<Longrightarrow> bd_inv (bd_step r e d) \<and> bd_seen (bd_step r e d) = bd_seen d + listed e"
proof (cases e)
  case (BLhItem tr keys)
  assume "bd_inv d"
  then have "bd_pre (d\<lparr>d_istrunc := tr, d_keyqueue := d_keyqueue d @ keys\<rparr>)" by (simp add: bd_inv_def bd_pre_def)
  from service_queue_inv [OF this] BLhItem show ?thesis by (simp add: bd_lh_item_def bd_seen_def)
next
  case (BDone i st)
  assume "bd_inv d"
  then show ?thesis using BDone od_inv by simp
qed

lemma bd_fold_inv:
  "bd_inv d \<Longrightarrow> bd_inv (fold (bd_step r) es d) \<and> bd_seen (fold (bd_step r) es d) = bd_seen d + sum_list (map listed es)"
  using bd_step_inv by (induction es arbitrary: d) (simp, force)



text \<open>
  The bucket is deleted without waiting for the deletions of its objects: when all keys are
  listed in one page and none of the deletions has completed yet, they are still outstanding
  when the service is asked to delete the bucket, and when \<^verbatim>\<open>destroy\<close> returns.
\<close>

theorem destroy_does_not_wait:
  assumes "parse_params args = Inr p" "d_test ans = S3StatusOK" "d_ctxt ans = S3StatusOK"
    "d_pages ans = [[([BLhItem False keys], S3StatusOK)]]" "keys \<noteq> []"
  shows "0 < d_outstanding (fst (s3_destroy retryable ans args)) \<and>
    (d_delete ans = S3StatusOK \<longrightarrow> d_poll ans 0 = S3StatusErrorNoSuchBucket \<longrightarrow> snd (s3_destroy retryable ans args) = Inr ())"
proof -
  let ?d = "bd_lh_item False keys bd_ctor"
  have "0 < d_outstanding ?d"
  proof (cases keys)
    case (Cons key ks)
    then show ?thesis
      using service_queue_outstanding [of "\<lparr>d_istrunc = False, d_outstanding = 1, d_keyqueue = ks, d_deleting = [(0, key, 10)], d_next = 1\<rparr>"]
      by (simp add: bd_lh_item_def bd_ctor_def service_queue.simps [of "\<lparr>d_istrunc = _, d_outstanding = 0, d_keyqueue = _, d_deleting = _, d_next = _\<rparr>"])
  qed (use assms(5) in simp)
  moreover have "destroy_pages retryable (d_pages ans) bd_ctor = ?d"
    using assms(4) by (simp add: MAX_RETRIES_def Let_def)
  ultimately show ?thesis
    using assms(1-3) by (simp add: s3_destroy_def Let_def upt_rec [of 0])
qed


theorem destroy_does_not_wait_witness:
  "0 < d_outstanding (fst (s3_destroy wit_retryable
     \<lparr>d_test = S3StatusOK, d_ctxt = S3StatusOK, d_pages = [[([BLhItem False [''SIZE'']], S3StatusOK)]],
      d_delete = S3StatusOK, d_poll = (\<lambda>_. S3StatusErrorNoSuchBucket)\<rparr>
     [''--s3-access-key-id=a'', ''--s3-secret-access-key=b'', ''--bucket=c'', ''--mdndx-path=d'']))"
  using destroy_does_not_wait [of "[''--s3-access-key-id=a'', ''--s3-secret-access-key=b'', ''--bucket=c'', ''--mdndx-path=d'']"
      "\<lparr>p_access_key_id = ''a'', p_secret_access_key = ''b'', p_bucket_name = ''c'', p_mdndx_path_name = ''d''\<rparr>"
      "\<lparr>d_test = S3StatusOK, d_ctxt = S3StatusOK, d_pages = [[([BLhItem False [''SIZE'']], S3StatusOK)]],
        d_delete = S3StatusOK, d_poll = (\<lambda>_. S3StatusErrorNoSuchBucket)\<rparr>" "[''SIZE'']" wit_retryable]
  by (simp add: parse_params_def arg_value_def)

subsection \<open>Faults\<close>


definition wit_purge :: s3bs where
  "wit_purge = s3_ctor\<lparr>s_size := 10, s_uncommitted := 4, s_neid := 2,
     s_ent := (\<lambda>e. if e = 0 then \<lparr>e_name = blockpath (entryname [1]), e_tstamp = 5, e_size = 4\<rparr>
                   else \<lparr>e_name = markname, e_tstamp = 6, e_size = -1\<rparr>),
     s_entries := [(blockpath (entryname [1]), 0), (markname, 1)], s_lru := [1, 0], s_mark := Some 1,
     s_objs := [blockpath (entryname [1]) \<mapsto> [1, 2, 3, 4]]\<rparr>"


text \<open>
  The upload of the index at the end of a refresh cycle is not checked: whether the cycle is told
  complete does not depend on the service, and when all attempts fail the object is what it was.
\<close>

lemma retry_none: "(\<forall>i \<in> set is. sts i \<noteq> S3StatusOK) \<Longrightarrow> retry (\<lambda>_. None) sts is = Inr None"
  by (induction "is") auto

lemma retry_never_throws: "\<exists>x. retry (\<lambda>_. None) sts is = Inr x"
  by (induction "is") auto

lemma s3_index_upload_unchecked:
  "snd (s3_refresh_finish ser sts rid s) = snd (s3_refresh_finish ser sts' rid s) \<and>
   ((\<forall>i < MAX_RETRIES. sts i \<noteq> S3StatusOK) \<longrightarrow> s_objs (fst (s3_refresh_finish ser sts rid s)) = s_objs s)"
proof -
  obtain x y where r: "retry (\<lambda>_. None) sts [0..<MAX_RETRIES] = Inr x" "retry (\<lambda>_. None) sts' [0..<MAX_RETRIES] = Inr y"
    using retry_never_throws by metis
  have "snd (s3_write_index ser sts t) = snd (s3_write_index ser sts' t)" for t
    using r by (simp add: s3_write_index_def Let_def split: option.splits)
  moreover have "s_objs (fst (s3_write_index ser sts t)) = s_objs t" if "\<forall>i < MAX_RETRIES. sts i \<noteq> S3StatusOK" for t
    using retry_none [of "[0..<MAX_RETRIES]" sts] that by (simp add: s3_write_index_def Let_def split: option.splits)
  ultimately show ?thesis
    by (auto simp: s3_refresh_finish_def Let_def vthen_def s3_remove_mark_def s3_set_mark_def
        split: prod.splits sum.splits option.splits if_splits)
qed

text \<open>
  The space check of a put counts only completed puts: two puts of 6 octets into a store of 10
  are both accepted and stored when the second is called before the first completes.
\<close>

lemma s3_concurrent_puts_exceed_size:
  "let s = fst (s3_run wit_retryable
       [SCallPut (\<lambda>_. S3StatusOK) 1 [1] [0, 0, 0, 0, 0, 0], SCallPut (\<lambda>_. S3StatusOK) 2 [2] [0, 0, 0, 0, 0, 0],
        SDone 0 S3StatusOK 0, SDone 1 S3StatusOK 0] (s3_ctor\<lparr>s_size := 10\<rparr>))
   in s_log s = [Bp_complete 1 [1], Bp_complete 2 [2]] \<and> s_committed s = 12 \<and> snd (s3_stat s) = - 2"
  by code_simp

end
