(* ===== verification/BS_Sync.thy ===== *)
theory BS_Sync
  imports S3_Laws
begin

text \<open>
  The synchronous operations every block store inherits (\<^verbatim>\<open>libutp/src/BlockStore.cpp\<close>): each
  creates a completion, calls its asynchronous counterpart and waits until the completion is
  done.

  \<^item> A completion is a \<open>completion\<close> record; one function per completion class says what an
    upcall does to it.
  \<^item> A wrapper takes the outcome of the asynchronous call, which may throw, and the upcalls its
    completion gets, in their order; \<open>None\<close> is waiting forever. In the models of the stores the
    argument of an upcall stands for the completion, and \<open>upcalls_for\<close> selects its upcalls.
  \<^item> The locale \<open>reports_once\<close> is the contract of a store that tells every get and put once; for such
    a store the synchronous get and put return. It is interpreted on the S3 store.
\<close>

subsection \<open>Completions\<close>

record completion =
  b_except :: "exn option"
  b_complete :: bool
  b_data :: bytes
  b_count :: "64 word"
  b_missing :: "key list"
  b_edges :: "signedheadedge list"
  b_nodes :: "headnode list"

definition completion_ctor :: completion where
  "completion_ctor = \<lparr>b_except = None, b_complete = False, b_data = [], b_count = 0, b_missing = [], b_edges = [], b_nodes = []\<rparr>"

definition cdone :: "completion \<Rightarrow> completion" where
  "cdone c = c\<lparr>b_complete := True\<rparr>"

definition cfail :: "exn \<Rightarrow> completion \<Rightarrow> completion" where
  "cfail i_ex c = cdone (c\<lparr>b_except := Some i_ex\<rparr>)"

fun GetCompletion :: "upcall \<Rightarrow> completion \<Rightarrow> completion" where
  "GetCompletion (Bg_complete a k d) c = cdone (c\<lparr>b_data := d\<rparr>)"
| "GetCompletion (Bg_error a k e) c = cfail e c"
| "GetCompletion _ c = c"

fun PutCompletion :: "upcall \<Rightarrow> completion \<Rightarrow> completion" where
  "PutCompletion (Bp_complete a k) c = cdone c"
| "PutCompletion (Bp_error a k e) c = cfail e c"
| "PutCompletion _ c = c"

fun BSRefreshStartCompletion :: "upcall \<Rightarrow> completion \<Rightarrow> completion" where
  "BSRefreshStartCompletion (Rs_complete a r) c = cdone c"
| "BSRefreshStartCompletion (Rs_error a r e) c = cfail e c"
| "BSRefreshStartCompletion _ c = c"

definition count_down :: "completion \<Rightarrow> completion" where
  "count_down c = (let c1 = c\<lparr>b_count := b_count c - 1\<rparr> in if b_count c1 = 0 then cdone c1 else c1)"

fun BSRefreshBlocksCompletion :: "upcall \<Rightarrow> completion \<Rightarrow> completion" where
  "BSRefreshBlocksCompletion (Rb_complete a k) c = count_down c"
| "BSRefreshBlocksCompletion (Rb_missing a k) c = count_down (c\<lparr>b_missing := b_missing c @ [k]\<rparr>)"
| "BSRefreshBlocksCompletion _ c = c"

fun BSRefreshFinishCompletion :: "upcall \<Rightarrow> completion \<Rightarrow> completion" where
  "BSRefreshFinishCompletion (Rf_complete a r) c = cdone c"
| "BSRefreshFinishCompletion (Rf_error a r e) c = cfail e c"
| "BSRefreshFinishCompletion _ c = c"

fun InsertCompletion :: "upcall \<Rightarrow> completion \<Rightarrow> completion" where
  "InsertCompletion (Hei_complete a she) c = cdone c"
| "InsertCompletion (Hei_error a she e) c = cfail e c"
| "InsertCompletion _ c = c"

fun EdgeTraversalCompletion :: "upcall \<Rightarrow> completion \<Rightarrow> completion" where
  "EdgeTraversalCompletion (Het_edge a she) c = c\<lparr>b_edges := b_edges c @ [she]\<rparr>"
| "EdgeTraversalCompletion (Het_complete a) c = cdone c"
| "EdgeTraversalCompletion (Het_error a e) c = cfail e c"
| "EdgeTraversalCompletion _ c = c"

fun NodeTraversalCompletion :: "upcall \<Rightarrow> completion \<Rightarrow> completion" where
  "NodeTraversalCompletion (Hnt_node a hn) c = c\<lparr>b_nodes := b_nodes c @ [hn]\<rparr>"
| "NodeTraversalCompletion (Hnt_complete a) c = cdone c"
| "NodeTraversalCompletion (Hnt_error a e) c = cfail e c"
| "NodeTraversalCompletion _ c = c"

text \<open>The wait ends with the first upcall that completes; later ones find no one waiting.\<close>

fun cwait :: "(upcall \<Rightarrow> completion \<Rightarrow> completion) \<Rightarrow> upcall list \<Rightarrow> completion \<Rightarrow> completion option" where
  "cwait cls [] c = (if b_complete c then Some c else None)"
| "cwait cls (u # us) c = (if b_complete c then Some c else cwait cls us (cls u c))"

definition blocking ::
    "(upcall \<Rightarrow> completion \<Rightarrow> completion) \<Rightarrow> (completion \<Rightarrow> 'a) \<Rightarrow> completion \<Rightarrow> unit res \<Rightarrow> upcall list \<Rightarrow> 'a res option" where
  "blocking cls f c call ups =
     (case call of
        Inl e \<Rightarrow> Some (Inl e)
      | Inr _ \<Rightarrow>
          map_option (\<lambda>c1. case b_except c1 of Some e \<Rightarrow> Inl e | None \<Rightarrow> Inr (f c1)) (cwait cls ups c))"

subsection \<open>Operations\<close>

definition sync_block_get :: "unit res \<Rightarrow> upcall list \<Rightarrow> bytes res option" where
  "sync_block_get = blocking GetCompletion b_data completion_ctor"

definition sync_block_put :: "unit res \<Rightarrow> upcall list \<Rightarrow> unit res option" where
  "sync_block_put = blocking PutCompletion (\<lambda>_. ()) completion_ctor"

definition sync_refresh_start :: "unit res \<Rightarrow> upcall list \<Rightarrow> unit res option" where
  "sync_refresh_start = blocking BSRefreshStartCompletion (\<lambda>_. ()) completion_ctor"

text \<open>
  A call for each key, in order; the first one that throws ends the loop. The result is the list
  of missing keys.
\<close>

fun first_throw :: "unit res list \<Rightarrow> unit res" where
  "first_throw [] = Inr ()"
| "first_throw (Inl e # rs) = Inl e"
| "first_throw (Inr _ # rs) = first_throw rs"

definition sync_refresh_blocks :: "key list \<Rightarrow> unit res list \<Rightarrow> upcall list \<Rightarrow> key list res option" where
  "sync_refresh_blocks i_keys calls =
     blocking BSRefreshBlocksCompletion b_missing (completion_ctor\<lparr>b_count := of_nat (length i_keys)\<rparr>) (first_throw calls)"

definition sync_refresh_finish :: "unit res \<Rightarrow> upcall list \<Rightarrow> unit res option" where
  "sync_refresh_finish = blocking BSRefreshFinishCompletion (\<lambda>_. ()) completion_ctor"

definition sync_head_insert :: "unit res \<Rightarrow> upcall list \<Rightarrow> unit res option" where
  "sync_head_insert = blocking InsertCompletion (\<lambda>_. ()) completion_ctor"

definition sync_head_follow :: "unit res \<Rightarrow> upcall list \<Rightarrow> signedheadedge list res option" where
  "sync_head_follow = blocking EdgeTraversalCompletion b_edges completion_ctor"

definition sync_head_furthest :: "unit res \<Rightarrow> upcall list \<Rightarrow> headnode list res option" where
  "sync_head_furthest = blocking NodeTraversalCompletion b_nodes completion_ctor"

text \<open>The upcalls of one completion.\<close>

fun argp_of :: "upcall \<Rightarrow> nat" where
  "argp_of (Bg_complete a k d) = a"
| "argp_of (Bg_error a k e) = a"
| "argp_of (Bp_complete a k) = a"
| "argp_of (Bp_error a k e) = a"
| "argp_of (Rs_complete a r) = a"
| "argp_of (Rs_error a r e) = a"
| "argp_of (Rb_complete a k) = a"
| "argp_of (Rb_missing a k) = a"
| "argp_of (Rf_complete a r) = a"
| "argp_of (Rf_error a r e) = a"
| "argp_of (Hei_complete a she) = a"
| "argp_of (Hei_error a she e) = a"
| "argp_of (Het_edge a she) = a"
| "argp_of (Het_complete a) = a"
| "argp_of (Het_error a e) = a"
| "argp_of (Hnt_node a hn) = a"
| "argp_of (Hnt_complete a) = a"
| "argp_of (Hnt_error a e) = a"

definition upcalls_for :: "nat \<Rightarrow> upcall list \<Rightarrow> upcall list" where
  "upcalls_for a us = filter (\<lambda>u. argp_of u = a) us"

subsection \<open>Refreshing many blocks\<close>

fun missing_of :: "upcall \<Rightarrow> key list" where
  "missing_of (Rb_missing a k) = [k]"
| "missing_of _ = []"

definition rb_up :: "upcall \<Rightarrow> bool" where
  "rb_up u \<longleftrightarrow> (\<exists>a k. u = Rb_complete a k \<or> u = Rb_missing a k)"

lemma rb_wait:
  assumes "\<forall>u \<in> set us. rb_up u" "us \<noteq> []" "b_count c = of_nat (length us)" "length us < 2 ^ 64" "\<not> b_complete c"
  shows "cwait BSRefreshBlocksCompletion us c =
    Some (c\<lparr>b_count := 0, b_missing := b_missing c @ concat (map missing_of us), b_complete := True\<rparr>)"
  using assms
proof (induction us arbitrary: c)
  case (Cons u us)
  let ?c = "c\<lparr>b_count := of_nat (length us), b_missing := b_missing c @ missing_of u\<rparr>"
  have step: "BSRefreshBlocksCompletion u c = (if us = [] then ?c\<lparr>b_complete := True\<rparr> else ?c)"
  proof -
    have "b_count c - 1 = of_nat (length us)" using Cons.prems(3) by simp
    moreover have "(of_nat (length us) :: 64 word) = 0 \<longleftrightarrow> us = []"
      using Cons.prems(4) dvd_imp_le [of "2 ^ 64" "length us"] by (cases "us = []") (auto simp: word_of_nat_eq_0_iff)
    ultimately show ?thesis
      using Cons.prems(1) by (auto simp: rb_up_def count_down_def Let_def cdone_def)
  qed
  show ?case
  proof (cases "us = []")
    case True
    then show ?thesis using step Cons.prems(5) by simp
  next
    case False
    then show ?thesis using Cons.IH [of ?c] step Cons.prems by simp
  qed
qed simp


text \<open>
  C18. Refreshing blocks returns when every key was answered, with the missing keys in the order
  of the answers; with no key at all there is no answer to wait for and it never returns.
\<close>

theorem refresh_blocks_returns:
  "(keys \<noteq> [] \<and> length us = length keys \<and> length keys < 2 ^ 64 \<and> (\<forall>u \<in> set us. rb_up u) \<longrightarrow>
      sync_refresh_blocks keys (map (\<lambda>_. Inr ()) keys) us = Some (Inr (concat (map missing_of us)))) \<and>
   ((\<forall>u \<in> set us. \<not> rb_up u) \<longrightarrow> sync_refresh_blocks keys (map (\<lambda>_. Inr ()) keys) us = None)"
proof -
  have calls: "first_throw (map (\<lambda>_. Inr ()) keys) = Inr ()" by (induction keys) simp_all
  have "cwait BSRefreshBlocksCompletion us c = None" if "\<forall>u \<in> set us. \<not> rb_up u" "\<not> b_complete c" for us c
    using that
  proof (induction us arbitrary: c)
    case (Cons u us)
    then have "BSRefreshBlocksCompletion u c = c" by (cases u) (auto simp: rb_up_def)
    then show ?case using Cons by simp
  qed simp
  moreover have "cwait BSRefreshBlocksCompletion us (completion_ctor\<lparr>b_count := of_nat (length keys)\<rparr>) =
      Some (completion_ctor\<lparr>b_count := 0, b_missing := concat (map missing_of us), b_complete := True\<rparr>)"
    if "keys \<noteq> []" "length us = length keys" "length keys < 2 ^ 64" "\<forall>u \<in> set us. rb_up u"
    using rb_wait [of us "completion_ctor\<lparr>b_count := of_nat (length keys)\<rparr>"] that
    by (cases "us = []") (simp_all add: completion_ctor_def)
  ultimately show ?thesis
    using calls by (simp add: sync_refresh_blocks_def blocking_def) (simp add: completion_ctor_def)
qed

theorem refresh_blocks_returns_witness:
  "sync_refresh_blocks [[1], [2]] [Inr (), Inr ()] [Rb_missing 0 [2], Rb_complete 0 [1]] = Some (Inr [[2]]) \<and>
   sync_refresh_blocks [] [] [] = None"
  using refresh_blocks_returns [of "[[1], [2]]" "[Rb_missing 0 [2], Rb_complete 0 [1]]"] refresh_blocks_returns [of "[]" "[]"]
  by (simp add: rb_up_def)

subsection \<open>Stores that answer every get and put once\<close>

abbreviation for_argp :: "nat \<Rightarrow> bool \<times> nat \<times> key \<Rightarrow> bool" where
  "for_argp a x \<equiv> fst (snd x) = a"

lemma put_wait:
  "filter (for_argp a) (concat (map told us)) = [(True, a, k)] \<Longrightarrow> \<not> b_complete c \<Longrightarrow>
   (Bp_complete a k \<in> set us \<and> cwait PutCompletion (upcalls_for a us) c = Some (cdone c)) \<or>
   (\<exists>e. Bp_error a k e \<in> set us \<and> cwait PutCompletion (upcalls_for a us) c = Some (cfail e c))"
proof (induction us)
  case (Cons u us)
  have fin: "cwait cls us' (cdone c) = Some (cdone c)" "cwait cls us' (cfail e c) = Some (cfail e c)" for cls us' e
    by (cases us'; simp add: cdone_def cfail_def)+
  show ?case
    using Cons fin by (cases u) (auto simp: upcalls_for_def split: if_splits)
qed simp

lemma get_wait:
  "filter (for_argp a) (concat (map told us)) = [(False, a, k)] \<Longrightarrow> \<not> b_complete c \<Longrightarrow>
   (\<exists>d. Bg_complete a k d \<in> set us \<and> cwait GetCompletion (upcalls_for a us) c = Some (cdone (c\<lparr>b_data := d\<rparr>))) \<or>
   (\<exists>e. Bg_error a k e \<in> set us \<and> cwait GetCompletion (upcalls_for a us) c = Some (cfail e c))"
proof (induction us)
  case (Cons u us)
  have fin: "cwait cls us' (cdone c) = Some (cdone c)" "cwait cls us' (cfail e c) = Some (cfail e c)" for cls us' e c
    by (cases us'; simp add: cdone_def cfail_def)+
  show ?case
    using Cons fin by (cases u) (auto simp: upcalls_for_def split: if_splits)
qed simp

lemma mset_one: "mset xs = {#x#} \<Longrightarrow> xs = [x]"
  by (cases xs) auto

locale reports_once =
  fixes reached :: "'e list \<Rightarrow> 's \<Rightarrow> bool"
    and calls :: "'e \<Rightarrow> (bool \<times> nat \<times> key) list"
    and log :: "'s \<Rightarrow> upcall list"
    and quiet :: "'s \<Rightarrow> bool"
  assumes once: "reached es s \<Longrightarrow> quiet s \<Longrightarrow> mset (concat (map told (log s))) = mset (concat (map calls es))"
begin

lemma told_once:
  assumes "reached es s" "quiet s" "filter (for_argp a) (concat (map calls es)) = [x]"
  shows "filter (for_argp a) (concat (map told (log s))) = [x]"
proof -
  have "mset (filter (for_argp a) (concat (map told (log s)))) = mset (filter (for_argp a) (concat (map calls es)))"
    using once [OF assms(1,2)] by (simp only: mset_filter)
  then have "mset (filter (for_argp a) (concat (map told (log s)))) = mset [x]" using assms(3) by simp
  then show ?thesis by (intro mset_one) simp
qed

lemma put_returns:
  assumes "reached es s" "quiet s" "filter (for_argp a) (concat (map calls es)) = [(True, a, k)]"
  shows "sync_block_put (Inr ()) (upcalls_for a (log s)) = Some (Inr ()) \<and> Bp_complete a k \<in> set (log s) \<or>
    (\<exists>e. sync_block_put (Inr ()) (upcalls_for a (log s)) = Some (Inl e) \<and> Bp_error a k e \<in> set (log s))"
  using put_wait [OF told_once [OF assms], of completion_ctor]
  by (auto simp: sync_block_put_def blocking_def completion_ctor_def cdone_def cfail_def)

lemma get_returns:
  assumes "reached es s" "quiet s" "filter (for_argp a) (concat (map calls es)) = [(False, a, k)]"
  shows "\<exists>r. sync_block_get (Inr ()) (upcalls_for a (log s)) = Some r \<and>
    (case r of Inr d \<Rightarrow> Bg_complete a k d \<in> set (log s) | Inl e \<Rightarrow> Bg_error a k e \<in> set (log s))"
  using get_wait [OF told_once [OF assms], of completion_ctor]
  by (auto simp: sync_block_get_def blocking_def completion_ctor_def cdone_def cfail_def)

end

definition s3_reached :: "(s3event list \<Rightarrow> s3bs \<Rightarrow> bool)" where
  "s3_reached es s \<longleftrightarrow> (\<exists>r s0. s_rsphandlers s0 = [] \<and> s_log s0 = [] \<and> s3_run r es s0 = (s, Inr ()))"

interpretation s3: reports_once s3_reached asked s_log "\<lambda>s. s_rsphandlers s = []"
proof
  fix es s
  assume "s3_reached es s" and q: "s_rsphandlers s = []"
  then obtain r s0 where s0: "s_rsphandlers s0 = []" "s_log s0 = []" "s3_run r es s0 = (s, Inr ())"
    by (auto simp: s3_reached_def)
  have "handlers_ok s0" using s0(1) by (simp add: handlers_ok_def)
  from run_moves [OF this s0(3)] s0(1,2) q show "mset (concat (map told (s_log s))) = mset (concat (map asked es))"
    by (simp add: moves_def answered_def pending_def)
qed

text \<open>
  C15. A synchronous get or put on the S3 store returns in every run that ends with no request
  left, whatever other requests were made: with what the store told its completion.
\<close>

theorem s3_sync_returns:
  assumes "s_rsphandlers s0 = []" "s_log s0 = []" "s3_run retryable es s0 = (s, Inr ())" "s_rsphandlers s = []"
    and "filter (\<lambda>x. fst (snd x) = a) (concat (map asked es)) = [(p, a, k)]"
  shows "if p then sync_block_put (Inr ()) (upcalls_for a (s_log s)) = Some (Inr ()) \<and> Bp_complete a k \<in> set (s_log s) \<or>
        (\<exists>e. sync_block_put (Inr ()) (upcalls_for a (s_log s)) = Some (Inl e) \<and> Bp_error a k e \<in> set (s_log s))
    else \<exists>r. sync_block_get (Inr ()) (upcalls_for a (s_log s)) = Some r \<and>
      (case r of Inr d \<Rightarrow> Bg_complete a k d \<in> set (s_log s) | Inl e \<Rightarrow> Bg_error a k e \<in> set (s_log s))"
proof -
  have "s3_reached es s" using assms(1-3) by (auto simp: s3_reached_def)
  then show ?thesis using s3.put_returns [of es s a k] s3.get_returns [of es s a k] assms(4,5) by (cases p) simp_all
qed


definition wit_sync :: "s3event list" where
  "wit_sync = [SCallPut (\<lambda>_. S3StatusOK) 5 [1] [7, 8], SCallGet 6 [2] 10, SDone 0 S3StatusOK 0]"

theorem s3_sync_returns_witness:
  "\<exists>s. s3_run wit_retryable wit_sync wit_s3 = (s, Inr ()) \<and>
     (\<exists>r. sync_block_get (Inr ()) (upcalls_for 6 (s_log s)) = Some r) \<and>
     (\<exists>r. sync_block_put (Inr ()) (upcalls_for 5 (s_log s)) = Some r)"
proof -
  let ?s = "fst (s3_run wit_retryable wit_sync wit_s3)"
  have "snd (s3_run wit_retryable wit_sync wit_s3) = Inr () \<and> s_rsphandlers ?s = []" by code_simp
  then have r: "s3_run wit_retryable wit_sync wit_s3 = (?s, Inr ())" "s_rsphandlers ?s = []"
    by (simp_all add: prod_eq_iff)
  have 0: "s_rsphandlers wit_s3 = []" "s_log wit_s3 = []" by (simp_all add: wit_s3_def s3_ctor_def)
  from s3_sync_returns [OF 0 r, of 5 True "[1]"] s3_sync_returns [OF 0 r, of 6 False "[2]"] r(1) show ?thesis
    by (intro exI [of _ ?s]) (auto simp: wit_sync_def)
qed

end
