(* ===== verification/BDB_BlockStore.thy ===== *)
theory BDB_BlockStore
  imports BS_Sync
begin

text \<open>
  The block store in a Berkeley DB database (\<^verbatim>\<open>modules/BDBBlockStore\<close>).

  \<^item> The database library is an argument: the operations of a database (\<open>dbops\<close>) and what they
    return. \<open>DbThrow\<close> is a \<^verbatim>\<open>DbException\<close>; it is not an exception of the program, and where the
    source does not catch it, the result of the operation is \<open>None\<close>.
  \<^item> \<open>bdb_laws\<close> states the documented behaviour of the library, for databases that represent maps.
  \<^item> All operations complete before they return, and head edges are stored as blocks, through the
    synchronous operations of \<open>BS_Sync\<close>.
\<close>

subsection \<open>State\<close>

datatype dbresult = DbOk | DbNotFound | DbFail int | DbThrow

record 'd dbops =
  db_get :: "'d \<Rightarrow> bytes \<Rightarrow> nat \<Rightarrow> dbresult \<times> bytes"
  db_exists :: "'d \<Rightarrow> bytes \<Rightarrow> dbresult"
  db_del :: "'d \<Rightarrow> bytes \<Rightarrow> 'd \<times> dbresult"
  db_put :: "'d \<Rightarrow> bytes \<Rightarrow> bytes \<Rightarrow> 'd \<times> dbresult"

record 'd bdbbs =
  d_db_opened :: bool
  d_db :: 'd
  d_db_refresh_ids :: 'd
  d_log :: "upcall list"

definition bdb_tell :: "upcall \<Rightarrow> 'd bdbbs \<Rightarrow> 'd bdbbs" where
  "bdb_tell u s = s\<lparr>d_log := d_log s @ [u]\<rparr>"

text \<open>The octets of a refresh id, as the machine stores it.\<close>

definition rid_key :: "64 word \<Rightarrow> bytes" where
  "rid_key r = map (\<lambda>i. ucast (drop_bit (8 * i) r)) [0..<8]"

subsection \<open>Opening and closing\<close>

text \<open>
  \<open>exist\<close>: whether the path exists; \<open>mkdir\<close>: whether the directory could be made; \<open>dbs\<close>: the two
  databases, if all of them could be opened.
\<close>

definition open_dbs :: "('d \<times> 'd) option \<Rightarrow> 'd bdbbs \<Rightarrow> 'd bdbbs \<times> unit res" where
  "open_dbs dbs s =
     (case dbs of
        None \<Rightarrow> (s, Inl InternalError)
      | Some (db, ids) \<Rightarrow> (s\<lparr>d_db := db, d_db_refresh_ids := ids, d_db_opened := True\<rparr>, Inr ()))"

definition bdb_create :: "bool \<Rightarrow> bool \<Rightarrow> ('d \<times> 'd) option \<Rightarrow> string list \<Rightarrow> 'd bdbbs \<Rightarrow> 'd bdbbs \<times> unit res" where
  "bdb_create exist mkdir dbs i_args s =
     (if i_args = [] then (s, Inl OutOfBounds)
      else if exist then (s, Inl NotUniqueError)
      else if \<not> mkdir then (s, Inl InternalError)
      else open_dbs dbs s)"

definition bdb_open :: "bool \<Rightarrow> ('d \<times> 'd) option \<Rightarrow> string list \<Rightarrow> 'd bdbbs \<Rightarrow> 'd bdbbs \<times> unit res" where
  "bdb_open exist dbs i_args s =
     (if i_args = [] then (s, Inl ValueError)
      else if \<not> exist then (s, Inl NotFoundError)
      else open_dbs dbs s)"

definition bdb_stat :: "'d bdbbs \<Rightarrow> (nat \<times> nat) res" where
  "bdb_stat s = Inl InternalError"

definition bdb_sync :: "'d bdbbs \<Rightarrow> unit res" where
  "bdb_sync s = (if \<not> d_db_opened s then Inl InternalError else Inr ())"

text \<open>Closing a store; \<open>unmapped\<close> is the result of removing it from the registry of instances.\<close>

definition bdb_close :: "unit res \<Rightarrow> 'd bdbbs \<Rightarrow> 'd bdbbs \<times> unit res" where
  "bdb_close unmapped s =
     (case unmapped of
        Inl e \<Rightarrow> (s, Inl InternalError)
      | Inr _ \<Rightarrow> (s\<lparr>d_db_opened := False\<rparr>, Inr ()))"

text \<open>Destroying a store: the command that is given to the shell.\<close>

definition bdb_destroy :: "bool \<Rightarrow> string list \<Rightarrow> string res" where
  "bdb_destroy exist i_args =
     (if i_args = [] then Inl OutOfBounds
      else if \<not> exist then Inl NotFoundError
      else Inr (''rm -rf '' @ hd i_args))"

subsection \<open>Blocks\<close>

definition bdb_block_get_async :: "'d dbops \<Rightarrow> nat \<Rightarrow> key \<Rightarrow> nat \<Rightarrow> 'd bdbbs \<Rightarrow> 'd bdbbs option" where
  "bdb_block_get_async ops i_argp i_key i_buffsize s =
     (if \<not> d_db_opened s then Some (bdb_tell (Bg_error i_argp i_key InternalError) s)
      else case db_get ops (d_db s) i_key i_buffsize of
        (DbThrow, _) \<Rightarrow> None
      | (DbOk, dat) \<Rightarrow> Some (bdb_tell (Bg_complete i_argp i_key dat) s)
      | (_, _) \<Rightarrow> Some (bdb_tell (Bg_error i_argp i_key NotFoundError) s))"

definition bdb_block_put_async :: "'d dbops \<Rightarrow> nat \<Rightarrow> key \<Rightarrow> bytes \<Rightarrow> 'd bdbbs \<Rightarrow> 'd bdbbs option" where
  "bdb_block_put_async ops i_argp i_key i_blk s =
     (if \<not> d_db_opened s then Some (bdb_tell (Bp_error i_argp i_key InternalError) s)
      else
        let there = db_exists ops (d_db s) i_key;
            (db1, del) = (if there = DbOk then db_del ops (d_db s) i_key else (d_db s, DbOk))
        in if there = DbThrow \<or> del = DbThrow then None
           else case db_put ops db1 i_key i_blk of
             (db2, DbThrow) \<Rightarrow> None
           | (db2, DbOk) \<Rightarrow> Some (bdb_tell (Bp_complete i_argp i_key) (s\<lparr>d_db := db2\<rparr>))
           | (db2, _) \<Rightarrow> Some (bdb_tell (Bp_error i_argp i_key InternalError) (s\<lparr>d_db := db2\<rparr>)))"

subsection \<open>Refresh cycles\<close>

definition bdb_refresh_start_async :: "'d dbops \<Rightarrow> nat \<Rightarrow> 64 word \<Rightarrow> 'd bdbbs \<Rightarrow> 'd bdbbs \<times> unit res" where
  "bdb_refresh_start_async ops i_argp i_rid s =
     (if \<not> d_db_opened s then (s, Inl InternalError)
      else case db_exists ops (d_db_refresh_ids s) (rid_key i_rid) of
        DbOk \<Rightarrow> (bdb_tell (Rs_error i_argp i_rid NotUniqueError) s, Inr ())
      | DbNotFound \<Rightarrow>
          (case db_put ops (d_db_refresh_ids s) (rid_key i_rid) (rid_key i_rid) of
             (ids, DbOk) \<Rightarrow> (bdb_tell (Rs_complete i_argp i_rid) (s\<lparr>d_db_refresh_ids := ids\<rparr>), Inr ())
           | (ids, _) \<Rightarrow> (bdb_tell (Rs_error i_argp i_rid InternalError) (s\<lparr>d_db_refresh_ids := ids\<rparr>), Inr ()))
      | _ \<Rightarrow> (bdb_tell (Rs_error i_argp i_rid InternalError) s, Inr ()))"

definition bdb_refresh_block_async :: "'d dbops \<Rightarrow> nat \<Rightarrow> 64 word \<Rightarrow> key \<Rightarrow> 'd bdbbs \<Rightarrow> ('d bdbbs \<times> unit res) option" where
  "bdb_refresh_block_async ops i_argp i_rid i_key s =
     (if \<not> d_db_opened s then Some (s, Inl InternalError)
      else case db_exists ops (d_db_refresh_ids s) (rid_key i_rid) of
        DbThrow \<Rightarrow> None
      | DbNotFound \<Rightarrow> Some (s, Inl NotFoundError)
      | DbFail _ \<Rightarrow> Some (s, Inl InternalError)
      | DbOk \<Rightarrow> Some (bdb_tell (Rb_complete i_argp i_key) s, Inr ()))"

definition bdb_refresh_finish_async :: "'d dbops \<Rightarrow> nat \<Rightarrow> 64 word \<Rightarrow> 'd bdbbs \<Rightarrow> 'd bdbbs option" where
  "bdb_refresh_finish_async ops i_argp i_rid s =
     (if \<not> d_db_opened s then Some (bdb_tell (Rf_error i_argp i_rid InternalError) s)
      else case db_exists ops (d_db_refresh_ids s) (rid_key i_rid) of
        DbThrow \<Rightarrow> None
      | DbNotFound \<Rightarrow> Some (bdb_tell (Rf_error i_argp i_rid NotFoundError) s)
      | DbFail _ \<Rightarrow> Some (bdb_tell (Rf_error i_argp i_rid InternalError) s)
      | DbOk \<Rightarrow> Some (bdb_tell (Rf_complete i_argp i_rid) s))"

subsection \<open>Heads\<close>

text \<open>
  The inherited synchronous operations, on the store itself: the upcalls go to a completion of
  their own. The parsers give what the protocol buffer holds after the call, whose result is
  ignored.
\<close>

definition bdb_block_put :: "'d dbops \<Rightarrow> key \<Rightarrow> bytes \<Rightarrow> 'd bdbbs \<Rightarrow> ('d bdbbs \<times> unit res) option" where
  "bdb_block_put ops i_key i_blk s =
     Option.bind (bdb_block_put_async ops 0 i_key i_blk (s\<lparr>d_log := []\<rparr>)) (\<lambda>s1.
       map_option (\<lambda>r. (s1\<lparr>d_log := d_log s\<rparr>, r)) (sync_block_put (Inr ()) (d_log s1)))"

definition bdb_block_get :: "'d dbops \<Rightarrow> key \<Rightarrow> nat \<Rightarrow> 'd bdbbs \<Rightarrow> bytes res option" where
  "bdb_block_get ops i_key i_outsize s =
     Option.bind (bdb_block_get_async ops 0 i_key i_outsize (s\<lparr>d_log := []\<rparr>)) (\<lambda>s1. sync_block_get (Inr ()) (d_log s1))"

definition bdb_head_insert_async ::
    "'d dbops \<Rightarrow> (bytes \<Rightarrow> headedge) \<Rightarrow> (signedheadedge \<Rightarrow> bytes) \<Rightarrow> nat \<Rightarrow> signedheadedge \<Rightarrow> 'd bdbbs \<Rightarrow> 'd bdbbs option" where
  "bdb_head_insert_async ops parse ser i_argp i_she s =
     map_option (\<lambda>(s1, r). case r of
         Inl e \<Rightarrow> bdb_tell (Hei_error i_argp i_she e) s1
       | Inr _ \<Rightarrow> bdb_tell (Hei_complete i_argp i_she) s1)
       (bdb_block_put ops (he_fstag (parse (she_headedge i_she))) (ser i_she) s)"

definition bdb_head_follow_async ::
    "'d dbops \<Rightarrow> (bytes \<Rightarrow> signedheadedge) \<Rightarrow> nat \<Rightarrow> headnode \<Rightarrow> 'd bdbbs \<Rightarrow> 'd bdbbs option" where
  "bdb_head_follow_async ops parse_she i_argp i_hn s =
     map_option (\<lambda>r. case r of
         Inl e \<Rightarrow> bdb_tell (Het_error i_argp e) s
       | Inr buf \<Rightarrow> bdb_tell (Het_complete i_argp) (bdb_tell (Het_edge i_argp (parse_she buf)) s))
       (bdb_block_get ops (fst i_hn) 8192 s)"

definition bdb_head_furthest_async ::
    "'d dbops \<Rightarrow> (bytes \<Rightarrow> headedge) \<Rightarrow> (bytes \<Rightarrow> signedheadedge) \<Rightarrow> nat \<Rightarrow> headnode \<Rightarrow> 'd bdbbs \<Rightarrow> 'd bdbbs option" where
  "bdb_head_furthest_async ops parse parse_she i_argp i_hn s =
     map_option (\<lambda>r. case r of
         Inl e \<Rightarrow> bdb_tell (Hnt_error i_argp e) s
       | Inr buf \<Rightarrow>
           bdb_tell (Hnt_complete i_argp)
             (bdb_tell (Hnt_node i_argp (he_fstag (parse (she_headedge (parse_she buf))), [])) s))
       (bdb_block_get ops (fst i_hn) 8192 s)"

definition bdb_issaturated :: "'d bdbbs \<Rightarrow> bool" where
  "bdb_issaturated s = False"

subsection \<open>The library\<close>

definition bdb_laws :: "'d dbops \<Rightarrow> ('d \<Rightarrow> bytes \<Rightarrow> bytes option) \<Rightarrow> bool" where
  "bdb_laws ops rep \<longleftrightarrow>
     (\<forall>d k. db_exists ops d k = (if rep d k = None then DbNotFound else DbOk)) \<and>
     (\<forall>d k. rep d k \<noteq> None \<longrightarrow> rep (fst (db_del ops d k)) = (rep d)(k := None) \<and> snd (db_del ops d k) = DbOk) \<and>
     (\<forall>d k v. rep d k = None \<longrightarrow> rep (fst (db_put ops d k v)) = (rep d)(k \<mapsto> v) \<and> snd (db_put ops d k v) = DbOk) \<and>
     (\<forall>d k n. case rep d k of
        None \<Rightarrow> fst (db_get ops d k n) = DbNotFound
      | Some v \<Rightarrow> db_get ops d k n = (if length v \<le> n then (DbOk, v) else (DbThrow, [])))"

text \<open>A database that is a map itself.\<close>

definition map_ops :: "(bytes \<Rightarrow> bytes option) dbops" where
  "map_ops = \<lparr>db_get = (\<lambda>d k n. case d k of None \<Rightarrow> (DbNotFound, [])
                | Some v \<Rightarrow> if length v \<le> n then (DbOk, v) else (DbThrow, [])),
     db_exists = (\<lambda>d k. if d k = None then DbNotFound else DbOk),
     db_del = (\<lambda>d k. if d k = None then (d, DbNotFound) else (d(k := None), DbOk)),
     db_put = (\<lambda>d k v. if d k = None then (d(k \<mapsto> v), DbOk) else (d, DbFail 17))\<rparr>"

lemma map_ops_laws: "bdb_laws map_ops (\<lambda>d. d)"
  by (auto simp: bdb_laws_def map_ops_def split: option.splits)

subsection \<open>Properties\<close>

lemma bdb_exists_law: "bdb_laws ops rep \<Longrightarrow> db_exists ops d k = (if rep d k = None then DbNotFound else DbOk)"
  by (simp add: bdb_laws_def)

lemma bdb_put_law:
  assumes "bdb_laws ops rep" "rep d k = None"
  obtains d' where "db_put ops d k v = (d', DbOk)" "rep d' = (rep d)(k \<mapsto> v)"
  using assms by (intro that [of "fst (db_put ops d k v)"]) (auto simp: bdb_laws_def prod_eq_iff)

lemma bdb_get_law:
  "bdb_laws ops rep \<Longrightarrow> case rep d k of
        None \<Rightarrow> fst (db_get ops d k n) = DbNotFound
      | Some v \<Rightarrow> db_get ops d k n = (if length v \<le> n then (DbOk, v) else (DbThrow, []))"
  by (simp add: bdb_laws_def)

lemma put_refines:
  assumes "bdb_laws ops rep" "d_db_opened s"
  obtains s' where "bdb_block_put_async ops a k blk s = Some s'" "rep (d_db s') = (rep (d_db s))(k \<mapsto> blk)"
    "d_db_refresh_ids s' = d_db_refresh_ids s" "d_db_opened s'" "d_log s' = d_log s @ [Bp_complete a k]"
proof -
  let ?db = "if rep (d_db s) k = None then d_db s else fst (db_del ops (d_db s) k)"
  have gone: "rep ?db k = None" and same: "(rep ?db)(k \<mapsto> blk) = (rep (d_db s))(k \<mapsto> blk)"
    using assms(1) by (auto simp: bdb_laws_def)
  obtain db2 where put: "db_put ops ?db k blk = (db2, DbOk)" "rep db2 = (rep (d_db s))(k \<mapsto> blk)"
    using bdb_put_law [OF assms(1) gone] same by metis
  have del: "snd (db_del ops (d_db s) k) = DbOk" if "rep (d_db s) k \<noteq> None"
    using assms(1) that by (auto simp: bdb_laws_def)
  note ex = bdb_exists_law [OF assms(1), of "d_db s" k]
  have "bdb_block_put_async ops a k blk s = Some (bdb_tell (Bp_complete a k) (s\<lparr>d_db := db2\<rparr>))"
    using assms(2) ex put del by (cases "rep (d_db s) k = None") (simp_all add: bdb_block_put_async_def split_beta)
  then show ?thesis by (rule that) (simp_all add: bdb_tell_def put assms(2))
qed


text \<open>
  C16. The Berkeley DB store implements a map from keys to blocks: a put replaces the block of its key
  and keeps every other one, and a get afterwards completes with the block, if it fits
  into the buffer, and fails with \<^verbatim>\<open>NotFoundError\<close> for a key never put. A block that does not fit makes
  the library throw an exception that the store does not catch.
\<close>

theorem bdb_refines_map:
  assumes "bdb_laws ops rep" "d_db_opened s"
  shows "\<exists>s'. bdb_block_put_async ops a k blk s = Some s' \<and> rep (d_db s') = (rep (d_db s))(k \<mapsto> blk) \<and>
      d_log s' = d_log s @ [Bp_complete a k] \<and> d_db_opened s' \<and>
      (\<forall>b k' n. bdb_block_get_async ops b k' n s' =
        (case ((rep (d_db s))(k \<mapsto> blk)) k' of
           None \<Rightarrow> Some (bdb_tell (Bg_error b k' NotFoundError) s')
         | Some v \<Rightarrow> if length v \<le> n then Some (bdb_tell (Bg_complete b k' v) s') else None))"
proof -
  obtain s' where s': "bdb_block_put_async ops a k blk s = Some s'" "rep (d_db s') = (rep (d_db s))(k \<mapsto> blk)"
    "d_db_opened s'" "d_log s' = d_log s @ [Bp_complete a k]"
    by (rule put_refines [OF assms])
  have "bdb_block_get_async ops b k' n s' =
        (case (rep (d_db s')) k' of
           None \<Rightarrow> Some (bdb_tell (Bg_error b k' NotFoundError) s')
         | Some v \<Rightarrow> if length v \<le> n then Some (bdb_tell (Bg_complete b k' v) s') else None)" for b k' n
  proof -
    show ?thesis
      using s'(3) bdb_get_law [OF assms(1), of "d_db s'" k' n] by (cases "rep (d_db s') k'") (simp_all add: bdb_block_get_async_def split_beta)
  qed
  then show ?thesis using s' by simp
qed

definition wit_bdb :: "(bytes \<Rightarrow> bytes option) bdbbs" where
  "wit_bdb = \<lparr>d_db_opened = True, d_db = (\<lambda>_. None), d_db_refresh_ids = (\<lambda>_. None), d_log = []\<rparr>"

theorem bdb_refines_map_witness:
  "\<exists>s'. bdb_block_put_async map_ops 1 [9] [5, 6] wit_bdb = Some s' \<and>
     bdb_block_get_async map_ops 2 [9] 4 s' = Some (bdb_tell (Bg_complete 2 [9] [5, 6]) s') \<and>
     bdb_block_get_async map_ops 2 [8] 4 s' = Some (bdb_tell (Bg_error 2 [8] NotFoundError) s') \<and>
     bdb_block_get_async map_ops 2 [9] 1 s' = None"
  using bdb_refines_map [OF map_ops_laws, of wit_bdb 1 "[9]" "[5, 6]"] by (auto simp: wit_bdb_def)

text \<open>
  In the Berkeley DB store a refresh cycle says nothing about the blocks: once the cycle is started,
  refreshing any keys, in the store or not, reports none missing; and since finishing the cycle does not
  remove its id, the same cycle cannot be started again.
\<close>

theorem bdb_refresh_never_missing:
  assumes "bdb_laws ops rep" "d_db_opened s" "rep (d_db_refresh_ids s) (rid_key r) = None"
  shows "let s1 = fst (bdb_refresh_start_async ops a r s) in
      d_log s1 = d_log s @ [Rs_complete a r] \<and>
      bdb_refresh_block_async ops b r k s1 = Some (bdb_tell (Rb_complete b k) s1, Inr ()) \<and>
      sync_refresh_blocks [k] [Inr ()] [Rb_complete b k] = Some (Inr []) \<and>
      (\<exists>s2. bdb_refresh_finish_async ops c r s1 = Some s2 \<and> d_log s2 = d_log s1 @ [Rf_complete c r] \<and>
        d_log (fst (bdb_refresh_start_async ops d r s2)) = d_log s2 @ [Rs_error d r NotUniqueError])"
proof -
  note ex = bdb_exists_law [OF assms(1)]
  obtain ids where put: "db_put ops (d_db_refresh_ids s) (rid_key r) (rid_key r) = (ids, DbOk)" "rep ids (rid_key r) \<noteq> None"
    by (rule bdb_put_law [OF assms(1,3), of "rid_key r"]) auto
  have s1: "fst (bdb_refresh_start_async ops a r s) = bdb_tell (Rs_complete a r) (s\<lparr>d_db_refresh_ids := ids\<rparr>)"
    using assms(2,3) put(1) ex by (simp add: bdb_refresh_start_async_def)
  have sync: "sync_refresh_blocks [k] [Inr ()] [Rb_complete b k] = Some (Inr [])"
    by (simp add: sync_refresh_blocks_def blocking_def completion_ctor_def count_down_def cdone_def Let_def)
  show ?thesis
    unfolding s1 Let_def
    using assms(2) put(2) ex sync
    by (auto simp: bdb_refresh_block_async_def bdb_refresh_finish_async_def bdb_refresh_start_async_def bdb_tell_def)
qed

theorem bdb_refresh_never_missing_witness:
  "bdb_refresh_block_async map_ops 2 7 [9] (fst (bdb_refresh_start_async map_ops 1 7 wit_bdb)) =
     Some (bdb_tell (Rb_complete 2 [9]) (fst (bdb_refresh_start_async map_ops 1 7 wit_bdb)), Inr ())"
  using bdb_refresh_never_missing [OF map_ops_laws, of wit_bdb 7 1 2 "[9]"] by (simp add: wit_bdb_def Let_def)

text \<open>
  A head edge is stored as a block under the tag of its file system, in place of the one before,
  and the furthest head is the pair of the tag and the empty reference, whatever root the edge names.
\<close>

lemma bdb_furthest_is_empty:
  assumes "bdb_laws ops rep" "d_db_opened s" "length (ser she) \<le> 8192" "parse_she (ser she) = she"
  obtains s1 s2 where "bdb_head_insert_async ops parse ser a she s = Some s1"
    "bdb_head_furthest_async ops parse parse_she b (he_fstag (parse (she_headedge she)), x) s1 = Some s2"
    "d_log s2 = d_log s @ [Hei_complete a she, Hnt_node b (he_fstag (parse (she_headedge she)), []), Hnt_complete b]"
proof -
  let ?k = "he_fstag (parse (she_headedge she))"
  obtain s' where s': "bdb_block_put_async ops 0 ?k (ser she) (s\<lparr>d_log := []\<rparr>) = Some s'"
    "rep (d_db s') = (rep (d_db s))(?k \<mapsto> ser she)" "d_db_opened s'" "d_log s' = [Bp_complete 0 ?k]"
    using put_refines [OF assms(1), of "s\<lparr>d_log := []\<rparr>" 0 ?k "ser she"] assms(2) by auto
  let ?s1 = "bdb_tell (Hei_complete a she) (s'\<lparr>d_log := d_log s\<rparr>)"
  have ins: "bdb_head_insert_async ops parse ser a she s = Some ?s1"
    using s' by (simp add: bdb_head_insert_async_def bdb_block_put_def sync_block_put_def blocking_def completion_ctor_def cdone_def)
  have "rep (d_db s') ?k = Some (ser she)" using s'(2) by simp
  then have "db_get ops (d_db s') ?k 8192 = (DbOk, ser she)"
    using assms(3) bdb_get_law [OF assms(1), of "d_db s'" ?k 8192] by simp
  then have get: "bdb_block_get ops ?k 8192 ?s1 = Some (Inr (ser she))"
    using s'(3) by (simp add: bdb_block_get_def bdb_block_get_async_def bdb_tell_def sync_block_get_def blocking_def
        completion_ctor_def cdone_def)
  have "bdb_head_furthest_async ops parse parse_she b (?k, x) ?s1 =
      Some (bdb_tell (Hnt_complete b) (bdb_tell (Hnt_node b (?k, [])) ?s1))"
    by (simp add: bdb_head_furthest_async_def get assms(4))
  then show ?thesis by (rule that [OF ins]) (simp add: bdb_tell_def)
qed


subsection \<open>Synchronous operations\<close>

datatype bdbop = DGet nat key nat | DPut nat key bytes

fun bdb_asked :: "bdbop \<Rightarrow> (bool \<times> nat \<times> key) list" where
  "bdb_asked (DGet a k n) = [(False, a, k)]"
| "bdb_asked (DPut a k blk) = [(True, a, k)]"

fun bdb_do :: "'d dbops \<Rightarrow> bdbop \<Rightarrow> 'd bdbbs \<Rightarrow> 'd bdbbs option" where
  "bdb_do ops (DGet a k n) s = bdb_block_get_async ops a k n s"
| "bdb_do ops (DPut a k blk) s = bdb_block_put_async ops a k blk s"

fun bdb_run :: "'d dbops \<Rightarrow> bdbop list \<Rightarrow> 'd bdbbs \<Rightarrow> 'd bdbbs option" where
  "bdb_run ops [] s = Some s"
| "bdb_run ops (x # xs) s = Option.bind (bdb_do ops x s) (bdb_run ops xs)"

lemma bdb_do_tells: "bdb_do ops x s = Some s' \<Longrightarrow> concat (map told (d_log s')) = concat (map told (d_log s)) @ bdb_asked x"
  by (cases x)
     (auto simp: bdb_block_get_async_def bdb_block_put_async_def bdb_tell_def Let_def
       split: if_splits prod.splits dbresult.splits)

lemma bdb_run_tells:
  "bdb_run ops xs s = Some s' \<Longrightarrow> concat (map told (d_log s')) = concat (map told (d_log s)) @ concat (map bdb_asked xs)"
proof (induction xs arbitrary: s)
  case (Cons x xs)
  from Cons.prems obtain s1 where s1: "bdb_do ops x s = Some s1" "bdb_run ops xs s1 = Some s'"
    by (auto split: bind_splits)
  show ?case using Cons.IH [OF s1(2)] bdb_do_tells [OF s1(1)] by simp
qed simp

definition bdb_reached :: "bdbop list \<Rightarrow> 'd bdbbs \<Rightarrow> bool" where
  "bdb_reached xs s \<longleftrightarrow> (\<exists>ops s0. d_log s0 = [] \<and> bdb_run ops xs s0 = Some s)"

interpretation bdb: reports_once bdb_reached bdb_asked d_log "\<lambda>_. True"
  by unfold_locales (auto simp: bdb_reached_def dest: bdb_run_tells)

text \<open>A put through the synchronous operation returns, since the store answers before it waits.\<close>

lemma bdb_sync_put_returns:
  assumes "d_log s0 = []" "bdb_run ops xs s0 = Some s" "filter (\<lambda>x. fst (snd x) = a) (concat (map bdb_asked xs)) = [(True, a, k)]"
  shows "\<exists>r. sync_block_put (Inr ()) (upcalls_for a (d_log s)) = Some r"
proof -
  have "bdb_reached xs s" using assms(1,2) by (auto simp: bdb_reached_def)
  from bdb.put_returns [OF this TrueI assms(3)] show ?thesis by auto
qed

end
