(* ===== verification/BS_Factory.thy ===== *)
theory BS_Factory
  imports Utp_Prelude
begin

text \<open>
  The registries of factories and of open block store instances
  (\<^verbatim>\<open>libutp/src/BlockStoreFactory.cpp\<close>) and of file system factories
  (\<^verbatim>\<open>libutp/src/FileSystemFactory.cpp\<close>).

  \<^item> Creating or opening an instance takes two steps, since the lock is not held while the factory
    works: the name is reserved with a null handle, and the handle is put in its place or, when the factory fails,
    the name is removed.
  \<^item> \<open>'f\<close> are factories and \<open>'h\<close> block stores; what a factory's \<^verbatim>\<open>bsf_create\<close> or \<^verbatim>\<open>bsf_open\<close> returns
    is an argument. Other threads may run any operation between the two steps.
\<close>

subsection \<open>Operations\<close>

record ('f, 'h) registry =
  g_bsfm :: "string \<Rightarrow> 'f option"
  g_bsim :: "string \<Rightarrow> 'h option option"

definition find_factory :: "string \<Rightarrow> ('f, 'h) registry \<Rightarrow> 'f res" where
  "find_factory i_name g = (case g_bsfm g i_name of None \<Rightarrow> Inl NotFoundError | Some f \<Rightarrow> Inr f)"

definition register_factory :: "string \<Rightarrow> 'f \<Rightarrow> ('f, 'h) registry \<Rightarrow> ('f, 'h) registry" where
  "register_factory i_factname i_bsfp g = g\<lparr>g_bsfm := (g_bsfm g)(i_factname \<mapsto> i_bsfp)\<rparr>"

definition bsf_reserve :: "string \<Rightarrow> ('f, 'h) registry \<Rightarrow> ('f, 'h) registry \<times> unit res" where
  "bsf_reserve i_instname g =
     (if g_bsim g i_instname \<noteq> None then (g, Inl NotUniqueError)
      else (g\<lparr>g_bsim := (g_bsim g)(i_instname \<mapsto> None)\<rparr>, Inr ()))"

definition bsf_install :: "('f \<Rightarrow> 'h res) \<Rightarrow> string \<Rightarrow> string \<Rightarrow> ('f, 'h) registry \<Rightarrow> ('f, 'h) registry \<times> 'h res" where
  "bsf_install mk i_factname i_instname g =
     (case (case find_factory i_factname g of Inl e \<Rightarrow> Inl e | Inr f \<Rightarrow> mk f) of
        Inr bsh \<Rightarrow> (g\<lparr>g_bsim := (g_bsim g)(i_instname \<mapsto> Some bsh)\<rparr>, Inr bsh)
      | Inl e \<Rightarrow> (g\<lparr>g_bsim := (g_bsim g)(i_instname := None)\<rparr>, Inl e))"

text \<open>Without other threads in between, the whole of \<^verbatim>\<open>create\<close> and of \<^verbatim>\<open>open\<close>.\<close>

definition bsf_create :: "('f \<Rightarrow> 'h res) \<Rightarrow> string \<Rightarrow> string \<Rightarrow> ('f, 'h) registry \<Rightarrow> ('f, 'h) registry \<times> 'h res" where
  "bsf_create mk i_factname i_instname g =
     (case bsf_reserve i_instname g of
        (g1, Inl e) \<Rightarrow> (g1, Inl e)
      | (g1, Inr _) \<Rightarrow> bsf_install mk i_factname i_instname g1)"

definition bsf_lookup :: "string \<Rightarrow> ('f, 'h) registry \<Rightarrow> 'h option res" where
  "bsf_lookup i_instname g = (case g_bsim g i_instname of None \<Rightarrow> Inl NotFoundError | Some h \<Rightarrow> Inr h)"

definition bsf_unmap :: "string \<Rightarrow> ('f, 'h) registry \<Rightarrow> ('f, 'h) registry \<times> unit res" where
  "bsf_unmap i_instname g =
     (if g_bsim g i_instname = None then (g, Inl NotFoundError)
      else (g\<lparr>g_bsim := (g_bsim g)(i_instname := None)\<rparr>, Inr ()))"

definition bsf_destroy :: "('f \<Rightarrow> unit res) \<Rightarrow> string \<Rightarrow> ('f, 'h) registry \<Rightarrow> unit res" where
  "bsf_destroy destroy i_name g = (case find_factory i_name g of Inl e \<Rightarrow> Inl e | Inr f \<Rightarrow> destroy f)"

text \<open>File system factories: the operation of the factory, or \<^verbatim>\<open>ValueError\<close>.\<close>

definition fsf_register_factory :: "string \<Rightarrow> 'f \<Rightarrow> (string \<Rightarrow> 'f option) \<Rightarrow> string \<Rightarrow> 'f option" where
  "fsf_register_factory i_name i_fsfp g_fsfm = g_fsfm(i_name \<mapsto> i_fsfp)"

definition fsf_mkfs :: "('f \<Rightarrow> 'h res) \<Rightarrow> string \<Rightarrow> (string \<Rightarrow> 'f option) \<Rightarrow> 'h res" where
  "fsf_mkfs mkfs i_name g_fsfm = (case g_fsfm i_name of None \<Rightarrow> Inl ValueError | Some f \<Rightarrow> mkfs f)"

definition fsf_mount :: "('f \<Rightarrow> 'h res) \<Rightarrow> string \<Rightarrow> (string \<Rightarrow> 'f option) \<Rightarrow> 'h res" where
  "fsf_mount mount i_name g_fsfm = (case g_fsfm i_name of None \<Rightarrow> Inl ValueError | Some f \<Rightarrow> mount f)"

subsection \<open>Threads\<close>

text \<open>
  The steps of several threads. A thread that has reserved a name is busy with it until it installs
  the instance or gives up; \<open>busy\<close> lists the names.
\<close>

datatype ('f, 'h) bsfop =
    BReserve string
  | BInstall "'f \<Rightarrow> 'h res" string string
  | BUnmap string
  | BRegister string 'f

fun bsf_step :: "('f, 'h) bsfop \<Rightarrow> ('f, 'h) registry \<times> string list \<Rightarrow> ('f, 'h) registry \<times> string list" where
  "bsf_step (BReserve n) (g, busy) =
     (case bsf_reserve n g of (g1, Inr _) \<Rightarrow> (g1, n # busy) | (g1, Inl _) \<Rightarrow> (g1, busy))"
| "bsf_step (BInstall mk fn n) (g, busy) =
     (if n \<in> set busy then (fst (bsf_install mk fn n g), remove1 n busy) else (g, busy))"
| "bsf_step (BUnmap n) (g, busy) = (fst (bsf_unmap n g), busy)"
| "bsf_step (BRegister fn f) (g, busy) = (register_factory fn f g, busy)"

subsection \<open>Properties\<close>

definition reg_inv :: "('f, 'h) registry \<times> string list \<Rightarrow> bool" where
  "reg_inv gb \<longleftrightarrow> distinct (snd gb) \<and> (\<forall>n. n \<in> set (snd gb) \<longleftrightarrow> g_bsim (fst gb) n = Some None)"

text \<open>A client closes only instances it has, never a name that is still being created.\<close>

fun closes_own :: "('f, 'h) bsfop \<Rightarrow> ('f, 'h) registry \<times> string list \<Rightarrow> bool" where
  "closes_own (BUnmap n) gb = (n \<notin> set (snd gb))"
| "closes_own _ gb = True"

fun bsf_run :: "('f, 'h) bsfop list \<Rightarrow> ('f, 'h) registry \<times> string list \<Rightarrow> (('f, 'h) registry \<times> string list) option" where
  "bsf_run [] gb = Some gb"
| "bsf_run (x # xs) gb = (if closes_own x gb then bsf_run xs (bsf_step x gb) else None)"

lemma reg_step: "reg_inv gb \<Longrightarrow> closes_own x gb \<Longrightarrow> reg_inv (bsf_step x gb)"
  by (cases gb; cases x)
     (auto simp: reg_inv_def bsf_reserve_def bsf_install_def bsf_unmap_def register_factory_def
       split: sum.splits prod.splits if_splits)

lemma reg_run: "reg_inv gb \<Longrightarrow> bsf_run xs gb = Some gb' \<Longrightarrow> reg_inv gb'"
proof (induction xs arbitrary: gb)
  case (Cons x xs)
  then show ?case using reg_step [of gb x] by (simp split: if_splits)
qed simp



text \<open>A created instance is found until it is unmapped, and a failed creation leaves the registry as it was.\<close>

lemma create_lookup:
  "bsf_create mk fn n g = (g', Inr h) \<Longrightarrow> bsf_lookup n g' = Inr (Some h) \<and> (\<forall>m. m \<noteq> n \<longrightarrow> bsf_lookup m g' = bsf_lookup m g)"
  by (auto simp: bsf_create_def bsf_reserve_def bsf_install_def bsf_lookup_def find_factory_def
      split: if_splits option.splits sum.splits)

lemma create_fails:
  "bsf_create mk fn n g = (g', Inl e) \<Longrightarrow> g' = g"
  by (auto simp: bsf_create_def bsf_reserve_def bsf_install_def find_factory_def
      split: if_splits option.splits sum.splits intro!: registry.equality)

end
