(* ===== verification/Spec2Isabelle.thy ===== *)
theory Spec2Isabelle
  imports FS_Store_Laws Path_Laws Root_Heads Persist VBS_Faults BDB_BlockStore BS_Factory
begin

text \<open>
  A verification library for utopfs, a file system that keeps its data as encrypted,
  content-addressed blocks in a block store.

  \<^bold>\<open>The program.\<close> A file is an inode block (\<^verbatim>\<open>FileNode\<close>) with inline data, direct references
  and a tree of indirect blocks below it; a reference is the digest of an encrypted block and
  its initialisation vector, so a block that changes gets a new reference, and so does every
  block above it, up to the root directory. Changes stay in memory as dirty nodes until a
  sync flushes the tree from the leaves up. The reference of the flushed root directory is
  encrypted and added to the graph of heads that the block store keeps; a mount asks that
  graph for the furthest head. The block store evicts blocks that no refresh cycle of a file
  system has named for long. Operations on paths walk from the root directory with a functor.
  Block stores are files of a directory, objects of the S3 service or a Berkeley DB database,
  or a virtual store that forwards every request to several child stores and copies what one
  of them misses from the others. All of them answer through completions; the synchronous
  operations wait for the completion. A registry of named instances connects them.

  \<^bold>\<open>Theories and sources\<close> (under \<^verbatim>\<open>src/\<close>):
  \<^item> \<open>Utp_Prelude\<close>: octets, exceptions, results, \<^verbatim>\<open>memcpy\<close> and \<^verbatim>\<open>memset\<close>.
  \<^item> \<open>Block_Ref\<close>: \<^verbatim>\<open>libutp/src/Digest.cpp\<close>, \<^verbatim>\<open>BlockCipher.cpp\<close>,
    \<^verbatim>\<open>modules/UTFileSystem/BlockRef.cpp\<close>. \<open>Base_Codec\<close>: \<^verbatim>\<open>libutp/src/Base32.cpp\<close>, \<^verbatim>\<open>Base64.cpp\<close>.
  \<^item> \<open>Node_Cache\<close>: \<^verbatim>\<open>BlockNodeCache.cpp\<close>, a map and a recency list with explicit positions.
  \<^item> \<open>Head_Graph\<close>: \<^verbatim>\<open>libutp/src/LameHeadNodeGraph.cpp\<close>.
  \<^item> \<open>FS_BlockStore\<close>, \<open>Store_Interface\<close>, \<open>FS_Store_Laws\<close>: \<^verbatim>\<open>modules/FSBlockStore/FSBlockStore.cpp\<close>,
    the interface of a block store as a locale, and the laws of the store.
  \<^item> \<open>Block_Tree\<close>: the context and the data, indirect, double and triple indirect nodes
    (\<^verbatim>\<open>DataBlockNode.cpp\<close>, \<^verbatim>\<open>IndirectBlockNode.cpp\<close>, \<^verbatim>\<open>DoubleIndBlockNode.cpp\<close>,
    \<^verbatim>\<open>TripleIndBlockNode.cpp\<close>). \<open>Tree_Content\<close>, \<open>Tree_Traverse\<close>, \<open>Tree_Truncate\<close>: the octets a
    tree holds, and what traversals and truncations do to them.
  \<^item> \<open>File_Node\<close>: \<^verbatim>\<open>FileNode.cpp\<close>. \<open>File_Content\<close>, \<open>File_Truncate\<close>, \<open>File_Ops\<close>: the octets of a
    file, and its operations against a plain sequence of octets.
  \<^item> \<open>Dir_Node\<close>: \<^verbatim>\<open>DirNode.cpp\<close>, \<^verbatim>\<open>RootDirNode.cpp\<close>, \<^verbatim>\<open>SpecialDirNode.cpp\<close>, \<^verbatim>\<open>SymlinkNode.cpp\<close>,
    \<^verbatim>\<open>SpecialFileNode.cpp\<close>. \<open>UT_FileSystem\<close>: \<^verbatim>\<open>UTFileSystem.cpp\<close>. \<open>Dir_Laws\<close>, \<open>Path_Laws\<close>: the names
    of a directory, and operations through paths.
  \<^item> \<open>Root_Heads\<close>: the root reference of a file system and the heads of its block store, with
    the interface between the two as the locale \<open>head_log\<close>. \<open>Persist\<close>: a file flushed to a block store and loaded
    back.
  \<^item> \<open>VBS_State\<close>, \<open>VBS_Requests\<close>, \<open>VBS_Furthest\<close>, \<open>V_BlockStore\<close>: \<^verbatim>\<open>modules/VBlockStore\<close>, the store and its
    children, the callbacks of its requests, the search for the furthest heads, the operations and steps.
    \<open>VBS_Invariant\<close>, \<open>VBS_Callbacks\<close>, \<open>VBS_Answers\<close>, \<open>VBS_Anneal\<close>, \<open>VBS_Survey\<close>: that every step keeps the
    invariant of requests, queues and calls in flight. \<open>VBS_Runs\<close>, \<open>VBS_Data\<close>: what it gives for
    the client. \<open>VBS_Faults\<close>: runs that go wrong.
  \<^item> \<open>S3_BlockStore\<close>, \<open>S3_Laws\<close>: \<^verbatim>\<open>modules/S3BlockStore\<close>. \<open>BDB_BlockStore\<close>: \<^verbatim>\<open>modules/BDBBlockStore\<close>.
  \<^item> \<open>BS_Sync\<close>: the synchronous operations of \<^verbatim>\<open>libutp/src/BlockStore.cpp\<close>, with the contract of a store
    that answers each request once as the locale \<open>reports_once\<close>. \<open>BS_Factory\<close>: \<^verbatim>\<open>BlockStoreFactory.cpp\<close> and
    \<^verbatim>\<open>FileSystemFactory.cpp\<close>.

  \<^bold>\<open>State.\<close> The node below an inode is a tree value (\<open>bnode\<close>); sharing between the cache of
  clean nodes and the tree is kept by the coherence invariant \<open>coh\<close>. Inodes are shared
  between directories and the cache, so they live in a heap (\<open>n_heap\<close>) and a handle is an
  index. The file system object is the record \<open>utfs\<close>; a block store is the record \<open>fsbs\<close> or, for
  the file system, any type with the operations of \<open>env\<close> and \<open>uenv\<close>. Each operation of the
  code that changes state returns the new state, also when it throws.

  \<^bold>\<open>Steps.\<close> The virtual store and the S3 store work in callbacks. A state of theirs holds the requests
  with their completions, the queues and the calls that are not answered; each call of a client, turn of
  a child's loop, answer of a child, piece of data and completion of the service is one step
  (\<open>vdo\<close>, \<open>s3_step\<close>), and a run is any sequence of steps that are enabled, so answers come in
  every order. A call that a callback makes to a child or to the client is recorded, and what
  they do with it is a later step. Requests of the virtual store live in a heap, and a call of one that was destroyed is an
  error of the step. In the registry a creation is two steps, since the lock is not held between them.

  \<^bold>\<open>Parameters.\<close> The hash, the block cipher, random octets, the clock, the user data base and
  the protobuf messages are functions in \<open>env\<close>, \<open>fenv\<close> and \<open>uenv\<close>; the operating system below
  \<^verbatim>\<open>FSBlockStore\<close> is the record \<open>os\<close>, by which every call may fail. The children of a virtual store answer as
  the interface of a block store lets them. The S3 service is given by the statuses and data it returns, Berkeley DB by
  the operations of a database (\<open>dbops\<close>) and their documented laws (\<open>bdb_laws\<close>).

  \<^bold>\<open>Bounds.\<close> Offsets and sizes of a file are natural numbers below the end of the triple
  indirect block, about 2 to the 38, so 64 bit arithmetic on them does not wrap; modes, link
  counts and refresh numbers are words. Loops over a structure are recursive functions with
  a measure. The loops of the head graph, and flush and refresh of directories, may not end,
  and are partial functions in which \<open>None\<close> is not returning.

  \<^bold>\<open>What is shown.\<close> Files: reads, writes and truncations act as on a sequence of octets, and
  where they do not. Paths: writing and reading back, making and unlinking files through a
  path change just the entry and the file named. Directories: the names are those created
  and not removed. Store: the quota, round trips, what a refresh keeps and a purge removes.
  Heads: the searches in the graph, and that a mount finds the root of the last sync. Cache:
  it implements a map. Codecs: round trips. Virtual store: each request is answered once, blocks
  reach the client and the children that miss them unchanged, no destroyed request is called
  with at most two children; and the runs in which a client waits forever or is told an error without cause. S3 store: each request is answered once after
  at most ten attempts, a block that was put is returned; a purged block is lost. Berkeley DB store: it
  implements a map. Synchronous operations: when they return. Registry: names in creation.

  \<^bold>\<open>Not modelled.\<close> Locks (each operation is one step, except where callbacks and creations
  interleave), logging and statistics, the thread pool and the registration of sockets and timers with the reactor, which decide only when a step
  happens; \<^verbatim>\<open>StreamCipher\<close>, which nothing uses; the bindings, the FUSE daemon and the command line, which
  pass their arguments on.
\<close>

end
